(* ===== verification/Prelude.thy ===== *)
theory Prelude
  imports Main "HOL-Library.Word"
begin

text \<open>
  Shared vocabulary of the development: the C integer types of \<^verbatim>\<open>types.h\<close> as words, the
  outcome of a kernel routine, byte addressed memory with little-endian 32-bit accesses, and the
  generic lemmas on these that the component theories use.
\<close>

unbundle bit_operations_syntax

section \<open>Integer types\<close>

type_synonym uchar = "8 word"
type_synonym ushort = "16 word"
type_synonym uint = "32 word"

section \<open>Outcomes of kernel routines\<close>

text \<open>
  A routine returns a value, calls \<^verbatim>\<open>panic\<close> with a message, runs into undefined behaviour such
  as a null pointer dereference (\<open>Fault\<close>), or goes to sleep waiting for another process
  (\<open>Blocked\<close>), in which case the sequential execution under study does not go on.
\<close>

datatype 'a res = Ok 'a | Panic string | Fault | Blocked

primrec andthen :: "'a res \<Rightarrow> ('a \<Rightarrow> 'b res) \<Rightarrow> 'b res" where
  "andthen (Ok x) f = f x"
| "andthen (Panic msg) f = Panic msg"
| "andthen Fault f = Fault"
| "andthen Blocked f = Blocked"

named_theorems res_simps \<open>equations and inversions for outcomes\<close>

lemma andthen_cong [fundef_cong]:
  "m = m' \<Longrightarrow> (\<And>x. m' = Ok x \<Longrightarrow> f x = f' x) \<Longrightarrow> andthen m f = andthen m' f'"
  by (cases m') auto

lemma andthen_Ok_iff [res_simps]: "andthen m f = Ok y \<longleftrightarrow> (\<exists>x. m = Ok x \<and> f x = Ok y)"
  by (cases m) auto

lemma andthen_Panic_iff [res_simps]:
  "andthen m f = Panic e \<longleftrightarrow> m = Panic e \<or> (\<exists>x. m = Ok x \<and> f x = Panic e)"
  by (cases m) auto

lemma andthen_assoc: "andthen (andthen m f) g = andthen m (\<lambda>x. andthen (f x) g)"
  by (cases m) auto

lemma andthen_Ok_right [simp]: "andthen m Ok = m"
  by (cases m) auto

section \<open>Byte addressed memory\<close>

type_synonym mem = "uint \<Rightarrow> uchar"

definition load32 :: "mem \<Rightarrow> uint \<Rightarrow> uint" where
  "load32 m a = ucast (m a) OR push_bit 8 (ucast (m (a + 1)))
     OR push_bit 16 (ucast (m (a + 2))) OR push_bit 24 (ucast (m (a + 3)))"

definition store32 :: "mem \<Rightarrow> uint \<Rightarrow> uint \<Rightarrow> mem" where
  "store32 m a w = m(a := ucast w, a + 1 := ucast (drop_bit 8 w),
     a + 2 := ucast (drop_bit 16 w), a + 3 := ucast (drop_bit 24 w))"

named_theorems mem_simps \<open>reading back memory after writes\<close>

lemma join_bytes:
  "ucast (ucast w :: uchar) OR push_bit 8 (ucast (ucast (drop_bit 8 w) :: uchar))
     OR push_bit 16 (ucast (ucast (drop_bit 16 w) :: uchar))
     OR push_bit 24 (ucast (ucast (drop_bit 24 w) :: uchar)) = (w :: uint)"
proof (rule bit_word_eqI)
  fix n :: nat
  assume n: "n < LENGTH(32)"
  consider "n < 8" | "8 \<le> n" "n < 16" | "16 \<le> n" "n < 24" | "24 \<le> n" "n < 32"
    using n by fastforce
  then show "bit (ucast (ucast w :: uchar) OR push_bit 8 (ucast (ucast (drop_bit 8 w) :: uchar))
     OR push_bit 16 (ucast (ucast (drop_bit 16 w) :: uchar))
     OR push_bit 24 (ucast (ucast (drop_bit 24 w) :: uchar)) :: uint) n = bit w n"
    by cases (auto simp: bit_or_iff bit_push_bit_iff bit_ucast_iff bit_drop_bit_eq)
qed

lemma load32_store32 [simp, mem_simps]: "load32 (store32 m a w) a = w"
  by (simp add: load32_def store32_def join_bytes)

text \<open>
  The \<open>n\<close> bytes from \<open>a\<close> on are the addresses \<open>x\<close> with \<open>x - a < n\<close> (modulo \<open>2\<^sup>3\<^sup>2\<close>).
\<close>

lemma store32_other [mem_simps]: "\<not> b - a < 4 \<Longrightarrow> store32 m a w b = m b"
  by (auto simp: store32_def word_less_nat_alt)

lemma load32_cong: "(\<And>x. x - a < 4 \<Longrightarrow> m x = m' x) \<Longrightarrow> load32 m a = load32 m' a"
  by (simp add: load32_def word_less_nat_alt)

lemma unat_pred: "y \<noteq> 0 \<Longrightarrow> unat (y - 1) = unat (y :: uint) - 1"
  by (simp add: unat_minus_one)

text \<open>Aligned word accesses either coincide or do not overlap.\<close>

definition aligned4 :: "uint \<Rightarrow> bool" where
  "aligned4 a \<longleftrightarrow> unat a mod 4 = 0"

lemma unat_uint_bound: "unat (a :: uint) < 2 ^ 32"
  by (rule order_less_le_trans [OF unsigned_less]) simp

lemma unat_of_nat_small: "k < 2 ^ 32 \<Longrightarrow> unat (of_nat k :: uint) = k"
  by (simp add: unsigned_of_nat take_bit_nat_eq_self)

lemma of_nat_uint_inj:
  assumes "of_nat a = (of_nat b :: uint)" "a < 2 ^ 32" "b < 2 ^ 32"
  shows "a = b"
proof -
  have "a = unat (of_nat a :: uint)" using assms(2) by (rule unat_of_nat_small [symmetric])
  also have "\<dots> = unat (of_nat b :: uint)" unfolding assms(1) ..
  also have "\<dots> = b" using assms(3) by (rule unat_of_nat_small)
  finally show ?thesis .
qed

lemma unat_plus_small:
  "unat a + unat b < 2 ^ 32 \<Longrightarrow> unat (a + b) = unat a + unat (b :: uint)"
  by (simp add: unat_word_ariths)

lemma unat_minus_small: "b \<le> a \<Longrightarrow> unat (a - b) = unat a - unat (b :: uint)"
  by (simp add: unat_sub word_le_nat_alt)

lemma aligned4_mult: "aligned4 a \<Longrightarrow> unat a = 4 * (unat a div 4)"
  by (simp add: aligned4_def mult_div_mod_eq [symmetric] mod_eq_0_iff_dvd)

lemma aligned4_room:
  assumes "aligned4 a"
  shows "unat a + 4 \<le> 2 ^ 32"
proof -
  have "4 * (unat a div 4) < 4 * 1073741824"
    using unsigned_less [of a] aligned4_mult [OF assms] by simp
  then have "unat a div 4 + 1 \<le> 1073741824" by linarith
  then have "4 * (unat a div 4 + 1) \<le> 4 * 1073741824" by (rule mult_le_mono2)
  then show ?thesis using aligned4_mult [OF assms] by simp
qed

lemma aligned4_near:
  assumes "aligned4 a" "aligned4 b" "x - a < 4" "x - b < 4"
  shows "a = b"
proof -
  have in_word: "unat x div 4 = unat c div 4" if c: "aligned4 c" "x - c < 4" for c
  proof -
    have le: "unat (x - c) < 4" using c(2) by (simp add: word_less_nat_alt)
    then have "unat ((x - c) + c) = unat (x - c) + unat c"
      using aligned4_room [OF c(1)] by (intro unat_plus_small) simp
    then have "unat x = unat (x - c) + unat c" by simp
    also have "\<dots> = unat (x - c) + 4 * (unat c div 4)" using aligned4_mult [OF c(1)] by simp
    finally show ?thesis using le by simp
  qed
  have "unat a div 4 = unat b div 4" using in_word assms by metis
  then have "unat a = unat b" using aligned4_mult assms(1,2) by metis
  then show ?thesis by (simp add: word_unat_eq_iff)
qed

lemma load32_store32_other [mem_simps]:
  assumes "aligned4 a" "aligned4 b" "a \<noteq> b"
  shows "load32 (store32 m a w) b = load32 m b"
proof (rule load32_cong)
  fix x assume "x - b < 4"
  then have "\<not> x - a < 4" using assms aligned4_near by blast
  then show "store32 m a w x = m x" by (rule store32_other)
qed

end
