(* ===== verification/Memlib.thy ===== *)
theory Memlib
  imports Prelude
begin

text \<open>
  The kernel's memory and string routines, \<^verbatim>\<open>string.c\<close>, with the string instructions of
  \<^verbatim>\<open>x86.h\<close> they use. Routines that write take and return the whole memory, so overlapping
  arguments behave as in C. A \<^verbatim>\<open>const char*\<close> that is only read is the function that gives the
  byte at each offset from the pointer.
\<close>

section \<open>Definitions\<close>

primrec stosb :: "mem \<Rightarrow> uint \<Rightarrow> uint \<Rightarrow> nat \<Rightarrow> mem" where
  "stosb m addr data 0 = m"
| "stosb m addr data (Suc cnt) = stosb (m(addr := ucast data)) (addr + 1) data cnt"

primrec stosl :: "mem \<Rightarrow> uint \<Rightarrow> uint \<Rightarrow> nat \<Rightarrow> mem" where
  "stosl m addr data 0 = m"
| "stosl m addr data (Suc cnt) = stosl (store32 m addr data) (addr + 4) data cnt"

definition splat :: "uint \<Rightarrow> uint" where
  "splat c = push_bit 24 c OR push_bit 16 c OR push_bit 8 c OR c"

definition memset :: "mem \<Rightarrow> uint \<Rightarrow> uint \<Rightarrow> uint \<Rightarrow> mem" where
  "memset m dst c n =
     (if unat dst mod 4 = 0 \<and> unat n mod 4 = 0
      then let c = c AND 0xFF
           in stosl m dst (splat c) (unat n div 4)
      else stosb m dst c (unat n))"

primrec memcmp :: "(nat \<Rightarrow> uchar) \<Rightarrow> (nat \<Rightarrow> uchar) \<Rightarrow> nat \<Rightarrow> int" where
  "memcmp s1 s2 0 = 0"
| "memcmp s1 s2 (Suc n) =
     (if s1 0 \<noteq> s2 0 then int (unat (s1 0)) - int (unat (s2 0))
      else memcmp (\<lambda>i. s1 (Suc i)) (\<lambda>i. s2 (Suc i)) n)"

primrec memmove_up :: "mem \<Rightarrow> uint \<Rightarrow> uint \<Rightarrow> nat \<Rightarrow> mem" where
  "memmove_up m d s 0 = m"
| "memmove_up m d s (Suc n) = memmove_up (m(d := m s)) (d + 1) (s + 1) n"

primrec memmove_down :: "mem \<Rightarrow> uint \<Rightarrow> uint \<Rightarrow> nat \<Rightarrow> mem" where
  "memmove_down m d s 0 = m"
| "memmove_down m d s (Suc n) = (let d = d - 1; s = s - 1 in memmove_down (m(d := m s)) d s n)"

definition memmove :: "mem \<Rightarrow> uint \<Rightarrow> uint \<Rightarrow> uint \<Rightarrow> mem" where
  "memmove m dst src n =
     (if src < dst \<and> src + n > dst
      then memmove_down m (dst + n) (src + n) (unat n)
      else memmove_up m dst src (unat n))"

definition memcpy :: "mem \<Rightarrow> uint \<Rightarrow> uint \<Rightarrow> uint \<Rightarrow> mem" where
  "memcpy m dst src n = memmove m dst src n"

primrec strncmp :: "(nat \<Rightarrow> uchar) \<Rightarrow> (nat \<Rightarrow> uchar) \<Rightarrow> nat \<Rightarrow> int" where
  "strncmp p q 0 = 0"
| "strncmp p q (Suc n) =
     (if p 0 \<noteq> 0 \<and> p 0 = q 0 then strncmp (\<lambda>i. p (Suc i)) (\<lambda>i. q (Suc i)) n
      else int (unat (p 0)) - int (unat (q 0)))"

primrec strncpy_fill :: "mem \<Rightarrow> uint \<Rightarrow> nat \<Rightarrow> mem" where
  "strncpy_fill m s 0 = m"
| "strncpy_fill m s (Suc n) = strncpy_fill (m(s := 0)) (s + 1) n"

primrec strncpy_copy :: "mem \<Rightarrow> uint \<Rightarrow> uint \<Rightarrow> nat \<Rightarrow> mem" where
  "strncpy_copy m s t 0 = m"
| "strncpy_copy m s t (Suc n) =
     (let m' = m(s := m t)
      in if m t \<noteq> 0 then strncpy_copy m' (s + 1) (t + 1) n else strncpy_fill m' (s + 1) n)"

definition strncpy :: "mem \<Rightarrow> uint \<Rightarrow> uint \<Rightarrow> int \<Rightarrow> mem" where
  "strncpy m s t n = strncpy_copy m s t (nat n)"

primrec safestrcpy_copy :: "mem \<Rightarrow> uint \<Rightarrow> uint \<Rightarrow> nat \<Rightarrow> mem" where
  "safestrcpy_copy m s t 0 = m(s := 0)"
| "safestrcpy_copy m s t (Suc n) =
     (let m' = m(s := m t)
      in if m t \<noteq> 0 then safestrcpy_copy m' (s + 1) (t + 1) n else m'(s + 1 := 0))"

definition safestrcpy :: "mem \<Rightarrow> uint \<Rightarrow> uint \<Rightarrow> int \<Rightarrow> mem" where
  "safestrcpy m s t n = (if n \<le> 0 then m else safestrcpy_copy m s t (nat (n - 1)))"

partial_function (option) strlen_from :: "(nat \<Rightarrow> uchar) \<Rightarrow> nat \<Rightarrow> nat option" where
  "strlen_from s n = (if s n = 0 then Some n else strlen_from s (Suc n))"

definition strlen :: "(nat \<Rightarrow> uchar) \<Rightarrow> nat option" where
  "strlen s = strlen_from s 0"

section \<open>Memory fill\<close>

lemma in_block_Suc:
  fixes x a :: uint
  shows "unat (x - a) < Suc k \<longleftrightarrow> x = a \<or> (x \<noteq> a \<and> unat (x - (a + 1)) < k)"
proof (cases "x = a")
  case False
  then have "x - a \<noteq> 0" by simp
  then have "unat (x - a - 1) = unat (x - a) - 1" "0 < unat (x - a)"
    by (simp_all add: unat_pred unat_gt_0)
  then show ?thesis using False by (auto simp: algebra_simps)
qed simp

lemma stosb_eq:
  "k < 2 ^ 32 \<Longrightarrow> stosb m a c k = (\<lambda>x. if unat (x - a) < k then ucast c else m x)"
proof (induction k arbitrary: m a)
  case (Suc k)
  then have "stosb m a c (Suc k) =
      (\<lambda>x. if unat (x - (a + 1)) < k then ucast c else (m(a := ucast c)) x)"
    by simp
  then show ?case using in_block_Suc by (auto simp: fun_eq_iff)
qed simp

lemma bit_0xFF: "bit (0xFF :: int) n \<longleftrightarrow> n < 8"
  using bit_mask_iff [where 'a = int, of 8 n] by (simp add: mask_eq_exp_minus_1)

lemma splat_bytes:
  "(ucast (splat (c AND 0xFF)) :: uchar) = ucast c"
  "(ucast (drop_bit 8 (splat (c AND 0xFF))) :: uchar) = ucast c"
  "(ucast (drop_bit 16 (splat (c AND 0xFF))) :: uchar) = ucast c"
  "(ucast (drop_bit 24 (splat (c AND 0xFF))) :: uchar) = ucast c"
  by (rule bit_word_eqI; auto simp: splat_def bit_ucast_iff bit_or_iff bit_and_iff
      bit_push_bit_iff bit_drop_bit_eq bit_0xFF)+

lemma in_word_iff: "unat (x - a) < 4 \<longleftrightarrow> x = a \<or> x = a + 1 \<or> x = a + 2 \<or> x = a + (3 :: uint)"
  using in_block_Suc [of x a 3] in_block_Suc [of x "a + 1" 2] in_block_Suc [of x "a + 2" 1]
    in_block_Suc [of x "a + 3" 0]
  by (auto simp: add.assoc)

lemma store32_splat:
  "store32 m a (splat (c AND 0xFF)) = (\<lambda>x. if unat (x - a) < 4 then ucast c else m x)"
  unfolding store32_def splat_bytes by (auto simp: fun_eq_iff in_word_iff)

lemma stosl_eq:
  assumes "4 * k < 2 ^ 32"
  shows "stosl m a (splat (c AND 0xFF)) k =
    (\<lambda>x. if unat (x - a) < 4 * k then ucast c else m x)"
  using assms
proof (induction k arbitrary: m a)
  case (Suc k)
  have step: "unat (x - a) < 4 \<or> unat (x - (a + 4)) < 4 * k \<longleftrightarrow> unat (x - a) < 4 * Suc k" for x
  proof (cases "unat (x - a) < 4")
    case False
    then have "4 \<le> x - a" by (simp add: word_le_nat_alt)
    then have "unat (x - a - 4) = unat (x - a) - 4" by (simp add: unat_minus_small)
    then show ?thesis using False by (auto simp: diff_diff_eq)
  qed simp
  have "stosl m a (splat (c AND 0xFF)) (Suc k) =
      (\<lambda>x. if unat (x - (a + 4)) < 4 * k then ucast c else store32 m a (splat (c AND 0xFF)) x)"
    using Suc by simp
  then show ?case unfolding store32_splat step [symmetric] by (auto simp: fun_eq_iff)
qed simp

lemma memset_eq: "memset m dst c n = (\<lambda>x. if x - dst < n then ucast c else m x)"
proof (cases "unat dst mod 4 = 0 \<and> unat n mod 4 = 0")
  case True
  then have "4 * (unat n div 4) = unat n" by (auto simp: mod_eq_0_iff_dvd)
  moreover have "unat n < 2 ^ 32" using unsigned_less [of n] by simp
  ultimately show ?thesis using True stosl_eq [of "unat n div 4" m dst c]
    by (simp add: memset_def word_less_nat_alt)
next
  case False
  have "unat n < 2 ^ 32" using unsigned_less [of n] by simp
  with False show ?thesis by (auto simp: memset_def stosb_eq word_less_nat_alt)
qed

section \<open>Memory copy\<close>

lemma memmove_up_eq:
  assumes "n < 2 ^ 32" "\<And>i j. j < i \<Longrightarrow> i < n \<Longrightarrow> d + of_nat j \<noteq> s + of_nat i"
  shows "memmove_up m d s n = (\<lambda>x. if unat (x - d) < n then m (s + (x - d)) else m x)"
  using assms
proof (induction n arbitrary: m d s)
  case (Suc n)
  have "d + 1 + of_nat j \<noteq> s + 1 + of_nat i" if "j < i" "i < n" for i j
    using Suc.prems(2) [of j i] that by (simp add: algebra_simps)
  with Suc have IH: "memmove_up (m(d := m s)) (d + 1) (s + 1) n =
      (\<lambda>x. if unat (x - (d + 1)) < n then (m(d := m s)) (s + 1 + (x - (d + 1))) else (m(d := m s)) x)"
    by simp
  have src: "s + (x - d) \<noteq> d" if "x \<noteq> d" "unat (x - d) < Suc n" for x
    using Suc.prems(2) [of 0 "unat (x - d)"] that by (auto simp: unat_gt_0)
  show ?case unfolding memmove_up.simps IH
    using src by (auto simp: fun_eq_iff in_block_Suc algebra_simps)
qed simp

lemma memmove_down_eq:
  assumes "n < 2 ^ 32" "\<And>i j. i < j \<Longrightarrow> j < n \<Longrightarrow> d + of_nat j \<noteq> s + of_nat i"
  shows "memmove_down m (d + of_nat n) (s + of_nat n) n =
    (\<lambda>x. if unat (x - d) < n then m (s + (x - d)) else m x)"
  using assms
proof (induction n arbitrary: m)
  case (Suc n)
  let ?m = "m(d + of_nat n := m (s + of_nat n))"
  have "memmove_down m (d + of_nat (Suc n)) (s + of_nat (Suc n)) (Suc n) =
      memmove_down ?m (d + of_nat n) (s + of_nat n) n"
    by (simp add: Let_def)
  also have "\<dots> = (\<lambda>x. if unat (x - d) < n then ?m (s + (x - d)) else ?m x)"
    using Suc by simp
  also have "\<dots> = (\<lambda>x. if unat (x - d) < Suc n then m (s + (x - d)) else m x)"
  proof
    fix x
    have src: "s + (x - d) \<noteq> d + of_nat n" if "unat (x - d) < n"
      using Suc.prems(2) [of "unat (x - d)" n] that by auto
    have last: "x = d + of_nat n \<longleftrightarrow> unat (x - d) = n"
    proof -
      have "x = d + of_nat n \<longleftrightarrow> x - d = of_nat n" by (auto simp: algebra_simps)
      also have "\<dots> \<longleftrightarrow> unat (x - d) = n"
        using Suc.prems(1) by (simp add: word_unat_eq_iff unat_of_nat take_bit_nat_eq_self)
      finally show ?thesis .
    qed
    show "(if unat (x - d) < n then ?m (s + (x - d)) else ?m x) =
        (if unat (x - d) < Suc n then m (s + (x - d)) else m x)"
      using src last by (auto simp: less_Suc_eq)
  qed
  finally show ?case .
qed simp

lemma unat_plus_of_nat:
  "unat (a :: uint) + k < 2 ^ 32 \<Longrightarrow> unat (a + of_nat k) = unat a + k"
  by (simp add: unat_word_ariths unat_of_nat)

lemma memmove_eq:
  assumes src: "unat src + unat n < 2 ^ 32" and dst: "unat dst + unat n < 2 ^ 32"
  shows "memmove m dst src n = (\<lambda>x. if x - dst < n then m (src + (x - dst)) else m x)"
proof -
  have n: "unat n < 2 ^ 32" using src by simp
  have off: "unat (dst + of_nat i) = unat dst + i" "unat (src + of_nat i) = unat src + i"
    if "i < unat n" for i
    using that src dst by (simp_all add: unat_plus_of_nat)
  have room: "unat (src + n) = unat src + unat n" using src by (rule unat_plus_small)
  show ?thesis
  proof (cases "src < dst \<and> src + n > dst")
    case True
    then have lt: "unat src < unat dst" by (simp add: word_less_nat_alt)
    have "dst + of_nat j \<noteq> src + of_nat i" if "i < j" "j < unat n" for i j
    proof
      assume "dst + of_nat j = src + of_nat i"
      then have "unat dst + j = unat src + i" using off [of i] off [of j] that by simp
      then show False using lt that by simp
    qed
    then show ?thesis using True memmove_down_eq [OF n, of dst src m]
      by (simp add: memmove_def word_less_nat_alt)
  next
    case False
    then have apart: "unat dst \<le> unat src \<or> unat src + unat n \<le> unat dst"
      using room by (auto simp: word_less_nat_alt)
    have "dst + of_nat j \<noteq> src + of_nat i" if "j < i" "i < unat n" for i j
    proof
      assume "dst + of_nat j = src + of_nat i"
      then have "unat dst + j = unat src + i" using off [of i] off [of j] that by simp
      then show False using apart that by auto
    qed
    then show ?thesis using False memmove_up_eq [OF n, of dst src m]
      by (auto simp: memmove_def word_less_nat_alt)
  qed
qed

text \<open>\<^verbatim>\<open>memmove\<close> copies the \<open>n\<close> source bytes as they were before the call to the destination
  and changes nothing else, for every overlap of the two ranges, as long as neither range runs
  past the end of the address space.\<close>

theorem memmove_correct:
  assumes src: "unat src + unat n < 2 ^ 32" and dst: "unat dst + unat n < 2 ^ 32"
  shows "memmove m dst src n = (\<lambda>x. if x - dst < n then m (src + (x - dst)) else m x)"
  using assms by (rule memmove_eq)

theorem memmove_correct_witness:
  "memmove ((\<lambda>_. 0)(100 := 1, 101 := 2, 102 := 3)) 101 100 3 =
    (\<lambda>x. if x - 101 < 3 then ((\<lambda>_. 0)(100 := 1, 101 := 2, 102 := 3)) (100 + (x - 101))
         else ((\<lambda>_. 0)(100 := 1, 101 := 2, 102 := 3)) x)"
  by (rule memmove_correct) simp_all

section \<open>Strings\<close>

text \<open>The characters before the first NUL within \<open>n\<close> bytes.\<close>

definition cstrn :: "(nat \<Rightarrow> uchar) \<Rightarrow> nat \<Rightarrow> uchar list" where
  "cstrn p n = takeWhile (\<lambda>c. c \<noteq> 0) (map p [0..<n])"

lemma cstrn_0 [simp]: "cstrn p 0 = []"
  by (simp add: cstrn_def)

lemma cstrn_Suc: "cstrn p (Suc n) = (if p 0 = 0 then [] else p 0 # cstrn (\<lambda>i. p (Suc i)) n)"
proof -
  have "map p [0..<Suc n] = p 0 # map (\<lambda>i. p (Suc i)) [0..<n]"
    by (simp add: map_upt_Suc del: upt_Suc)
  then show ?thesis by (simp add: cstrn_def del: upt_Suc)
qed

lemma strncmp_eq_0: "strncmp p q n = 0 \<longleftrightarrow> cstrn p n = cstrn q n"
proof (induction n arbitrary: p q)
  case (Suc n)
  then show ?case by (auto simp: cstrn_Suc word_uint_eq_iff)
qed simp

lemma memcmp_eq_0: "memcmp p q n = 0 \<longleftrightarrow> (\<forall>i<n. p i = q i)"
proof (induction n arbitrary: p q)
  case (Suc n)
  then show ?case by (auto simp: All_less_Suc2 word_uint_eq_iff)
qed simp

text \<open>The bytes behind a pointer into memory.\<close>

definition bytes_at :: "mem \<Rightarrow> uint \<Rightarrow> nat \<Rightarrow> uchar" where
  "bytes_at m p i = m (p + of_nat i)"

lemma bytes_at_0 [simp]: "bytes_at m p 0 = m p"
  by (simp add: bytes_at_def)

lemma bytes_at_Suc: "(\<lambda>i. bytes_at m p (Suc i)) = bytes_at m (p + 1)"
  by (simp add: bytes_at_def fun_eq_iff algebra_simps)

lemma cstrn_cong: "(\<And>i. i < n \<Longrightarrow> p i = q i) \<Longrightarrow> cstrn p n = cstrn q n"
  unfolding cstrn_def by (rule arg_cong [where f = "takeWhile _"]) simp

lemma block_tail_Suc: "Suc k < unat (x - s) \<Longrightarrow> x \<noteq> s \<and> k < unat (x - (s + 1))" for x s :: uint
  using in_block_Suc [of x s "Suc k"] by auto

lemma behind_block: "k + 1 < 2 ^ 32 \<Longrightarrow> k < unat (s - (s + 1))" for s :: uint
  by (simp add: unsigned_minus_1_eq_mask mask_eq_exp_minus_1)

lemma safestrcpy_copy_frame:
  "k < unat (x - s) \<Longrightarrow> safestrcpy_copy m s t k x = m x"
proof (induction k arbitrary: m s t)
  case (Suc k)
  note outside = block_tail_Suc [OF Suc.prems]
  have "x \<noteq> s + 1" using outside by auto
  then show ?case using Suc.IH [of "s + 1"] outside by (simp add: Let_def)
qed auto

lemma safestrcpy_copy_string:
  assumes "k + 1 < 2 ^ 32" "\<And>i j. i \<le> k \<Longrightarrow> j \<le> k \<Longrightarrow> s + of_nat i \<noteq> t + of_nat j"
  shows "cstrn (bytes_at (safestrcpy_copy m s t k) s) (Suc k) = cstrn (bytes_at m t) k"
  using assms
proof (induction k arbitrary: m s t)
  case 0
  then show ?case by (simp add: cstrn_Suc)
next
  case (Suc k)
  let ?m = "m(s := m t)"
  have apart: "s + 1 + of_nat i \<noteq> t + 1 + of_nat j" if "i \<le> k" "j \<le> k" for i j
    using Suc.prems(2) [of i j] that by (simp add: algebra_simps)
  have src: "bytes_at ?m (t + 1) i = bytes_at m (t + 1) i" if "i < k" for i
    using Suc.prems(2) [of 0 "Suc i"] that by (auto simp: bytes_at_def algebra_simps)
  show ?case
  proof (cases "m t = 0")
    case True
    then show ?thesis by (simp add: Let_def cstrn_Suc)
  next
    case False
    let ?r = "safestrcpy_copy ?m (s + 1) (t + 1) k"
    have "?r s = ?m s"
      using Suc.prems(1) by (intro safestrcpy_copy_frame behind_block) simp
    moreover have "cstrn (bytes_at ?r (s + 1)) (Suc k) = cstrn (bytes_at ?m (t + 1)) k"
      using Suc.IH [OF _ apart] Suc.prems(1) by simp
    moreover have "\<dots> = cstrn (bytes_at m (t + 1)) k"
      using src by (rule cstrn_cong)
    ultimately show ?thesis
      using False by (simp add: Let_def cstrn_Suc [of _ "Suc k"] cstrn_Suc [of "bytes_at m t"] bytes_at_Suc)
  qed
qed

text \<open>\<^verbatim>\<open>safestrcpy\<close> writes only the \<open>n\<close> bytes of its destination and leaves there a
  NUL-terminated string: the source string cut to \<open>n - 1\<close> characters.\<close>

theorem safestrcpy_correct:
  assumes n: "0 < n" "n < 2 ^ 32"
    and apart: "\<And>i j. i < nat n \<Longrightarrow> j < nat n \<Longrightarrow> s + of_nat i \<noteq> t + of_nat j"
  shows "(\<forall>x. nat n \<le> unat (x - s) \<longrightarrow> safestrcpy m s t n x = m x) \<and>
    cstrn (bytes_at (safestrcpy m s t n) s) (nat n) = cstrn (bytes_at m t) (nat (n - 1))"
proof -
  obtain k where k: "nat n = Suc k" "nat (n - 1) = k" "k + 1 < 2 ^ 32"
    using n by (cases "nat n") auto
  have run: "safestrcpy m s t n = safestrcpy_copy m s t k"
    using n k by (simp add: safestrcpy_def)
  have "safestrcpy_copy m s t k x = m x" if "nat n \<le> unat (x - s)" for x
    using that k by (intro safestrcpy_copy_frame) simp
  moreover have "cstrn (bytes_at (safestrcpy_copy m s t k) s) (Suc k) = cstrn (bytes_at m t) k"
    using k apart by (intro safestrcpy_copy_string) auto
  ultimately show ?thesis by (simp only: run k) blast
qed

theorem safestrcpy_correct_witness:
  "cstrn (bytes_at (safestrcpy ((\<lambda>_. 0)(8 := 97, 9 := 98, 10 := 99)) 0 8 3) 0) 3 = [97, 98]"
proof -
  have "(0::uint) + of_nat i \<noteq> 8 + of_nat j" if "i < nat 3" "j < nat 3" for i j
  proof -
    have "i = 0 \<or> i = 1 \<or> i = 2" "j = 0 \<or> j = 1 \<or> j = 2" using that by auto
    then show ?thesis by auto
  qed
  note app = safestrcpy_correct [of 3 0 8 "(\<lambda>_. 0)(8 := 97, 9 := 98, 10 := 99)", OF _ _ this]
  then have "cstrn (bytes_at (safestrcpy ((\<lambda>_. 0)(8 := 97, 9 := 98, 10 := 99)) 0 8 3) 0) 3 =
      cstrn (bytes_at ((\<lambda>_. 0)(8 := 97, 9 := 98, 10 := 99)) 8) 2"
    by simp
  also have "\<dots> = [97, 98]" by (simp add: cstrn_def bytes_at_def upt_rec)
  finally show ?thesis .
qed

lemma strncpy_fill_eq:
  "n < 2 ^ 32 \<Longrightarrow> strncpy_fill m s n = (\<lambda>x. if unat (x - s) < n then 0 else m x)"
proof (induction n arbitrary: m s)
  case (Suc n)
  then show ?case using in_block_Suc by (auto simp: fun_eq_iff)
qed simp

lemma strncpy_copy_frame:
  "n < 2 ^ 32 \<Longrightarrow> n \<le> unat (x - s) \<Longrightarrow> strncpy_copy m s t n x = m x"
proof (induction n arbitrary: m s t)
  case (Suc n)
  then have out: "x \<noteq> s" "n \<le> unat (x - (s + 1))" using in_block_Suc [of x s n] by auto
  show ?case using Suc.IH [of "s + 1"] Suc.prems(1) out
    by (auto simp: Let_def strncpy_fill_eq)
qed simp

text \<open>What \<^verbatim>\<open>strncpy\<close> leaves in the destination field: the string, padded with NULs.\<close>

definition padded :: "nat \<Rightarrow> uchar list \<Rightarrow> uchar list" where
  "padded n cs = take n cs @ replicate (n - length cs) 0"

lemma strncpy_copy_field:
  assumes "n < 2 ^ 32" "\<And>i j. i < n \<Longrightarrow> j < n \<Longrightarrow> s + of_nat i \<noteq> t + of_nat j"
  shows "map (bytes_at (strncpy_copy m s t n) s) [0..<n] = padded n (cstrn (bytes_at m t) n)"
  using assms
proof (induction n arbitrary: m s t)
  case 0
  then show ?case by (simp add: padded_def)
next
  case (Suc n)
  let ?m = "m(s := m t)"
  have split: "map p [0..<Suc n] = p 0 # map (\<lambda>i. p (Suc i)) [0..<n]" for p :: "nat \<Rightarrow> uchar"
    by (simp add: map_upt_Suc del: upt_Suc)
  have apart: "s + 1 + of_nat i \<noteq> t + 1 + of_nat j" if "i < n" "j < n" for i j
    using Suc.prems(2) [of i j] that by (simp add: algebra_simps)
  have src: "bytes_at ?m (t + 1) i = bytes_at m (t + 1) i" if "i < n" for i
    using Suc.prems(2) [of 0 "Suc i"] that by (auto simp: bytes_at_def algebra_simps)
  have behind: "n \<le> unat (s - (s + 1))" using Suc.prems(1) by (intro less_imp_le behind_block) simp
  show ?case
  proof (cases "m t = 0")
    case True
    have "bytes_at (strncpy_fill ?m (s + 1) n) (s + 1) i = 0" if "i < n" for i
      using that Suc.prems(1) by (simp add: strncpy_fill_eq bytes_at_def unat_of_nat take_bit_nat_eq_self)
    then have "map (bytes_at (strncpy_fill ?m (s + 1) n) (s + 1)) [0..<n] = replicate n 0"
      by (intro nth_equalityI) auto
    with True show ?thesis using Suc.prems(1) behind
      by (simp add: split bytes_at_Suc Let_def cstrn_Suc padded_def strncpy_fill_eq del: upt_Suc)
  next
    case False
    let ?r = "strncpy_copy ?m (s + 1) (t + 1) n"
    have "?r s = ?m s" using Suc.prems(1) behind by (intro strncpy_copy_frame) auto
    moreover have "map (bytes_at ?r (s + 1)) [0..<n] = padded n (cstrn (bytes_at ?m (t + 1)) n)"
      using Suc.IH [OF _ apart] Suc.prems(1) by simp
    moreover have "cstrn (bytes_at ?m (t + 1)) n = cstrn (bytes_at m (t + 1)) n"
      using src by (rule cstrn_cong)
    ultimately show ?thesis using False
      by (simp add: split bytes_at_Suc Let_def cstrn_Suc padded_def del: upt_Suc)
  qed
qed

lemma strlen_from_SomeI: "(\<And>i. n \<le> i \<Longrightarrow> i < k \<Longrightarrow> s i \<noteq> 0) \<Longrightarrow> n \<le> k \<Longrightarrow> s k = 0 \<Longrightarrow> strlen_from s n = Some k"
proof (induction "k - n" arbitrary: n)
  case 0
  then show ?case by (simp add: strlen_from.simps)
next
  case (Suc d)
  then have "s n \<noteq> 0" "strlen_from s (Suc n) = Some k" by auto
  then show ?case by (simp add: strlen_from.simps [of s n])
qed

lemma strlen_LEAST:
  assumes "s k = 0"
  shows "strlen s = Some (LEAST k. s k = 0)"
  unfolding strlen_def
  using assms by (intro strlen_from_SomeI) (auto intro: LeastI dest: not_less_Least)

end
