(* ===== verification/Spinlock.thy ===== *)
theory Spinlock
  imports Prelude
begin

text \<open>
  Spin locks (\<^verbatim>\<open>spinlock.c\<close>) and the routines of \<^verbatim>\<open>proc.c\<close> that tell which processor is running.
  Several processors run the routines at once; what one of them does between two accesses to the
  shared word \<^verbatim>\<open>locked\<close> is one step. The other theories treat a critical section as one step, which the
  mutual exclusion shown here justifies.
\<close>

section \<open>The processors and the locks\<close>

text \<open>The part of \<^verbatim>\<open>struct cpu\<close> these routines use, and \<^verbatim>\<open>struct spinlock\<close> without its name.\<close>

record cpu =
  cpu_apicid :: uchar
  cpu_ncli :: int
  cpu_intena :: bool

record spinlock =
  sl_locked :: uint
  sl_cpu :: "nat option"
  sl_pcs :: "uint list"

text \<open>
  The table \<^verbatim>\<open>cpus\<close> with its \<^verbatim>\<open>ncpu\<close> entries, the locks, the memory, and of each processor its interrupt
  flag \<^verbatim>\<open>FL_IF\<close> and the register its local interrupt controller identifies it with.
\<close>

record smp =
  cpus :: "cpu list"
  locks :: "nat \<Rightarrow> spinlock"
  smp_mem :: mem
  iflag :: "nat \<Rightarrow> bool"
  lapicid :: "nat \<Rightarrow> uchar"

definition set_cpu :: "smp \<Rightarrow> nat \<Rightarrow> (cpu \<Rightarrow> cpu) \<Rightarrow> smp" where
  "set_cpu s i f = s\<lparr>cpus := (cpus s)[i := f (cpus s ! i)]\<rparr>"

definition set_lock :: "smp \<Rightarrow> nat \<Rightarrow> (spinlock \<Rightarrow> spinlock) \<Rightarrow> smp" where
  "set_lock s l f = s\<lparr>locks := (locks s)(l := f (locks s l))\<rparr>"

definition set_if :: "smp \<Rightarrow> nat \<Rightarrow> bool \<Rightarrow> smp" where
  "set_if s c b = s\<lparr>iflag := (iflag s)(c := b)\<rparr>"

section \<open>The routines, as processor \<open>c\<close> runs them\<close>

definition mycpu :: "smp \<Rightarrow> nat \<Rightarrow> nat res" where
  "mycpu s c =
     (if iflag s c then Panic ''mycpu called with interrupts enabled\<newline>''
      else case find (\<lambda>i. cpu_apicid (cpus s ! i) = lapicid s c) [0..<length (cpus s)] of
          Some i \<Rightarrow> Ok i
        | None \<Rightarrow> Panic ''unknown apicid\<newline>'')"

definition pushcli :: "smp \<Rightarrow> nat \<Rightarrow> smp res" where
  "pushcli s c =
     (let eflags = iflag s c; s = set_if s c False in
      andthen (mycpu s c) (\<lambda>i.
        let s = (if cpu_ncli (cpus s ! i) = 0 then set_cpu s i (\<lambda>x. x\<lparr>cpu_intena := eflags\<rparr>) else s)
        in Ok (set_cpu s i (\<lambda>x. x\<lparr>cpu_ncli := cpu_ncli x + 1\<rparr>))))"

definition popcli :: "smp \<Rightarrow> nat \<Rightarrow> smp res" where
  "popcli s c =
     (if iflag s c then Panic ''popcli - interruptible''
      else andthen (mycpu s c) (\<lambda>i.
        let s = set_cpu s i (\<lambda>x. x\<lparr>cpu_ncli := cpu_ncli x - 1\<rparr>) in
        if cpu_ncli (cpus s ! i) < 0 then Panic ''popcli''
        else if cpu_ncli (cpus s ! i) = 0 \<and> cpu_intena (cpus s ! i) then Ok (set_if s c True)
        else Ok s))"

definition initlock :: spinlock where
  "initlock = \<lparr>sl_locked = 0, sl_cpu = None, sl_pcs = replicate 10 0\<rparr>"

definition holding :: "smp \<Rightarrow> nat \<Rightarrow> nat \<Rightarrow> (bool \<times> smp) res" where
  "holding s c l = andthen (pushcli s c) (\<lambda>s. andthen (mycpu s c) (\<lambda>i.
     let r = (sl_locked (locks s l) \<noteq> 0 \<and> sl_cpu (locks s l) = Some i) in
     andthen (popcli s c) (\<lambda>s. Ok (r, s))))"

text \<open>The saved program counters of the chain of stack frames at \<open>ebp\<close>, \<open>k\<close> more of them.\<close>

primrec getcallerpcs_loop :: "nat \<Rightarrow> mem \<Rightarrow> uint \<Rightarrow> uint list" where
  "getcallerpcs_loop 0 m ebp = []"
| "getcallerpcs_loop (Suc k) m ebp =
     (if ebp = 0 \<or> ebp < 0x80000000 \<or> ebp = 0xffffffff then replicate (Suc k) 0
      else load32 m (ebp + 4) # getcallerpcs_loop k m (load32 m ebp))"

definition getcallerpcs :: "mem \<Rightarrow> uint \<Rightarrow> uint list" where
  "getcallerpcs m v = getcallerpcs_loop 10 m (v - 8)"

text \<open>\<^verbatim>\<open>acquire\<close>: up to the loop, one turn of the loop (the value is what \<^verbatim>\<open>xchg\<close> returns), and the rest;
  \<open>v\<close> is the address of the argument on the stack.\<close>

definition acquire_enter :: "smp \<Rightarrow> nat \<Rightarrow> nat \<Rightarrow> smp res" where
  "acquire_enter s c l = andthen (pushcli s c) (\<lambda>s. andthen (holding s c l)
     (\<lambda>(r, s). if r then Panic ''acquire'' else Ok s))"

definition acquire_xchg :: "smp \<Rightarrow> nat \<Rightarrow> uint \<times> smp" where
  "acquire_xchg s l = (sl_locked (locks s l), set_lock s l (\<lambda>x. x\<lparr>sl_locked := 1\<rparr>))"

definition acquire_done :: "smp \<Rightarrow> nat \<Rightarrow> nat \<Rightarrow> uint \<Rightarrow> smp res" where
  "acquire_done s c l v = andthen (mycpu s c) (\<lambda>i.
     Ok (set_lock s l (\<lambda>x. x\<lparr>sl_cpu := Some i, sl_pcs := getcallerpcs (smp_mem s) v\<rparr>)))"

text \<open>\<^verbatim>\<open>release\<close>: up to the store to \<^verbatim>\<open>locked\<close>, and from it on.\<close>

definition release_enter :: "smp \<Rightarrow> nat \<Rightarrow> nat \<Rightarrow> smp res" where
  "release_enter s c l = andthen (holding s c l) (\<lambda>(r, s).
     if \<not> r then Panic ''release''
     else Ok (set_lock s l (\<lambda>x. x\<lparr>sl_pcs := (sl_pcs x)[0 := 0], sl_cpu := None\<rparr>)))"

definition release_exit :: "smp \<Rightarrow> nat \<Rightarrow> nat \<Rightarrow> smp res" where
  "release_exit s c l = popcli (set_lock s l (\<lambda>x. x\<lparr>sl_locked := 0\<rparr>)) c"

section \<open>One processor\<close>

lemma set_frame [simp]:
  "locks (set_cpu s i f) = locks s" "iflag (set_cpu s i f) = iflag s" "lapicid (set_cpu s i f) = lapicid s"
  "cpus (set_lock s l g) = cpus s" "iflag (set_lock s l g) = iflag s" "lapicid (set_lock s l g) = lapicid s"
  "cpus (set_if s c b) = cpus s" "locks (set_if s c b) = locks s" "lapicid (set_if s c b) = lapicid s"
  "iflag (set_if s c b) = (iflag s)(c := b)" "locks (set_lock s l g) = (locks s)(l := g (locks s l))"
  "cpus (set_cpu s i f) = (cpus s)[i := f (cpus s ! i)]"
  by (simp_all add: set_cpu_def set_lock_def set_if_def)

text \<open>Every processor finds its own entry in the table.\<close>

definition wired :: "smp \<Rightarrow> bool" where
  "wired s \<longleftrightarrow> (\<forall>c<length (cpus s). cpu_apicid (cpus s ! c) = lapicid s c) \<and>
     distinct (map cpu_apicid (cpus s))"

lemma mycpu_self:
  assumes "wired s" "c < length (cpus s)" "\<not> iflag s c"
  shows "mycpu s c = Ok c"
proof -
  have "find (\<lambda>i. cpu_apicid (cpus s ! i) = lapicid s c) [0..<length (cpus s)] = Some c"
    using assms(1,2) unfolding wired_def find_Some_iff
    by (intro exI [of _ c]) (auto simp: distinct_conv_nth)
  then show ?thesis using assms(3) by (simp add: mycpu_def)
qed

lemma wired_set [simp]:
  "wired (set_lock s l g) = wired s" "wired (set_if s c b) = wired s"
  by (simp_all add: wired_def)

lemma nth_list_update_if: "xs[i := y] ! j = (if i = j \<and> j < length xs then y else xs ! j)"
  by (cases "i < length xs") (auto simp: nth_list_update list_update_beyond)

lemma wired_set_cpu:
  assumes "wired s" "\<And>x. cpu_apicid (f x) = cpu_apicid x"
  shows "wired (set_cpu s i f)"
proof -
  have "map cpu_apicid ((cpus s)[i := f (cpus s ! i)]) = map cpu_apicid (cpus s)"
    using assms(2) by (intro nth_equalityI) (auto simp: nth_list_update_if)
  then show ?thesis using assms by (auto simp: wired_def nth_list_update_if)
qed

definition pushed :: "smp \<Rightarrow> nat \<Rightarrow> smp" where
  "pushed s c = set_cpu (set_if s c False) c (\<lambda>x. x\<lparr>
     cpu_intena := if cpu_ncli x = 0 then iflag s c else cpu_intena x, cpu_ncli := cpu_ncli x + 1\<rparr>)"

definition popped :: "smp \<Rightarrow> nat \<Rightarrow> smp" where
  "popped s c = (let x = cpus s ! c; s' = set_cpu s c (\<lambda>x. x\<lparr>cpu_ncli := cpu_ncli x - 1\<rparr>) in
     if cpu_ncli x = 1 \<and> cpu_intena x then set_if s' c True else s')"

lemma pushcli_spec:
  assumes "wired s" "c < length (cpus s)"
  shows "pushcli s c = Ok (pushed s c)"
proof -
  have "mycpu (set_if s c False) c = Ok c" using assms by (intro mycpu_self) auto
  then show ?thesis using assms(2) by (simp add: pushcli_def pushed_def Let_def set_cpu_def)
qed

lemma popcli_spec:
  assumes "wired s" "c < length (cpus s)" "\<not> iflag s c" "0 < cpu_ncli (cpus s ! c)"
  shows "popcli s c = Ok (popped s c)"
  using assms mycpu_self [OF assms(1-3)] by (auto simp: popcli_def popped_def Let_def)

lemma pushed_frame [simp]:
  "locks (pushed s c) = locks s" "length (cpus (pushed s c)) = length (cpus s)"
  "iflag (pushed s c) = (iflag s)(c := False)" "wired s \<Longrightarrow> wired (pushed s c)"
  "c < length (cpus s) \<Longrightarrow> cpu_ncli (cpus (pushed s c) ! d) = cpu_ncli (cpus s ! d) + (if d = c then 1 else 0)"
  by (auto simp: pushed_def nth_list_update_if intro!: wired_set_cpu)

lemma popped_frame [simp]:
  "locks (popped s c) = locks s" "length (cpus (popped s c)) = length (cpus s)"
  "iflag (popped s c) = (iflag s)(c := iflag s c \<or> cpu_ncli (cpus s ! c) = 1 \<and> cpu_intena (cpus s ! c))"
  "wired s \<Longrightarrow> wired (popped s c)"
  "c < length (cpus s) \<Longrightarrow> cpu_ncli (cpus (popped s c) ! d) = cpu_ncli (cpus s ! d) - (if d = c then 1 else 0)"
  by (auto simp: popped_def Let_def nth_list_update_if intro!: wired_set_cpu)

text \<open>\<^verbatim>\<open>pushcli\<close> and \<^verbatim>\<open>popcli\<close> are matched.\<close>

lemma popped_pushed:
  assumes "c < length (cpus s)" "0 \<le> cpu_ncli (cpus s ! c)" "0 < cpu_ncli (cpus s ! c) \<longrightarrow> \<not> iflag s c"
  shows "iflag (popped (pushed s c) c) = iflag s" "0 < cpu_ncli (cpus s ! c) \<Longrightarrow> popped (pushed s c) c = s"
  using assms by (auto simp: fun_eq_iff popped_def pushed_def Let_def set_cpu_def set_if_def fun_upd_idem)

lemma holding_spec:
  assumes "wired s" "c < length (cpus s)" "\<not> iflag s c" "0 < cpu_ncli (cpus s ! c)"
  shows "holding s c l = Ok (sl_locked (locks s l) \<noteq> 0 \<and> sl_cpu (locks s l) = Some c, s)"
proof -
  have "mycpu (pushed s c) c = Ok c" "popcli (pushed s c) c = Ok (popped (pushed s c) c)"
    using assms by (auto intro!: mycpu_self popcli_spec)
  then show ?thesis using assms popped_pushed(2) by (simp add: holding_def pushcli_spec)
qed

section \<open>All processors\<close>

text \<open>
  What a processor is doing: code of its own, waiting in the loop of \<^verbatim>\<open>acquire\<close>, about to record itself
  after its \<^verbatim>\<open>xchg\<close> returned \<open>0\<close>, or about to store \<open>0\<close> in \<^verbatim>\<open>release\<close>; and the locks it has.
\<close>

datatype phase = Running | Spinning nat | Taking nat | Dropping nat

record spin_sys =
  sp :: smp
  phase :: "nat \<Rightarrow> phase"
  holds :: "nat \<Rightarrow> nat list"

inductive spin_step :: "spin_sys \<Rightarrow> spin_sys \<Rightarrow> bool" where
  enter: "c < length (cpus (sp x)) \<Longrightarrow> phase x c = Running \<Longrightarrow> acquire_enter (sp x) c l = Ok s \<Longrightarrow>
    spin_step x (x\<lparr>sp := s, phase := (phase x)(c := Spinning l)\<rparr>)"
| xchg: "c < length (cpus (sp x)) \<Longrightarrow> phase x c = Spinning l \<Longrightarrow> acquire_xchg (sp x) l = (old, s) \<Longrightarrow>
    spin_step x (x\<lparr>sp := s, phase := (phase x)(c := if old = 0 then Taking l else Spinning l)\<rparr>)"
| noted: "c < length (cpus (sp x)) \<Longrightarrow> phase x c = Taking l \<Longrightarrow> acquire_done (sp x) c l v = Ok s \<Longrightarrow>
    spin_step x (x\<lparr>sp := s, phase := (phase x)(c := Running), holds := (holds x)(c := l # holds x c)\<rparr>)"
| drop: "c < length (cpus (sp x)) \<Longrightarrow> phase x c = Running \<Longrightarrow> release_enter (sp x) c l = Ok s \<Longrightarrow>
    spin_step x (x\<lparr>sp := s, phase := (phase x)(c := Dropping l), holds := (holds x)(c := remove1 l (holds x c))\<rparr>)"
| leave: "c < length (cpus (sp x)) \<Longrightarrow> phase x c = Dropping l \<Longrightarrow> release_exit (sp x) c l = Ok s \<Longrightarrow>
    spin_step x (x\<lparr>sp := s, phase := (phase x)(c := Running)\<rparr>)"
| interrupts: "c < length (cpus (sp x)) \<Longrightarrow> phase x c = Running \<Longrightarrow> holds x c = [] \<Longrightarrow>
    spin_step x (x\<lparr>sp := set_if (sp x) c b\<rparr>)"

definition owns :: "spin_sys \<Rightarrow> nat \<Rightarrow> nat \<Rightarrow> bool" where
  "owns x c l \<longleftrightarrow> l \<in> set (holds x c) \<or> phase x c = Taking l \<or> phase x c = Dropping l"

definition spin_inv :: "spin_sys \<Rightarrow> bool" where
  "spin_inv x \<longleftrightarrow> wired (sp x) \<and>
     (\<forall>c<length (cpus (sp x)). distinct (holds x c) \<and>
        cpu_ncli (cpus (sp x) ! c) = int (length (holds x c)) + (if phase x c = Running then 0 else 1) \<and>
        (0 < cpu_ncli (cpus (sp x) ! c) \<longrightarrow> \<not> iflag (sp x) c) \<and>
        (\<forall>l. phase x c \<in> {Spinning l, Taking l, Dropping l} \<longrightarrow> l \<notin> set (holds x c))) \<and>
     (\<forall>c l. \<not> c < length (cpus (sp x)) \<longrightarrow> \<not> owns x c l) \<and>
     (\<forall>c d l. owns x c l \<and> owns x d l \<longrightarrow> c = d) \<and>
     (\<forall>l. sl_locked (locks (sp x) l) \<noteq> 0 \<longleftrightarrow> (\<exists>c. owns x c l)) \<and>
     (\<forall>c l. sl_cpu (locks (sp x) l) = Some c \<longleftrightarrow> l \<in> set (holds x c))"

text \<open>The parts of the invariant.\<close>

lemma spin_invD:
  assumes "spin_inv x"
  shows "wired (sp x)" "c < length (cpus (sp x)) \<Longrightarrow> distinct (holds x c)"
    "c < length (cpus (sp x)) \<Longrightarrow>
      cpu_ncli (cpus (sp x) ! c) = int (length (holds x c)) + (if phase x c = Running then 0 else 1)"
    "c < length (cpus (sp x)) \<Longrightarrow> 0 < cpu_ncli (cpus (sp x) ! c) \<Longrightarrow> \<not> iflag (sp x) c"
    "c < length (cpus (sp x)) \<Longrightarrow> phase x c \<in> {Spinning l, Taking l, Dropping l} \<Longrightarrow> l \<notin> set (holds x c)"
    "owns x c l \<Longrightarrow> c < length (cpus (sp x))" "owns x c l \<Longrightarrow> owns x d l \<Longrightarrow> c = d"
    "sl_locked (locks (sp x) l) \<noteq> 0 \<longleftrightarrow> (\<exists>c. owns x c l)"
    "sl_cpu (locks (sp x) l) = Some c \<longleftrightarrow> l \<in> set (holds x c)"
  using assms unfolding spin_inv_def by blast+

lemma busy_cli:
  assumes "spin_inv x" "c < length (cpus (sp x))" "phase x c \<noteq> Running \<or> holds x c \<noteq> []"
  shows "0 < cpu_ncli (cpus (sp x) ! c)" "\<not> iflag (sp x) c"
proof -
  have "0 < int (length (holds x c)) + (if phase x c = Running then 0 else 1)"
    using assms(3) by (cases "phase x c = Running") (auto simp: less_Suc_eq_0_disj)
  then show "0 < cpu_ncli (cpus (sp x) ! c)" using spin_invD(3) [OF assms(1,2)] by simp
  then show "\<not> iflag (sp x) c" using spin_invD(4) [OF assms(1,2)] by simp
qed

text \<open>\<^verbatim>\<open>acquire\<close> and \<^verbatim>\<open>release\<close> find out exactly what the processor has.\<close>

lemma acquire_enter_spec:
  assumes "spin_inv x" "c < length (cpus (sp x))" "phase x c = Running"
  shows "acquire_enter (sp x) c l = (if l \<in> set (holds x c) then Panic ''acquire'' else Ok (pushed (sp x) c))"
proof -
  note i = spin_invD [OF assms(1)]
  have "0 \<le> cpu_ncli (cpus (sp x) ! c)" using i(3) [OF assms(2)] by simp
  then have "holding (pushed (sp x) c) c l =
      Ok (sl_locked (locks (sp x) l) \<noteq> 0 \<and> sl_cpu (locks (sp x) l) = Some c, pushed (sp x) c)"
    using i(1) assms(2) by (subst holding_spec) auto
  moreover have "sl_locked (locks (sp x) l) \<noteq> 0" if "l \<in> set (holds x c)"
    using that i(8) by (auto simp: owns_def)
  ultimately show ?thesis using i(1,9) assms(2) by (auto simp: acquire_enter_def pushcli_spec)
qed

lemma release_enter_spec:
  assumes "spin_inv x" "c < length (cpus (sp x))" "phase x c = Running" "l \<in> set (holds x c)"
  shows "release_enter (sp x) c l =
    Ok (set_lock (sp x) l (\<lambda>k. k\<lparr>sl_pcs := (sl_pcs k)[0 := 0], sl_cpu := None\<rparr>))"
proof -
  note i = spin_invD [OF assms(1)]
  have "holds x c \<noteq> []" using assms(4) by auto
  then have "holding (sp x) c l = Ok (sl_locked (locks (sp x) l) \<noteq> 0 \<and> sl_cpu (locks (sp x) l) = Some c, sp x)"
    using busy_cli [OF assms(1,2)] i(1) assms(2) by (intro holding_spec) auto
  moreover have "sl_locked (locks (sp x) l) \<noteq> 0" using assms(4) i(8) by (auto simp: owns_def)
  ultimately show ?thesis using assms(4) i(9) by (simp add: release_enter_def)
qed

lemma release_needs_lock:
  assumes "spin_inv x" "c < length (cpus (sp x))" "release_enter (sp x) c l = Ok s"
  shows "l \<in> set (holds x c)"
proof (rule ccontr)
  assume n: "l \<notin> set (holds x c)"
  note i = spin_invD [OF assms(1)]
  have "\<exists>s'. holding (sp x) c l = Ok (False, s')"
  proof -
    have le: "0 \<le> cpu_ncli (cpus (sp x) ! c)" using i(3) [OF assms(2)] by simp
    then have "mycpu (pushed (sp x) c) c = Ok c" "popcli (pushed (sp x) c) c = Ok (popped (pushed (sp x) c) c)"
      using i(1) assms(2) by (auto intro!: mycpu_self popcli_spec)
    then show ?thesis using n i(1,9) assms(2) by (simp add: holding_def pushcli_spec)
  qed
  then show False using assms(3) by (auto simp: release_enter_def)
qed

lemma spin_step_inv:
  assumes "spin_step x y" "spin_inv x"
  shows "spin_inv y"
  using assms
proof cases
  case (enter c l s)
  have s: "s = pushed (sp x) c" "l \<notin> set (holds x c)"
    using acquire_enter_spec [OF assms(2) enter(2,3), of l] enter(4) by (auto split: if_splits)
  note i = spin_invD [OF assms(2)]
  have o: "owns y = owns x" using enter by (auto simp: fun_eq_iff owns_def)
  show ?thesis unfolding spin_inv_def o
    using i enter s by auto
next
  case (xchg c l old s)
  note i = spin_invD [OF assms(2)]
  have s: "old = sl_locked (locks (sp x) l)" "s = set_lock (sp x) l (\<lambda>k. k\<lparr>sl_locked := 1\<rparr>)"
    using xchg(4) by (auto simp: acquire_xchg_def)
  have o: "owns y d k \<longleftrightarrow> owns x d k \<or> old = 0 \<and> d = c \<and> k = l" for d k
    using xchg(1,3) by (auto simp: owns_def)
  have free: "\<not> owns x d l" if "old = 0" for d using i(8) [of l] s(1) that by auto
  have lk: "sl_locked (locks s k) \<noteq> 0 \<longleftrightarrow> k = l \<or> (\<exists>d. owns x d k)" "sl_cpu (locks s k) = sl_cpu (locks (sp x) k)" for k
    using s(2) i(8) [of k] by auto
  have old: "old = 0 \<or> (\<exists>d. owns x d l)" using i(8) [of l] s(1) by auto
  have u: "\<forall>d e k. owns y d k \<and> owns y e k \<longrightarrow> d = e" unfolding o using i(7) free by blast
  have l: "\<forall>k. sl_locked (locks s k) \<noteq> 0 \<longleftrightarrow> (\<exists>d. owns y d k)" unfolding o lk using old by blast
  have b: "\<forall>d k. \<not> d < length (cpus s) \<longrightarrow> \<not> owns y d k" unfolding o using i(6) xchg(2) s(2) by auto
  show ?thesis unfolding spin_inv_def using u l b i(1-5,9) xchg(1-3) s(2) lk(2) by (simp split: if_splits)
next
  case (noted c l v s)
  note i = spin_invD [OF assms(2)]
  have "mycpu (sp x) c = Ok c" using busy_cli [OF assms(2) noted(2)] noted(3) i(1) noted(2) by (intro mycpu_self) auto
  then have s: "s = set_lock (sp x) l (\<lambda>k. k\<lparr>sl_cpu := Some c, sl_pcs := getcallerpcs (smp_mem (sp x)) v\<rparr>)"
    using noted(4) by (simp add: acquire_done_def)
  have o: "owns y = owns x" using noted by (auto simp: fun_eq_iff owns_def)
  have "l \<notin> set (holds x d)" for d using i(7) [of c l d] i(5) [OF noted(2), of l] noted(3) by (auto simp: owns_def)
  then show ?thesis unfolding spin_inv_def o using i noted s by auto
next
  case (drop c l s)
  note i = spin_invD [OF assms(2)] and l = release_needs_lock [OF assms(2) drop(2,4)]
  have s: "s = set_lock (sp x) l (\<lambda>k. k\<lparr>sl_pcs := (sl_pcs k)[0 := 0], sl_cpu := None\<rparr>)"
    using release_enter_spec [OF assms(2) drop(2,3) l] drop(4) by simp
  have d: "set (remove1 l (holds x c)) = set (holds x c) - {l}" "distinct (remove1 l (holds x c))"
    "int (length (remove1 l (holds x c))) + 1 = int (length (holds x c))"
    using i(2) [OF drop(2)] l length_pos_if_in_set [OF l] by (auto simp: length_remove1 of_nat_diff Suc_le_eq)
  have o: "owns y = owns x" using drop(1,3) d(1) l by (auto simp: fun_eq_iff owns_def)
  have "l \<notin> set (holds x e)" if "e \<noteq> c" for e using i(7) [of c l e] l that by (auto simp: owns_def)
  then show ?thesis unfolding spin_inv_def o using i drop(1-3) s d by auto
next
  case (leave c l s)
  note i = spin_invD [OF assms(2)]
  let ?s = "set_lock (sp x) l (\<lambda>k. k\<lparr>sl_locked := 0\<rparr>)"
  have s: "s = popped ?s c" using busy_cli [OF assms(2) leave(2)] leave(2-4) i(1) popcli_spec [of ?s c]
    by (simp add: release_exit_def)
  have o: "owns y d k \<longleftrightarrow> owns x d k \<and> \<not> (d = c \<and> k = l)" for d k
    using leave(1,3) i(5) [OF leave(2), of l] by (auto simp: owns_def)
  have "d = c" if "owns x d l" for d using that i(7) [of c l d] leave(3) by (auto simp: owns_def)
  then show ?thesis unfolding spin_inv_def o
    using i leave(1-3) s by auto
next
  case (interrupts c b)
  note i = spin_invD [OF assms(2)]
  have o: "owns y = owns x" using interrupts by (auto simp: fun_eq_iff owns_def)
  have "cpu_ncli (cpus (sp x) ! c) = 0" using i(3) [OF interrupts(2)] interrupts(3,4) by simp
  then show ?thesis unfolding spin_inv_def o using i interrupts by auto
qed

text \<open>The system when the processors start: no lock is taken, no \<^verbatim>\<open>pushcli\<close> is pending.\<close>

definition spin_boot :: "smp \<Rightarrow> spin_sys \<Rightarrow> bool" where
  "spin_boot s x \<longleftrightarrow> x = \<lparr>sp = s, phase = (\<lambda>_. Running), holds = (\<lambda>_. [])\<rparr> \<and> wired s \<and>
     (\<forall>l. locks s l = initlock) \<and> (\<forall>c<length (cpus s). cpu_ncli (cpus s ! c) = 0)"

lemma spin_reachable_inv:
  assumes "spin_boot s x" "spin_step\<^sup>*\<^sup>* x y"
  shows "spin_inv y"
  using assms(2)
proof (induction rule: rtranclp_induct)
  case base
  then show ?case using assms(1) by (auto simp: spin_boot_def spin_inv_def owns_def initlock_def)
qed (rule spin_step_inv)

text \<open>C7: However the processors interleave their calls of \<^verbatim>\<open>acquire\<close> and \<^verbatim>\<open>release\<close>, no two of them ever have
  the same lock, a processor that has a lock runs with interrupts off, \<^verbatim>\<open>acquire\<close> panics exactly when its
  caller has the lock already, and \<^verbatim>\<open>release\<close> returns exactly when its caller has it.\<close>

theorem spinlock_mutual_exclusion:
  assumes "spin_boot s x" "spin_step\<^sup>*\<^sup>* x y" "c < length (cpus (sp y))"
  shows "(\<forall>d. l \<in> set (holds y c) \<and> l \<in> set (holds y d) \<longrightarrow> c = d) \<and>
    (l \<in> set (holds y c) \<longrightarrow> \<not> iflag (sp y) c) \<and>
    (phase y c = Running \<longrightarrow>
      (acquire_enter (sp y) c l = Panic ''acquire'') = (l \<in> set (holds y c)) \<and>
      (\<exists>s'. release_enter (sp y) c l = Ok s') = (l \<in> set (holds y c)))"
proof -
  note inv = spin_reachable_inv [OF assms(1,2)]
  have "c = d" if "l \<in> set (holds y c)" "l \<in> set (holds y d)" for d
    using spin_invD(7) [OF inv, of c l d] that by (simp add: owns_def)
  moreover have "\<not> iflag (sp y) c" if "l \<in> set (holds y c)"
    using busy_cli(2) [OF inv assms(3)] that by (metis empty_iff list.set(1))
  moreover have "(acquire_enter (sp y) c l = Panic ''acquire'') = (l \<in> set (holds y c))" if "phase y c = Running"
    using acquire_enter_spec [OF inv assms(3) that] by simp
  moreover have "(\<exists>s'. release_enter (sp y) c l = Ok s') = (l \<in> set (holds y c))" if "phase y c = Running"
    using release_enter_spec [OF inv assms(3) that] release_needs_lock [OF inv assms(3)] by blast
  ultimately show ?thesis by blast
qed

definition demo_smp :: smp where
  "demo_smp = \<lparr>cpus = [\<lparr>cpu_apicid = 0, cpu_ncli = 0, cpu_intena = False\<rparr>, \<lparr>cpu_apicid = 1, cpu_ncli = 0, cpu_intena = False\<rparr>],
     locks = (\<lambda>_. initlock), smp_mem = (\<lambda>_. 0), iflag = (\<lambda>_. True), lapicid = (\<lambda>c. if c = 0 then 0 else 1)\<rparr>"

theorem spinlock_mutual_exclusion_witness:
  "\<exists>y. spin_step\<^sup>*\<^sup>* \<lparr>sp = demo_smp, phase = (\<lambda>_. Running), holds = (\<lambda>_. [])\<rparr> y \<and>
     7 \<in> set (holds y 0) \<and> 7 \<notin> set (holds y 1) \<and> \<not> iflag (sp y) 0"
proof -
  let ?x = "\<lparr>sp = demo_smp, phase = (\<lambda>_. Running), holds = (\<lambda>_. [])\<rparr>"
  have boot: "spin_boot demo_smp ?x"
    by (auto simp: spin_boot_def wired_def demo_smp_def less_Suc_eq)
  obtain s1 where a: "acquire_enter demo_smp 0 7 = Ok s1"
    using acquire_enter_spec [OF spin_reachable_inv [OF boot rtranclp.rtrancl_refl], of 0 7]
    by (auto simp: demo_smp_def)
  let ?y1 = "?x\<lparr>sp := s1, phase := (\<lambda>_. Running)(0 := Spinning 7)\<rparr>"
  have 1: "spin_step ?x ?y1" using spin_step.enter [of 0 ?x 7 s1] a by (simp add: demo_smp_def)
  have c1: "length (cpus s1) = 2" "locks s1 = (\<lambda>_. initlock)"
    using acquire_enter_spec [OF spin_reachable_inv [OF boot rtranclp.rtrancl_refl], of 0 7] a
    by (auto simp: demo_smp_def)
  let ?s2 = "set_lock s1 7 (\<lambda>k. k\<lparr>sl_locked := 1\<rparr>)"
  let ?y2 = "?y1\<lparr>sp := ?s2, phase := (phase ?y1)(0 := Taking 7)\<rparr>"
  have 2: "spin_step ?y1 ?y2"
    using spin_step.xchg [of 0 ?y1 7 0 ?s2] c1 by (simp add: acquire_xchg_def initlock_def)
  have r2: "spin_step\<^sup>*\<^sup>* ?x ?y2" using 1 2 by auto
  note inv = spin_reachable_inv [OF boot r2]
  have "mycpu ?s2 0 = Ok 0"
    using mycpu_self [of ?s2 0] spin_invD(1) [OF inv] busy_cli(2) [OF inv, of 0] c1(1) by simp
  then obtain s3 where b: "acquire_done ?s2 0 7 0 = Ok s3" "length (cpus s3) = 2"
    using c1(1) by (simp add: acquire_done_def)
  let ?y3 = "?y2\<lparr>sp := s3, phase := (phase ?y2)(0 := Running), holds := (\<lambda>_. [])(0 := [7])\<rparr>"
  have "spin_step ?y2 ?y3" using spin_step.noted [of 0 ?y2 7 0 s3] b(1) c1(1) by simp
  then have r3: "spin_step\<^sup>*\<^sup>* ?x ?y3" using r2 by (rule rtranclp.rtrancl_into_rtrancl [rotated])
  show ?thesis using spinlock_mutual_exclusion [OF boot r3, of 0 7] r3 b(2) by (intro exI [of _ ?y3]) simp
qed

end
