(* ===== verification/Mmu.thy ===== *)
theory Mmu
  imports Memlib
begin

text \<open>
  The paging macros of \<^verbatim>\<open>mmu.h\<close> and the kernel's address space layout of \<^verbatim>\<open>memlayout.h\<close> and
  \<^verbatim>\<open>param.h\<close>, as functions and constants on 32-bit words.
\<close>

section \<open>Definitions\<close>

abbreviation (input) KERNBASE :: uint where "KERNBASE \<equiv> 0x80000000"
abbreviation (input) EXTMEM :: uint where "EXTMEM \<equiv> 0x100000"
abbreviation (input) PHYSTOP :: uint where "PHYSTOP \<equiv> 0xE000000"
abbreviation (input) DEVSPACE :: uint where "DEVSPACE \<equiv> 0xFE000000"
abbreviation (input) KERNLINK :: uint where "KERNLINK \<equiv> 0x80100000"
abbreviation (input) PGSIZE :: uint where "PGSIZE \<equiv> 4096"
abbreviation (input) NPDENTRIES :: nat where "NPDENTRIES \<equiv> 1024"
abbreviation (input) PTE_P :: uint where "PTE_P \<equiv> 0x001"
abbreviation (input) PTE_W :: uint where "PTE_W \<equiv> 0x002"
abbreviation (input) PTE_U :: uint where "PTE_U \<equiv> 0x004"

definition V2P :: "uint \<Rightarrow> uint" where
  "V2P a = a - KERNBASE"

definition P2V :: "uint \<Rightarrow> uint" where
  "P2V a = a + KERNBASE"

definition PGROUNDUP :: "uint \<Rightarrow> uint" where
  "PGROUNDUP sz = (sz + PGSIZE - 1) AND NOT (PGSIZE - 1)"

definition PGROUNDDOWN :: "uint \<Rightarrow> uint" where
  "PGROUNDDOWN a = a AND NOT (PGSIZE - 1)"

definition PDX :: "uint \<Rightarrow> uint" where
  "PDX va = drop_bit 22 va AND 0x3FF"

definition PTX :: "uint \<Rightarrow> uint" where
  "PTX va = drop_bit 12 va AND 0x3FF"

definition PGADDR :: "uint \<Rightarrow> uint \<Rightarrow> uint \<Rightarrow> uint" where
  "PGADDR d t off = push_bit 22 d OR push_bit 12 t OR off"

definition PTE_ADDR :: "uint \<Rightarrow> uint" where
  "PTE_ADDR pte = pte AND NOT 0xFFF"

definition PTE_FLAGS :: "uint \<Rightarrow> uint" where
  "PTE_FLAGS pte = pte AND 0xFFF"

section \<open>Page arithmetic\<close>

text \<open>An address on a page boundary.\<close>

definition page_aligned :: "uint \<Rightarrow> bool" where
  "page_aligned a \<longleftrightarrow> unat a mod 4096 = 0"

lemma mask12: "(0xFFF :: uint) = mask 12"
  by (simp add: mask_eq_exp_minus_1)

lemma mask10: "(0x3FF :: uint) = mask 10"
  by (simp add: mask_eq_exp_minus_1)

lemma unat_and_low12: "unat (a AND 0xFFF) = unat (a :: uint) mod 4096"
  unfolding mask12 by (simp add: take_bit_eq_mask [symmetric] take_bit_eq_mod unat_mod_distrib)

lemma unat_and_low10: "unat (a AND 0x3FF) = unat (a :: uint) mod 1024"
  unfolding mask10 by (simp add: take_bit_eq_mask [symmetric] take_bit_eq_mod unat_mod_distrib)

lemma and_not_plus_and: "(a AND NOT m) + (a AND m) = (a :: uint)"
proof -
  have "(a AND NOT m) + (a AND m) = (a AND NOT m) OR (a AND m)"
    by (rule disjunctive_add_eq_or) (rule bit_word_eqI, auto simp: bit_and_iff bit_not_iff)
  also have "\<dots> = a" by (rule bit_word_eqI) (auto simp: bit_or_iff bit_and_iff bit_not_iff)
  finally show ?thesis .
qed

lemma unat_and_high20: "unat (a AND - 4096) = unat (a :: uint) div 4096 * 4096"
proof -
  have "a AND NOT 0xFFF = a - (a AND 0xFFF)" using and_not_plus_and [of a "0xFFF"] by (simp add: eq_diff_eq)
  moreover have "a AND 0xFFF \<le> a" by (simp add: word_le_nat_alt unat_and_low12)
  ultimately have "unat (a AND NOT 0xFFF) = unat a - unat a mod 4096"
    by (simp add: unat_minus_small unat_and_low12)
  then show ?thesis by (simp add: minus_mod_eq_div_mult)
qed

lemma unat_PGROUNDDOWN: "unat (PGROUNDDOWN a) = unat a div 4096 * 4096"
  by (simp add: PGROUNDDOWN_def unat_and_high20)

lemma unat_PTE_ADDR: "unat (PTE_ADDR a) = unat a div 4096 * 4096"
  by (simp add: PTE_ADDR_def unat_and_high20)

lemma unat_PTE_FLAGS: "unat (PTE_FLAGS a) = unat a mod 4096"
  by (simp add: PTE_FLAGS_def unat_and_low12)

lemma page_aligned_PGROUNDDOWN [simp]: "page_aligned (PGROUNDDOWN a)"
  by (simp add: page_aligned_def unat_PGROUNDDOWN)

lemma page_aligned_PTE_ADDR [simp]: "page_aligned (PTE_ADDR a)"
  by (simp add: page_aligned_def unat_PTE_ADDR)

lemma unat_PGROUNDUP:
  assumes "unat sz + 4095 < 2 ^ 32"
  shows "unat (PGROUNDUP sz) = (unat sz + 4095) div 4096 * 4096"
proof -
  have "unat (sz + 4096 - 1) = unat (sz + 4095)" by (simp add: algebra_simps)
  also have "\<dots> = unat sz + 4095" using assms by (subst unat_plus_small) simp_all
  finally show ?thesis by (simp add: PGROUNDUP_def unat_and_high20)
qed

lemma page_aligned_PGROUNDUP [simp]: "page_aligned (PGROUNDUP a)"
  by (simp add: page_aligned_def PGROUNDUP_def unat_and_high20)

text \<open>Two addresses in one page have the same page base.\<close>

lemma page_aligned_mult: "page_aligned a \<Longrightarrow> unat a = 4096 * (unat a div 4096)"
  by (simp add: page_aligned_def mod_eq_0_iff_dvd)

lemma page_aligned_room:
  assumes "page_aligned a"
  shows "unat a + 4096 \<le> 2 ^ 32"
proof -
  have "4096 * (unat a div 4096) < 4096 * 1048576"
    using unsigned_less [of a] page_aligned_mult [OF assms] by simp
  then have "unat a div 4096 + 1 \<le> 1048576" by linarith
  then have "4096 * (unat a div 4096 + 1) \<le> 4096 * 1048576" by (rule mult_le_mono2)
  then show ?thesis using page_aligned_mult [OF assms] by simp
qed

lemma in_page_unat:
  assumes "page_aligned a" "x - a < 4096"
  shows "unat x = unat a + unat (x - a)"
proof -
  have "unat ((x - a) + a) = unat (x - a) + unat a"
    using assms page_aligned_room [OF assms(1)] by (intro unat_plus_small) (simp add: word_less_nat_alt)
  then show ?thesis by simp
qed

lemma in_page_iff:
  assumes "page_aligned a"
  shows "x - a < 4096 \<longleftrightarrow> PGROUNDDOWN x = a"
proof
  assume x: "x - a < 4096"
  have "unat x div 4096 = unat a div 4096"
  proof -
    have "unat x = 4096 * (unat a div 4096) + unat (x - a)"
      using in_page_unat [OF assms x] page_aligned_mult [OF assms] by simp
    then show ?thesis using x by (simp add: word_less_nat_alt)
  qed
  then have "unat (PGROUNDDOWN x) = unat a"
    using page_aligned_mult [OF assms] by (simp add: unat_PGROUNDDOWN mult.commute)
  then show "PGROUNDDOWN x = a" by (simp add: word_unat_eq_iff)
next
  assume "PGROUNDDOWN x = a"
  then have "unat a = unat x div 4096 * 4096" using unat_PGROUNDDOWN [of x] by simp
  moreover from this have "a \<le> x" by (simp add: word_le_nat_alt)
  ultimately have "unat (x - a) = unat x mod 4096"
    by (simp add: unat_minus_small minus_div_mult_eq_mod)
  then show "x - a < 4096" by (simp add: word_less_nat_alt)
qed

lemma pages_disjoint:
  assumes "page_aligned a" "page_aligned b" "a \<noteq> b" "x - a < 4096"
  shows "\<not> x - b < 4096"
  using assms by (simp add: in_page_iff)

lemma page_aligned4: "page_aligned a \<Longrightarrow> aligned4 a"
  by (auto simp: page_aligned_def aligned4_def mod_eq_0_iff_dvd intro: dvd_trans [of 4 4096])

lemma V2P_P2V [simp]: "V2P (P2V a) = a" "P2V (V2P a) = a"
  by (simp_all add: V2P_def P2V_def)

end
