(* ===== verification/Kalloc.thy ===== *)
theory Kalloc
  imports Mmu
begin

text \<open>
  The physical page allocator, \<^verbatim>\<open>vm/kalloc.c\<close>. The free pages form a list that is linked through
  their own first words, so the allocator's state is the kernel memory together with the head of
  that list. The section between \<^verbatim>\<open>acquire\<close> and \<^verbatim>\<open>release\<close> of \<^verbatim>\<open>kmem.lock\<close> runs without
  interference (theory Spinlock), so the pair is left out; the flag \<^verbatim>\<open>use_lock\<close> is kept.
\<close>

section \<open>Definitions\<close>

text \<open>\<open>kend\<close> is the linker symbol \<^verbatim>\<open>end\<close>, the first address after the loaded kernel.\<close>

record kmem =
  kmem_mem :: mem
  kmem_use_lock :: bool
  kmem_freelist :: uint
  kend :: uint

definition kfree :: "kmem \<Rightarrow> uint \<Rightarrow> kmem res" where
  "kfree s v =
     (if unat v mod 4096 \<noteq> 0 \<or> v < kend s \<or> V2P v \<ge> PHYSTOP then Panic ''kfree''
      else let m = memset (kmem_mem s) v 1 PGSIZE
           in Ok (s\<lparr>kmem_mem := store32 m v (kmem_freelist s), kmem_freelist := v\<rparr>))"

definition kalloc :: "kmem \<Rightarrow> uint \<times> kmem" where
  "kalloc s =
     (let r = kmem_freelist s
      in (r, if r \<noteq> 0 then s\<lparr>kmem_freelist := load32 (kmem_mem s) r\<rparr> else s))"

text \<open>The loop of \<^verbatim>\<open>freerange\<close>: it stops by the bound or by the panic of \<^verbatim>\<open>kfree\<close>.\<close>

lemma kfree_bound: "kfree s p = Ok s' \<Longrightarrow> unat p < 0x8E000000"
  by (auto simp: kfree_def V2P_def Let_def word_less_nat_alt word_le_nat_alt unat_sub_if'
      split: if_splits)

function freerange_loop :: "kmem \<Rightarrow> uint \<Rightarrow> uint \<Rightarrow> kmem res" where
  "freerange_loop s p vend =
     (if p + PGSIZE \<le> vend
      then andthen (kfree s p) (\<lambda>s'. freerange_loop s' (p + PGSIZE) vend)
      else Ok s)"
  by pat_completeness auto
termination
proof (relation "measure (\<lambda>(s, p, vend). 2 ^ 32 - unat p)", goal_cases)
  case (2 s p vend s')
  then have p: "unat p < 0x8E000000" by (auto dest: kfree_bound)
  then have "unat (p + 4096) = unat p + 4096" by (subst unat_plus_small) auto
  with p show ?case by simp
qed simp

definition freerange :: "kmem \<Rightarrow> uint \<Rightarrow> uint \<Rightarrow> kmem res" where
  "freerange s vstart vend = freerange_loop s (PGROUNDUP vstart) vend"

definition kinit1 :: "kmem \<Rightarrow> uint \<Rightarrow> uint \<Rightarrow> kmem res" where
  "kinit1 s vstart vend = freerange (s\<lparr>kmem_use_lock := False\<rparr>) vstart vend"

definition kinit2 :: "kmem \<Rightarrow> uint \<Rightarrow> uint \<Rightarrow> kmem res" where
  "kinit2 s vstart vend =
     andthen (freerange s vstart vend) (\<lambda>s. Ok (s\<lparr>kmem_use_lock := True\<rparr>))"

declare freerange_loop.simps [simp del]

section \<open>The free list\<close>

text \<open>A page the allocator may hand out.\<close>

definition free_page :: "uint \<Rightarrow> uint \<Rightarrow> bool" where
  "free_page e v \<longleftrightarrow> page_aligned v \<and> e \<le> v \<and> V2P v < PHYSTOP"

primrec linked :: "mem \<Rightarrow> uint \<Rightarrow> uint list \<Rightarrow> bool" where
  "linked m p [] \<longleftrightarrow> p = 0"
| "linked m p (x # xs) \<longleftrightarrow> p = x \<and> x \<noteq> 0 \<and> linked m (load32 m x) xs"

definition kmem_inv :: "kmem \<Rightarrow> uint list \<Rightarrow> bool" where
  "kmem_inv s xs \<longleftrightarrow> linked (kmem_mem s) (kmem_freelist s) xs \<and> distinct xs \<and>
     (\<forall>x\<in>set xs. free_page (kend s) x)"

lemma free_page_nonnull: "free_page e v \<Longrightarrow> v \<noteq> 0"
  by (auto simp: free_page_def V2P_def)

lemma linked_cong:
  "linked m p xs \<Longrightarrow> (\<And>x. x \<in> set xs \<Longrightarrow> load32 m' x = load32 m x) \<Longrightarrow> linked m' p xs"
  by (induction xs arbitrary: p) auto

lemma linked_0: "linked m 0 xs \<longleftrightarrow> xs = []"
  by (cases xs) auto

lemma kfree_Ok_iff: "(\<exists>s'. kfree s v = Ok s') \<longleftrightarrow> free_page (kend s) v"
  by (auto simp: kfree_def free_page_def page_aligned_def Let_def not_le not_less)

lemma kfree_panics: "\<not> free_page (kend s) v \<Longrightarrow> kfree s v = Panic ''kfree''"
  by (auto simp: kfree_def free_page_def page_aligned_def Let_def not_le not_less)

lemma kfree_result:
  "free_page (kend s) v \<Longrightarrow> kfree s v =
     Ok (s\<lparr>kmem_mem := store32 (memset (kmem_mem s) v 1 4096) v (kmem_freelist s), kmem_freelist := v\<rparr>)"
  by (simp add: kfree_def free_page_def page_aligned_def Let_def not_le not_less)

text \<open>Freeing a page writes inside that page only.\<close>

lemma kfree_frame:
  assumes "kfree s v = Ok s'" "\<not> x - v < 4096"
  shows "kmem_mem s' x = kmem_mem s x"
proof -
  have v: "free_page (kend s) v" using assms(1) kfree_Ok_iff by blast
  have "\<not> x - v < 4" using assms(2) by (simp add: word_less_nat_alt)
  then have "store32 m v w x = m x" for m w by (rule store32_other)
  then show ?thesis using assms v by (auto simp: kfree_result memset_eq)
qed

lemma load32_other_page:
  assumes "page_aligned x" "page_aligned v" "x \<noteq> v" "\<And>y. \<not> y - v < 4096 \<Longrightarrow> m' y = m y"
  shows "load32 m' x = load32 m x"
proof (rule load32_cong)
  fix y assume "y - x < 4"
  then have "y - x < 4096" by (simp add: word_less_nat_alt)
  then have "\<not> y - v < 4096" using pages_disjoint assms(1-3) by blast
  then show "m' y = m y" by (rule assms(4))
qed

lemma kfree_inv:
  assumes inv: "kmem_inv s xs" and v: "free_page (kend s) v" "v \<notin> set xs"
  shows "\<exists>s'. kfree s v = Ok s' \<and> kmem_inv s' (v # xs)"
proof -
  obtain s' where s': "kfree s v = Ok s'" using kfree_Ok_iff v by blast
  have keep: "load32 (kmem_mem s') x = load32 (kmem_mem s) x" if "x \<in> set xs" for x
    using that inv v kfree_frame [OF s']
    by (intro load32_other_page [where v = v]) (auto simp: kmem_inv_def free_page_def)
  have "linked (kmem_mem s) (kmem_freelist s) xs" using inv by (simp add: kmem_inv_def)
  then have "linked (kmem_mem s') (kmem_freelist s) xs" using keep by (rule linked_cong)
  moreover have "load32 (kmem_mem s') v = kmem_freelist s" "kmem_freelist s' = v" "kend s' = kend s"
    using s' v by (auto simp: kfree_result)
  ultimately have "kmem_inv s' (v # xs)"
    using inv v free_page_nonnull by (auto simp: kmem_inv_def)
  then show ?thesis using s' by blast
qed

lemma kalloc_empty: "kmem_inv s [] \<Longrightarrow> kalloc s = (0, s)"
  by (simp add: kmem_inv_def kalloc_def)

lemma kalloc_cons:
  assumes "kmem_inv s (x # xs)"
  shows "kalloc s = (x, s\<lparr>kmem_freelist := load32 (kmem_mem s) x\<rparr>) \<and>
    kmem_inv (s\<lparr>kmem_freelist := load32 (kmem_mem s) x\<rparr>) xs"
  using assms by (auto simp: kmem_inv_def kalloc_def)

section \<open>The allocator's contract\<close>

text \<open>
  What a client of a page allocator relies on: the free pages form a stack \<open>xs\<close>, \<open>alloc\<close> pops
  it (or returns the null pointer) and \<open>free\<close> pushes a legal page that is not free already.
\<close>

locale page_alloc =
  fixes alloc :: "'s \<Rightarrow> uint \<times> 's"
    and free :: "'s \<Rightarrow> uint \<Rightarrow> 's res"
    and inv :: "'s \<Rightarrow> uint list \<Rightarrow> bool"
    and legal :: "'s \<Rightarrow> uint \<Rightarrow> bool"
  assumes alloc_none: "inv s [] \<Longrightarrow> alloc s = (0, s)"
    and alloc_some: "inv s (x # xs) \<Longrightarrow> \<exists>s'. alloc s = (x, s') \<and> inv s' xs \<and> legal s' = legal s"
    and free_some: "inv s xs \<Longrightarrow> legal s v \<Longrightarrow> v \<notin> set xs \<Longrightarrow>
      \<exists>s'. free s v = Ok s' \<and> inv s' (v # xs) \<and> legal s' = legal s"
    and free_illegal: "\<not> legal s v \<Longrightarrow> \<exists>msg. free s v = Panic msg"
    and inv_distinct: "inv s xs \<Longrightarrow> distinct xs"
    and inv_legal: "inv s xs \<Longrightarrow> x \<in> set xs \<Longrightarrow> legal s x \<and> x \<noteq> 0"

text \<open>A client that takes \<open>n\<close> pages, and one that gives a list of pages back.\<close>

primrec take_pages :: "('s \<Rightarrow> uint \<times> 's) \<Rightarrow> nat \<Rightarrow> 's \<Rightarrow> uint list \<times> 's" where
  "take_pages alloc 0 s = ([], s)"
| "take_pages alloc (Suc n) s =
     (let (p, s) = alloc s; (ps, s) = take_pages alloc n s in (p # ps, s))"

primrec give_pages :: "('s \<Rightarrow> uint \<Rightarrow> 's res) \<Rightarrow> uint list \<Rightarrow> 's \<Rightarrow> 's res" where
  "give_pages free [] s = Ok s"
| "give_pages free (p # ps) s = andthen (free s p) (give_pages free ps)"

context page_alloc
begin

lemma take_pages_inv:
  "inv s xs \<Longrightarrow> n \<le> length xs \<Longrightarrow>
     \<exists>s'. take_pages alloc n s = (take n xs, s') \<and> inv s' (drop n xs) \<and> legal s' = legal s"
proof (induction n arbitrary: s xs)
  case (Suc n)
  then obtain x ys where xs: "xs = x # ys" by (cases xs) auto
  then obtain s1 where s1: "alloc s = (x, s1)" "inv s1 ys" "legal s1 = legal s"
    using alloc_some Suc.prems by blast
  from Suc.IH [OF s1(2)] Suc.prems xs obtain s2 where
    "take_pages alloc n s1 = (take n ys, s2)" "inv s2 (drop n ys)" "legal s2 = legal s1" by auto
  then show ?case using xs s1 by auto
qed simp

lemma taken_pages_distinct:
  assumes "inv s xs" "n \<le> length xs" "take_pages alloc n s = (ps, s')"
  shows "distinct ps \<and> 0 \<notin> set ps \<and> (\<forall>p\<in>set ps. legal s p) \<and> set ps \<inter> set (drop n xs) = {}"
proof -
  have ps: "ps = take n xs" using take_pages_inv [OF assms(1,2)] assms(3) by auto
  have "distinct xs" using inv_distinct assms(1) .
  then have "distinct (take n xs)" "set (take n xs) \<inter> set (drop n xs) = {}"
    by (auto simp: set_take_disj_set_drop_if_distinct)
  moreover have "legal s p \<and> p \<noteq> 0" if "p \<in> set (take n xs)" for p
    using inv_legal assms(1) in_set_takeD that by fast
  ultimately show ?thesis using ps by auto
qed

lemma give_pages_inv:
  "inv s xs \<Longrightarrow> distinct ps \<Longrightarrow> set ps \<inter> set xs = {} \<Longrightarrow> (\<And>p. p \<in> set ps \<Longrightarrow> legal s p) \<Longrightarrow>
     \<exists>s'. give_pages free ps s = Ok s' \<and> inv s' (rev ps @ xs) \<and> legal s' = legal s"
proof (induction ps arbitrary: s xs)
  case (Cons p ps)
  then obtain s1 where s1: "free s p = Ok s1" "inv s1 (p # xs)" "legal s1 = legal s"
    using free_some [of s xs p] by auto
  have "\<exists>s'. give_pages free ps s1 = Ok s' \<and> inv s' (rev ps @ p # xs) \<and> legal s' = legal s1"
    using Cons.prems s1 by (intro Cons.IH) auto
  then show ?case using s1 by auto
qed simp

lemma take_give_roundtrip:
  assumes "inv s xs" "n \<le> length xs"
  shows "\<exists>ps s1 s2. take_pages alloc n s = (ps, s1) \<and> give_pages free (rev ps) s1 = Ok s2 \<and> inv s2 xs"
proof -
  obtain s1 where s1: "take_pages alloc n s = (take n xs, s1)" "inv s1 (drop n xs)" "legal s1 = legal s"
    using take_pages_inv [OF assms] by blast
  have "distinct (rev (take n xs)) \<and> set (rev (take n xs)) \<inter> set (drop n xs) = {} \<and>
      (\<forall>p\<in>set (rev (take n xs)). legal s1 p)"
    using taken_pages_distinct [OF assms s1(1)] s1(3) by auto
  then obtain s2 where "give_pages free (rev (take n xs)) s1 = Ok s2" "inv s2 (rev (rev (take n xs)) @ drop n xs)"
    using give_pages_inv [OF s1(2), of "rev (take n xs)"] by blast
  then show ?thesis using s1 by auto
qed

end

interpretation ka: page_alloc kalloc kfree kmem_inv "\<lambda>s. free_page (kend s)"
proof unfold_locales
  show "\<exists>s'. kalloc s = (x, s') \<and> kmem_inv s' xs \<and> free_page (kend s') = free_page (kend s)"
    if "kmem_inv s (x # xs)" for s x xs
    using kalloc_cons [OF that] by auto
  show "\<exists>s'. kfree s v = Ok s' \<and> kmem_inv s' (v # xs) \<and> free_page (kend s') = free_page (kend s)"
    if "kmem_inv s xs" "free_page (kend s) v" "v \<notin> set xs" for s xs v
    using kfree_inv [OF that] kfree_result [OF that(2)] by auto
  show "\<exists>msg. kfree s v = Panic msg" if "\<not> free_page (kend s) v" for s v
    using kfree_panics [OF that] by blast
  show "free_page (kend s) x \<and> x \<noteq> 0" if "kmem_inv s xs" "x \<in> set xs" for s xs x
    using that free_page_nonnull by (auto simp: kmem_inv_def)
qed (auto simp: kalloc_empty kmem_inv_def)

section \<open>Initialisation\<close>

text \<open>The whole pages between a page address and an end address, in increasing order.\<close>

definition pages_upto :: "uint \<Rightarrow> uint \<Rightarrow> uint list" where
  "pages_upto p vend = map (\<lambda>i. p + of_nat (4096 * i)) [0..<(unat vend - unat p) div 4096]"

lemma pages_upto_none: "unat vend < unat p + 4096 \<Longrightarrow> pages_upto p vend = []"
  by (simp add: pages_upto_def)

lemma pages_upto_some:
  assumes "unat p + 4096 \<le> unat vend" "unat (p + 4096) = unat p + 4096"
  shows "pages_upto p vend = p # pages_upto (p + 4096) vend"
proof -
  have "(unat vend - unat p) div 4096 = Suc ((unat vend - (unat p + 4096)) div 4096)"
    using assms(1) div_add_self2 [of 4096 "unat vend - (unat p + 4096)"] by simp
  then show ?thesis
    by (simp add: pages_upto_def assms(2) map_upt_Suc algebra_simps del: upt_Suc)
qed

lemma pages_upto_distinct: "distinct (pages_upto p vend)"
proof -
  have "i = j" if ij: "i < (unat vend - unat p) div 4096" "j < (unat vend - unat p) div 4096"
    "p + of_nat (4096 * i) = p + of_nat (4096 * j)" for i j
  proof -
    have "4096 * i < 2 ^ 32" "4096 * j < 2 ^ 32"
      using ij(1,2) unat_uint_bound [of vend] by auto
    then show ?thesis using of_nat_uint_inj [OF add_left_imp_eq [OF ij(3)]] by simp
  qed
  then show ?thesis by (auto simp: pages_upto_def distinct_map inj_on_def)
qed

lemma page_aligned_next: "page_aligned p \<Longrightarrow> unat (p + 4096) = unat p + 4096 \<Longrightarrow> page_aligned (p + 4096)"
  by (simp add: page_aligned_def)

lemma in_managed_memory:
  assumes "0x80000000 \<le> kend s" "kend s \<le> p" "unat p + 4096 \<le> 0x8E000000" "page_aligned p"
  shows "free_page (kend s) p"
proof -
  have "0x80000000 \<le> p" using assms(1,2) by (rule order_trans)
  then show ?thesis using assms
    by (simp add: free_page_def V2P_def word_less_nat_alt unat_minus_small word_le_nat_alt)
qed

lemma freerange_loop_inv:
  assumes "kmem_inv s xs" "0x80000000 \<le> kend s" "kend s \<le> p" "unat vend \<le> 0x8E000000"
    and "page_aligned p" "set (pages_upto p vend) \<inter> set xs = {}" "unat p \<le> 0x8E000000"
  shows "\<exists>s'. freerange_loop s p vend = Ok s' \<and> kmem_inv s' (rev (pages_upto p vend) @ xs) \<and>
    kend s' = kend s \<and> kmem_use_lock s' = kmem_use_lock s"
  using assms
proof (induction "(unat vend - unat p) div 4096" arbitrary: s p xs)
  case 0
  have p4: "unat (p + 4096) = unat p + 4096" using 0 by (intro unat_plus_small [of p 4096, simplified]) simp
  have "unat vend < unat p + 4096" using 0(1) by (auto simp: div_eq_0_iff)
  then show ?case using 0 p4 by (subst freerange_loop.simps) (simp add: word_le_nat_alt pages_upto_none)
next
  case (Suc k)
  have p4: "unat (p + 4096) = unat p + 4096"
    using Suc by (intro unat_plus_small [of p 4096, simplified]) simp
  have le: "unat p + 4096 \<le> unat vend"
  proof (rule ccontr)
    assume "\<not> ?thesis"
    then have "(unat vend - unat p) div 4096 = 0" by (intro div_less) linarith
    with Suc(2) show False by simp
  qed
  have pages: "pages_upto p vend = p # pages_upto (p + 4096) vend" using le p4 by (rule pages_upto_some)
  have legal: "free_page (kend s) p" using Suc.prems le by (intro in_managed_memory) auto
  obtain s1 where s1: "kfree s p = Ok s1" "kmem_inv s1 (p # xs)"
    using kfree_inv [OF Suc.prems(1) legal] Suc.prems(6) pages by auto
  have keep: "kend s1 = kend s" "kmem_use_lock s1 = kmem_use_lock s"
    using s1(1) legal by (auto simp: kfree_result)
  have "distinct (pages_upto p vend)" by (rule pages_upto_distinct)
  then have fresh: "set (pages_upto (p + 4096) vend) \<inter> set (p # xs) = {}"
    using Suc.prems(6) pages by auto
  have "\<exists>s'. freerange_loop s1 (p + 4096) vend = Ok s' \<and>
      kmem_inv s' (rev (pages_upto (p + 4096) vend) @ p # xs) \<and>
      kend s' = kend s1 \<and> kmem_use_lock s' = kmem_use_lock s1"
    using Suc.prems Suc(2) le p4 s1(2) keep fresh
    by (intro Suc.hyps(1)) (auto simp: word_le_nat_alt page_aligned_next)
  then show ?case using le p4 s1 keep pages
    by (subst freerange_loop.simps) (auto simp: word_le_nat_alt)
qed

section \<open>Properties\<close>

text \<open>C21: On a well-formed free list \<open>xs\<close>, \<^verbatim>\<open>kalloc\<close> pops the first page (or returns the null
  pointer when there is none) without touching memory, and \<^verbatim>\<open>kfree\<close> pushes every legal page that
  is not free already, keeping the list well formed and the memory outside that page as it was;
  any other address makes \<^verbatim>\<open>kfree\<close> panic.\<close>

theorem kalloc_kfree_refine_stack:
  assumes inv: "kmem_inv s xs"
  shows "(case xs of [] \<Rightarrow> kalloc s = (0, s)
      | x # ys \<Rightarrow> \<exists>s'. kalloc s = (x, s') \<and> kmem_inv s' ys \<and> kmem_mem s' = kmem_mem s) \<and>
    (\<forall>v. v \<notin> set xs \<and> free_page (kend s) v \<longrightarrow>
      (\<exists>s'. kfree s v = Ok s' \<and> kmem_inv s' (v # xs) \<and>
        (\<forall>x. \<not> x - v < 4096 \<longrightarrow> kmem_mem s' x = kmem_mem s x))) \<and>
    (\<forall>v. \<not> free_page (kend s) v \<longrightarrow> kfree s v = Panic ''kfree'')"
proof (intro conjI allI impI)
  show "case xs of [] \<Rightarrow> kalloc s = (0, s)
      | x # ys \<Rightarrow> \<exists>s'. kalloc s = (x, s') \<and> kmem_inv s' ys \<and> kmem_mem s' = kmem_mem s"
    using inv kalloc_empty kalloc_cons by (cases xs) fastforce+
  show "\<exists>s'. kfree s v = Ok s' \<and> kmem_inv s' (v # xs) \<and>
      (\<forall>x. \<not> x - v < 4096 \<longrightarrow> kmem_mem s' x = kmem_mem s x)"
    if "v \<notin> set xs \<and> free_page (kend s) v" for v
    using kfree_inv [OF inv, of v] kfree_frame that by blast
qed (rule kfree_panics)

text \<open>A small machine: the kernel ends at \<^verbatim>\<open>0x80100000\<close> and no page is free yet.\<close>

definition boot_kmem :: kmem where
  "boot_kmem = \<lparr>kmem_mem = (\<lambda>_. 0), kmem_use_lock = False, kmem_freelist = 0, kend = 0x80100000\<rparr>"

lemma boot_kmem_inv: "kmem_inv boot_kmem []"
  by (simp add: kmem_inv_def boot_kmem_def)

theorem kalloc_kfree_refine_stack_witness:
  "\<exists>s'. kfree boot_kmem 0x80100000 = Ok s' \<and> kmem_inv s' [0x80100000]"
proof -
  have "free_page (kend boot_kmem) 0x80100000"
    by (simp add: free_page_def page_aligned_def V2P_def boot_kmem_def)
  then show ?thesis using kalloc_kfree_refine_stack [OF boot_kmem_inv] by auto
qed

text \<open>C22: \<^verbatim>\<open>freerange\<close>, run over memory above the kernel and below \<^verbatim>\<open>PHYSTOP\<close> none of which is free
  yet, does not panic and adds exactly the whole pages of the range to the free list.\<close>

theorem freerange_frees_range:
  assumes "kmem_inv s xs" "0x80000000 \<le> kend s" "kend s \<le> vstart" "vstart \<le> 0x8E000000"
    and "vend \<le> 0x8E000000" "set (pages_upto (PGROUNDUP vstart) vend) \<inter> set xs = {}"
  shows "\<exists>s'. freerange s vstart vend = Ok s' \<and>
    kmem_inv s' (rev (pages_upto (PGROUNDUP vstart) vend) @ xs) \<and>
    kend s' = kend s \<and> kmem_use_lock s' = kmem_use_lock s"
proof -
  have "unat vstart \<le> 0x8E000000" using assms(4) by (simp add: word_le_nat_alt)
  then have up: "unat (PGROUNDUP vstart) = (unat vstart + 4095) div 4096 * 4096"
    by (intro unat_PGROUNDUP) simp
  have "unat vstart \<le> unat (PGROUNDUP vstart)" unfolding up by linarith
  then have "kend s \<le> PGROUNDUP vstart" using assms(3) by (simp add: word_le_nat_alt)
  moreover have "unat (PGROUNDUP vstart) \<le> 0x8E000000"
    using \<open>unat vstart \<le> 0x8E000000\<close> div_le_mono [of "unat vstart + 4095" "0x8E000FFF" 4096]
    unfolding up by simp
  moreover have "unat vend \<le> 0x8E000000" using assms(5) by (simp add: word_le_nat_alt)
  ultimately show ?thesis unfolding freerange_def
    using assms by (intro freerange_loop_inv) auto
qed

theorem freerange_frees_range_witness:
  "\<exists>s'. freerange boot_kmem 0x80100001 0x80103000 = Ok s' \<and> kmem_inv s' [0x80102000, 0x80101000]"
proof -
  have up: "PGROUNDUP 0x80100001 = 0x80101000" by (simp add: PGROUNDUP_def)
  have pages: "pages_upto 0x80101000 0x80103000 = [0x80101000, 0x80102000]"
    by (simp add: pages_upto_def upt_rec)
  show ?thesis
    using freerange_frees_range [OF boot_kmem_inv, of "0x80100001" "0x80103000"]
    by (auto simp: up pages boot_kmem_def)
qed

text \<open>As long as pages are left, any number of consecutive \<^verbatim>\<open>kalloc\<close> calls return distinct
  non-null legal pages, none of them still on the free list, and freeing them in reverse order
  restores the allocator's free list.\<close>

theorem kalloc_pages_distinct:
  assumes "kmem_inv s xs" "n \<le> length xs"
  shows "\<exists>ps s1 s2. take_pages kalloc n s = (ps, s1) \<and> length ps = n \<and> distinct ps \<and> 0 \<notin> set ps \<and>
    (\<forall>p\<in>set ps. free_page (kend s) p) \<and> set ps \<inter> set (drop n xs) = {} \<and>
    kmem_inv s1 (drop n xs) \<and> give_pages kfree (rev ps) s1 = Ok s2 \<and> kmem_inv s2 xs"
proof -
  obtain s1 where s1: "take_pages kalloc n s = (take n xs, s1)" "kmem_inv s1 (drop n xs)"
    using ka.take_pages_inv [OF assms] by blast
  obtain s2 where "give_pages kfree (rev (take n xs)) s1 = Ok s2" "kmem_inv s2 xs"
    using ka.take_give_roundtrip [OF assms] s1(1) by auto
  then show ?thesis using s1 ka.taken_pages_distinct [OF assms s1(1)] assms(2) by auto
qed

theorem kalloc_pages_distinct_witness:
  "\<exists>s ps s1. kmem_inv s [0x80102000, 0x80101000] \<and> take_pages kalloc 2 s = (ps, s1) \<and>
    length ps = 2 \<and> distinct ps"
proof -
  have up: "PGROUNDUP 0x80100001 = 0x80101000" by (simp add: PGROUNDUP_def)
  have pages: "pages_upto 0x80101000 0x80103000 = [0x80101000, 0x80102000]"
    by (simp add: pages_upto_def upt_rec)
  obtain s where "kmem_inv s [0x80102000, 0x80101000]"
    using freerange_loop_inv [OF boot_kmem_inv, of "0x80101000" "0x80103000"]
    by (auto simp: pages boot_kmem_def page_aligned_def)
  then show ?thesis using kalloc_pages_distinct [of s "[0x80102000, 0x80101000]" 2] by fastforce
qed

end
