(* ===== verification/Vm.thy ===== *)
theory Vm
  imports Kalloc
begin

text \<open>
  Page tables, \<^verbatim>\<open>vm/vm.c\<close>. Page directories and page tables are pages of the byte memory of the
  allocator's state, read and written as 32-bit words at kernel addresses, exactly as the code does.
  Loops over pages carry a bound on their turns; \<open>PGCOUNT\<close>, the number of pages of the address
  space, is enough for each of them, and running out of it is the outcome \<open>Fault\<close>. The messages of
  \<^verbatim>\<open>cprintf\<close> are not modelled.
\<close>

section \<open>Definitions\<close>

abbreviation (input) PGCOUNT :: nat where "PGCOUNT \<equiv> 1048576"

definition pde_addr :: "uint \<Rightarrow> uint \<Rightarrow> uint" where
  "pde_addr pgdir va = pgdir + 4 * PDX va"

definition walkpgdir :: "kmem \<Rightarrow> uint \<Rightarrow> uint \<Rightarrow> bool \<Rightarrow> uint \<times> kmem" where
  "walkpgdir s pgdir va alloc =
     (let pde = pde_addr pgdir va; v = load32 (kmem_mem s) pde in
      if v AND PTE_P \<noteq> 0 then (P2V (PTE_ADDR v) + 4 * PTX va, s)
      else if \<not> alloc then (0, s)
      else let (pgtab, s) = kalloc s in
        if pgtab = 0 then (0, s)
        else let m = memset (kmem_mem s) pgtab 0 PGSIZE;
                 m = store32 m pde (V2P pgtab OR PTE_P OR PTE_W OR PTE_U)
             in (pgtab + 4 * PTX va, s\<lparr>kmem_mem := m\<rparr>))"

definition set_pte :: "kmem \<Rightarrow> uint \<Rightarrow> uint \<Rightarrow> kmem" where
  "set_pte s pte w = s\<lparr>kmem_mem := store32 (kmem_mem s) pte w\<rparr>"

text \<open>The loop of \<^verbatim>\<open>mappages\<close>; the result is the return value, \<open>0\<close> or \<open>-1\<close>.\<close>

primrec mappages_loop :: "nat \<Rightarrow> kmem \<Rightarrow> uint \<Rightarrow> uint \<Rightarrow> uint \<Rightarrow> uint \<Rightarrow> uint \<Rightarrow> (int \<times> kmem) res" where
  "mappages_loop 0 s pgdir a lastp pa perm = Fault"
| "mappages_loop (Suc k) s pgdir a lastp pa perm =
     (let (pte, s) = walkpgdir s pgdir a True in
      if pte = 0 then Ok (-1, s)
      else if load32 (kmem_mem s) pte AND PTE_P \<noteq> 0 then Panic ''remap''
      else let s = set_pte s pte (pa OR perm OR PTE_P) in
        if a = lastp then Ok (0, s)
        else mappages_loop k s pgdir (a + PGSIZE) lastp (pa + PGSIZE) perm)"

definition mappages :: "kmem \<Rightarrow> uint \<Rightarrow> uint \<Rightarrow> uint \<Rightarrow> uint \<Rightarrow> uint \<Rightarrow> (int \<times> kmem) res" where
  "mappages s pgdir va sz pa perm =
     mappages_loop PGCOUNT s pgdir (PGROUNDDOWN va) (PGROUNDDOWN (va + sz - 1)) pa perm"

text \<open>The kernel's own page directory \<^verbatim>\<open>kpgdir\<close> is an argument of the next three.\<close>

definition map_kernel_page :: "kmem \<Rightarrow> uint \<Rightarrow> uint \<Rightarrow> uint \<Rightarrow> uint \<Rightarrow> int \<times> kmem" where
  "map_kernel_page s kpgdir vaddr paddr perm =
     (let (pte, s) = walkpgdir s kpgdir vaddr True in
      if pte = 0 then (-1, s) else (0, set_pte s pte (paddr OR perm OR PTE_P)))"

definition unmap_kernel_page :: "kmem \<Rightarrow> uint \<Rightarrow> uint \<Rightarrow> kmem" where
  "unmap_kernel_page s kpgdir vaddr =
     (let (pte, s) = walkpgdir s kpgdir vaddr False in
      if pte = 0 \<or> load32 (kmem_mem s) pte AND PTE_P = 0 then s else set_pte s pte 0)"

definition kfree_and_unmap_page :: "kmem \<Rightarrow> uint \<Rightarrow> uint \<Rightarrow> kmem res" where
  "kfree_and_unmap_page s kpgdir vaddr =
     (let (pte, s) = walkpgdir s kpgdir vaddr False in
      if pte = 0 \<or> load32 (kmem_mem s) pte AND PTE_P = 0 then Ok s
      else andthen (kfree s (P2V (PTE_ADDR (load32 (kmem_mem s) pte))))
        (\<lambda>s. Ok (set_pte s pte 0)))"

text \<open>\<^verbatim>\<open>deallocuvm\<close>: the value returned is the new size.\<close>

primrec deallocuvm_loop :: "nat \<Rightarrow> kmem \<Rightarrow> uint \<Rightarrow> uint \<Rightarrow> uint \<Rightarrow> kmem res" where
  "deallocuvm_loop 0 s pgdir a oldsz = Fault"
| "deallocuvm_loop (Suc k) s pgdir a oldsz =
     (if a < oldsz
      then let (pte, s) = walkpgdir s pgdir a False in
        if pte = 0 then deallocuvm_loop k s pgdir (PGADDR (PDX a + 1) 0 0 - PGSIZE + PGSIZE) oldsz
        else if load32 (kmem_mem s) pte AND PTE_P \<noteq> 0
        then let pa = PTE_ADDR (load32 (kmem_mem s) pte) in
          if pa = 0 then Panic ''kfree''
          else andthen (kfree s (P2V pa))
            (\<lambda>s. deallocuvm_loop k (set_pte s pte 0) pgdir (a + PGSIZE) oldsz)
        else deallocuvm_loop k s pgdir (a + PGSIZE) oldsz
      else Ok s)"

definition deallocuvm :: "kmem \<Rightarrow> uint \<Rightarrow> uint \<Rightarrow> uint \<Rightarrow> (uint \<times> kmem) res" where
  "deallocuvm s pgdir oldsz newsz =
     (if newsz \<ge> oldsz then Ok (oldsz, s)
      else andthen (deallocuvm_loop PGCOUNT s pgdir (PGROUNDUP newsz) oldsz) (\<lambda>s. Ok (newsz, s)))"

text \<open>\<^verbatim>\<open>freevm\<close>, with its loop over the entries of the directory.\<close>

primrec freevm_loop :: "nat list \<Rightarrow> kmem \<Rightarrow> uint \<Rightarrow> kmem res" where
  "freevm_loop [] s pgdir = Ok s"
| "freevm_loop (i # is) s pgdir =
     (let pde = load32 (kmem_mem s) (pgdir + of_nat (4 * i)) in
      if pde AND PTE_P \<noteq> 0
      then andthen (kfree s (P2V (PTE_ADDR pde))) (\<lambda>s. freevm_loop is s pgdir)
      else freevm_loop is s pgdir)"

definition freevm :: "kmem \<Rightarrow> uint \<Rightarrow> kmem res" where
  "freevm s pgdir =
     (if pgdir = 0 then Panic ''freevm: no pgdir''
      else andthen (deallocuvm s pgdir KERNBASE 0) (\<lambda>(_, s).
        andthen (freevm_loop [0..<NPDENTRIES] s pgdir) (\<lambda>s. kfree s pgdir)))"

text \<open>The table \<^verbatim>\<open>kmap\<close>: start, physical range and permissions; \<open>kdata\<close> is the linker symbol
  \<^verbatim>\<open>data\<close>.\<close>

record kmap_entry =
  km_virt :: uint
  km_phys_start :: uint
  km_phys_end :: uint
  km_perm :: uint

definition kmap :: "uint \<Rightarrow> kmap_entry list" where
  "kmap kdata = [
     \<lparr>km_virt = KERNBASE, km_phys_start = 0, km_phys_end = EXTMEM, km_perm = PTE_W\<rparr>,
     \<lparr>km_virt = KERNLINK, km_phys_start = V2P KERNLINK, km_phys_end = V2P kdata, km_perm = 0\<rparr>,
     \<lparr>km_virt = kdata, km_phys_start = V2P kdata, km_phys_end = PHYSTOP, km_perm = PTE_W\<rparr>,
     \<lparr>km_virt = DEVSPACE, km_phys_start = DEVSPACE, km_phys_end = 0, km_perm = PTE_W\<rparr>]"

text \<open>The loop of \<^verbatim>\<open>setupkvm\<close>; the value is the page directory or the null pointer.\<close>

primrec setupkvm_loop :: "kmap_entry list \<Rightarrow> kmem \<Rightarrow> uint \<Rightarrow> (uint \<times> kmem) res" where
  "setupkvm_loop [] s pgdir = Ok (pgdir, s)"
| "setupkvm_loop (k # ks) s pgdir =
     andthen (mappages s pgdir (km_virt k) (km_phys_end k - km_phys_start k) (km_phys_start k) (km_perm k))
       (\<lambda>(r, s). if r < 0 then andthen (freevm s pgdir) (\<lambda>s. Ok (0, s)) else setupkvm_loop ks s pgdir)"

definition setupkvm :: "uint \<Rightarrow> kmem \<Rightarrow> (uint \<times> kmem) res" where
  "setupkvm kdata s =
     (let (pgdir, s) = kalloc s in
      if pgdir = 0 then Ok (0, s)
      else let s = s\<lparr>kmem_mem := memset (kmem_mem s) pgdir 0 PGSIZE\<rparr> in
        if P2V PHYSTOP > DEVSPACE then Panic ''PHYSTOP too high''
        else setupkvm_loop (kmap kdata) s pgdir)"

text \<open>\<^verbatim>\<open>inituvm\<close>; \<open>init\<close> is the array of the init code. A failing \<^verbatim>\<open>kalloc\<close> is not checked by the code
  and makes it write through the null pointer.\<close>

definition inituvm :: "kmem \<Rightarrow> uint \<Rightarrow> (nat \<Rightarrow> uchar) \<Rightarrow> uint \<Rightarrow> kmem res" where
  "inituvm s pgdir init sz =
     (if sz \<ge> PGSIZE then Panic ''inituvm: more than a page''
      else let (mem, s) = kalloc s in
        if mem = 0 then Fault
        else let s = s\<lparr>kmem_mem := memset (kmem_mem s) mem 0 PGSIZE\<rparr> in
          andthen (mappages s pgdir 0 PGSIZE (V2P mem) (PTE_W OR PTE_U)) (\<lambda>(_, s).
            Ok (s\<lparr>kmem_mem := \<lambda>x. if x - mem < sz then init (unat (x - mem)) else kmem_mem s x\<rparr>)))"

text \<open>\<^verbatim>\<open>allocuvm\<close>: the value is the new size, or \<open>0\<close>.\<close>

primrec allocuvm_loop :: "nat \<Rightarrow> kmem \<Rightarrow> uint \<Rightarrow> uint \<Rightarrow> uint \<Rightarrow> uint \<Rightarrow> (uint \<times> kmem) res" where
  "allocuvm_loop 0 s pgdir a oldsz newsz = Fault"
| "allocuvm_loop (Suc k) s pgdir a oldsz newsz =
     (if a < newsz
      then let (mem, s) = kalloc s in
        if mem = 0 then andthen (deallocuvm s pgdir newsz oldsz) (\<lambda>(_, s). Ok (0, s))
        else let s = s\<lparr>kmem_mem := memset (kmem_mem s) mem 0 PGSIZE\<rparr> in
          andthen (mappages s pgdir a PGSIZE (V2P mem) (PTE_W OR PTE_U)) (\<lambda>(r, s).
            if r < 0
            then andthen (deallocuvm s pgdir newsz oldsz) (\<lambda>(_, s).
                   andthen (kfree s mem) (\<lambda>s. Ok (0, s)))
            else allocuvm_loop k s pgdir (a + PGSIZE) oldsz newsz)
      else Ok (newsz, s))"

definition allocuvm :: "kmem \<Rightarrow> uint \<Rightarrow> uint \<Rightarrow> uint \<Rightarrow> (uint \<times> kmem) res" where
  "allocuvm s pgdir oldsz newsz =
     (if newsz \<ge> KERNBASE then Ok (0, s)
      else if newsz < oldsz then Ok (oldsz, s)
      else allocuvm_loop PGCOUNT s pgdir (PGROUNDUP oldsz) oldsz newsz)"

definition clearpteu :: "kmem \<Rightarrow> uint \<Rightarrow> uint \<Rightarrow> kmem res" where
  "clearpteu s pgdir uva =
     (let (pte, s) = walkpgdir s pgdir uva False in
      if pte = 0 then Panic ''clearpteu''
      else Ok (set_pte s pte (load32 (kmem_mem s) pte AND NOT PTE_U)))"

primrec copyuvm_loop :: "nat \<Rightarrow> kmem \<Rightarrow> uint \<Rightarrow> uint \<Rightarrow> uint \<Rightarrow> uint \<Rightarrow> (uint \<times> kmem) res" where
  "copyuvm_loop 0 s pgdir d i sz = Fault"
| "copyuvm_loop (Suc k) s pgdir d i sz =
     (if i < sz
      then let (pte, s) = walkpgdir s pgdir i False in
        if pte = 0 then Panic ''copyuvm: pte should exist''
        else let w = load32 (kmem_mem s) pte in
          if w AND PTE_P = 0 then Panic ''copyuvm: page not present''
          else let (mem, s) = kalloc s in
            if mem = 0 then andthen (freevm s d) (\<lambda>s. Ok (0, s))
            else let s = s\<lparr>kmem_mem := memmove (kmem_mem s) mem (P2V (PTE_ADDR w)) PGSIZE\<rparr> in
              andthen (mappages s d i PGSIZE (V2P mem) (PTE_FLAGS w)) (\<lambda>(r, s).
                if r < 0 then andthen (kfree s mem) (\<lambda>s. andthen (freevm s d) (\<lambda>s. Ok (0, s)))
                else copyuvm_loop k s pgdir d (i + PGSIZE) sz)
      else Ok (d, s))"

definition copyuvm :: "uint \<Rightarrow> kmem \<Rightarrow> uint \<Rightarrow> uint \<Rightarrow> (uint \<times> kmem) res" where
  "copyuvm kdata s pgdir sz = andthen (setupkvm kdata s) (\<lambda>(d, s).
     if d = 0 then Ok (0, s) else copyuvm_loop PGCOUNT s pgdir d 0 sz)"

text \<open>\<^verbatim>\<open>uva2ka\<close> reads through the pointer \<^verbatim>\<open>walkpgdir\<close> returns without a test for null.\<close>

definition uva2ka :: "kmem \<Rightarrow> uint \<Rightarrow> uint \<Rightarrow> uint res" where
  "uva2ka s pgdir uva =
     (let (pte, s) = walkpgdir s pgdir uva False in
      if pte = 0 then Fault
      else let w = load32 (kmem_mem s) pte in
        if w AND PTE_P = 0 then Ok 0
        else if w AND PTE_U = 0 then Ok 0
        else Ok (P2V (PTE_ADDR w)))"

primrec copyout_loop :: "nat \<Rightarrow> kmem \<Rightarrow> uint \<Rightarrow> uint \<Rightarrow> uint \<Rightarrow> uint \<Rightarrow> (int \<times> kmem) res" where
  "copyout_loop 0 s pgdir va buf len = Fault"
| "copyout_loop (Suc k) s pgdir va buf len =
     (if len > 0
      then let va0 = PGROUNDDOWN va in
        andthen (uva2ka s pgdir va0) (\<lambda>pa0.
          if pa0 = 0 then Ok (-1, s)
          else let n = PGSIZE - (va - va0); n = (if n > len then len else n);
                   s = s\<lparr>kmem_mem := memmove (kmem_mem s) (pa0 + (va - va0)) buf n\<rparr>
               in copyout_loop k s pgdir (va0 + PGSIZE) (buf + n) (len - n))
      else Ok (0, s))"

definition copyout :: "kmem \<Rightarrow> uint \<Rightarrow> uint \<Rightarrow> uint \<Rightarrow> uint \<Rightarrow> (int \<times> kmem) res" where
  "copyout s pgdir va p len = copyout_loop (Suc PGCOUNT) s pgdir va p len"

section \<open>Page table indices\<close>

lemma unat_PDX: "unat (PDX va) = unat va div 4194304"
proof -
  have "unat va div 4194304 < 1024" using unat_uint_bound [of va] by auto
  then show ?thesis
    by (simp add: PDX_def unat_and_low10 drop_bit_eq_div unat_div)
qed

lemma unat_PTX: "unat (PTX va) = unat va div 4096 mod 1024"
  by (simp add: PTX_def unat_and_low10 drop_bit_eq_div unat_div)

lemma PDX_bound: "unat (PDX va) < 1024"
  using unat_uint_bound [of va] by (auto simp: unat_PDX)

lemma PTX_bound: "unat (PTX va) < 1024"
  by (simp add: unat_PTX)

lemma same_page_iff:
  "PDX a = PDX b \<and> PTX a = PTX b \<longleftrightarrow> PGROUNDDOWN a = PGROUNDDOWN b"
proof -
  have "unat a div 4194304 = unat a div 4096 div 1024" "unat b div 4194304 = unat b div 4096 div 1024"
    by (simp_all add: div_mult2_eq [of _ 4096 1024, simplified])
  then have "unat a div 4194304 = unat b div 4194304 \<and>
      unat a div 4096 mod 1024 = unat b div 4096 mod 1024 \<longleftrightarrow> unat a div 4096 = unat b div 4096"
    by (metis div_mult_mod_eq)
  then show ?thesis
    by (simp add: word_unat_eq_iff unat_PDX unat_PTX unat_PGROUNDDOWN)
qed

text \<open>The word of an entry: \<open>4 * i\<close> bytes into an aligned page.\<close>

lemma unat_entry: "unat i < 1024 \<Longrightarrow> unat (4 * i :: uint) = 4 * unat i"
  by (simp add: unat_word_ariths)

lemma entry_in_page: "unat i < 1024 \<Longrightarrow> (p + 4 * i) - p < (4096 :: uint)"
  by (simp add: word_less_nat_alt unat_entry)

lemma entry_aligned:
  assumes "page_aligned p" "unat i < 1024"
  shows "aligned4 (p + 4 * i)"
proof -
  have "unat (p + 4 * i) = unat p + 4 * unat i"
    using page_aligned_room [OF assms(1)] assms(2) unat_entry [OF assms(2)]
    by (subst unat_plus_small) simp_all
  moreover have "unat p mod 4 = 0" using page_aligned4 [OF assms(1)] by (simp add: aligned4_def)
  ultimately show ?thesis by (simp add: aligned4_def mod_add_eq [symmetric])
qed

lemma entry_inj:
  assumes "unat i < 1024" "unat j < 1024" "p + 4 * i = p + 4 * (j :: uint)"
  shows "i = j"
proof -
  have "unat (4 * i) = unat (4 * j)" using assms(3) by simp
  then show ?thesis using unat_entry [OF assms(1)] unat_entry [OF assms(2)] by (simp add: word_unat_eq_iff)
qed

lemma entry_word:
  assumes "page_aligned p" "unat i < 1024" "x - (p + 4 * i) < 4"
  shows "x - p < 4096"
proof -
  have "x - p = (x - (p + 4 * i)) + 4 * i" by simp
  moreover have "unat (x - (p + 4 * i)) < 4" using assms(3) by (simp add: word_less_nat_alt)
  moreover from this have "unat (x - (p + 4 * i) + 4 * i) = unat (x - (p + 4 * i)) + unat (4 * i)"
    using unat_entry [OF assms(2)] assms(2) by (intro unat_plus_small) simp
  ultimately have "unat (x - p) = unat (x - (p + 4 * i)) + 4 * unat i" "unat (x - (p + 4 * i)) < 4"
    unfolding unat_entry [OF assms(2)] by argo+
  then show ?thesis using assms(2) by (simp add: word_less_nat_alt)
qed

section \<open>Page tables as functions\<close>

text \<open>
  The entry a page directory \<open>pd\<close> has for an address; \<open>0\<close>, which is not present, where there is no
  page table.
\<close>

definition present :: "uint \<Rightarrow> bool" where
  "present w \<longleftrightarrow> w AND PTE_P \<noteq> 0"

definition pde :: "mem \<Rightarrow> uint \<Rightarrow> uint \<Rightarrow> uint" where
  "pde m pd i = load32 m (pd + 4 * i)"

definition table :: "mem \<Rightarrow> uint \<Rightarrow> uint \<Rightarrow> uint" where
  "table m pd i = P2V (PTE_ADDR (pde m pd i))"

definition pte_addr :: "mem \<Rightarrow> uint \<Rightarrow> uint \<Rightarrow> uint" where
  "pte_addr m pd va = table m pd (PDX va) + 4 * PTX va"

definition pte_of :: "mem \<Rightarrow> uint \<Rightarrow> uint \<Rightarrow> uint" where
  "pte_of m pd va = (if present (pde m pd (PDX va)) then load32 m (pte_addr m pd va) else 0)"

text \<open>The pages a page directory consists of.\<close>

definition pt_pages :: "mem \<Rightarrow> uint \<Rightarrow> uint set" where
  "pt_pages m pd = insert pd {table m pd i | i. unat i < 1024 \<and> present (pde m pd i)}"

text \<open>
  A well-formed page directory: it and its page tables are pages of the allocator that are in use,
  and no page serves twice.
\<close>

definition pt_wf :: "uint \<Rightarrow> mem \<Rightarrow> uint \<Rightarrow> bool" where
  "pt_wf e m pd \<longleftrightarrow> (\<forall>p\<in>pt_pages m pd. free_page e p) \<and>
     (\<forall>i. unat i < 1024 \<and> present (pde m pd i) \<longrightarrow> table m pd i \<noteq> pd) \<and>
     (\<forall>i j. unat i < 1024 \<and> unat j < 1024 \<and> present (pde m pd i) \<and> present (pde m pd j) \<and>
        table m pd i = table m pd j \<longrightarrow> i = j)"

definition pt_inv :: "kmem \<Rightarrow> uint list \<Rightarrow> uint \<Rightarrow> bool" where
  "pt_inv s xs pd \<longleftrightarrow> kmem_inv s xs \<and> pt_wf (kend s) (kmem_mem s) pd \<and>
     pt_pages (kmem_mem s) pd \<inter> set xs = {}"

lemma pt_pagesI: "unat i < 1024 \<Longrightarrow> present (pde m pd i) \<Longrightarrow> table m pd i \<in> pt_pages m pd"
  by (auto simp: pt_pages_def)

lemma pd_in_pt_pages [simp]: "pd \<in> pt_pages m pd"
  by (simp add: pt_pages_def)

lemma pt_wf_aligned: "pt_wf e m pd \<Longrightarrow> p \<in> pt_pages m pd \<Longrightarrow> page_aligned p"
  by (auto simp: pt_wf_def free_page_def)

lemma pt_wf_nonnull: "pt_wf e m pd \<Longrightarrow> p \<in> pt_pages m pd \<Longrightarrow> p \<noteq> 0"
  using free_page_nonnull by (auto simp: pt_wf_def)

text \<open>Two memories that agree on a page agree on its entries.\<close>

lemma entry_cong:
  assumes "page_aligned p" "unat i < 1024" "\<And>x. x - p < 4096 \<Longrightarrow> m' x = m x"
  shows "load32 m' (p + 4 * i) = load32 m (p + 4 * i)"
  using entry_word [OF assms(1,2)] assms(3) by (intro load32_cong) blast

lemma pt_frame:
  assumes "pt_wf e m pd" "\<forall>p\<in>pt_pages m pd. \<forall>x. x - p < 4096 \<longrightarrow> m' x = m x"
  shows "unat i < 1024 \<Longrightarrow> pde m' pd i = pde m pd i" "pt_pages m' pd = pt_pages m pd"
    "pte_of m' pd va = pte_of m pd va" "pt_wf e m' pd"
proof -
  have pd: "page_aligned pd" using pt_wf_aligned [OF assms(1)] by simp
  have d: "pde m' pd i = pde m pd i" if "unat i < 1024" for i
    unfolding pde_def using pd that assms(2) by (intro entry_cong) auto
  then show "unat i < 1024 \<Longrightarrow> pde m' pd i = pde m pd i" .
  have t: "table m' pd i = table m pd i" if "unat i < 1024" for i using d [OF that] by (simp add: table_def)
  show pg: "pt_pages m' pd = pt_pages m pd" using d t by (force simp: pt_pages_def)
  have "load32 m' (pte_addr m pd va) = load32 m (pte_addr m pd va)" if "present (pde m pd (PDX va))"
    unfolding pte_addr_def using pt_pagesI [OF PDX_bound that] pt_wf_aligned [OF assms(1)] assms(2)
    by (intro entry_cong PTX_bound) auto
  then show "pte_of m' pd va = pte_of m pd va"
    using d [OF PDX_bound, of va] t [OF PDX_bound, of va] by (simp add: pte_of_def pte_addr_def)
  show "pt_wf e m' pd" using assms(1) pg d t by (auto simp: pt_wf_def)
qed

text \<open>A write into one entry of a page.\<close>

lemma store_entry_frame:
  assumes "page_aligned p" "unat i < 1024" "\<not> x - p < 4096"
  shows "store32 m (p + 4 * i) w x = m x"
  using entry_word [OF assms(1,2)] assms(3) by (intro store32_other) blast

lemma load_store_entry:
  assumes "page_aligned p" "page_aligned q" "unat i < 1024" "unat j < 1024"
  shows "load32 (store32 m (p + 4 * i) w) (q + 4 * j) =
    (if p = q \<and> i = j then w else load32 m (q + 4 * j))"
proof (cases "p = q")
  case True
  show ?thesis
  proof (cases "i = j")
    case False
    then have "p + 4 * i \<noteq> p + 4 * j" using entry_inj [OF assms(3,4), of p] by blast
    then show ?thesis
      using load32_store32_other entry_aligned [OF assms(1,3)] entry_aligned [OF assms(1,4)] True False
      by auto
  qed (use True in simp)
next
  case False
  have "load32 (store32 m (p + 4 * i) w) (q + 4 * j) = load32 m (q + 4 * j)"
  proof (rule entry_cong [OF assms(2,4)])
    fix x assume "x - q < 4096"
    then have "\<not> x - p < 4096" using pages_disjoint assms(1,2) False by blast
    then show "store32 m (p + 4 * i) w x = m x" using store_entry_frame assms by blast
  qed
  then show ?thesis using False by simp
qed

lemma kmem_inv_frame:
  assumes "kmem_inv s xs" "page_aligned p" "p \<notin> set xs" "\<And>x. \<not> x - p < 4096 \<Longrightarrow> m' x = kmem_mem s x"
  shows "kmem_inv (s\<lparr>kmem_mem := m'\<rparr>) xs"
proof -
  have "load32 m' x = load32 (kmem_mem s) x" if "x \<in> set xs" for x
    using that assms by (intro load32_other_page [where v = p]) (auto simp: kmem_inv_def free_page_def)
  then show ?thesis using assms(1) linked_cong by (fastforce simp: kmem_inv_def)
qed

text \<open>Writing the entry of an address whose page table exists.\<close>

lemma set_pte_spec:
  fixes w :: uint
  assumes "pt_inv s xs pd" "present (pde (kmem_mem s) pd (PDX va))"
  defines "m \<equiv> kmem_mem s" and "t \<equiv> table (kmem_mem s) pd (PDX va)"
  defines "s' \<equiv> set_pte s (pte_addr (kmem_mem s) pd va) w"
  shows "pt_inv s' xs pd" "pt_pages (kmem_mem s') pd = pt_pages m pd"
    "unat i < 1024 \<Longrightarrow> pde (kmem_mem s') pd i = pde m pd i"
    "pte_of (kmem_mem s') pd va' = (if PGROUNDDOWN va' = PGROUNDDOWN va then w else pte_of m pd va')"
    "\<not> x - t < 4096 \<Longrightarrow> kmem_mem s' x = m x"
proof -
  have wf: "pt_wf (kend s) m pd" using assms(1) by (simp add: pt_inv_def m_def)
  have t: "t \<in> pt_pages m pd" using pt_pagesI [OF PDX_bound assms(2)] by (simp add: t_def m_def)
  have al: "page_aligned t" "page_aligned pd" using pt_wf_aligned [OF wf] t by auto
  have tpd: "t \<noteq> pd" using wf assms(2) PDX_bound by (auto simp: pt_wf_def t_def m_def)
  have m': "kmem_mem s' = store32 m (t + 4 * PTX va) w"
    by (simp add: s'_def set_pte_def pte_addr_def m_def t_def)
  show fr: "kmem_mem s' x = m x" if "\<not> x - t < 4096" for x
    unfolding m' using al(1) PTX_bound that by (rule store_entry_frame)
  have d: "pde (kmem_mem s') pd i = pde m pd i" if "unat i < 1024" for i
    unfolding pde_def m' using load_store_entry [OF al(1,2) PTX_bound that] tpd by simp
  then show "unat i < 1024 \<Longrightarrow> pde (kmem_mem s') pd i = pde m pd i" .
  have tb: "table (kmem_mem s') pd i = table m pd i" if "unat i < 1024" for i
    using d [OF that] by (simp add: table_def)
  show pg: "pt_pages (kmem_mem s') pd = pt_pages m pd" using d tb by (force simp: pt_pages_def)
  show "pte_of (kmem_mem s') pd va' = (if PGROUNDDOWN va' = PGROUNDDOWN va then w else pte_of m pd va')"
  proof (cases "present (pde m pd (PDX va'))")
    case True
    let ?t = "table m pd (PDX va')"
    have al': "page_aligned ?t" using pt_wf_aligned [OF wf pt_pagesI [OF PDX_bound True]] .
    have "t = ?t \<longleftrightarrow> PDX va = PDX va'"
      using wf True assms(2) PDX_bound unfolding pt_wf_def t_def m_def by metis
    then have "load32 (kmem_mem s') (?t + 4 * PTX va') =
        (if PDX va = PDX va' \<and> PTX va = PTX va' then w else load32 m (?t + 4 * PTX va'))"
      unfolding m' using load_store_entry [OF al(1) al' PTX_bound PTX_bound] by simp
    then show ?thesis
      using True d [OF PDX_bound, of va'] tb [OF PDX_bound, of va'] same_page_iff [of va va']
      by (auto simp: pte_of_def pte_addr_def)
  next
    case False
    then have "PDX va' \<noteq> PDX va" using assms(2) by (auto simp: m_def)
    then show ?thesis using False d [OF PDX_bound, of va'] same_page_iff [of va va'] by (auto simp: pte_of_def)
  qed
  have "kmem_inv s' xs"
    using kmem_inv_frame [of s xs t "kmem_mem s'"] assms(1) al(1) t fr
    by (auto simp: pt_inv_def m_def s'_def set_pte_def)
  moreover have "pt_wf (kend s) (kmem_mem s') pd" using wf pg d tb by (auto simp: pt_wf_def)
  ultimately show "pt_inv s' xs pd" using assms(1) pg by (simp add: pt_inv_def m_def s'_def set_pte_def)
qed

section \<open>Entries\<close>

lemma present_iff: "present w \<longleftrightarrow> odd w"
  by (simp add: present_def and_one_eq odd_iff_mod_2_eq_one even_iff_mod_2_eq_zero)

lemma present_or [simp]: "present (a OR b) \<longleftrightarrow> present a \<or> present b" "present 1" "\<not> present 0"
  by (simp_all add: present_iff even_or_iff)

lemma PTE_ADDR_or: "PTE_ADDR (a OR b) = PTE_ADDR a OR PTE_ADDR b"
  by (simp add: PTE_ADDR_def bit.conj_disj_distrib2)

lemma PTE_ADDR_aligned: "page_aligned a \<Longrightarrow> PTE_ADDR a = a"
  using page_aligned_mult [of a] by (simp add: word_unat_eq_iff unat_PTE_ADDR mult.commute)

lemma PTE_ADDR_flags: "f < 4096 \<Longrightarrow> PTE_ADDR f = 0"
  by (simp add: word_unat_eq_iff unat_PTE_ADDR word_less_nat_alt)

lemma V2P_aligned:
  assumes "free_page e v"
  shows "page_aligned (V2P v)"
proof -
  have "unat (V2P v + 0x80000000) = unat (V2P v) + 0x80000000"
    using assms by (subst unat_plus_small) (simp_all add: free_page_def word_less_nat_alt)
  then have "unat v = unat (V2P v) + 524288 * 4096" by (simp add: V2P_def)
  then have "unat v mod 4096 = unat (V2P v) mod 4096" by (metis mod_mult_self1)
  then show ?thesis using assms by (simp add: free_page_def page_aligned_def)
qed

lemma entry_page:
  assumes "free_page e v" "f < 4096"
  shows "P2V (PTE_ADDR (V2P v OR f)) = v"
  using PTE_ADDR_aligned [OF V2P_aligned [OF assms(1)]] PTE_ADDR_flags [OF assms(2)]
  by (simp add: PTE_ADDR_or)

section \<open>Walking\<close>

lemma walk_present:
  "present (pde (kmem_mem s) pd (PDX va)) \<Longrightarrow>
     walkpgdir s pd va alloc = (pte_addr (kmem_mem s) pd va, s)"
  by (simp add: walkpgdir_def pde_addr_def pde_def present_def pte_addr_def table_def Let_def)

lemma walk_absent: "\<not> present (pde (kmem_mem s) pd (PDX va)) \<Longrightarrow> walkpgdir s pd va False = (0, s)"
  by (simp add: walkpgdir_def pde_addr_def pde_def present_def Let_def)

lemma walk_full:
  "\<not> present (pde (kmem_mem s) pd (PDX va)) \<Longrightarrow> kmem_inv s [] \<Longrightarrow> walkpgdir s pd va True = (0, s)"
  by (simp add: walkpgdir_def pde_addr_def pde_def present_def Let_def kalloc_empty)

lemma pte_addr_nonnull:
  assumes "pt_wf e m pd" "present (pde m pd (PDX va))"
  shows "pte_addr m pd va \<noteq> 0"
proof -
  let ?t = "table m pd (PDX va)"
  have t: "free_page e ?t" "page_aligned ?t"
    using assms pt_pagesI [OF PDX_bound assms(2)] pt_wf_aligned by (auto simp: pt_wf_def)
  have "unat (?t + 4 * PTX va) = unat ?t + 4 * unat (PTX va)"
    using page_aligned_room [OF t(2)] PTX_bound [of va] unat_entry [OF PTX_bound, of va]
    by (subst unat_plus_small) simp_all
  moreover have "unat ?t \<noteq> 0" using free_page_nonnull [OF t(1)] by (simp add: unat_eq_zero)
  ultimately show ?thesis unfolding pte_addr_def by (metis add_is_0 unat_0)
qed

text \<open>Adding an empty page table \<open>x\<close> to the directory.\<close>

lemma add_table:
  assumes wf: "pt_wf e m pd" and x: "free_page e x" "x \<notin> pt_pages m pd"
    and np: "\<not> present (pde m pd (PDX va))" and f: "f < 4096" "present f"
  defines "m' \<equiv> store32 (memset m x 0 4096) (pd + 4 * PDX va) (V2P x OR f)"
  shows "pt_wf e m' pd" "pt_pages m' pd = insert x (pt_pages m pd)"
    "present (pde m' pd (PDX va))" "table m' pd (PDX va) = x" "pte_of m' pd va' = pte_of m pd va'"
    "\<not> y - pd < 4096 \<Longrightarrow> \<not> y - x < 4096 \<Longrightarrow> m' y = m y"
proof -
  have al: "page_aligned pd" "page_aligned x"
    using pt_wf_aligned [OF wf] x(1) by (auto simp: free_page_def)
  have xpd: "x \<noteq> pd" using x(2) by auto
  have fr: "m' y = memset m x 0 4096 y" if "\<not> y - pd < 4096" for y
    unfolding m'_def using al(1) PDX_bound that by (rule store_entry_frame)
  then show frame: "m' y = m y" if "\<not> y - pd < 4096" "\<not> y - x < 4096" for y using that by (simp add: memset_eq)
  have d: "pde m' pd i = (if i = PDX va then V2P x OR f else pde m pd i)" if "unat i < 1024" for i
  proof -
    have "load32 (memset m x 0 4096) (pd + 4 * i) = load32 m (pd + 4 * i)"
      using al(1) that pages_disjoint [OF al xpd [symmetric]] by (intro entry_cong) (simp_all add: memset_eq)
    then show ?thesis
      unfolding pde_def m'_def using load_store_entry [OF al(1,1) PDX_bound that] by auto
  qed
  show p: "present (pde m' pd (PDX va))" and t: "table m' pd (PDX va) = x"
    using d [OF PDX_bound] f(2) entry_page [OF x(1) f(1)] by (simp_all add: table_def)
  have tb: "table m' pd i = (if i = PDX va then x else table m pd i)" if "unat i < 1024" for i
    using d [OF that] t by (auto simp: table_def)
  show pg: "pt_pages m' pd = insert x (pt_pages m pd)"
  proof (intro equalityI subsetI)
    fix p assume "p \<in> pt_pages m' pd"
    then show "p \<in> insert x (pt_pages m pd)" using d tb by (auto simp: pt_pages_def split: if_splits)
  next
    fix p assume "p \<in> insert x (pt_pages m pd)"
    then consider "p = x" | "p = pd" | i where "unat i < 1024" "present (pde m pd i)" "p = table m pd i"
      by (auto simp: pt_pages_def)
    then show "p \<in> pt_pages m' pd"
    proof cases
      case 1
      then show ?thesis using pt_pagesI [OF PDX_bound p] t by simp
    next
      case 3
      moreover from this have "i \<noteq> PDX va" using np by auto
      ultimately show ?thesis using pt_pagesI [of i m' pd] d tb by simp
    qed simp
  qed
  have no_x: "table m pd i \<noteq> x" if "unat i < 1024" "present (pde m pd i)" for i
    using x(2) pt_pagesI [OF that] by auto
  have "table m' pd i \<noteq> pd" if "unat i < 1024" "present (pde m' pd i)" for i
    using that wf xpd d [OF that(1)] tb [OF that(1)] by (cases "i = PDX va") (auto simp: pt_wf_def)
  moreover have "i = j" if "unat i < 1024" "unat j < 1024" "present (pde m' pd i)" "present (pde m' pd j)"
      "table m' pd i = table m' pd j" for i j
  proof (cases "i = PDX va \<or> j = PDX va")
    case True
    then show ?thesis using that d [OF that(1)] d [OF that(2)] tb [OF that(1)] tb [OF that(2)] no_x
      by (metis (full_types))
  next
    case False
    then have "present (pde m pd i)" "present (pde m pd j)" "table m pd i = table m pd j"
      using that d [OF that(1)] d [OF that(2)] tb [OF that(1)] tb [OF that(2)] by simp_all
    then show ?thesis using wf that(1,2) unfolding pt_wf_def by blast
  qed
  moreover have "\<forall>p\<in>pt_pages m' pd. free_page e p" unfolding pg using wf x(1) by (simp add: pt_wf_def)
  ultimately show "pt_wf e m' pd" unfolding pt_wf_def by blast
  show "pte_of m' pd va' = pte_of m pd va'"
  proof (cases "PDX va' = PDX va")
    case True
    have "load32 m' (x + 4 * PTX va') = load32 (\<lambda>_. 0) (x + 4 * PTX va')"
      using fr pages_disjoint [OF al(2,1) xpd] by (intro entry_cong [OF al(2) PTX_bound]) (simp add: memset_eq)
    then show ?thesis using True np p t by (simp add: pte_of_def pte_addr_def load32_def)
  next
    case False
    let ?t = "table m pd (PDX va')"
    have eq: "pde m' pd (PDX va') = pde m pd (PDX va')" "table m' pd (PDX va') = ?t"
      using False d [OF PDX_bound] tb [OF PDX_bound] by auto
    have "load32 m' (?t + 4 * PTX va') = load32 m (?t + 4 * PTX va')" if "present (pde m pd (PDX va'))"
    proof (rule entry_cong [OF _ PTX_bound])
      have t': "?t \<in> pt_pages m pd" "?t \<noteq> pd" "?t \<noteq> x"
        using pt_pagesI [OF PDX_bound that] wf that PDX_bound no_x [OF PDX_bound that] by (auto simp: pt_wf_def)
      show al': "page_aligned ?t" using pt_wf_aligned [OF wf t'(1)] .
      show "m' y = m y" if "y - ?t < 4096" for y
        using frame pages_disjoint [OF al' al(1) t'(2) that] pages_disjoint [OF al' al(2) t'(3) that] by blast
    qed
    then show ?thesis using eq by (simp add: pte_of_def pte_addr_def)
  qed
qed

section \<open>Steps of a page directory\<close>

text \<open>
  A change of the page directory \<open>pd\<close> that may take pages from the front of the free list for page
  tables and writes only to the pages of the directory.
\<close>

definition outside :: "uint set \<Rightarrow> uint \<Rightarrow> bool" where
  "outside P y \<longleftrightarrow> (\<forall>p\<in>P. \<not> y - p < 4096)"

definition pt_step :: "uint \<Rightarrow> kmem \<Rightarrow> uint list \<Rightarrow> kmem \<Rightarrow> uint list \<Rightarrow> bool" where
  "pt_step pd s xs s' ys \<longleftrightarrow> pt_inv s' ys pd \<and> kend s' = kend s \<and> kmem_use_lock s' = kmem_use_lock s \<and>
     (\<exists>zs. xs = zs @ ys \<and> pt_pages (kmem_mem s') pd = pt_pages (kmem_mem s) pd \<union> set zs) \<and>
     (\<forall>y. outside (pt_pages (kmem_mem s') pd) y \<longrightarrow> kmem_mem s' y = kmem_mem s y)"

lemma pt_step_refl: "pt_inv s xs pd \<Longrightarrow> pt_step pd s xs s xs"
  by (simp add: pt_step_def)

lemma pt_step_trans: "pt_step pd s xs s' ys \<Longrightarrow> pt_step pd s' ys s'' zs \<Longrightarrow> pt_step pd s xs s'' zs"
proof -
  assume 1: "pt_step pd s xs s' ys" and 2: "pt_step pd s' ys s'' zs"
  obtain us where us: "xs = us @ ys" "pt_pages (kmem_mem s') pd = pt_pages (kmem_mem s) pd \<union> set us"
    using 1 by (auto simp: pt_step_def)
  obtain vs where vs: "ys = vs @ zs" "pt_pages (kmem_mem s'') pd = pt_pages (kmem_mem s') pd \<union> set vs"
    using 2 by (auto simp: pt_step_def)
  have "outside (pt_pages (kmem_mem s') pd) y" if "outside (pt_pages (kmem_mem s'') pd) y" for y
    using that vs(2) by (auto simp: outside_def)
  then have "\<forall>y. outside (pt_pages (kmem_mem s'') pd) y \<longrightarrow> kmem_mem s'' y = kmem_mem s y"
    using 1 2 by (simp add: pt_step_def)
  moreover have "xs = (us @ vs) @ zs" "pt_pages (kmem_mem s'') pd = pt_pages (kmem_mem s) pd \<union> set (us @ vs)"
    using us vs by auto
  ultimately show ?thesis using 1 2 unfolding pt_step_def by metis
qed

lemma walk_alloc:
  assumes "pt_inv s xs pd"
  shows "(walkpgdir s pd va True = (0, s) \<and> xs = [] \<and> \<not> present (pde (kmem_mem s) pd (PDX va))) \<or>
    (\<exists>s' ys. walkpgdir s pd va True = (pte_addr (kmem_mem s') pd va, s') \<and> pt_step pd s xs s' ys \<and>
      present (pde (kmem_mem s') pd (PDX va)) \<and>
      (\<forall>va'. pte_of (kmem_mem s') pd va' = pte_of (kmem_mem s) pd va'))"
proof (cases "present (pde (kmem_mem s) pd (PDX va))")
  case True
  then show ?thesis using walk_present pt_step_refl [OF assms] by blast
next
  case np: False
  show ?thesis
  proof (cases xs)
    case Nil
    then show ?thesis using np walk_full assms by (simp add: pt_inv_def)
  next
    case (Cons x ys)
    let ?m = "kmem_mem s" and ?f = "7 :: uint"
    let ?m' = "store32 (memset ?m x 0 4096) (pd + 4 * PDX va) (V2P x OR ?f)"
    define s1 where "s1 = s\<lparr>kmem_freelist := load32 ?m x\<rparr>"
    have k: "kalloc s = (x, s1)" "kmem_inv s1 ys"
      using kalloc_cons [of s x ys] assms Cons by (auto simp: pt_inv_def s1_def)
    have wf: "pt_wf (kend s) ?m pd" using assms by (simp add: pt_inv_def)
    have x: "free_page (kend s) x" "x \<notin> pt_pages ?m pd" "x \<notin> set ys" "page_aligned x"
      using assms Cons by (auto simp: pt_inv_def kmem_inv_def free_page_def)
    have f: "?f < 4096" "present ?f" by (simp_all add: present_iff)
    note t = add_table [OF wf x(1,2) np f]
    have "pt_pages ?m pd \<inter> set (x # ys) = {}" using assms Cons by (simp only: pt_inv_def)
    then have pd: "page_aligned pd" "pd \<notin> set ys"
      using pt_wf_aligned [OF wf] pd_in_pt_pages [of pd ?m] unfolding list.set(2) by blast+
    have "kmem_inv (s1\<lparr>kmem_mem := memset ?m x 0 4096\<rparr>) ys"
      using kmem_inv_frame [OF k(2) x(4,3), of "memset ?m x 0 4096"] by (simp add: s1_def memset_eq)
    from kmem_inv_frame [OF this pd, of ?m'] have "kmem_inv (s1\<lparr>kmem_mem := ?m'\<rparr>) ys"
      using store_entry_frame [OF pd(1) PDX_bound] by simp
    moreover have "pt_pages ?m' pd \<inter> set ys = {}"
      using assms Cons x(3) unfolding t(2) pt_inv_def by auto
    ultimately have inv: "pt_inv (s1\<lparr>kmem_mem := ?m'\<rparr>) ys pd"
      using t(1) by (simp add: pt_inv_def s1_def)
    have w: "walkpgdir s pd va True = (x + 4 * PTX va, s1\<lparr>kmem_mem := ?m'\<rparr>)"
      using np k(1) free_page_nonnull [OF x(1)]
      by (simp add: walkpgdir_def pde_addr_def pde_def present_def Let_def s1_def)
    have "outside (pt_pages ?m' pd) y \<longrightarrow> ?m' y = ?m y" for y
      using t(6) unfolding t(2) outside_def by simp
    then have "pt_step pd s xs (s1\<lparr>kmem_mem := ?m'\<rparr>) ys"
      using inv Cons t(2) by (simp add: pt_step_def s1_def exI [of _ "[x]"])
    then show ?thesis using w t(3-5) by (auto simp: pte_addr_def)
  qed
qed

section \<open>Mapping\<close>

text \<open>Page numbers: differences of page addresses are multiples of the page size.\<close>

lemma page_aligned_dvd: "page_aligned a \<longleftrightarrow> 4096 dvd unat a"
  by (simp add: page_aligned_def mod_eq_0_iff_dvd)

lemma page_aligned_diff: "page_aligned a \<Longrightarrow> page_aligned b \<Longrightarrow> page_aligned (a - b)"
  by (auto simp: page_aligned_dvd unat_sub_if' intro: dvd_diff_nat)

lemma page_aligned_sum: "page_aligned a \<Longrightarrow> page_aligned b \<Longrightarrow> page_aligned (a + b)"
  by (auto simp: page_aligned_dvd unat_word_ariths intro: dvd_mod)

lemma page_diff_step:
  assumes "page_aligned x" "page_aligned y" "x \<noteq> y"
  shows "unat (x - y) = unat (x - (y + 4096)) + 4096"
proof -
  have "unat (x - y) \<noteq> 0" using assms(3) by (simp add: unat_eq_zero)
  moreover have "unat (x - y) mod 4096 = 0"
    using page_aligned_diff [OF assms(1,2)] by (simp add: page_aligned_def)
  ultimately have le: "4096 \<le> unat (x - y)" by (metis mod_less not_le)
  then have "unat ((x - y) - 4096) = unat (x - y) - 4096"
    by (subst unat_minus_small) (simp_all add: word_le_nat_alt)
  then show ?thesis using le by (simp add: diff_diff_eq)
qed

lemma map_one:
  assumes "pt_inv s xs pd" "walkpgdir s pd a True = (p, s1)" "p \<noteq> 0"
  shows "\<exists>ys. pt_step pd s xs (set_pte s1 p w) ys \<and> load32 (kmem_mem s1) p = pte_of (kmem_mem s) pd a \<and>
    (\<forall>va. pte_of (kmem_mem (set_pte s1 p w)) pd va =
      (if PGROUNDDOWN va = PGROUNDDOWN a then w else pte_of (kmem_mem s) pd va))"
proof -
  obtain ys where ys: "p = pte_addr (kmem_mem s1) pd a" "pt_step pd s xs s1 ys"
    "present (pde (kmem_mem s1) pd (PDX a))" "\<And>va. pte_of (kmem_mem s1) pd va = pte_of (kmem_mem s) pd va"
    using walk_alloc [OF assms(1), of a] assms(2,3) by auto
  have inv: "pt_inv s1 ys pd" using ys(2) by (simp add: pt_step_def)
  note sp = set_pte_spec [OF inv ys(3), where w = w, folded ys(1)]
  have t: "table (kmem_mem s1) pd (PDX a) \<in> pt_pages (kmem_mem s1) pd" using pt_pagesI [OF PDX_bound ys(3)] .
  have "pt_step pd s1 ys (set_pte s1 p w) ys"
    using sp(1,2,5) t by (auto simp: pt_step_def outside_def set_pte_def)
  then have "pt_step pd s xs (set_pte s1 p w) ys" using ys(2) pt_step_trans by blast
  moreover have "load32 (kmem_mem s1) p = pte_of (kmem_mem s) pd a"
    using ys(1,3) ys(4) [of a] by (simp add: pte_of_def)
  ultimately show ?thesis using sp(4) ys(4) by auto
qed

lemma mappages_loop_spec:
  assumes "pt_inv s xs pd" "page_aligned a" "page_aligned b" "unat (b - a) div 4096 < k"
    "\<And>va. PGROUNDDOWN va - a \<le> b - a \<Longrightarrow> \<not> present (pte_of (kmem_mem s) pd va)"
  shows "\<exists>r s' ys lim. mappages_loop k s pd a b pa perm = Ok (r, s') \<and> pt_step pd s xs s' ys \<and>
    (r = 0 \<and> lim = unat (b - a) + 1 \<or> r = -1 \<and> ys = [] \<and> lim \<le> unat (b - a)) \<and>
    (\<forall>va. pte_of (kmem_mem s') pd va =
      (if unat (PGROUNDDOWN va - a) < lim then (pa + (PGROUNDDOWN va - a)) OR perm OR PTE_P
       else pte_of (kmem_mem s) pd va))"
  using assms
proof (induction k arbitrary: s xs a pa)
  case (Suc k)
  obtain p s1 where w: "walkpgdir s pd a True = (p, s1)" by fastforce
  show ?case
  proof (cases "p = 0")
    case True
    have "s1 = s" "xs = []"
      using walk_alloc [OF Suc.prems(1), of a] w True pte_addr_nonnull
      by (auto simp: pt_step_def pt_inv_def)
    then show ?thesis using w True pt_step_refl Suc.prems(1)
      by (intro exI [of _ "-1"] exI [of _ s] exI [of _ "[]"] exI [of _ 0]) simp
  next
    case False
    let ?w = "pa OR perm OR PTE_P"
    define s2 where "s2 = set_pte s1 p ?w"
    obtain ys where ys: "pt_step pd s xs s2 ys" "load32 (kmem_mem s1) p = pte_of (kmem_mem s) pd a"
      "\<And>va. pte_of (kmem_mem s2) pd va = (if PGROUNDDOWN va = PGROUNDDOWN a then ?w else pte_of (kmem_mem s) pd va)"
      using map_one [OF Suc.prems(1) w False, of ?w] by (auto simp: s2_def)
    have a: "PGROUNDDOWN a = a" using Suc.prems(2) PTE_ADDR_aligned by (simp add: PGROUNDDOWN_def PTE_ADDR_def)
    have "\<not> present (pte_of (kmem_mem s) pd a)" using Suc.prems(5) [of a] a by simp
    then have step: "mappages_loop (Suc k) s pd a b pa perm =
        (if a = b then Ok (0, s2) else mappages_loop k s2 pd (a + 4096) b (pa + 4096) perm)"
      using w False ys(2) by (simp add: present_def s2_def)
    show ?thesis
    proof (cases "a = b")
      case True
      have "unat (PGROUNDDOWN va - a) < 1 \<longleftrightarrow> PGROUNDDOWN va = a" for va
        by (simp add: unat_eq_zero)
      then show ?thesis using step True ys(1,3) a
        by (intro exI [of _ 0] exI [of _ s2] exI [of _ ys] exI [of _ 1]) auto
    next
      case ne: False
      let ?a = "a + 4096"
      have inv: "pt_inv s2 ys pd" using ys(1) by (simp add: pt_step_def)
      have al: "page_aligned ?a" using Suc.prems(2) by (intro page_aligned_sum) (simp_all add: page_aligned_def)
      have b: "unat (b - a) = unat (b - ?a) + 4096" using page_diff_step Suc.prems(2,3) ne by metis
      then have k: "unat (b - ?a) div 4096 < k" using Suc.prems(4) by simp
      have "a - ?a = 0xFFFFF000" by simp
      then have far: "unat (a - ?a) = 2 ^ 32 - 4096" by (simp only:) simp
      have here: "unat (PGROUNDDOWN va - a) = unat (PGROUNDDOWN va - ?a) + 4096" if "PGROUNDDOWN va \<noteq> a" for va
        using page_diff_step [OF _ Suc.prems(2) that] by simp
      have bb: "unat (b - ?a) < 2 ^ 32 - 4096" using b unat_uint_bound [of "b - a"] by simp
      have np: "\<not> present (pte_of (kmem_mem s2) pd va)" if "PGROUNDDOWN va - ?a \<le> b - ?a" for va
      proof -
        have "PGROUNDDOWN va \<noteq> a" using that far bb by (auto simp: word_le_nat_alt)
        then show ?thesis using ys(3) [of va] a here b that Suc.prems(5) [of va] by (simp add: word_le_nat_alt)
      qed
      obtain r s' zs lim where r: "mappages_loop k s2 pd ?a b (pa + 4096) perm = Ok (r, s')"
        "pt_step pd s2 ys s' zs"
        "r = 0 \<and> lim = unat (b - ?a) + 1 \<or> r = -1 \<and> zs = [] \<and> lim \<le> unat (b - ?a)"
        "\<And>va. pte_of (kmem_mem s') pd va =
          (if unat (PGROUNDDOWN va - ?a) < lim then ((pa + 4096) + (PGROUNDDOWN va - ?a)) OR perm OR PTE_P
           else pte_of (kmem_mem s2) pd va)"
        using Suc.IH [OF inv al Suc.prems(3) k np, of "pa + 4096"] by blast
      have "pte_of (kmem_mem s') pd va =
          (if unat (PGROUNDDOWN va - a) < lim + 4096 then (pa + (PGROUNDDOWN va - a)) OR perm OR PTE_P
           else pte_of (kmem_mem s) pd va)" for va
        using r(3) r(4) [of va] ys(3) [of va] a far bb here [of va]
        by (cases "PGROUNDDOWN va = a") (auto simp: algebra_simps)
      then show ?thesis using step ne r(1,3) b pt_step_trans [OF ys(1) r(2)]
        by (intro exI [of _ r] exI [of _ s'] exI [of _ zs] exI [of _ "lim + 4096"]) auto
    qed
  qed
qed simp

lemma mappages_spec:
  assumes "pt_inv s xs pd"
    "\<And>a. PGROUNDDOWN a - PGROUNDDOWN va \<le> PGROUNDDOWN (va + sz - 1) - PGROUNDDOWN va \<Longrightarrow>
      \<not> present (pte_of (kmem_mem s) pd a)"
  shows "\<exists>r s' ys lim. mappages s pd va sz pa perm = Ok (r, s') \<and> pt_step pd s xs s' ys \<and>
    (r = 0 \<and> lim = unat (PGROUNDDOWN (va + sz - 1) - PGROUNDDOWN va) + 1 \<or>
     r = -1 \<and> ys = [] \<and> lim \<le> unat (PGROUNDDOWN (va + sz - 1) - PGROUNDDOWN va)) \<and>
    (\<forall>a. pte_of (kmem_mem s') pd a =
      (if unat (PGROUNDDOWN a - PGROUNDDOWN va) < lim
       then (pa + (PGROUNDDOWN a - PGROUNDDOWN va)) OR perm OR PTE_P
       else pte_of (kmem_mem s) pd a))"
proof -
  have "unat (PGROUNDDOWN (va + sz - 1) - PGROUNDDOWN va) div 4096 < PGCOUNT"
    using unat_uint_bound by (intro less_mult_imp_div_less) simp
  then show ?thesis unfolding mappages_def using assms by (intro mappages_loop_spec) auto
qed

section \<open>Properties\<close>

text \<open>C20: \<^verbatim>\<open>mappages\<close> on a well-formed page directory returns, without a \<^verbatim>\<open>remap\<close> panic when none of the
  pages is mapped yet. It maps the pages of the range, in order and from the first on, to consecutive
  physical pages: all of them when it returns \<open>0\<close>, and only some when it runs out of pages and returns
  \<open>-1\<close>. The entries of all other addresses and the memory outside the page directory stay as they
  were, and the pages it uses for page tables come from the free list.\<close>

theorem mappages_correct:
  assumes "pt_inv s xs pd"
    and "\<And>a. PGROUNDDOWN a - PGROUNDDOWN va \<le> PGROUNDDOWN (va + sz - 1) - PGROUNDDOWN va \<Longrightarrow>
      \<not> present (pte_of (kmem_mem s) pd a)"
  shows "\<exists>r s' ys lim. mappages s pd va sz pa perm = Ok (r, s') \<and> pt_step pd s xs s' ys \<and>
    (r = 0 \<and> lim = unat (PGROUNDDOWN (va + sz - 1) - PGROUNDDOWN va) + 1 \<or>
     r = -1 \<and> ys = [] \<and> lim \<le> unat (PGROUNDDOWN (va + sz - 1) - PGROUNDDOWN va)) \<and>
    (\<forall>a. pte_of (kmem_mem s') pd a =
      (if unat (PGROUNDDOWN a - PGROUNDDOWN va) < lim
       then (pa + (PGROUNDDOWN a - PGROUNDDOWN va)) OR perm OR PTE_P
       else pte_of (kmem_mem s) pd a))"
  using assms by (rule mappages_spec)

text \<open>A machine with zeroed memory, one free page, and an empty page directory.\<close>

definition demo_kmem :: kmem where
  "demo_kmem = \<lparr>kmem_mem = (\<lambda>_. 0), kmem_use_lock = False, kmem_freelist = 0x80200000, kend = 0x80100000\<rparr>"

abbreviation (input) demo_pd :: uint where "demo_pd \<equiv> 0x80300000"

lemma load32_zero [simp]: "load32 (\<lambda>_. 0) a = 0"
  by (simp add: load32_def)

lemma demo_pages: "free_page 0x80100000 0x80200000" "free_page 0x80100000 demo_pd"
  by (simp_all add: free_page_def page_aligned_def V2P_def)

lemma empty_directory:
  assumes "\<And>i. unat i < 1024 \<Longrightarrow> load32 m (pd + 4 * i) = 0"
  shows "pt_pages m pd = {pd}" "pte_of m pd va = 0" "free_page e pd \<Longrightarrow> pt_wf e m pd"
proof -
  have n: "\<not> present (pde m pd i)" if "unat i < 1024" for i using assms [OF that] by (simp add: pde_def)
  then show "pt_pages m pd = {pd}" "free_page e pd \<Longrightarrow> pt_wf e m pd" by (auto simp: pt_pages_def pt_wf_def)
  show "pte_of m pd va = 0" using n [OF PDX_bound] by (simp add: pte_of_def)
qed

lemma demo_inv: "pt_inv demo_kmem [0x80200000] demo_pd" "pte_of (kmem_mem demo_kmem) demo_pd va = 0"
  using demo_pages empty_directory [of "\<lambda>_. 0" demo_pd]
  by (auto simp: pt_inv_def kmem_inv_def demo_kmem_def)

theorem mappages_correct_witness:
  "\<exists>r s'. mappages demo_kmem demo_pd 0x1000 4096 0x200000 6 = Ok (r, s') \<and> (r = 0 \<or> r = -1)"
  using mappages_correct [OF demo_inv(1), of "0x1000" 4096 "0x200000" 6] demo_inv(2) by auto

end
