(* ===== verification/Uvm.thy ===== *)
theory Uvm
  imports Vm
begin

text \<open>
  The user part of an address space: \<^verbatim>\<open>allocuvm\<close>, \<^verbatim>\<open>deallocuvm\<close>, \<^verbatim>\<open>freevm\<close> of \<^verbatim>\<open>vm/vm.c\<close> keep
  every user page in a physical page of its own, neither free nor part of the page directory.
\<close>

section \<open>User pages\<close>

definition frame :: "mem \<Rightarrow> uint \<Rightarrow> uint \<Rightarrow> uint" where
  "frame m pd va = P2V (PTE_ADDR (pte_of m pd va))"

definition mapped :: "mem \<Rightarrow> uint \<Rightarrow> uint \<Rightarrow> bool" where
  "mapped m pd va \<longleftrightarrow> present (pte_of m pd va)"

definition uvm_inv :: "kmem \<Rightarrow> uint list \<Rightarrow> uint \<Rightarrow> bool" where
  "uvm_inv s xs pd \<longleftrightarrow> pt_inv s xs pd \<and> KERNBASE < kend s \<and>
     (\<forall>va. va < KERNBASE \<and> mapped (kmem_mem s) pd va \<longrightarrow>
        free_page (kend s) (frame (kmem_mem s) pd va) \<and> frame (kmem_mem s) pd va \<notin> set xs \<and>
        frame (kmem_mem s) pd va \<notin> pt_pages (kmem_mem s) pd) \<and>
     (\<forall>va va'. va < KERNBASE \<and> va' < KERNBASE \<and> mapped (kmem_mem s) pd va \<and> mapped (kmem_mem s) pd va' \<and>
        frame (kmem_mem s) pd va = frame (kmem_mem s) pd va' \<longrightarrow> PGROUNDDOWN va = PGROUNDDOWN va')"

lemma uvm_invI:
  assumes "pt_inv s xs pd" "KERNBASE < kend s"
    "\<And>va. va < KERNBASE \<Longrightarrow> mapped (kmem_mem s) pd va \<Longrightarrow>
      free_page (kend s) (frame (kmem_mem s) pd va) \<and> frame (kmem_mem s) pd va \<notin> set xs \<and>
      frame (kmem_mem s) pd va \<notin> pt_pages (kmem_mem s) pd"
    "\<And>va va'. va < KERNBASE \<Longrightarrow> va' < KERNBASE \<Longrightarrow> mapped (kmem_mem s) pd va \<Longrightarrow>
      mapped (kmem_mem s) pd va' \<Longrightarrow> frame (kmem_mem s) pd va = frame (kmem_mem s) pd va' \<Longrightarrow>
      PGROUNDDOWN va = PGROUNDDOWN va'"
  shows "uvm_inv s xs pd"
  using assms unfolding uvm_inv_def by blast

lemma uvm_frame_inj:
  assumes "uvm_inv s xs pd" "va < KERNBASE" "va' < KERNBASE" "mapped (kmem_mem s) pd va"
    "mapped (kmem_mem s) pd va'" "frame (kmem_mem s) pd va = frame (kmem_mem s) pd va'"
  shows "PGROUNDDOWN va = PGROUNDDOWN va'"
  using assms unfolding uvm_inv_def by blast

lemma pte_of_page: "PGROUNDDOWN a = PGROUNDDOWN b \<Longrightarrow> pte_of m pd a = pte_of m pd b"
  by (simp add: pte_of_def pte_addr_def same_page_iff [symmetric])

lemma uvm_frame:
  assumes "uvm_inv s xs pd" "va < KERNBASE" "mapped (kmem_mem s) pd va"
  shows "free_page (kend s) (frame (kmem_mem s) pd va)" "frame (kmem_mem s) pd va \<notin> set xs"
    "frame (kmem_mem s) pd va \<notin> pt_pages (kmem_mem s) pd"
  using assms by (auto simp: uvm_inv_def)

lemma uvm_pt: "uvm_inv s xs pd \<Longrightarrow> pt_inv s xs pd"
  by (simp add: uvm_inv_def)

lemma pt_inv_wf: "pt_inv s xs pd \<Longrightarrow> pt_wf (kend s) (kmem_mem s) pd"
  by (simp add: pt_inv_def)

lemma mapped_pde: "mapped m pd va \<Longrightarrow> present (pde m pd (PDX va))"
  by (auto simp: mapped_def pte_of_def split: if_splits)

text \<open>Freeing a page that is not part of the directory.\<close>

lemma kfree_pt:
  assumes "pt_inv s xs pd" "free_page (kend s) f" "f \<notin> set xs" "f \<notin> pt_pages (kmem_mem s) pd"
  shows "\<exists>s'. kfree s f = Ok s' \<and> pt_inv s' (f # xs) pd \<and> kend s' = kend s \<and>
    pt_pages (kmem_mem s') pd = pt_pages (kmem_mem s) pd \<and>
    (\<forall>va. pte_of (kmem_mem s') pd va = pte_of (kmem_mem s) pd va) \<and>
    (\<forall>i. unat i < 1024 \<longrightarrow> pde (kmem_mem s') pd i = pde (kmem_mem s) pd i) \<and>
    (\<forall>y. \<not> y - f < 4096 \<longrightarrow> kmem_mem s' y = kmem_mem s y)"
proof -
  obtain s' where s': "kfree s f = Ok s'" "kmem_inv s' (f # xs)"
    using kfree_inv [of s xs f] assms(1-3) unfolding pt_inv_def by blast
  have e: "kend s' = kend s" using kfree_result [OF assms(2)] s'(1) by auto
  have wf: "pt_wf (kend s) (kmem_mem s) pd" using assms(1) by (rule pt_inv_wf)
  have same: "kmem_mem s' x = kmem_mem s x" if "p \<in> pt_pages (kmem_mem s) pd" "x - p < 4096" for p x
  proof (rule kfree_frame [OF s'(1)])
    show "\<not> x - f < 4096"
      using pages_disjoint [of p f x] pt_wf_aligned [OF wf that(1)] assms(2,4) that by (auto simp: free_page_def)
  qed
  then have "\<forall>p\<in>pt_pages (kmem_mem s) pd. \<forall>x. x - p < 4096 \<longrightarrow> kmem_mem s' x = kmem_mem s x" by blast
  note fr = pt_frame [OF wf this]
  have "pt_inv s' (f # xs) pd" using s'(2) fr(2,4) e assms(1,4) by (simp add: pt_inv_def)
  then show ?thesis using s'(1) e fr(1-3) kfree_frame [OF s'(1)] by blast
qed

text \<open>Unmapping one user page.\<close>

lemma unmap_one:
  assumes "uvm_inv s xs pd" "a < KERNBASE" "mapped (kmem_mem s) pd a"
  defines "f \<equiv> frame (kmem_mem s) pd a" and "p \<equiv> pte_addr (kmem_mem s) pd a"
  shows "\<exists>s1. kfree s f = Ok s1 \<and> uvm_inv (set_pte s1 p 0) (f # xs) pd \<and> kend s1 = kend s \<and>
    pt_pages (kmem_mem (set_pte s1 p 0)) pd = pt_pages (kmem_mem s) pd \<and>
    (\<forall>va. pte_of (kmem_mem (set_pte s1 p 0)) pd va =
      (if PGROUNDDOWN va = PGROUNDDOWN a then 0 else pte_of (kmem_mem s) pd va)) \<and>
    (\<forall>y. outside (insert f (pt_pages (kmem_mem s) pd)) y \<longrightarrow>
      kmem_mem (set_pte s1 p 0) y = kmem_mem s y)"
proof -
  note f = uvm_frame [OF assms(1-3), folded f_def]
  obtain s1 where s1: "kfree s f = Ok s1" "pt_inv s1 (f # xs) pd" "kend s1 = kend s"
    "pt_pages (kmem_mem s1) pd = pt_pages (kmem_mem s) pd"
    "\<And>va. pte_of (kmem_mem s1) pd va = pte_of (kmem_mem s) pd va"
    "\<And>i. unat i < 1024 \<Longrightarrow> pde (kmem_mem s1) pd i = pde (kmem_mem s) pd i"
    "\<And>y. \<not> y - f < 4096 \<Longrightarrow> kmem_mem s1 y = kmem_mem s y"
    using kfree_pt [OF uvm_pt [OF assms(1)] f] by blast
  have pr: "present (pde (kmem_mem s1) pd (PDX a))" using s1(6) [OF PDX_bound] mapped_pde [OF assms(3)] by simp
  have p: "p = pte_addr (kmem_mem s1) pd a"
    using s1(6) [OF PDX_bound] by (simp add: p_def pte_addr_def table_def)
  let ?s' = "set_pte s1 p 0"
  note sp = set_pte_spec [OF s1(2) pr, where w = 0, folded p]
  have pte: "pte_of (kmem_mem ?s') pd va = (if PGROUNDDOWN va = PGROUNDDOWN a then 0 else pte_of (kmem_mem s) pd va)" for va
    using sp(4) s1(5) by simp
  have pg: "pt_pages (kmem_mem ?s') pd = pt_pages (kmem_mem s) pd" using sp(2) s1(4) by simp
  have m: "mapped (kmem_mem ?s') pd va \<longleftrightarrow> mapped (kmem_mem s) pd va \<and> PGROUNDDOWN va \<noteq> PGROUNDDOWN a" for va
    using pte [of va] by (simp add: mapped_def)
  have fr: "frame (kmem_mem ?s') pd va = frame (kmem_mem s) pd va" if "mapped (kmem_mem ?s') pd va" for va
    using pte [of va] m [of va] that by (simp add: frame_def)
  have "uvm_inv ?s' (f # xs) pd"
  proof (rule uvm_invI)
    fix va assume va: "va < KERNBASE" "mapped (kmem_mem ?s') pd va"
    have "frame (kmem_mem s) pd va \<noteq> f"
      using uvm_frame_inj [OF assms(1) va(1) assms(2) _ assms(3)] va(2) m [of va] by (auto simp: f_def)
    then show "free_page (kend ?s') (frame (kmem_mem ?s') pd va) \<and>
        frame (kmem_mem ?s') pd va \<notin> set (f # xs) \<and>
        frame (kmem_mem ?s') pd va \<notin> pt_pages (kmem_mem ?s') pd"
      using uvm_frame [OF assms(1) va(1)] va(2) m [of va] fr pg s1(3) by (simp add: set_pte_def)
  next
    fix va va' assume "va < KERNBASE" "va' < KERNBASE" "mapped (kmem_mem ?s') pd va"
      "mapped (kmem_mem ?s') pd va'" "frame (kmem_mem ?s') pd va = frame (kmem_mem ?s') pd va'"
    then show "PGROUNDDOWN va = PGROUNDDOWN va'" using uvm_frame_inj [OF assms(1)] m fr by metis
  qed (use sp(1) assms(1) s1(3) in \<open>simp_all add: set_pte_def uvm_inv_def\<close>)
  moreover have "kmem_mem ?s' y = kmem_mem s y" if "outside (insert f (pt_pages (kmem_mem s) pd)) y" for y
  proof -
    have "table (kmem_mem s1) pd (PDX a) \<in> pt_pages (kmem_mem s) pd"
      using pt_pagesI [OF PDX_bound pr] s1(4) by simp
    then show ?thesis using that sp(5) [of y] s1(7) [of y] by (simp add: outside_def)
  qed
  ultimately show ?thesis using s1(1,3) pte pg by blast
qed

section \<open>Shrinking\<close>

text \<open>The user pages from \<open>a\<close> up to \<open>b\<close>, and the physical pages under them.\<close>

definition in_range :: "uint \<Rightarrow> uint \<Rightarrow> uint \<Rightarrow> bool" where
  "in_range a b va \<longleftrightarrow> a \<le> PGROUNDDOWN va \<and> PGROUNDDOWN va < b"

definition frames :: "mem \<Rightarrow> uint \<Rightarrow> uint \<Rightarrow> uint \<Rightarrow> uint set" where
  "frames m pd a b = {frame m pd va | va. in_range a b va \<and> mapped m pd va}"

definition unmapped :: "uint \<Rightarrow> kmem \<Rightarrow> uint list \<Rightarrow> uint \<Rightarrow> uint \<Rightarrow> kmem \<Rightarrow> uint list \<Rightarrow> bool" where
  "unmapped pd s xs a b s' ys \<longleftrightarrow> uvm_inv s' ys pd \<and> kend s' = kend s \<and>
     pt_pages (kmem_mem s') pd = pt_pages (kmem_mem s) pd \<and>
     set ys = set xs \<union> frames (kmem_mem s) pd a b \<and>
     (\<forall>va. pte_of (kmem_mem s') pd va =
       (if in_range a b va \<and> mapped (kmem_mem s) pd va then 0 else pte_of (kmem_mem s) pd va)) \<and>
     (\<forall>y. outside (pt_pages (kmem_mem s) pd \<union> frames (kmem_mem s) pd a b) y \<longrightarrow>
       kmem_mem s' y = kmem_mem s y)"

lemma outside_simps [simp]:
  "outside (A \<union> B) y \<longleftrightarrow> outside A y \<and> outside B y"
  "outside (insert p A) y \<longleftrightarrow> \<not> y - p < 4096 \<and> outside A y" "outside {} y"
  by (auto simp: outside_def)

lemma unmappedD:
  assumes "unmapped pd s xs a b s' ys"
  shows "uvm_inv s' ys pd" "kend s' = kend s" "pt_pages (kmem_mem s') pd = pt_pages (kmem_mem s) pd"
    "set ys = set xs \<union> frames (kmem_mem s) pd a b"
    "pte_of (kmem_mem s') pd va =
      (if in_range a b va \<and> mapped (kmem_mem s) pd va then 0 else pte_of (kmem_mem s) pd va)"
    "outside (pt_pages (kmem_mem s) pd) y \<Longrightarrow> outside (frames (kmem_mem s) pd a b) y \<Longrightarrow>
      kmem_mem s' y = kmem_mem s y"
  using assms by (simp_all add: unmapped_def)

lemma unmapped_none:
  assumes "uvm_inv s xs pd" "\<And>va. in_range a b va \<Longrightarrow> \<not> mapped (kmem_mem s) pd va"
  shows "unmapped pd s xs a b s xs"
  using assms by (auto simp: unmapped_def frames_def)

text \<open>A range may be cut at any point between its ends.\<close>

lemma frames_cong:
  assumes "\<And>va. in_range a b va \<Longrightarrow> pte_of m' pd va = pte_of m pd va"
  shows "frames m' pd a b = frames m pd a b"
proof -
  have "frames m pd a b = {f. \<exists>va. in_range a b va \<and> mapped m pd va \<and> frame m pd va = f}" for m
    by (auto simp: frames_def)
  moreover have "in_range a b va \<and> mapped m' pd va \<and> frame m' pd va = f \<longleftrightarrow>
      in_range a b va \<and> mapped m pd va \<and> frame m pd va = f" for va f
    using assms [of va] by (auto simp: mapped_def frame_def)
  ultimately show ?thesis by simp
qed

lemma unmapped_trans:
  assumes "unmapped pd s xs a c s1 ys" "unmapped pd s1 ys c b s2 zs"
    "\<And>va. in_range a b va \<longleftrightarrow> in_range a c va \<or> in_range c b va"
  shows "unmapped pd s xs a b s2 zs"
proof -
  note u = unmappedD [OF assms(1)] and v = unmappedD [OF assms(2)]
  have r: "in_range a b va \<longleftrightarrow> in_range a c va \<or> in_range c b va"
    "\<not> (in_range a c va \<and> in_range c b va)" for va
    using assms(3) by (auto simp: in_range_def)
  have keep: "pte_of (kmem_mem s1) pd va = pte_of (kmem_mem s) pd va" if "in_range c b va" for va
    using u(5) [of va] r(2) [of va] that by simp
  have fr1: "frames (kmem_mem s1) pd c b = frames (kmem_mem s) pd c b" using keep by (rule frames_cong)
  have fr: "frames (kmem_mem s) pd a b = frames (kmem_mem s) pd a c \<union> frames (kmem_mem s) pd c b"
    using r by (auto simp: frames_def)
  have "pte_of (kmem_mem s2) pd va =
       (if in_range a b va \<and> mapped (kmem_mem s) pd va then 0 else pte_of (kmem_mem s) pd va)" for va
    using u(5) [of va] v(5) [of va] r [of va] keep [of va] by (auto simp: mapped_def)
  moreover have "kmem_mem s2 y = kmem_mem s y"
    if "outside (pt_pages (kmem_mem s) pd \<union> frames (kmem_mem s) pd a b) y" for y
    using that u(3) u(6) [of y] v(6) [of y] fr fr1 by simp
  moreover have "set zs = set xs \<union> frames (kmem_mem s) pd a b" using u(4) v(4) fr fr1 by auto
  ultimately show ?thesis using u(2,3) v(1-3) unfolding unmapped_def by simp
qed

lemma unmapped_extend:
  assumes "unmapped pd s xs c b s' ys" "a \<le> c"
    "\<And>va. in_range a c va \<Longrightarrow> \<not> mapped (kmem_mem s) pd va"
  shows "unmapped pd s xs a b s' ys"
proof -
  have r: "in_range a b va \<and> mapped (kmem_mem s) pd va \<longleftrightarrow> in_range c b va \<and> mapped (kmem_mem s) pd va" for va
    using assms(2) assms(3) [of va] unfolding in_range_def
    by (cases "PGROUNDDOWN va < c") (auto simp: not_less intro: order_trans)
  then have "frames (kmem_mem s) pd a b = frames (kmem_mem s) pd c b" by (simp add: frames_def)
  then show ?thesis using assms(1) r by (simp add: unmapped_def)
qed

lemma PGROUNDDOWN_aligned: "page_aligned a \<Longrightarrow> PGROUNDDOWN a = a"
  using PTE_ADDR_aligned by (simp add: PGROUNDDOWN_def PTE_ADDR_def)

lemma in_range_page:
  assumes "page_aligned a" "a < KERNBASE"
  shows "in_range a (a + 4096) va \<longleftrightarrow> PGROUNDDOWN va = a"
proof -
  have a4: "unat (a + 4096) = unat a + 4096"
    using assms(2) by (subst unat_plus_small) (simp_all add: word_less_nat_alt)
  have "PGROUNDDOWN va = a" if "in_range a (a + 4096) va"
  proof -
    have "a \<le> PGROUNDDOWN va" "unat (PGROUNDDOWN va) < unat a + 4096"
      using that a4 by (simp_all add: in_range_def word_less_nat_alt)
    then have "PGROUNDDOWN va - a < 4096" by (simp add: word_less_nat_alt unat_minus_small word_le_nat_alt)
    then show ?thesis
      using in_page_iff [OF assms(1), of "PGROUNDDOWN va"] PGROUNDDOWN_aligned by simp
  qed
  moreover have "in_range a (a + 4096) va" if "PGROUNDDOWN va = a"
    using that a4 by (simp add: in_range_def word_less_nat_alt)
  ultimately show ?thesis by blast
qed

text \<open>One page that is mapped.\<close>

lemma unmapped_page:
  assumes "uvm_inv s xs pd" "page_aligned a" "a < KERNBASE" "mapped (kmem_mem s) pd a"
  defines "f \<equiv> frame (kmem_mem s) pd a" and "p \<equiv> pte_addr (kmem_mem s) pd a"
  shows "\<exists>s1. kfree s f = Ok s1 \<and> unmapped pd s xs a (a + 4096) (set_pte s1 p 0) (f # xs)"
proof -
  note a = PGROUNDDOWN_aligned [OF assms(2)] and r = in_range_page [OF assms(2,3)]
  have same: "pte_of (kmem_mem s) pd va = pte_of (kmem_mem s) pd a" if "PGROUNDDOWN va = a" for va
    using that a by (intro pte_of_page) simp
  then have m: "mapped (kmem_mem s) pd va" "frame (kmem_mem s) pd va = f" if "PGROUNDDOWN va = a" for va
    using that assms(4) by (simp_all add: mapped_def frame_def f_def)
  have fr: "frames (kmem_mem s) pd a (a + 4096) = {f}"
  proof -
    have "{frame (kmem_mem s) pd va |va. PGROUNDDOWN va = a \<and> mapped (kmem_mem s) pd va} \<subseteq> {f}"
      using m(2) by auto
    moreover have "f = frame (kmem_mem s) pd a" "PGROUNDDOWN a = a \<and> mapped (kmem_mem s) pd a"
      using a assms(4) by (simp_all add: f_def)
    ultimately show ?thesis unfolding frames_def r by auto
  qed
  obtain s1 where s1: "kfree s f = Ok s1"
    "uvm_inv (set_pte s1 p 0) (f # xs) pd" "kend s1 = kend s"
    "pt_pages (kmem_mem (set_pte s1 p 0)) pd = pt_pages (kmem_mem s) pd"
    "\<And>va. pte_of (kmem_mem (set_pte s1 p 0)) pd va =
      (if PGROUNDDOWN va = PGROUNDDOWN a then 0 else pte_of (kmem_mem s) pd va)"
    "\<And>y. outside (insert f (pt_pages (kmem_mem s) pd)) y \<Longrightarrow> kmem_mem (set_pte s1 p 0) y = kmem_mem s y"
    using unmap_one [OF assms(1,3,4)] unfolding f_def p_def by blast
  have "kend (set_pte s1 p 0) = kend s" using s1(3) by (simp add: set_pte_def)
  moreover have "pte_of (kmem_mem (set_pte s1 p 0)) pd va = (if PGROUNDDOWN va = a \<and> mapped (kmem_mem s) pd va
      then 0 else pte_of (kmem_mem s) pd va)" for va
    using s1(5) [of va] a m(1) [of va] by simp
  moreover have "set (f # xs) = set xs \<union> {f}" by simp
  ultimately have "unmapped pd s xs a (a + 4096) (set_pte s1 p 0) (f # xs)"
    using s1(2,4,6) unfolding unmapped_def r fr by simp
  then show ?thesis using s1(1) by blast
qed

text \<open>The loop: the bound \<open>k\<close> on its turns covers the range.\<close>

lemma next_directory_entry:
  assumes "a < KERNBASE"
  defines "c \<equiv> PGADDR (PDX a + 1) 0 0"
  shows "unat c = (unat a div 4194304 + 1) * 4194304" "page_aligned c" "a < c"
    "in_range a c va \<Longrightarrow> PDX va = PDX a"
proof -
  have "unat (PDX a) < 512" using assms(1) by (simp add: unat_PDX word_less_nat_alt)
  then have d: "unat (PDX a + 1) = unat a div 4194304 + 1"
    by (subst unat_plus_small) (simp_all add: unat_PDX)
  have "c = (PDX a + 1) * 4194304" by (simp add: c_def PGADDR_def push_bit_eq_mult)
  then have "unat c = unat (PDX a + 1) * unat (4194304 :: uint) mod 2 ^ LENGTH(32)"
    by (simp only: unat_word_ariths(2))
  moreover have "unat (PDX a + 1) * 4194304 < 2 ^ 32" using d \<open>unat (PDX a) < 512\<close> by (simp add: unat_PDX)
  ultimately show c: "unat c = (unat a div 4194304 + 1) * 4194304" unfolding d by simp
  have "4096 dvd (unat a div 4194304 + 1) * 4194304" by (rule dvd_mult) simp
  then show "page_aligned c" unfolding page_aligned_dvd c .
  have "unat a < (unat a div 4194304 + 1) * 4194304" using dividend_less_div_times [of 4194304 "unat a"] by simp
  then show "a < c" unfolding word_less_nat_alt c .
  assume "in_range a c va"
  then have le: "unat a \<le> unat va div 4096 * 4096" "unat va div 4096 * 4096 < (unat a div 4194304 + 1) * 4194304"
    using c by (simp_all add: in_range_def word_le_nat_alt word_less_nat_alt unat_PGROUNDDOWN)
  have "unat va div 4096 * 4096 < ((unat a div 4194304 + 1) * 1024) * 4096" using le(2) by simp
  then have "unat va div 4096 < (unat a div 4194304 + 1) * 1024" by (simp only: mult_less_cancel2)
  then have "unat va div 4096 div 1024 < unat a div 4194304 + 1" by (rule less_mult_imp_div_less)
  moreover have "unat va div 4096 div 1024 = unat va div 4194304" by (simp add: div_mult2_eq [symmetric])
  moreover have "unat a \<le> unat va" using le(1) div_times_less_eq_dividend order_trans by blast
  ultimately have "unat va div 4194304 = unat a div 4194304" using div_le_mono [of "unat a" "unat va" 4194304] by simp
  then show "PDX va = PDX a" by (simp add: word_unat_eq_iff unat_PDX)
qed

lemma page_aligned_gap:
  assumes "page_aligned a" "page_aligned c" "a < c"
  shows "unat a + 4096 \<le> unat c"
proof -
  have "4096 dvd unat c - unat a" using assms(1,2) by (simp add: page_aligned_dvd)
  then have "4096 \<le> unat c - unat a" using assms(3) by (intro dvd_imp_le) (simp_all add: word_less_nat_alt)
  then show ?thesis by simp
qed

lemma walk_mapped_table:
  assumes "pt_inv s xs pd" "present (pde (kmem_mem s) pd (PDX a))"
  shows "walkpgdir s pd a al = (pte_addr (kmem_mem s) pd a, s)" "pte_addr (kmem_mem s) pd a \<noteq> 0"
    "load32 (kmem_mem s) (pte_addr (kmem_mem s) pd a) = pte_of (kmem_mem s) pd a"
  using walk_present [OF assms(2)] pte_addr_nonnull [OF pt_inv_wf [OF assms(1)] assms(2)] assms(2)
  by (simp_all add: pte_of_def)

text \<open>One turn of the loop.\<close>

lemma dealloc_turn:
  assumes "uvm_inv s xs pd" "page_aligned a" "a < oldsz" "oldsz \<le> KERNBASE"
  shows "\<exists>s1 ys c. deallocuvm_loop (Suc k) s pd a oldsz = deallocuvm_loop k s1 pd c oldsz \<and>
    uvm_inv s1 ys pd \<and> page_aligned c \<and> unat a + 4096 \<le> unat c \<and>
    (\<forall>s' zs. unmapped pd s1 ys c oldsz s' zs \<longrightarrow> unmapped pd s xs a oldsz s' zs)"
proof -
  let ?m = "kmem_mem s"
  have a: "a < KERNBASE" using assms(3,4) by (rule less_le_trans)
  have a4: "unat (a + 4096) = unat a + 4096"
    using a by (subst unat_plus_small) (simp_all add: word_less_nat_alt)
  have al4: "page_aligned (a + 4096)" using page_aligned_next [OF assms(2) a4] .
  have r: "in_range a oldsz va \<longleftrightarrow> in_range a (a + 4096) va \<or> in_range (a + 4096) oldsz va" for va
  proof -
    have "a + 4096 \<le> PGROUNDDOWN va" if "a < PGROUNDDOWN va"
      using page_aligned_gap [OF assms(2) _ that] a4 by (simp add: word_le_nat_alt)
    moreover have "a < PGROUNDDOWN va" if "a + 4096 \<le> PGROUNDDOWN va"
      using that a4 by (simp add: word_le_nat_alt word_less_nat_alt)
    ultimately show ?thesis unfolding in_range_page [OF assms(2) a]
      using assms(3) by (auto simp: in_range_def le_less)
  qed
  consider (none) "\<not> present (pde ?m pd (PDX a))"
    | (no) "present (pde ?m pd (PDX a))" "\<not> mapped ?m pd a" | (yes) "mapped ?m pd a" by blast
  then show ?thesis
  proof cases
    case none
    note c = next_directory_entry [OF a]
    have "\<not> mapped ?m pd va" if "in_range a (PGADDR (PDX a + 1) 0 0) va" for va
      using c(4) [OF that] none by (auto simp: mapped_def pte_of_def)
    then have "\<forall>s' zs. unmapped pd s xs (PGADDR (PDX a + 1) 0 0) oldsz s' zs \<longrightarrow> unmapped pd s xs a oldsz s' zs"
      using unmapped_extend [OF _ less_imp_le [OF c(3)]] by blast
    moreover have "deallocuvm_loop (Suc k) s pd a oldsz =
        deallocuvm_loop k s pd (PGADDR (PDX a + 1) 0 0) oldsz"
      using assms(3) walk_absent [OF none] by simp
    ultimately show ?thesis using assms(1) c(2) page_aligned_gap [OF assms(2) c(2,3)] by blast
  next
    case no
    note w = walk_mapped_table [OF uvm_pt [OF assms(1)] no(1)]
    have "unmapped pd s xs a (a + 4096) s xs"
    proof (rule unmapped_none [OF assms(1)])
      show "\<not> mapped ?m pd va" if "in_range a (a + 4096) va" for va
        using that no(2) pte_of_page [of va a ?m pd] PGROUNDDOWN_aligned [OF assms(2)]
        unfolding in_range_page [OF assms(2) a] by (simp add: mapped_def)
    qed
    then have "\<forall>s' zs. unmapped pd s xs (a + 4096) oldsz s' zs \<longrightarrow> unmapped pd s xs a oldsz s' zs"
      using unmapped_trans [OF _ _ r] by blast
    moreover have "deallocuvm_loop (Suc k) s pd a oldsz = deallocuvm_loop k s pd (a + 4096) oldsz"
      using assms(3) w no(2) by (simp add: mapped_def present_def)
    ultimately show ?thesis using assms(1) al4 a4 by (metis order_refl)
  next
    case yes
    note w = walk_mapped_table [OF uvm_pt [OF assms(1)] mapped_pde [OF yes]]
    let ?s1 = "\<lambda>s1. set_pte s1 (pte_addr ?m pd a) 0"
    have pa: "PTE_ADDR (pte_of ?m pd a) \<noteq> 0"
      using uvm_frame(1) [OF assms(1) a yes] assms(1) by (auto simp: frame_def P2V_def free_page_def uvm_inv_def)
    obtain s1 where s1: "kfree s (frame ?m pd a) = Ok s1"
      "unmapped pd s xs a (a + 4096) (?s1 s1) (frame ?m pd a # xs)"
      using unmapped_page [OF assms(1,2) a yes] by blast
    have "deallocuvm_loop (Suc k) s pd a oldsz = deallocuvm_loop k (?s1 s1) pd (a + 4096) oldsz"
      using assms(3) w pa s1(1) yes by (simp add: mapped_def present_def frame_def Let_def)
    then show ?thesis using unmapped_trans [OF s1(2) _ r] unmappedD(1) [OF s1(2)] al4 a4 by (metis order_refl)
  qed
qed

lemma deallocuvm_loop_spec:
  assumes "uvm_inv s xs pd" "page_aligned a" "oldsz \<le> KERNBASE" "unat oldsz \<le> unat a + 4096 * k"
  shows "\<exists>s' ys. deallocuvm_loop (Suc k) s pd a oldsz = Ok s' \<and> unmapped pd s xs a oldsz s' ys"
  using assms
proof (induction k arbitrary: s xs a)
  case 0
  then have "\<not> a < oldsz" by (simp add: word_less_nat_alt)
  moreover from this have "unmapped pd s xs a oldsz s xs" using 0(1)
    by (intro unmapped_none) (auto simp: in_range_def)
  ultimately show ?case by auto
next
  case (Suc k)
  show ?case
  proof (cases "a < oldsz")
    case False
    then have "unmapped pd s xs a oldsz s xs" using Suc.prems(1) by (intro unmapped_none) (auto simp: in_range_def)
    then show ?thesis using False by auto
  next
    case True
    obtain s1 ys c where t: "deallocuvm_loop (Suc (Suc k)) s pd a oldsz = deallocuvm_loop (Suc k) s1 pd c oldsz"
      "uvm_inv s1 ys pd" "page_aligned c" "unat a + 4096 \<le> unat c"
      "\<And>s' zs. unmapped pd s1 ys c oldsz s' zs \<Longrightarrow> unmapped pd s xs a oldsz s' zs"
      using dealloc_turn [OF Suc.prems(1,2) True Suc.prems(3)] by blast
    have "unat oldsz \<le> unat c + 4096 * k" using Suc.prems(4) t(4) by simp
    then show ?thesis using Suc.IH [OF t(2,3) Suc.prems(3)] t(1,5) by metis
  qed
qed

lemma deallocuvm_spec:
  assumes "uvm_inv s xs pd" "newsz < oldsz" "oldsz \<le> KERNBASE"
  shows "\<exists>s' ys. deallocuvm s pd oldsz newsz = Ok (newsz, s') \<and> unmapped pd s xs (PGROUNDUP newsz) oldsz s' ys"
proof -
  have "unat oldsz \<le> unat (PGROUNDUP newsz) + 4096 * 1048575"
    using assms(3) by (simp add: word_le_nat_alt)
  from deallocuvm_loop_spec [OF assms(1) page_aligned_PGROUNDUP assms(3) this] assms(2)
  show ?thesis by (auto simp: deallocuvm_def)
qed

section \<open>Releasing an address space\<close>

text \<open>The page tables of the directory entries \<open>is\<close>.\<close>

definition tables_of :: "mem \<Rightarrow> uint \<Rightarrow> nat list \<Rightarrow> uint set" where
  "tables_of m pd is = {table m pd (of_nat i) | i. i \<in> set is \<and> present (pde m pd (of_nat i))}"

lemma tables_of_Cons: "tables_of m pd (i # is) =
    (if present (pde m pd (of_nat i)) then {table m pd (of_nat i)} else {}) \<union> tables_of m pd is"
  by (auto simp: tables_of_def)

lemma ex_index: "(\<exists>i :: uint. unat i < 1024 \<and> P i) \<longleftrightarrow> (\<exists>k<1024. P (of_nat k))"
proof
  assume "\<exists>i :: uint. unat i < 1024 \<and> P i"
  then obtain i :: uint where "unat i < 1024 \<and> P i" by blast
  then show "\<exists>k<1024. P (of_nat k)" by (intro exI [of _ "unat i"]) simp
next
  assume "\<exists>k<1024. P (of_nat k)"
  then obtain k where "k < 1024 \<and> P (of_nat k)" by blast
  then show "\<exists>i :: uint. unat i < 1024 \<and> P i" by (intro exI [of _ "of_nat k"]) (simp add: unat_of_nat)
qed

lemma tables_of_all: "insert pd (tables_of m pd [0..<1024]) = pt_pages m pd"
proof -
  have "{table m pd i | i. unat i < 1024 \<and> present (pde m pd i)} = tables_of m pd [0..<1024]"
    using ex_index [of "\<lambda>i. x = table m pd i \<and> present (pde m pd i)" for x]
    by (simp add: tables_of_def conj_ac)
  then show ?thesis by (simp add: pt_pages_def)
qed

lemma freevm_loop_spec:
  assumes "kmem_inv s ys" "pt_wf (kend s) m pd" "\<And>y. y - pd < 4096 \<Longrightarrow> kmem_mem s y = m y"
    "set is \<subseteq> {..<1024}" "distinct is" "tables_of m pd is \<inter> set ys = {}"
  shows "\<exists>s' zs. freevm_loop is s pd = Ok s' \<and> kmem_inv s' zs \<and> set zs = set ys \<union> tables_of m pd is \<and>
    kend s' = kend s \<and> (\<forall>y. outside (tables_of m pd is) y \<longrightarrow> kmem_mem s' y = kmem_mem s y)"
  using assms
proof (induction "is" arbitrary: s ys)
  case Nil
  then show ?case by (auto simp: tables_of_def)
next
  case (Cons i "is")
  let ?i = "of_nat i :: uint"
  have i: "unat ?i < 1024" using Cons.prems(4) by (simp add: unat_of_nat)
  have e: "load32 (kmem_mem s) (pd + of_nat (4 * i)) = pde m pd ?i"
    using entry_cong [OF pt_wf_aligned [OF Cons.prems(2) pd_in_pt_pages] i, of "kmem_mem s" m] Cons.prems(3)
    by (simp add: pde_def)
  show ?case
  proof (cases "present (pde m pd ?i)")
    case True
    let ?t = "table m pd ?i"
    have t: "free_page (kend s) ?t" "?t \<noteq> pd" "?t \<notin> set ys"
      using Cons.prems(2,6) True i pt_pagesI [OF i True] by (auto simp: pt_wf_def tables_of_Cons)
    have other: "?t \<noteq> table m pd (of_nat j)" if "j \<in> set is" "present (pde m pd (of_nat j))" for j
    proof -
      have "unat (of_nat j :: uint) < 1024" "of_nat j \<noteq> ?i"
        using that Cons.prems(4,5) by (auto simp: unat_of_nat word_unat_eq_iff)
      then show ?thesis using Cons.prems(2) True i that(2) unfolding pt_wf_def by metis
    qed
    obtain s1 where s1: "kfree s ?t = Ok s1" "kmem_inv s1 (?t # ys)"
      using kfree_inv [OF Cons.prems(1) t(1,3)] by blast
    have e1: "kend s1 = kend s" using s1(1) t(1) by (auto simp: kfree_result)
    have "kmem_mem s1 y = m y" if "y - pd < 4096" for y
      using kfree_frame [OF s1(1)] that Cons.prems(3) [OF that] pages_disjoint [of pd ?t y]
        pt_wf_aligned [OF Cons.prems(2)] pt_pagesI [OF i True] t(2) by auto
    moreover have "tables_of m pd is \<inter> set (?t # ys) = {}"
      using Cons.prems(6) other by (auto simp: tables_of_def)
    ultimately obtain s' zs where s': "freevm_loop is s1 pd = Ok s'" "kmem_inv s' zs"
      "set zs = set (?t # ys) \<union> tables_of m pd is" "kend s' = kend s1"
      "\<And>y. outside (tables_of m pd is) y \<Longrightarrow> kmem_mem s' y = kmem_mem s1 y"
      using Cons.IH [OF s1(2), unfolded e1, OF Cons.prems(2)] Cons.prems(4,5) unfolding e1 by auto
    have "kmem_mem s' y = kmem_mem s y" if "outside (tables_of m pd (i # is)) y" for y
      using that True s'(5) [of y] kfree_frame [OF s1(1), of y] by (simp add: tables_of_Cons)
    moreover have "set zs = set ys \<union> tables_of m pd (i # is)" using s'(3) True by (auto simp: tables_of_Cons)
    ultimately show ?thesis using e True s1(1) s'(1,2,4) e1 by (auto simp: present_def table_def)
  next
    case False
    then show ?thesis using Cons.IH [OF Cons.prems(1-3)] Cons.prems(4-6) e
      by (simp add: tables_of_Cons present_def)
  qed
qed


lemma freevm_spec:
  assumes "uvm_inv s xs pd"
  shows "\<exists>s' ys. freevm s pd = Ok s' \<and> kmem_inv s' ys \<and> kend s' = kend s \<and>
    set ys = set xs \<union> frames (kmem_mem s) pd 0 KERNBASE \<union> pt_pages (kmem_mem s) pd \<and>
    (\<forall>y. outside (frames (kmem_mem s) pd 0 KERNBASE \<union> pt_pages (kmem_mem s) pd) y \<longrightarrow>
      kmem_mem s' y = kmem_mem s y)"
proof -
  have "PGROUNDUP 0 = 0" by (simp add: PGROUNDUP_def)
  then obtain s1 ys where d: "deallocuvm s pd KERNBASE 0 = Ok (0, s1)" "unmapped pd s xs 0 KERNBASE s1 ys"
    using deallocuvm_spec [OF assms, of 0 KERNBASE] by auto
  note u = unmappedD [OF d(2)]
  note i = uvm_pt [OF u(1)]
  let ?m = "kmem_mem s1"
  have pg: "insert pd (tables_of ?m pd [0..<1024]) = pt_pages (kmem_mem s) pd" using tables_of_all u(3) by simp
  have dj: "pt_pages ?m pd \<inter> set ys = {}" using i by (simp add: pt_inv_def)
  have "tables_of ?m pd [0..<1024] \<inter> set ys = {}" using dj tables_of_all [of pd ?m] by blast
  then obtain s2 zs where l: "freevm_loop [0..<1024] s1 pd = Ok s2" "kmem_inv s2 zs"
    "set zs = set ys \<union> tables_of ?m pd [0..<1024]" "kend s2 = kend s1"
    "\<And>y. outside (tables_of ?m pd [0..<1024]) y \<Longrightarrow> kmem_mem s2 y = kmem_mem s1 y"
    using freevm_loop_spec [of s1 ys ?m pd "[0..<1024]"] i by (auto simp: pt_inv_def lessThan_atLeast0)
  have "unat (of_nat k :: uint) < 1024" if "k < 1024" for k using that by (simp add: unat_of_nat)
  then have n: "table ?m pd (of_nat k) \<noteq> pd" if "k < 1024" "present (pde ?m pd (of_nat k))" for k
    using i that by (simp add: pt_inv_def pt_wf_def)
  have pd: "free_page (kend s2) pd" using i l(4) by (simp add: pt_inv_def pt_wf_def)
  have "pd \<notin> set ys" using dj pd_in_pt_pages by blast
  moreover have "pd \<notin> tables_of ?m pd [0..<1024]" using n unfolding tables_of_def set_upt by fastforce
  ultimately have "pd \<notin> set zs" using l(3) by simp
  then obtain s' where k: "kfree s2 pd = Ok s'" "kmem_inv s' (pd # zs)" using kfree_inv [OF l(2) pd] by blast
  have "pd \<noteq> 0" using free_page_nonnull [OF pd] .
  then have "freevm s pd = Ok s'" using d(1) l(1) k(1) by (simp add: freevm_def)
  moreover have "kend s' = kend s" using k(1) pd l(4) u(2) by (auto simp: kfree_result)
  moreover have "set (pd # zs) = set xs \<union> frames (kmem_mem s) pd 0 KERNBASE \<union> pt_pages (kmem_mem s) pd"
    using l(3) u(4) pg by auto
  moreover have "kmem_mem s' y = kmem_mem s y"
    if "outside (frames (kmem_mem s) pd 0 KERNBASE \<union> pt_pages (kmem_mem s) pd) y" for y
    using that u(6) [of y] l(5) [of y] kfree_frame [OF k(1), of y] pg [symmetric] by simp
  ultimately show ?thesis using k(2) by blast
qed

text \<open>C17: \<^verbatim>\<open>deallocuvm\<close> returns the smaller of the two sizes; shrinking unmaps exactly the user pages from
  the rounded new size up to the old one, gives their physical pages back to the allocator, and
  touches no other memory than those pages and the page tables.\<close>

theorem deallocuvm_correct:
  assumes "uvm_inv s xs pd" "oldsz \<le> KERNBASE"
  shows "\<exists>s' ys. deallocuvm s pd oldsz newsz = Ok (min oldsz newsz, s') \<and>
    (if newsz < oldsz then unmapped pd s xs (PGROUNDUP newsz) oldsz s' ys else s' = s)"
proof (cases "newsz < oldsz")
  case True
  then show ?thesis using deallocuvm_spec [OF assms(1) True assms(2)] by (simp add: min.absorb4)
qed (auto simp: deallocuvm_def min_def not_less)

text \<open>C16: \<^verbatim>\<open>freevm\<close> on a well-formed address space never panics and returns every page of it to the
  allocator exactly once: the user pages, the page tables and the directory. No other page changes.\<close>

theorem freevm_returns_every_page:
  assumes "uvm_inv s xs pd"
  shows "\<exists>s' ys. freevm s pd = Ok s' \<and> kmem_inv s' ys \<and> kend s' = kend s \<and>
    set ys = set xs \<union> frames (kmem_mem s) pd 0 KERNBASE \<union> pt_pages (kmem_mem s) pd \<and>
    (\<forall>y. outside (frames (kmem_mem s) pd 0 KERNBASE \<union> pt_pages (kmem_mem s) pd) y \<longrightarrow>
      kmem_mem s' y = kmem_mem s y)"
  using assms by (rule freevm_spec)

lemma demo_uvm: "uvm_inv demo_kmem [0x80200000] demo_pd"
  using demo_inv by (auto simp: uvm_inv_def mapped_def demo_kmem_def present_def)

theorem deallocuvm_correct_witness:
  "\<exists>s'. deallocuvm demo_kmem demo_pd 0x5000 0x1234 = Ok (0x1234, s')"
  using deallocuvm_correct [OF demo_uvm, of "0x5000" "0x1234"] by auto

theorem freevm_returns_every_page_witness:
  "\<exists>s' ys. freevm demo_kmem demo_pd = Ok s' \<and> kmem_inv s' ys \<and> set ys = {0x80200000, demo_pd}"
proof -
  have "frames (kmem_mem demo_kmem) demo_pd 0 KERNBASE = {}" "pt_pages (kmem_mem demo_kmem) demo_pd = {demo_pd}"
    using demo_inv(2) empty_directory(1) [of "kmem_mem demo_kmem" demo_pd]
    by (auto simp: frames_def mapped_def present_def demo_kmem_def)
  then show ?thesis using freevm_returns_every_page [OF demo_uvm] by (auto simp: insert_commute)
qed

end
