(* ===== verification/Grow.thy ===== *)
theory Grow
  imports Uvm
begin

text \<open>
  Growing the user part of an address space: \<^verbatim>\<open>allocuvm\<close> of \<^verbatim>\<open>vm/vm.c\<close> maps zeroed pages of
  their own under the new addresses, or undoes what it has done and loses no page.
\<close>

section \<open>Growing\<close>

text \<open>A page that belongs to nobody: not free, not in the directory, not under a user page.\<close>

definition spare :: "kmem \<Rightarrow> uint list \<Rightarrow> uint \<Rightarrow> uint \<Rightarrow> bool" where
  "spare s xs pd x \<longleftrightarrow> free_page (kend s) x \<and> x \<notin> set xs \<and> x \<notin> pt_pages (kmem_mem s) pd \<and>
     (\<forall>va. va < KERNBASE \<and> mapped (kmem_mem s) pd va \<longrightarrow> frame (kmem_mem s) pd va \<noteq> x)"

text \<open>A change of the memory outside the directory, and of the free list, that keeps the user pages.\<close>

lemma uvm_inv_cong:
  assumes "uvm_inv s xs pd" "pt_inv s' ys pd" "kend s' = kend s"
    "pt_pages (kmem_mem s') pd \<subseteq> pt_pages (kmem_mem s) pd \<union> set xs"
    "\<And>va. pte_of (kmem_mem s') pd va = pte_of (kmem_mem s) pd va"
    "\<And>va. va < KERNBASE \<Longrightarrow> mapped (kmem_mem s) pd va \<Longrightarrow> frame (kmem_mem s) pd va \<notin> set ys"
  shows "uvm_inv s' ys pd"
proof (rule uvm_invI [OF assms(2)])
  have m: "mapped (kmem_mem s') pd va = mapped (kmem_mem s) pd va"
    "frame (kmem_mem s') pd va = frame (kmem_mem s) pd va" for va
    using assms(5) by (simp_all add: mapped_def frame_def)
  show "KERNBASE < kend s'" using assms(1,3) by (simp add: uvm_inv_def)
  show "free_page (kend s') (frame (kmem_mem s') pd va) \<and> frame (kmem_mem s') pd va \<notin> set ys \<and>
      frame (kmem_mem s') pd va \<notin> pt_pages (kmem_mem s') pd"
    if "va < KERNBASE" "mapped (kmem_mem s') pd va" for va
    using that uvm_frame [OF assms(1) that(1)] assms(3,4,6) m by auto
  show "PGROUNDDOWN va = PGROUNDDOWN va'" if "va < KERNBASE" "va' < KERNBASE" "mapped (kmem_mem s') pd va"
      "mapped (kmem_mem s') pd va'" "frame (kmem_mem s') pd va = frame (kmem_mem s') pd va'" for va va'
    using that uvm_frame_inj [OF assms(1)] m by metis
qed

lemma take_page:
  assumes "uvm_inv s (x # xs) pd"
  defines "s1 \<equiv> s\<lparr>kmem_freelist := load32 (kmem_mem s) x, kmem_mem := memset (kmem_mem s) x 0 4096\<rparr>"
  shows "kalloc s = (x, s\<lparr>kmem_freelist := load32 (kmem_mem s) x\<rparr>)" "x \<noteq> 0" "uvm_inv s1 xs pd" "spare s1 xs pd x"
    "pte_of (kmem_mem s1) pd va = pte_of (kmem_mem s) pd va"
    "pt_pages (kmem_mem s1) pd = pt_pages (kmem_mem s) pd"
    "\<not> y - x < 4096 \<Longrightarrow> kmem_mem s1 y = kmem_mem s y" "y - x < 4096 \<Longrightarrow> kmem_mem s1 y = 0"
proof -
  have pt: "pt_inv s (x # xs) pd" by (rule uvm_pt [OF assms(1)])
  then have k: "kmem_inv s (x # xs)" by (simp add: pt_inv_def)
  show "kalloc s = (x, s\<lparr>kmem_freelist := load32 (kmem_mem s) x\<rparr>)" using kalloc_cons [OF k] by simp
  have x: "free_page (kend s) x" "x \<notin> set xs" "x \<notin> pt_pages (kmem_mem s) pd" "page_aligned x"
    using k pt by (auto simp: kmem_inv_def pt_inv_def free_page_def)
  then show "x \<noteq> 0" using free_page_nonnull by blast
  show fr: "kmem_mem s1 y = kmem_mem s y" if "\<not> y - x < 4096" for y using that by (simp add: s1_def memset_eq)
  show "kmem_mem s1 y = 0" if "y - x < 4096" using that by (simp add: s1_def memset_eq)
  have wf: "pt_wf (kend s) (kmem_mem s) pd" by (rule pt_inv_wf [OF pt])
  have "\<forall>p\<in>pt_pages (kmem_mem s) pd. \<forall>y. y - p < 4096 \<longrightarrow> kmem_mem s1 y = kmem_mem s y"
    using fr pages_disjoint [OF pt_wf_aligned [OF wf] x(4)] x(3) by metis
  note f = pt_frame [OF wf this]
  show p: "pt_pages (kmem_mem s1) pd = pt_pages (kmem_mem s) pd" by (rule f(2))
  show pte: "pte_of (kmem_mem s1) pd va = pte_of (kmem_mem s) pd va" for va by (rule f(3))
  have "kmem_inv (s\<lparr>kmem_freelist := load32 (kmem_mem s) x\<rparr>) xs" using kalloc_cons [OF k] by simp
  from kmem_inv_frame [OF this x(4,2), of "kmem_mem s1"] fr have "kmem_inv s1 xs" by (simp add: s1_def)
  then have pt1: "pt_inv s1 xs pd" using f(4) p pt by (simp add: pt_inv_def s1_def)
  have "uvm_inv s1 xs pd"
    using assms(1) pt1 by (rule uvm_inv_cong) (use p pte uvm_frame(2) [OF assms(1)] in \<open>auto simp: s1_def\<close>)
  then show "uvm_inv s1 xs pd" .
  show "spare s1 xs pd x"
    using x p pte uvm_frame(2) [OF assms(1)] by (auto simp: spare_def s1_def mapped_def frame_def)
qed

text \<open>
  Growing from \<open>a\<close> to \<open>b\<close>: the pages of the range are mapped, writable by the user and zero, and
  everything else is as before. Every page that was free is still free, is a page table, or is under
  a page of the range, except for the pages \<open>L\<close> that are still in hand.
\<close>

definition grown :: "uint set \<Rightarrow> uint \<Rightarrow> kmem \<Rightarrow> uint list \<Rightarrow> uint \<Rightarrow> uint \<Rightarrow> kmem \<Rightarrow> uint list \<Rightarrow> bool" where
  "grown L pd s xs a b s' ys \<longleftrightarrow> uvm_inv s' ys pd \<and> kend s' = kend s \<and> set ys \<subseteq> set xs \<and>
     pt_pages (kmem_mem s') pd \<subseteq> pt_pages (kmem_mem s) pd \<union> set xs \<and>
     frames (kmem_mem s') pd a b \<subseteq> set xs \<and>
     pt_pages (kmem_mem s) pd \<subseteq> pt_pages (kmem_mem s') pd \<and>
     set xs \<subseteq> set ys \<union> pt_pages (kmem_mem s') pd \<union> frames (kmem_mem s') pd a b \<union> L \<and>
     (\<forall>va. if in_range a b va
        then mapped (kmem_mem s') pd va \<and> PTE_FLAGS (pte_of (kmem_mem s') pd va) = (PTE_W OR PTE_U OR PTE_P) \<and>
          (\<forall>y. y - frame (kmem_mem s') pd va < 4096 \<longrightarrow> kmem_mem s' y = 0)
        else pte_of (kmem_mem s') pd va = pte_of (kmem_mem s) pd va) \<and>
     (\<forall>y. outside (pt_pages (kmem_mem s) pd \<union> set xs) y \<longrightarrow> kmem_mem s' y = kmem_mem s y)"

lemma grownD:
  assumes "grown L pd s xs a b s' ys"
  shows "uvm_inv s' ys pd" "kend s' = kend s" "set ys \<subseteq> set xs"
    "pt_pages (kmem_mem s') pd \<subseteq> pt_pages (kmem_mem s) pd \<union> set xs" "frames (kmem_mem s') pd a b \<subseteq> set xs"
    "in_range a b va \<Longrightarrow> mapped (kmem_mem s') pd va"
    "in_range a b va \<Longrightarrow> PTE_FLAGS (pte_of (kmem_mem s') pd va) = (PTE_W OR PTE_U OR PTE_P)"
    "in_range a b va \<Longrightarrow> y - frame (kmem_mem s') pd va < 4096 \<Longrightarrow> kmem_mem s' y = 0"
    "\<not> in_range a b va \<Longrightarrow> pte_of (kmem_mem s') pd va = pte_of (kmem_mem s) pd va"
    "outside (pt_pages (kmem_mem s) pd) y \<Longrightarrow> outside (set xs) y \<Longrightarrow> kmem_mem s' y = kmem_mem s y"
    "pt_pages (kmem_mem s) pd \<subseteq> pt_pages (kmem_mem s') pd"
    "set xs \<subseteq> set ys \<union> pt_pages (kmem_mem s') pd \<union> frames (kmem_mem s') pd a b \<union> L"
  using assms unfolding grown_def by (simp_all split: if_splits)

lemma PTE_FLAGS_or: "page_aligned a \<Longrightarrow> f < 4096 \<Longrightarrow> PTE_FLAGS (a OR f) = f"
proof -
  assume a: "page_aligned a" and f: "f < 4096"
  have "PTE_FLAGS a = 0" using a by (simp add: word_unat_eq_iff unat_PTE_FLAGS page_aligned_def)
  moreover have "PTE_FLAGS f = f" using f by (simp add: word_unat_eq_iff unat_PTE_FLAGS word_less_nat_alt)
  ultimately show ?thesis by (simp add: PTE_FLAGS_def bit.conj_disj_distrib2)
qed

text \<open>\<^verbatim>\<open>mappages\<close> of one spare page.\<close>

lemma map_page:
  assumes u: "uvm_inv s xs pd" "spare s xs pd x" and a: "page_aligned a" "a < KERNBASE"
    and n: "\<not> mapped (kmem_mem s) pd a"
  shows "\<exists>r s' ys. mappages s pd a 4096 (V2P x) (PTE_W OR PTE_U) = Ok (r, s') \<and> uvm_inv s' ys pd \<and>
    pt_step pd s xs s' ys \<and>
    (r = 0 \<and> (\<forall>va. pte_of (kmem_mem s') pd va =
        (if PGROUNDDOWN va = a then V2P x OR (PTE_W OR PTE_U OR PTE_P) else pte_of (kmem_mem s) pd va)) \<or>
     r = -1 \<and> spare s' ys pd x \<and> (\<forall>va. pte_of (kmem_mem s') pd va = pte_of (kmem_mem s) pd va))"
proof -
  have aa: "PGROUNDDOWN a = a" using PGROUNDDOWN_aligned [OF a(1)] .
  have "a + 4096 - 1 - a < 4096" by simp
  then have last: "PGROUNDDOWN (a + 4096 - 1) = a" using in_page_iff [OF a(1)] by blast
  have one: "unat (PGROUNDDOWN va - a) < 1 \<longleftrightarrow> PGROUNDDOWN va = a" for va by (simp add: unat_eq_zero)
  note spec = mappages_spec [OF uvm_pt [OF u(1)], of a 4096 "V2P x" "PTE_W OR PTE_U", unfolded last aa diff_self
      unsigned_0 add_0 le_0_eq]
  have np: "\<not> present (pte_of (kmem_mem s) pd va)" if "PGROUNDDOWN va - a \<le> 0" for va
  proof -
    have "PGROUNDDOWN va = PGROUNDDOWN a" using that aa by simp
    then show ?thesis using pte_of_page n by (metis mapped_def)
  qed
  obtain r s' ys lim where m: "mappages s pd a 4096 (V2P x) (PTE_W OR PTE_U) = Ok (r, s')" "pt_step pd s xs s' ys"
    "r = 0 \<and> lim = 1 \<or> r = -1 \<and> ys = [] \<and> lim = 0"
    "\<And>va. pte_of (kmem_mem s') pd va = (if unat (PGROUNDDOWN va - a) < lim
       then V2P x + (PGROUNDDOWN va - a) OR (PTE_W OR PTE_U) OR PTE_P else pte_of (kmem_mem s) pd va)"
    using spec [OF np] by blast
  obtain zs where z: "xs = zs @ ys" "pt_pages (kmem_mem s') pd = pt_pages (kmem_mem s) pd \<union> set zs"
    "pt_inv s' ys pd" "kend s' = kend s" using m(2) by (auto simp: pt_step_def)
  show ?thesis
  proof (cases "r = 0")
    case True
    then have pte: "pte_of (kmem_mem s') pd va =
        (if PGROUNDDOWN va = a then V2P x OR (PTE_W OR PTE_U OR PTE_P) else pte_of (kmem_mem s) pd va)" for va
      using m(3) m(4) [of va] one [of va] by auto
    have fx: "frame (kmem_mem s') pd va = x" if "PGROUNDDOWN va = a" for va
      using pte [of va] that entry_page [of "kend s" x "7"] u(2) by (simp add: frame_def spare_def)
    have old: "mapped (kmem_mem s') pd va = mapped (kmem_mem s) pd va"
      "frame (kmem_mem s') pd va = frame (kmem_mem s) pd va" if "PGROUNDDOWN va \<noteq> a" for va
      using pte [of va] that by (simp_all add: mapped_def frame_def)
    have "uvm_inv s' ys pd"
    proof (rule uvm_invI [OF z(3)])
      fix va assume va: "va < KERNBASE" "mapped (kmem_mem s') pd va"
      show "free_page (kend s') (frame (kmem_mem s') pd va) \<and> frame (kmem_mem s') pd va \<notin> set ys \<and>
          frame (kmem_mem s') pd va \<notin> pt_pages (kmem_mem s') pd"
        using u(2) fx [of va] old [of va] uvm_frame [OF u(1) va(1)] va(2) z
        by (cases "PGROUNDDOWN va = a") (auto simp: spare_def)
    next
      fix va va' assume "va < KERNBASE" "va' < KERNBASE" "mapped (kmem_mem s') pd va"
        "mapped (kmem_mem s') pd va'" "frame (kmem_mem s') pd va = frame (kmem_mem s') pd va'"
      then show "PGROUNDDOWN va = PGROUNDDOWN va'"
        using u(2) fx [of va] fx [of va'] old [of va] old [of va'] uvm_frame_inj [OF u(1), of va va']
        by (cases "PGROUNDDOWN va = a"; cases "PGROUNDDOWN va' = a") (auto simp: spare_def)
    qed (use u(1) z(4) in \<open>simp add: uvm_inv_def\<close>)
    then show ?thesis using m(1,2) True pte by (intro exI [of _ r] exI [of _ s'] exI [of _ ys]) simp
  next
    case False
    then have pte: "pte_of (kmem_mem s') pd va = pte_of (kmem_mem s) pd va" for va using m(3,4) by auto
    have "uvm_inv s' ys pd" using u(1) z(3,4) by (rule uvm_inv_cong) (use z pte uvm_frame(2) [OF u(1)] in auto)
    moreover have "spare s' ys pd x" using u(2) z pte by (auto simp: spare_def mapped_def frame_def)
    ultimately show ?thesis using m(1-3) False pte by (intro exI [of _ r] exI [of _ s'] exI [of _ ys]) simp
  qed
qed

lemma outside_mono: "A \<subseteq> B \<Longrightarrow> outside B y \<Longrightarrow> outside A y"
  by (auto simp: outside_def)

lemma user_page_low: "PGROUNDDOWN va < KERNBASE \<Longrightarrow> va < KERNBASE"
proof -
  assume "PGROUNDDOWN va < KERNBASE"
  then have "unat va div 4096 * 4096 < 524288 * 4096" by (simp add: word_less_nat_alt unat_PGROUNDDOWN)
  then have "unat va div 4096 < 524288" by simp
  then have "unat va < 524288 * 4096" by (simp add: div_less_iff_less_mult)
  then show ?thesis by (simp add: word_less_nat_alt)
qed

text \<open>A page is outside any set of other pages.\<close>

lemma page_outside:
  assumes "page_aligned p" "p \<notin> P" "\<And>q. q \<in> P \<Longrightarrow> page_aligned q" "y - p < 4096"
  shows "outside P y"
  using assms pages_disjoint unfolding outside_def by metis

lemma grown_refl: "uvm_inv s xs pd \<Longrightarrow> b \<le> a \<Longrightarrow> grown {} pd s xs a b s xs"
  by (auto simp: grown_def in_range_def frames_def)

lemma grown_page:
  assumes "uvm_inv s (x # xs) pd" "page_aligned a" "a < KERNBASE" "\<not> mapped (kmem_mem s) pd a"
  defines "s1 \<equiv> s\<lparr>kmem_freelist := load32 (kmem_mem s) x, kmem_mem := memset (kmem_mem s) x 0 4096\<rparr>"
  shows "\<exists>r s' ys. mappages s1 pd a 4096 (V2P x) (PTE_W OR PTE_U) = Ok (r, s') \<and>
    (r = 0 \<and> grown {} pd s (x # xs) a (a + 4096) s' ys \<or>
     r = -1 \<and> spare s' ys pd x \<and> grown {x} pd s (x # xs) a a s' ys)"
proof -
  note t = take_page [OF assms(1), folded s1_def]
  have n1: "\<not> mapped (kmem_mem s1) pd a" using assms(4) t(5) by (simp add: mapped_def)
  obtain r s' ys where m: "mappages s1 pd a 4096 (V2P x) (PTE_W OR PTE_U) = Ok (r, s')" "uvm_inv s' ys pd"
    "pt_step pd s1 xs s' ys" "r = 0 \<and> (\<forall>va. pte_of (kmem_mem s') pd va =
        (if PGROUNDDOWN va = a then V2P x OR (PTE_W OR PTE_U OR PTE_P) else pte_of (kmem_mem s1) pd va)) \<or>
     r = -1 \<and> spare s' ys pd x \<and> (\<forall>va. pte_of (kmem_mem s') pd va = pte_of (kmem_mem s1) pd va)"
    using map_page [OF t(3,4) assms(2,3) n1] by blast
  obtain zs where z: "xs = zs @ ys" "pt_pages (kmem_mem s') pd = pt_pages (kmem_mem s) pd \<union> set zs"
    "kend s' = kend s" "\<And>y. outside (pt_pages (kmem_mem s') pd) y \<Longrightarrow> kmem_mem s' y = kmem_mem s1 y"
    using m(3) t(6) by (auto simp: pt_step_def s1_def)
  have same: "kmem_mem s' y = kmem_mem s y" if "outside (pt_pages (kmem_mem s) pd \<union> set (x # xs)) y" for y
    using that z(4) [of y] t(7) [of y] outside_mono [of "set zs" "set xs" y] z(1,2) by simp
  have x: "free_page (kend s) x" "page_aligned x" "x \<notin> pt_pages (kmem_mem s') pd"
    using t(4) z t(6) by (auto simp: spare_def s1_def free_page_def)
  have zero: "kmem_mem s' y = 0" if "y - x < 4096" for y
    using page_outside [OF x(2,3) pt_wf_aligned [OF pt_inv_wf [OF uvm_pt [OF m(2)]]] that] z(4) t(8) that by simp
  note r = in_range_page [OF assms(2,3)]
  show ?thesis
  proof (cases "r = 0")
    case True
    then have pte: "pte_of (kmem_mem s') pd va =
        (if PGROUNDDOWN va = a then V2P x OR (PTE_W OR PTE_U OR PTE_P) else pte_of (kmem_mem s) pd va)" for va
      using m(4) t(5) by simp
    then have f: "frame (kmem_mem s') pd va = x" "mapped (kmem_mem s') pd va"
      "PTE_FLAGS (pte_of (kmem_mem s') pd va) = (PTE_W OR PTE_U OR PTE_P)" if "PGROUNDDOWN va = a" for va
      using that entry_page [OF x(1), of 7] PTE_FLAGS_or [OF V2P_aligned [OF x(1)], of 7]
      by (simp_all add: frame_def mapped_def present_iff even_or_iff)
    have "frames (kmem_mem s') pd a (a + 4096) = {x}"
      using f [of a] PGROUNDDOWN_aligned [OF assms(2)] by (auto simp: frames_def r f(1) intro!: exI [of _ a])
    then have "grown {} pd s (x # xs) a (a + 4096) s' ys"
      using m(2) z(1-3) same zero pte f unfolding grown_def r by auto
    then show ?thesis using m(1) True by blast
  next
    case False
    then have "grown {x} pd s (x # xs) a a s' ys"
      using m(2,4) z(1-3) same t(5) unfolding grown_def by (auto simp: in_range_def frames_def)
    then show ?thesis using m(1,4) False by blast
  qed
qed

lemma grown_trans:
  assumes "grown {} pd s xs a c s1 ys" "grown L pd s1 ys c b s2 zs" "c \<le> KERNBASE"
    "\<And>va. in_range a b va \<longleftrightarrow> in_range a c va \<or> in_range c b va"
  shows "grown L pd s xs a b s2 zs"
proof -
  note g = grownD [OF assms(1)] and h = grownD [OF assms(2)]
  have out1: "outside (pt_pages (kmem_mem s1) pd) y" "outside (set ys) y"
    if "outside (pt_pages (kmem_mem s) pd \<union> set xs) y" for y
    using that outside_mono [OF g(4)] outside_mono [OF g(3)] by auto
  have pte: "pte_of (kmem_mem s2) pd va = pte_of (kmem_mem s1) pd va" if "in_range a c va" for va
    using that by (intro h(9)) (auto simp: in_range_def)
  have low: "va < KERNBASE" if "in_range a c va" for va
    using that assms(3) user_page_low [of va] less_le_trans [of "PGROUNDDOWN va" c KERNBASE]
    unfolding in_range_def by blast
  have zero: "kmem_mem s2 y = 0" if va: "in_range a c va" "y - frame (kmem_mem s2) pd va < 4096" for va y
  proof -
    let ?f = "frame (kmem_mem s1) pd va"
    have f: "frame (kmem_mem s2) pd va = ?f" using pte [OF va(1)] by (simp add: frame_def)
    note u = uvm_frame [OF g(1) low [OF va(1)] g(6) [OF va(1)]]
    have "page_aligned ?f" using u(1) by (simp add: free_page_def)
    moreover have "page_aligned q" if "q \<in> pt_pages (kmem_mem s1) pd \<union> set ys" for q
      using that pt_wf_aligned [OF pt_inv_wf [OF uvm_pt [OF g(1)]]] uvm_pt [OF g(1)]
      by (auto simp: pt_inv_def kmem_inv_def free_page_def)
    ultimately have "outside (pt_pages (kmem_mem s1) pd \<union> set ys) y"
      using u(2,3) va(2) f by (intro page_outside [of ?f]) auto
    then show ?thesis using h(10) [of y] g(8) [OF va(1)] va(2) f by simp
  qed
  have in1: "mapped (kmem_mem s2) pd va \<and> PTE_FLAGS (pte_of (kmem_mem s2) pd va) = (PTE_W OR PTE_U OR PTE_P) \<and>
      (\<forall>y. y - frame (kmem_mem s2) pd va < 4096 \<longrightarrow> kmem_mem s2 y = 0)" if "in_range a b va" for va
    using that assms(4) g(6,7) [of va] h(6-8) [of va] pte [of va] zero [of va]
    by (cases "in_range a c va") (auto simp: mapped_def)
  have out: "pte_of (kmem_mem s2) pd va = pte_of (kmem_mem s) pd va" if "\<not> in_range a b va" for va
    using that assms(4) g(9) [of va] h(9) [of va] by simp
  have "frames (kmem_mem s2) pd a c = frames (kmem_mem s1) pd a c" using pte by (rule frames_cong)
  moreover have "frames (kmem_mem s2) pd a b = frames (kmem_mem s2) pd a c \<union> frames (kmem_mem s2) pd c b"
    using assms(4) by (auto simp: frames_def)
  ultimately have "frames (kmem_mem s2) pd a b \<subseteq> set xs"
    "set xs \<subseteq> set zs \<union> pt_pages (kmem_mem s2) pd \<union> frames (kmem_mem s2) pd a b \<union> L"
    using g(3,5,12) h(5,11,12) by auto
  moreover have "kmem_mem s2 y = kmem_mem s y" if "outside (pt_pages (kmem_mem s) pd \<union> set xs) y" for y
    using that out1 [OF that] g(10) [of y] h(10) [of y] by simp
  moreover have "pt_pages (kmem_mem s2) pd \<subseteq> pt_pages (kmem_mem s) pd \<union> set xs"
    "pt_pages (kmem_mem s) pd \<subseteq> pt_pages (kmem_mem s2) pd" using g(3,4,11) h(4,11) by auto
  ultimately show ?thesis
    using g(2,3) h(1-3) in1 out unfolding grown_def by auto
qed

text \<open>An address space as it was before a failed attempt to grow it.\<close>

definition restored :: "uint set \<Rightarrow> uint \<Rightarrow> kmem \<Rightarrow> uint list \<Rightarrow> kmem \<Rightarrow> uint list \<Rightarrow> bool" where
  "restored L pd s xs s' ys \<longleftrightarrow> uvm_inv s' ys pd \<and> kend s' = kend s \<and>
     set ys \<union> pt_pages (kmem_mem s') pd \<union> L = set xs \<union> pt_pages (kmem_mem s) pd \<and>
     (\<forall>va. mapped (kmem_mem s') pd va = mapped (kmem_mem s) pd va \<and>
       (mapped (kmem_mem s) pd va \<longrightarrow> pte_of (kmem_mem s') pd va = pte_of (kmem_mem s) pd va)) \<and>
     (\<forall>y. outside (pt_pages (kmem_mem s) pd \<union> set xs) y \<longrightarrow> kmem_mem s' y = kmem_mem s y)"

lemma undo_grown:
  assumes "grown L pd s xs a c s1 ys" "L \<subseteq> set xs" "unmapped pd s1 ys a b s2 zs" "c \<le> b" "b \<le> KERNBASE"
    "\<And>va. in_range a b va \<Longrightarrow> \<not> mapped (kmem_mem s) pd va"
  shows "restored L pd s xs s2 zs"
proof -
  note g = grownD [OF assms(1)] and u = unmappedD [OF assms(3)]
  have sub: "in_range a b va" if "in_range a c va" for va using that assms(4) by (auto simp: in_range_def)
  have m: "mapped (kmem_mem s1) pd va \<longleftrightarrow> in_range a c va \<or> mapped (kmem_mem s) pd va" for va
    using g(6,9) [of va] by (cases "in_range a c va") (auto simp: mapped_def)
  have pte: "pte_of (kmem_mem s2) pd va = (if in_range a c va then 0 else pte_of (kmem_mem s) pd va)" for va
    using u(5) [of va] m [of va] g(9) [of va] sub [of va] assms(6) [of va] by auto
  then have "mapped (kmem_mem s2) pd va = mapped (kmem_mem s) pd va \<and>
      (mapped (kmem_mem s) pd va \<longrightarrow> pte_of (kmem_mem s2) pd va = pte_of (kmem_mem s) pd va)" for va
    using assms(6) [of va] sub [of va] by (auto simp: mapped_def)
  moreover have "in_range a b va \<and> mapped (kmem_mem s1) pd va \<longleftrightarrow> in_range a c va \<and> mapped (kmem_mem s1) pd va" for va
    using m [of va] sub [of va] assms(6) [of va] by auto
  then have fr: "frames (kmem_mem s1) pd a b = frames (kmem_mem s1) pd a c" by (simp add: frames_def)
  then have "kmem_mem s2 y = kmem_mem s y" if "outside (pt_pages (kmem_mem s) pd \<union> set xs) y" for y
    using that g(10) [of y] u(6) [of y] outside_mono [OF g(4), of y] outside_mono [OF g(5), of y] by simp
  moreover have "set zs \<union> pt_pages (kmem_mem s2) pd \<union> L = set xs \<union> pt_pages (kmem_mem s) pd"
    using u(3,4) fr g(3-5,11,12) assms(2) by auto
  ultimately show ?thesis using u(1,2) g(2) unfolding restored_def by simp
qed

text \<open>Freeing the page in hand.\<close>

lemma restored_kfree:
  assumes "restored {x} pd s xs s1 ys" "spare s1 ys pd x" "x \<in> set xs"
  shows "\<exists>s'. kfree s1 x = Ok s' \<and> restored {} pd s xs s' (x # ys)"
proof -
  have r: "uvm_inv s1 ys pd" "kend s1 = kend s"
    "set ys \<union> pt_pages (kmem_mem s1) pd \<union> {x} = set xs \<union> pt_pages (kmem_mem s) pd"
    "\<And>va. mapped (kmem_mem s1) pd va = mapped (kmem_mem s) pd va"
    "\<And>va. mapped (kmem_mem s) pd va \<Longrightarrow> pte_of (kmem_mem s1) pd va = pte_of (kmem_mem s) pd va"
    "\<And>y. outside (pt_pages (kmem_mem s) pd \<union> set xs) y \<Longrightarrow> kmem_mem s1 y = kmem_mem s y"
    using assms(1) unfolding restored_def by simp_all
  obtain s' where k: "kfree s1 x = Ok s'" "pt_inv s' (x # ys) pd" "kend s' = kend s1"
    "pt_pages (kmem_mem s') pd = pt_pages (kmem_mem s1) pd"
    "\<And>va. pte_of (kmem_mem s') pd va = pte_of (kmem_mem s1) pd va"
    "\<And>y. \<not> y - x < 4096 \<Longrightarrow> kmem_mem s' y = kmem_mem s1 y"
    using kfree_pt [OF uvm_pt [OF r(1)], of x] assms(2) unfolding spare_def by blast
  have "uvm_inv s' (x # ys) pd" using r(1) k(2,3)
    by (rule uvm_inv_cong) (use k(4,5) assms(2) uvm_frame(2) [OF r(1)] in \<open>auto simp: spare_def\<close>)
  moreover have "kmem_mem s' y = kmem_mem s y" if "outside (pt_pages (kmem_mem s) pd \<union> set xs) y" for y
  proof -
    have "\<not> y - x < 4096" using that assms(3) by (simp add: outside_def)
    then show ?thesis using r(6) [OF that] k(6) by simp
  qed
  moreover have "set (x # ys) \<union> pt_pages (kmem_mem s') pd \<union> {} = set xs \<union> pt_pages (kmem_mem s) pd"
    using r(3) k(4) by simp
  ultimately have "restored {} pd s xs s' (x # ys)"
    using r(2,4,5) k(3,5) unfolding restored_def by (simp add: mapped_def)
  then show ?thesis using k(1) by blast
qed

lemma spare_unmapped:
  assumes "spare s xs pd x" "unmapped pd s xs a b s' ys" "b \<le> KERNBASE"
  shows "spare s' ys pd x"
proof -
  note u = unmappedD [OF assms(2)]
  have x: "frame (kmem_mem s) pd va \<noteq> x" if "va < KERNBASE" "mapped (kmem_mem s) pd va" for va
    using that assms(1) by (simp add: spare_def)
  have "x \<notin> frames (kmem_mem s) pd a b"
    using x user_page_low less_le_trans [OF _ assms(3)] unfolding frames_def in_range_def by fast
  moreover have "mapped (kmem_mem s) pd va \<and> frame (kmem_mem s') pd va = frame (kmem_mem s) pd va"
    if "mapped (kmem_mem s') pd va" for va
    using that u(5) [of va] by (auto simp: mapped_def frame_def split: if_splits)
  ultimately show ?thesis using assms(1) u(2-4) x unfolding spare_def by auto
qed

lemma grown_cong:
  assumes "grown L pd s xs a b s' ys" "\<And>va. in_range a c va = in_range a b va"
  shows "grown L pd s xs a c s' ys"
  using assms(1) unfolding grown_def frames_def assms(2) .

text \<open>The ways the loop ends.\<close>

definition alloc_outcome :: "uint \<Rightarrow> kmem \<Rightarrow> uint list \<Rightarrow> uint \<Rightarrow> uint \<Rightarrow> (uint \<times> kmem) res \<Rightarrow> bool" where
  "alloc_outcome pd s xs a newsz r \<longleftrightarrow> (\<exists>s' ys. r = Ok (newsz, s') \<and> grown {} pd s xs a newsz s' ys \<or>
     r = Ok (0, s') \<and> restored {} pd s xs s' ys)"

lemma alloc_out_of_pages:
  assumes "grown {} pd s xs (PGROUNDUP oldsz) a s1 []" "oldsz < newsz" "a < newsz" "newsz < KERNBASE"
    "\<And>va. in_range (PGROUNDUP oldsz) newsz va \<Longrightarrow> \<not> mapped (kmem_mem s) pd va"
  shows "alloc_outcome pd s xs (PGROUNDUP oldsz) newsz (allocuvm_loop (Suc k) s1 pd a oldsz newsz)"
proof -
  note g = grownD [OF assms(1)]
  obtain s' zs where d: "deallocuvm s1 pd newsz oldsz = Ok (oldsz, s')" "unmapped pd s1 [] (PGROUNDUP oldsz) newsz s' zs"
    using deallocuvm_spec [OF g(1) assms(2) less_imp_le [OF assms(4)]] by blast
  have "restored {} pd s xs s' zs"
    using undo_grown [OF assms(1) _ d(2) less_imp_le [OF assms(3)] less_imp_le [OF assms(4)] assms(5)] by simp
  moreover have "kalloc s1 = (0, s1)" using uvm_pt [OF g(1)] by (simp add: pt_inv_def kalloc_empty)
  ultimately show ?thesis using assms(3) d(1) unfolding alloc_outcome_def by auto
qed

lemma alloc_out_of_tables:
  assumes "grown {x} pd s xs (PGROUNDUP oldsz) a s1 ys" "spare s1 ys pd x" "x \<in> set xs"
    "oldsz < newsz" "a < newsz" "newsz < KERNBASE"
    "\<And>va. in_range (PGROUNDUP oldsz) newsz va \<Longrightarrow> \<not> mapped (kmem_mem s) pd va"
  shows "alloc_outcome pd s xs (PGROUNDUP oldsz) newsz
    (andthen (deallocuvm s1 pd newsz oldsz) (\<lambda>(_, s). andthen (kfree s x) (\<lambda>s. Ok (0, s))))"
proof -
  note le = less_imp_le [OF assms(5)] less_imp_le [OF assms(6)]
  obtain s2 zs where d: "deallocuvm s1 pd newsz oldsz = Ok (oldsz, s2)" "unmapped pd s1 ys (PGROUNDUP oldsz) newsz s2 zs"
    using deallocuvm_spec [OF grownD(1) [OF assms(1)] assms(4) le(2)] by blast
  have "restored {x} pd s xs s2 zs" using undo_grown [OF assms(1) _ d(2) le assms(7)] assms(3) by simp
  from restored_kfree [OF this spare_unmapped [OF assms(2) d(2) le(2)] assms(3)]
  obtain s' where "kfree s2 x = Ok s'" "restored {} pd s xs s' (x # zs)" by blast
  then show ?thesis using d(1) unfolding alloc_outcome_def by (intro exI [of _ s'] exI [of _ "x # zs"]) simp
qed

lemma in_range_split:
  assumes "page_aligned a" "a < KERNBASE" "a0 \<le> a"
  shows "in_range a0 (a + 4096) va \<longleftrightarrow> in_range a0 a va \<or> in_range a (a + 4096) va"
proof -
  have a4: "a < a + 4096" using assms(2) by (simp add: word_less_nat_alt unat_plus_small)
  show ?thesis unfolding in_range_def
    using assms(3) a4 by (cases "PGROUNDDOWN va < a") (auto intro: less_trans order_trans)
qed

lemma allocuvm_loop_spec:
  assumes "grown {} pd s xs (PGROUNDUP oldsz) a s1 ys" "page_aligned a" "PGROUNDUP oldsz \<le> a"
    "\<And>va. in_range (PGROUNDUP oldsz) a va \<Longrightarrow> PGROUNDDOWN va < newsz"
    "oldsz \<le> PGROUNDUP oldsz" "newsz < KERNBASE" "unat newsz \<le> unat a + 4096 * k"
    "\<And>va. in_range (PGROUNDUP oldsz) newsz va \<Longrightarrow> \<not> mapped (kmem_mem s) pd va"
  shows "alloc_outcome pd s xs (PGROUNDUP oldsz) newsz (allocuvm_loop (Suc k) s1 pd a oldsz newsz)"
  using assms(1-4,7)
proof (induction k arbitrary: s1 ys a)
  case (Suc k)
  show ?case
  proof (cases "a < newsz")
    case True
    then have lt: "oldsz < newsz" "a < KERNBASE" using Suc.prems(3) assms(5,6) by simp_all
    note g = grownD [OF Suc.prems(1)] and none = assms(8)
    show ?thesis
    proof (cases ys)
      case Nil
      then show ?thesis using alloc_out_of_pages [OF _ lt(1) True assms(6) none] Suc.prems(1) by blast
    next
      case (Cons x zs)
      note t = take_page [OF g(1) [unfolded Cons]]
      let ?s = "s1\<lparr>kmem_freelist := load32 (kmem_mem s1) x, kmem_mem := memset (kmem_mem s1) x 0 4096\<rparr>"
      have "\<not> mapped (kmem_mem s1) pd a"
        using none [of a] g(9) [of a] True Suc.prems(3) PGROUNDDOWN_aligned [OF Suc.prems(2)]
        by (simp add: in_range_def mapped_def)
      from grown_page [OF g(1) [unfolded Cons] Suc.prems(2) lt(2) this]
      obtain r s2 us where m: "mappages ?s pd a 4096 (V2P x) (PTE_W OR PTE_U) = Ok (r, s2)"
        "r = 0 \<and> grown {} pd s1 ys a (a + 4096) s2 us \<or> r = -1 \<and> spare s2 us pd x \<and> grown {x} pd s1 ys a a s2 us"
        unfolding Cons by blast
      have trans: "grown L pd s xs (PGROUNDUP oldsz) b s2 us" if "grown L pd s1 ys a b s2 us"
        "\<And>va. in_range (PGROUNDUP oldsz) b va \<longleftrightarrow> in_range (PGROUNDUP oldsz) a va \<or> in_range a b va" for L b
        using grown_trans [OF Suc.prems(1) that(1) less_imp_le [OF lt(2)] that(2)] .
      have unfold: "allocuvm_loop (Suc (Suc k)) s1 pd a oldsz newsz =
          (if r < 0 then andthen (deallocuvm s2 pd newsz oldsz) (\<lambda>(_, s). andthen (kfree s x) (\<lambda>s. Ok (0, s)))
           else allocuvm_loop (Suc k) s2 pd (a + 4096) oldsz newsz)"
        using True t(1,2) m(1) by (simp del: allocuvm_loop.simps add: allocuvm_loop.simps(2) [of "Suc k"])
      show ?thesis
      proof (cases "r = 0")
        case r: True
        have a4: "unat (a + 4096) = unat a + 4096"
          using lt(2) by (subst unat_plus_small) (simp_all add: word_less_nat_alt)
        note sp = in_range_split [OF Suc.prems(2) lt(2) Suc.prems(3)]
        have "PGROUNDDOWN va < newsz" if "in_range (PGROUNDUP oldsz) (a + 4096) va" for va
          using that Suc.prems(4) [of va] sp in_range_page [OF Suc.prems(2) lt(2)] True by auto
        moreover have "PGROUNDUP oldsz \<le> a + 4096" using Suc.prems(3) a4 by (simp add: word_le_nat_alt)
        ultimately show ?thesis using Suc.IH [of "a + 4096" s2 us] trans [OF _ sp] m(2) r Suc.prems(5)
            page_aligned_next [OF Suc.prems(2) a4] a4 unfolding unfold by simp
      next
        case False
        then have "grown {x} pd s xs (PGROUNDUP oldsz) a s2 us" using m(2) by (intro trans) (auto simp: in_range_def)
        then show ?thesis using alloc_out_of_tables [OF _ _ _ lt(1) True assms(6) none] m(2) False g(3) Cons
          unfolding unfold by auto
      qed
    qed
  next
    case False
    have "in_range (PGROUNDUP oldsz) newsz va = in_range (PGROUNDUP oldsz) a va" for va
      using Suc.prems(4) [of va] False unfolding in_range_def by auto
    from grown_cong [OF Suc.prems(1) this] show ?thesis using False by (auto simp: alloc_outcome_def)
  qed
next
  case 0
  then have n: "\<not> a < newsz" by (simp add: word_less_nat_alt)
  have "in_range (PGROUNDUP oldsz) newsz va = in_range (PGROUNDUP oldsz) a va" for va
    using 0(4) [of va] n unfolding in_range_def by auto
  from grown_cong [OF 0(1) this] show ?case using n by (auto simp: alloc_outcome_def)
qed

text \<open>C15: \<^verbatim>\<open>allocuvm\<close> of a larger size below \<^verbatim>\<open>KERNBASE\<close> either returns that size, with every new page mapped
  user-writable to a zeroed physical page of its own that was free, or returns \<open>0\<close> with the user part
  of the address space as before and no page lost: what is no longer free is a page table of it.\<close>

theorem allocuvm_correct:
  assumes "uvm_inv s xs pd" "oldsz \<le> newsz" "newsz < KERNBASE"
    "\<And>va. in_range (PGROUNDUP oldsz) newsz va \<Longrightarrow> \<not> mapped (kmem_mem s) pd va"
  shows "\<exists>r s' ys. allocuvm s pd oldsz newsz = Ok (r, s') \<and>
    (r = newsz \<and> grown {} pd s xs (PGROUNDUP oldsz) newsz s' ys \<or> r = 0 \<and> restored {} pd s xs s' ys)"
proof -
  have "unat oldsz + 4095 < 2 ^ 32" using assms(2,3) by (simp add: word_less_nat_alt word_le_nat_alt)
  then have "oldsz \<le> PGROUNDUP oldsz" by (simp add: word_le_nat_alt unat_PGROUNDUP)
  moreover have "grown {} pd s xs (PGROUNDUP oldsz) (PGROUNDUP oldsz) s xs" using grown_refl [OF assms(1)] by simp
  moreover have "unat newsz \<le> unat (PGROUNDUP oldsz) + 4096 * 1048575" using assms(3) by (simp add: word_less_nat_alt)
  ultimately have "alloc_outcome pd s xs (PGROUNDUP oldsz) newsz
      (allocuvm_loop (Suc 1048575) s pd (PGROUNDUP oldsz) oldsz newsz)"
    using assms(3,4) by (intro allocuvm_loop_spec) (auto simp: in_range_def)
  then show ?thesis using assms(2,3) by (auto simp: allocuvm_def alloc_outcome_def not_le not_less)
qed

theorem allocuvm_correct_witness:
  "\<exists>r s'. allocuvm demo_kmem demo_pd 0 0x2000 = Ok (r, s') \<and> (r = 0x2000 \<or> r = 0)"
  using allocuvm_correct [OF demo_uvm, of 0 "0x2000"] demo_inv(2) by (auto simp: mapped_def present_def)

end
