(* ===== verification/Sleeplock.thy ===== *)
theory Sleeplock
  imports Prelude
begin

text \<open>
  Sleep locks, \<^verbatim>\<open>sleeplock.c\<close>. Each routine is one critical section of the inner spinlock
  \<^verbatim>\<open>lk->lk\<close>; \<^verbatim>\<open>acquiresleep\<close> is one section per turn of its loop, since \<^verbatim>\<open>sleep\<close> gives the
  spinlock up. The first part defines the sections, the second lets the processes of the system
  interleave them.
\<close>

section \<open>Definitions\<close>

record sleeplock =
  locked :: bool
  lk_pid :: int

definition initsleeplock :: sleeplock where
  "initsleeplock = \<lparr>locked = False, lk_pid = 0\<rparr>"

text \<open>One turn of \<^verbatim>\<open>acquiresleep\<close> for the process \<open>pid\<close>: \<open>Blocked\<close> when it has to sleep. The next turn, after a wakeup, is
  another application of the definition; see \<open>lock_step\<close> below.\<close>

definition acquiresleep :: "int \<Rightarrow> sleeplock \<Rightarrow> sleeplock res" where
  "acquiresleep pid lk = (if locked lk then Blocked else Ok (lk\<lparr>locked := True, lk_pid := pid\<rparr>))"

text \<open>What \<^verbatim>\<open>releasesleep\<close> does to the lock; \<open>releasesleep_section\<close> below has the wakeup, too.\<close>

definition releasesleep :: "sleeplock \<Rightarrow> sleeplock" where
  "releasesleep lk = lk\<lparr>locked := False, lk_pid := 0\<rparr>"

definition holdingsleep :: "int \<Rightarrow> sleeplock \<Rightarrow> bool" where
  "holdingsleep pid lk \<longleftrightarrow> locked lk \<and> lk_pid lk = pid"

lemmas sleeplock_defs = initsleeplock_def acquiresleep_def releasesleep_def holdingsleep_def

lemma acquiresleep_Ok_iff [res_simps]:
  "acquiresleep pid lk = Ok lk' \<longleftrightarrow> \<not> locked lk \<and> lk' = lk\<lparr>locked := True, lk_pid := pid\<rparr>"
  by (auto simp: acquiresleep_def)

section \<open>Processes sharing a sleep lock\<close>

text \<open>
  A process is outside, about to run a turn of \<^verbatim>\<open>acquiresleep\<close>, asleep on the lock, or in the
  section the lock protects. \<^verbatim>\<open>wakeup(lk)\<close> makes every sleeper run its next turn, and a kill does
  so for one of them.
\<close>

datatype lstate = Idle | Trying | Asleep | Holding

record lock_sys =
  slk :: sleeplock
  pst :: "int \<Rightarrow> lstate"

definition wake_sleepers :: "(int \<Rightarrow> lstate) \<Rightarrow> int \<Rightarrow> lstate" where
  "wake_sleepers ps = (\<lambda>i. if ps i = Asleep then Trying else ps i)"

text \<open>The critical section of \<^verbatim>\<open>releasesleep\<close>: the lock and the processes after it.\<close>

definition releasesleep_section :: "sleeplock \<Rightarrow> (int \<Rightarrow> lstate) \<Rightarrow> sleeplock \<times> (int \<Rightarrow> lstate)" where
  "releasesleep_section lk ps = (releasesleep lk, wake_sleepers ps)"

inductive lock_step :: "lock_sys \<Rightarrow> lock_sys \<Rightarrow> bool" where
  call: "pst s i = Idle \<Longrightarrow> lock_step s (s\<lparr>pst := (pst s)(i := Trying)\<rparr>)"
| get: "pst s i = Trying \<Longrightarrow> acquiresleep i (slk s) = Ok lk \<Longrightarrow>
    lock_step s (s\<lparr>slk := lk, pst := (pst s)(i := Holding)\<rparr>)"
| wait: "pst s i = Trying \<Longrightarrow> acquiresleep i (slk s) = Blocked \<Longrightarrow>
    lock_step s (s\<lparr>pst := (pst s)(i := Asleep)\<rparr>)"
| release: "pst s i = Holding \<Longrightarrow>
    releasesleep_section (slk s) (pst s) = (lk, ps) \<Longrightarrow> lock_step s (s\<lparr>slk := lk, pst := ps(i := Idle)\<rparr>)"
| kill: "pst s i = Asleep \<Longrightarrow> lock_step s (s\<lparr>pst := (pst s)(i := Trying)\<rparr>)"

definition lock_start :: lock_sys where
  "lock_start = \<lparr>slk = initsleeplock, pst = (\<lambda>_. Idle)\<rparr>"

inductive lock_reach :: "lock_sys \<Rightarrow> bool" where
  start: "lock_reach lock_start"
| step: "lock_reach s \<Longrightarrow> lock_step s s' \<Longrightarrow> lock_reach s'"

text \<open>The holder is the process recorded in the lock, and nobody sleeps on a free lock.\<close>

definition lock_inv :: "lock_sys \<Rightarrow> bool" where
  "lock_inv s \<longleftrightarrow> (\<forall>i. pst s i = Holding \<longleftrightarrow> holdingsleep i (slk s)) \<and>
     (\<forall>i. pst s i = Asleep \<longrightarrow> locked (slk s))"

lemma lock_inv_step: "lock_step s s' \<Longrightarrow> lock_inv s \<Longrightarrow> lock_inv s'"
  by (induction rule: lock_step.induct)
    (auto simp: lock_inv_def sleeplock_defs releasesleep_section_def wake_sleepers_def split: if_splits,
      (drule spec, drule iffD2, rule refl, simp)+)

lemma lock_reach_inv: "lock_reach s \<Longrightarrow> lock_inv s"
proof (induction rule: lock_reach.induct)
  case start
  show ?case by (simp add: lock_start_def lock_inv_def sleeplock_defs)
qed (rule lock_inv_step)

text \<open>C25: in every interleaving at most one process is in the section a sleep lock protects, it is
  the one \<^verbatim>\<open>holdingsleep\<close> recognises, and a process sleeps on the lock only while it is held, so
  that the next \<^verbatim>\<open>releasesleep\<close> wakes it.\<close>

theorem sleeplock_mutual_exclusion:
  assumes "lock_reach s"
  shows "(pst s i = Holding \<and> pst s j = Holding \<longrightarrow> i = j) \<and>
    (pst s i = Holding \<longleftrightarrow> holdingsleep i (slk s)) \<and>
    (pst s i = Asleep \<longrightarrow> (\<exists>h. pst s h = Holding))"
  using lock_reach_inv [OF assms] by (auto simp: lock_inv_def sleeplock_defs)

lemma held_lock_reachable:
  "lock_reach \<lparr>slk = \<lparr>locked = True, lk_pid = 1\<rparr>, pst = (\<lambda>_. Idle)(1 := Holding, 2 := Asleep)\<rparr>"
proof -
  let ?s = "\<lambda>a b. \<lparr>slk = \<lparr>locked = False, lk_pid = 0\<rparr>, pst = (\<lambda>_. Idle)(1 := a, 2 := b)\<rparr>"
  let ?t = "\<lambda>b. \<lparr>slk = \<lparr>locked = True, lk_pid = 1\<rparr>, pst = (\<lambda>_. Idle)(1 := Holding, 2 := b)\<rparr>"
  have "lock_reach (?s Idle Idle)"
    using lock_reach.start by (simp add: lock_start_def initsleeplock_def fun_upd_idem)
  moreover have "lock_step (?s Idle Idle) (?s Trying Idle)"
    using lock_step.call [of "?s Idle Idle" 1] by (simp add: fun_upd_twist)
  moreover have "lock_step (?s Trying Idle) (?s Trying Trying)"
    using lock_step.call [of "?s Trying Idle" 2] by simp
  moreover have "lock_step (?s Trying Trying) (?t Trying)"
    using lock_step.get [of "?s Trying Trying" 1] by (simp add: acquiresleep_def fun_upd_twist)
  moreover have "lock_step (?t Trying) (?t Asleep)"
    using lock_step.wait [of "?t Trying" 2] by (simp add: acquiresleep_def)
  ultimately show ?thesis using lock_reach.step by blast
qed

theorem sleeplock_mutual_exclusion_witness:
  "\<exists>h. pst \<lparr>slk = \<lparr>locked = True, lk_pid = 1\<rparr>, pst = (\<lambda>_. Idle)(1 := Holding, 2 := Asleep)\<rparr> h
     = Holding"
  using sleeplock_mutual_exclusion [OF held_lock_reachable, of 2] by simp

end
