(* ===== verification/Block.thy ===== *)
theory Block
  imports Prelude
begin

text \<open>
  Disk blocks of \<^verbatim>\<open>BSIZE\<close> bytes and the little-endian integers the file system structures keep
  in them. A block is the function from the byte offset to the byte; offsets from \<^verbatim>\<open>BSIZE\<close> on
  are not part of it and are never read.
\<close>

abbreviation (input) BSIZE :: nat where "BSIZE \<equiv> 512"

type_synonym block = "nat \<Rightarrow> uchar"

definition get32 :: "block \<Rightarrow> nat \<Rightarrow> uint" where
  "get32 d i = ucast (d i) OR push_bit 8 (ucast (d (i + 1)))
     OR push_bit 16 (ucast (d (i + 2))) OR push_bit 24 (ucast (d (i + 3)))"

definition put32 :: "block \<Rightarrow> nat \<Rightarrow> uint \<Rightarrow> block" where
  "put32 d i w = d(i := ucast w, i + 1 := ucast (drop_bit 8 w),
     i + 2 := ucast (drop_bit 16 w), i + 3 := ucast (drop_bit 24 w))"

definition get16 :: "block \<Rightarrow> nat \<Rightarrow> ushort" where
  "get16 d i = ucast (d i) OR push_bit 8 (ucast (d (i + 1)))"

definition put16 :: "block \<Rightarrow> nat \<Rightarrow> ushort \<Rightarrow> block" where
  "put16 d i w = d(i := ucast w, i + 1 := ucast (drop_bit 8 w))"

named_theorems block_simps \<open>reading back block contents after writes\<close>

lemma join_bytes16:
  "ucast (ucast w :: uchar) OR push_bit 8 (ucast (ucast (drop_bit 8 w) :: uchar)) = (w :: ushort)"
proof (rule bit_word_eqI)
  fix n :: nat
  assume n: "n < LENGTH(16)"
  consider "n < 8" | "8 \<le> n" "n < 16" using n by fastforce
  then show "bit (ucast (ucast w :: uchar) OR push_bit 8 (ucast (ucast (drop_bit 8 w) :: uchar)) :: ushort) n
      = bit w n"
    by cases (auto simp: bit_or_iff bit_push_bit_iff bit_ucast_iff bit_drop_bit_eq)
qed

lemma get32_put32 [simp, block_simps]: "get32 (put32 d i w) i = w"
  by (simp add: get32_def put32_def join_bytes)

lemma get16_put16 [simp, block_simps]: "get16 (put16 d i w) i = w"
  by (simp add: get16_def put16_def join_bytes16)

lemma put32_other [block_simps]: "j < i \<or> i + 4 \<le> j \<Longrightarrow> put32 d i w j = d j"
  by (auto simp: put32_def)

lemma put16_other [block_simps]: "j < i \<or> i + 2 \<le> j \<Longrightarrow> put16 d i w j = d j"
  by (auto simp: put16_def)

lemma get32_put32_other [block_simps]:
  "j + 4 \<le> i \<or> i + 4 \<le> j \<Longrightarrow> get32 (put32 d i w) j = get32 d j"
  by (auto simp: get32_def put32_other)

lemma get16_put16_other [block_simps]:
  "j + 2 \<le> i \<or> i + 2 \<le> j \<Longrightarrow> get16 (put16 d i w) j = get16 d j"
  by (auto simp: get16_def put16_other)

lemma get16_put32_other [block_simps]:
  "j + 2 \<le> i \<or> i + 4 \<le> j \<Longrightarrow> get16 (put32 d i w) j = get16 d j"
  by (auto simp: get16_def put32_other)

lemma get32_put16_other [block_simps]:
  "j + 4 \<le> i \<or> i + 2 \<le> j \<Longrightarrow> get32 (put16 d i w) j = get32 d j"
  by (auto simp: get32_def put16_other)

lemma get32_cong: "(\<And>j. i \<le> j \<Longrightarrow> j < i + 4 \<Longrightarrow> d j = d' j) \<Longrightarrow> get32 d i = get32 d' i"
  by (simp add: get32_def)

lemma get16_cong: "(\<And>j. i \<le> j \<Longrightarrow> j < i + 2 \<Longrightarrow> d j = d' j) \<Longrightarrow> get16 d i = get16 d' i"
  by (simp add: get16_def)

end
