(* ===== verification/Ring.thy ===== *)
theory Ring
  imports Prelude
begin

text \<open>
  Circular doubly linked lists with a head element, as \<^verbatim>\<open>bio.c\<close> keeps its buffers: two pointer
  fields \<open>nx\<close> and \<open>pv\<close> describe the list \<open>xs\<close> between the head and itself.
\<close>

primrec chain :: "('a \<Rightarrow> 'a) \<Rightarrow> 'a \<Rightarrow> 'a list \<Rightarrow> 'a \<Rightarrow> bool" where
  "chain nx a [] z \<longleftrightarrow> nx a = z"
| "chain nx a (x # xs) z \<longleftrightarrow> nx a = x \<and> chain nx x xs z"

lemma chain_append: "chain nx a (xs @ y # ys) z \<longleftrightarrow> chain nx a xs y \<and> chain nx y ys z"
  by (induction xs arbitrary: a) auto

lemma chain_upd [simp]: "u \<noteq> a \<Longrightarrow> u \<notin> set xs \<Longrightarrow> chain (nx(u := v)) a xs z = chain nx a xs z"
  by (induction xs arbitrary: a) auto

definition ring :: "('a \<Rightarrow> 'a) \<Rightarrow> ('a \<Rightarrow> 'a) \<Rightarrow> 'a \<Rightarrow> 'a list \<Rightarrow> bool" where
  "ring nx pv h xs \<longleftrightarrow> distinct (h # xs) \<and> chain nx h xs h \<and> chain pv h (rev xs) h"

lemma ring_empty: "nx h = h \<Longrightarrow> pv h = h \<Longrightarrow> ring nx pv h []"
  by (simp add: ring_def)

text \<open>Inserting an element behind the head.\<close>

lemma ring_push:
  assumes "ring nx pv h xs" "b \<noteq> h" "b \<notin> set xs"
  shows "ring (nx(b := nx h, h := b)) (pv(b := h, nx h := b)) h (b # xs)"
proof (cases xs)
  case Nil
  then show ?thesis using assms by (simp add: ring_def)
next
  case (Cons x xs')
  then have "chain nx x xs' h" "chain pv h (rev xs') x" "nx h = x" "pv x = h" "distinct (h # x # xs')"
    using assms by (auto simp: ring_def chain_append)
  then show ?thesis using assms Cons by (auto simp: ring_def chain_append)
qed

text \<open>Taking an element out.\<close>

lemma ring_neighbours:
  assumes "ring nx pv h (us @ b # vs)"
  shows "nx b = hd (vs @ [h])" "pv b = last (h # us)"
  using assms by (cases vs; cases us rule: rev_cases; auto simp: ring_def chain_append)+

lemma ring_unlink:
  assumes "ring nx pv h xs" "b \<in> set xs"
  shows "ring (nx(pv b := nx b)) (pv(nx b := pv b)) h (remove1 b xs)"
proof -
  obtain us vs where xs: "xs = us @ b # vs" "b \<notin> set us" using assms(2) by (metis split_list_first)
  have r: "ring nx pv h (us @ b # vs)" using assms xs by simp
  note n = ring_neighbours [OF r]
  have "ring (nx(last (h # us) := hd (vs @ [h]))) (pv(hd (vs @ [h]) := last (h # us))) h (us @ vs)"
    using r by (cases vs; cases us rule: rev_cases) (auto simp: ring_def chain_append)
  then show ?thesis using xs n by (simp add: remove1_append)
qed

lemma ring_unlink_frame:
  assumes "ring nx pv h xs" "b \<in> set xs"
  shows "nx b \<noteq> b" "pv b \<noteq> b" "b \<noteq> h"
proof -
  obtain us vs where xs: "xs = us @ b # vs" using assms(2) by (metis split_list)
  have r: "ring nx pv h (us @ b # vs)" using assms xs by simp
  show "nx b \<noteq> b" "pv b \<noteq> b" "b \<noteq> h"
    using ring_neighbours [OF r] r by (cases vs; cases us rule: rev_cases; auto simp: ring_def)+
qed

text \<open>
  Walking the ring from the head in either direction with a bound on the number of steps; a bound
  larger than the length of the list is enough.
\<close>

primrec scan :: "nat \<Rightarrow> ('a \<Rightarrow> 'a) \<Rightarrow> 'a \<Rightarrow> ('a \<Rightarrow> bool) \<Rightarrow> 'a \<Rightarrow> 'a option" where
  "scan 0 nx h P b = None"
| "scan (Suc k) nx h P b =
     (if b = h then None else if P b then Some b else scan k nx h P (nx b))"

lemma scan_chain:
  "chain nx a xs h \<Longrightarrow> h \<notin> set xs \<Longrightarrow> length xs < k \<Longrightarrow> scan k nx h P (nx a) = find P xs"
proof (induction xs arbitrary: a k)
  case Nil
  then show ?case by (cases k) auto
next
  case (Cons x xs)
  then obtain k' where "k = Suc k'" by (cases k) auto
  then show ?case using Cons by auto
qed

lemma scan_next: "ring nx pv h xs \<Longrightarrow> length xs < k \<Longrightarrow> scan k nx h P (nx h) = find P xs"
  by (simp add: ring_def scan_chain)

lemma scan_prev: "ring nx pv h xs \<Longrightarrow> length xs < k \<Longrightarrow> scan k pv h P (pv h) = find P (rev xs)"
  by (simp add: ring_def scan_chain)

end
