(* ===== verification/Bio.thy ===== *)
theory Bio
  imports Sleeplock Block Ring
begin

text \<open>
  The buffer cache, \<^verbatim>\<open>bio.c\<close>, over the memory disk driver \<^verbatim>\<open>memide.c\<close>. Buffers are numbered by
  their position in \<^verbatim>\<open>bcache.buf\<close> and linked by the two pointer fields; the number \<^verbatim>\<open>NBUF\<close> stands
  for \<^verbatim>\<open>bcache.head\<close>. The second half shows that the cache implements a disk whose blocks can be
  locked, changed and pinned (\<open>acache\<close>).
\<close>

section \<open>Definitions\<close>

abbreviation (input) NBUF :: nat where "NBUF \<equiv> 30"
abbreviation (input) ROOTDEV :: uint where "ROOTDEV \<equiv> 1"

text \<open>\<^verbatim>\<open>struct buf\<close>; the flag bits \<^verbatim>\<open>B_VALID\<close> and \<^verbatim>\<open>B_DIRTY\<close> are separate fields.\<close>

record buf =
  b_valid :: bool
  b_dirty :: bool
  b_dev :: uint
  b_blockno :: uint
  b_lock :: sleeplock
  b_refcnt :: uint
  b_data :: block

text \<open>
  The cache, the disk \<^verbatim>\<open>memdisk\<close> behind it with its number of blocks, and the pid of the running
  process. The ghost field \<open>written\<close> is the history of the disk writes, the oldest first.
\<close>

record bcache =
  bufs :: "nat \<Rightarrow> buf"
  bnext :: "nat \<Rightarrow> nat"
  bprev :: "nat \<Rightarrow> nat"
  memdisk :: "uint \<Rightarrow> block"
  disksize :: uint
  written :: "(uint \<times> block) list"
  mypid :: int

definition set_buf :: "bcache \<Rightarrow> nat \<Rightarrow> (buf \<Rightarrow> buf) \<Rightarrow> bcache" where
  "set_buf s b f = s\<lparr>bufs := (bufs s)(b := f (bufs s b))\<rparr>"

definition iderw :: "bcache \<Rightarrow> nat \<Rightarrow> bcache res" where
  "iderw s b =
     (let x = bufs s b in
      if \<not> holdingsleep (mypid s) (b_lock x) then Panic ''iderw: buf not locked''
      else if b_valid x \<and> \<not> b_dirty x then Panic ''iderw: nothing to do''
      else if b_dev x \<noteq> 1 then Panic ''iderw: request not for disk 1''
      else if disksize s \<le> b_blockno x then Panic ''iderw: block out of range''
      else if b_dirty x
      then Ok (set_buf (s\<lparr>memdisk := (memdisk s)(b_blockno x := b_data x),
                          written := written s @ [(b_blockno x, b_data x)]\<rparr>)
                 b (\<lambda>x. x\<lparr>b_dirty := False, b_valid := True\<rparr>))
      else Ok (set_buf s b (\<lambda>x. x\<lparr>b_data := memdisk s (b_blockno x), b_valid := True\<rparr>)))"

text \<open>The insertion behind the head that \<^verbatim>\<open>binit\<close> and \<^verbatim>\<open>brelse\<close> share.\<close>

definition list_push :: "bcache \<Rightarrow> nat \<Rightarrow> bcache" where
  "list_push s b =
     (let s = s\<lparr>bnext := (bnext s)(b := bnext s NBUF)\<rparr>;
          s = s\<lparr>bprev := (bprev s)(b := NBUF)\<rparr>;
          s = s\<lparr>bprev := (bprev s)(bnext s NBUF := b)\<rparr>
      in s\<lparr>bnext := (bnext s)(NBUF := b)\<rparr>)"

text \<open>The removal from the list in \<^verbatim>\<open>brelse\<close>.\<close>

definition list_unlink :: "bcache \<Rightarrow> nat \<Rightarrow> bcache" where
  "list_unlink s b =
     (let s = s\<lparr>bprev := (bprev s)(bnext s b := bprev s b)\<rparr>
      in s\<lparr>bnext := (bnext s)(bprev s b := bnext s b)\<rparr>)"

primrec binit_loop :: "nat \<Rightarrow> bcache \<Rightarrow> bcache" where
  "binit_loop 0 s = s"
| "binit_loop (Suc b) s =
     list_push (set_buf (binit_loop b s) b (\<lambda>x. x\<lparr>b_lock := initsleeplock\<rparr>)) b"

definition binit :: "bcache \<Rightarrow> bcache" where
  "binit s = binit_loop NBUF
     (s\<lparr>bprev := (bprev s)(NBUF := NBUF), bnext := (bnext s)(NBUF := NBUF)\<rparr>)"

definition lock_buf :: "bcache \<Rightarrow> nat \<Rightarrow> (nat \<times> bcache) res" where
  "lock_buf s b = andthen (acquiresleep (mypid s) (b_lock (bufs s b)))
     (\<lambda>lk. Ok (b, set_buf s b (\<lambda>x. x\<lparr>b_lock := lk\<rparr>)))"

text \<open>The two loops of \<^verbatim>\<open>bget\<close>; a ring of \<^verbatim>\<open>NBUF\<close> buffers is walked in \<^verbatim>\<open>NBUF\<close> steps.\<close>

definition bget_cached :: "bcache \<Rightarrow> uint \<Rightarrow> uint \<Rightarrow> nat option" where
  "bget_cached s dev blockno = scan (Suc NBUF) (bnext s) NBUF
     (\<lambda>b. b_dev (bufs s b) = dev \<and> b_blockno (bufs s b) = blockno) (bnext s NBUF)"

definition bget_unused :: "bcache \<Rightarrow> nat option" where
  "bget_unused s = scan (Suc NBUF) (bprev s) NBUF
     (\<lambda>b. b_refcnt (bufs s b) = 0 \<and> \<not> b_dirty (bufs s b)) (bprev s NBUF)"

definition bget :: "bcache \<Rightarrow> uint \<Rightarrow> uint \<Rightarrow> (nat \<times> bcache) res" where
  "bget s dev blockno =
     (case bget_cached s dev blockno of
        Some b \<Rightarrow> lock_buf (set_buf s b (\<lambda>x. x\<lparr>b_refcnt := b_refcnt x + 1\<rparr>)) b
      | None \<Rightarrow>
          (case bget_unused s of
             Some b \<Rightarrow> lock_buf (set_buf s b (\<lambda>x. x\<lparr>b_dev := dev, b_blockno := blockno,
                         b_valid := False, b_dirty := False, b_refcnt := 1\<rparr>)) b
           | None \<Rightarrow> Panic ''bget: no buffers''))"

definition bread :: "bcache \<Rightarrow> uint \<Rightarrow> uint \<Rightarrow> (nat \<times> bcache) res" where
  "bread s dev blockno = andthen (bget s dev blockno)
     (\<lambda>(b, s). if b_valid (bufs s b) then Ok (b, s)
               else andthen (iderw s b) (\<lambda>s. Ok (b, s)))"

definition bwrite :: "bcache \<Rightarrow> nat \<Rightarrow> bcache res" where
  "bwrite s b =
     (if \<not> holdingsleep (mypid s) (b_lock (bufs s b)) then Panic ''bwrite''
      else iderw (set_buf s b (\<lambda>x. x\<lparr>b_dirty := True\<rparr>)) b)"

definition brelse :: "bcache \<Rightarrow> nat \<Rightarrow> bcache res" where
  "brelse s b =
     (if \<not> holdingsleep (mypid s) (b_lock (bufs s b)) then Panic ''brelse''
      else
        let s = set_buf s b (\<lambda>x. x\<lparr>b_lock := releasesleep (b_lock x)\<rparr>);
            s = set_buf s b (\<lambda>x. x\<lparr>b_refcnt := b_refcnt x - 1\<rparr>)
        in if b_refcnt (bufs s b) = 0 then Ok (list_push (list_unlink s b) b) else Ok s)"

text \<open>Assignments to \<^verbatim>\<open>b->data\<close> by the holder, and the pinning of \<^verbatim>\<open>log_write\<close>.\<close>

definition set_data :: "bcache \<Rightarrow> nat \<Rightarrow> (block \<Rightarrow> block) \<Rightarrow> bcache" where
  "set_data s b f = set_buf s b (\<lambda>x. x\<lparr>b_data := f (b_data x)\<rparr>)"

definition set_dirty :: "bcache \<Rightarrow> nat \<Rightarrow> bcache" where
  "set_dirty s b = set_buf s b (\<lambda>x. x\<lparr>b_dirty := True\<rparr>)"

section \<open>The list of buffers\<close>

definition mru :: "bcache \<Rightarrow> nat list \<Rightarrow> bool" where
  "mru s xs \<longleftrightarrow> ring (bnext s) (bprev s) NBUF xs \<and> set xs = {..<NBUF}"

lemma mru_length: "mru s xs \<Longrightarrow> length xs = NBUF"
  using distinct_card [of xs] by (simp add: mru_def ring_def)

lemma bget_cached_eq:
  assumes "mru s xs"
  shows "bget_cached s dev blockno =
    find (\<lambda>b. b_dev (bufs s b) = dev \<and> b_blockno (bufs s b) = blockno) xs"
proof -
  have "ring (bnext s) (bprev s) NBUF xs" using assms by (simp only: mru_def)
  moreover have "length xs < Suc NBUF" using mru_length [OF assms] by simp
  ultimately show ?thesis unfolding bget_cached_def by (rule scan_next)
qed

lemma bget_unused_eq:
  assumes "mru s xs"
  shows "bget_unused s =
    find (\<lambda>b. b_refcnt (bufs s b) = 0 \<and> \<not> b_dirty (bufs s b)) (rev xs)"
proof -
  have "ring (bnext s) (bprev s) NBUF xs" using assms by (simp only: mru_def)
  moreover have "length xs < Suc NBUF" using mru_length [OF assms] by simp
  ultimately show ?thesis unfolding bget_unused_def by (rule scan_prev)
qed

lemma list_push_ring:
  assumes "ring (bnext s) (bprev s) NBUF xs" "b \<noteq> NBUF" "b \<notin> set xs"
  shows "ring (bnext (list_push s b)) (bprev (list_push s b)) NBUF (b # xs)"
  using ring_push [OF assms] assms(2) by (simp add: list_push_def)

lemma list_unlink_ring:
  assumes "ring (bnext s) (bprev s) NBUF xs" "b \<in> set xs"
  shows "ring (bnext (list_unlink s b)) (bprev (list_unlink s b)) NBUF (remove1 b xs)"
proof -
  have "bnext s b \<noteq> b" using ring_unlink_frame(1) [OF assms] .
  then show ?thesis using ring_unlink [OF assms] by (simp add: list_unlink_def)
qed

lemma list_unlink_frame [simp]:
  "bufs (list_unlink s b) = bufs s" "memdisk (list_unlink s b) = memdisk s"
  "disksize (list_unlink s b) = disksize s" "written (list_unlink s b) = written s"
  "mypid (list_unlink s b) = mypid s"
  by (simp_all add: list_unlink_def Let_def)

lemma list_push_frame [simp]:
  "bufs (list_push s b) = bufs s" "memdisk (list_push s b) = memdisk s"
  "disksize (list_push s b) = disksize s" "written (list_push s b) = written s"
  "mypid (list_push s b) = mypid s"
  by (simp_all add: list_push_def Let_def)

lemma set_buf_frame [simp]:
  "bufs (set_buf s b f) = (bufs s)(b := f (bufs s b))" "bnext (set_buf s b f) = bnext s"
  "bprev (set_buf s b f) = bprev s" "memdisk (set_buf s b f) = memdisk s"
  "disksize (set_buf s b f) = disksize s" "written (set_buf s b f) = written s"
  "mypid (set_buf s b f) = mypid s"
  by (simp_all add: set_buf_def)

lemma mru_set_buf [simp]: "mru (set_buf s b f) xs = mru s xs"
  by (simp add: mru_def)

lemma binit_loop_ring:
  assumes "bnext s NBUF = NBUF" "bprev s NBUF = NBUF" "n \<le> NBUF"
  shows "ring (bnext (binit_loop n s)) (bprev (binit_loop n s)) NBUF (rev [0..<n])"
  using assms(3)
proof (induction n)
  case 0
  then show ?case using assms by (simp add: ring_empty)
next
  case (Suc n)
  then show ?case
    using list_push_ring [of "set_buf (binit_loop n s) n _" "rev [0..<n]" n] by simp
qed

lemma binit_mru: "mru (binit s) (rev [0..<NBUF])"
proof -
  have "set (rev [0..<NBUF]) = {..<NBUF}" by (simp only: set_rev set_upt atLeast0LessThan)
  moreover have "ring (bnext (binit s)) (bprev (binit s)) NBUF (rev [0..<NBUF])"
    unfolding binit_def by (rule binit_loop_ring) simp_all
  ultimately show ?thesis by (simp only: mru_def simp_thms)
qed

lemma list_move_mru:
  assumes "mru s xs" "b < NBUF"
  shows "mru (list_push (list_unlink s b) b) (b # remove1 b xs)"
proof -
  have r: "ring (bnext s) (bprev s) NBUF xs" and x: "set xs = {..<NBUF}"
    using assms(1) by (simp_all only: mru_def)
  have b: "b \<in> set xs" using x assms(2) by blast
  have d: "distinct xs" using r by (simp add: ring_def)
  have "ring (bnext (list_push (list_unlink s b) b)) (bprev (list_push (list_unlink s b) b)) NBUF
      (b # remove1 b xs)"
    using list_unlink_ring [OF r b] assms(2) d by (intro list_push_ring) auto
  moreover have "set (b # remove1 b xs) = {..<NBUF}"
    using b d unfolding x [symmetric] by auto
  ultimately show ?thesis by (simp only: mru_def simp_thms)
qed

text \<open>The state \<^verbatim>\<open>brelse\<close> leaves, and the order of the buffers in it.\<close>

lemma brelse_Ok_iff [res_simps]:
  "brelse s b = Ok s' \<longleftrightarrow> holdingsleep (mypid s) (b_lock (bufs s b)) \<and>
     s' = (let t = set_buf s b (\<lambda>x. x\<lparr>b_lock := releasesleep (b_lock x), b_refcnt := b_refcnt x - 1\<rparr>)
           in if b_refcnt (bufs s b) = 1 then list_push (list_unlink t b) b else t)"
  by (auto simp: brelse_def set_buf_def Let_def)

lemma brelse_mru:
  assumes "mru s xs" "b < NBUF" "brelse s b = Ok s'"
  shows "mru s' (if b_refcnt (bufs s b) = 1 then b # remove1 b xs else xs)"
  using assms(3) list_move_mru [of "set_buf s b f" xs b for f] assms(1,2)
  by (simp add: brelse_Ok_iff Let_def)

lemma iderw_Ok_iff [res_simps]:
  "iderw s b = Ok s' \<longleftrightarrow> holdingsleep (mypid s) (b_lock (bufs s b)) \<and>
     \<not> (b_valid (bufs s b) \<and> \<not> b_dirty (bufs s b)) \<and> b_dev (bufs s b) = 1 \<and>
     b_blockno (bufs s b) < disksize s \<and>
     s' = (let n = b_blockno (bufs s b) in
           if b_dirty (bufs s b)
           then set_buf (s\<lparr>memdisk := (memdisk s)(n := b_data (bufs s b)),
                          written := written s @ [(n, b_data (bufs s b))]\<rparr>) b
                  (\<lambda>x. x\<lparr>b_dirty := False, b_valid := True\<rparr>)
           else set_buf s b (\<lambda>x. x\<lparr>b_data := memdisk s n, b_valid := True\<rparr>))"
  by (auto simp: iderw_def Let_def set_buf_def)

section \<open>The cache as a disk with locked and pinned blocks\<close>

text \<open>
  What the clients of the cache see of each block of the disk: its current contents, its contents on
  the disk, whether it is pinned in the cache, and who has it locked; and how many buffers are left
  for blocks that are not pinned.
\<close>

record acache =
  ac_view :: "uint \<Rightarrow> block"
  ac_disk :: "uint \<Rightarrow> block"
  ac_dirty :: "uint \<Rightarrow> bool"
  ac_holder :: "uint \<Rightarrow> int option"
  ac_free :: nat
  ac_written :: "(uint \<times> block) list"
  ac_size :: uint
  ac_pid :: int

text \<open>The operations on this view.\<close>

definition ac_lock :: "acache \<Rightarrow> uint \<Rightarrow> acache" where
  "ac_lock a n = a\<lparr>ac_holder := (ac_holder a)(n := Some (ac_pid a)),
     ac_free := (if ac_dirty a n then ac_free a else ac_free a - 1)\<rparr>"

definition ac_flush :: "acache \<Rightarrow> uint \<Rightarrow> acache" where
  "ac_flush a n = a\<lparr>ac_disk := (ac_disk a)(n := ac_view a n), ac_dirty := (ac_dirty a)(n := False),
     ac_written := ac_written a @ [(n, ac_view a n)]\<rparr>"

definition ac_unlock :: "acache \<Rightarrow> uint \<Rightarrow> acache" where
  "ac_unlock a n = a\<lparr>ac_holder := (ac_holder a)(n := None),
     ac_free := (if ac_dirty a n then ac_free a else Suc (ac_free a))\<rparr>"

lemmas ac_defs = ac_lock_def ac_flush_def ac_unlock_def

definition bkey :: "buf \<Rightarrow> uint \<Rightarrow> bool" where
  "bkey x n \<longleftrightarrow> b_dev x = ROOTDEV \<and> b_blockno x = n"

definition cached :: "(nat \<Rightarrow> buf) \<Rightarrow> uint \<Rightarrow> nat option" where
  "cached B n = find (\<lambda>b. bkey (B b) n) [0..<NBUF]"

definition buf_free :: "buf \<Rightarrow> bool" where
  "buf_free x \<longleftrightarrow> \<not> locked (b_lock x) \<and> \<not> b_dirty x"

definition nfree :: "(nat \<Rightarrow> buf) \<Rightarrow> nat" where
  "nfree B = card {b. b < NBUF \<and> buf_free (B b)}"

definition abs_cache :: "bcache \<Rightarrow> acache" where
  "abs_cache s = \<lparr>
     ac_view = (\<lambda>n. case cached (bufs s) n of
         Some b \<Rightarrow> if b_valid (bufs s b) then b_data (bufs s b) else memdisk s n
       | None \<Rightarrow> memdisk s n),
     ac_disk = memdisk s,
     ac_dirty = (\<lambda>n. case cached (bufs s) n of Some b \<Rightarrow> b_dirty (bufs s b) | None \<Rightarrow> False),
     ac_holder = (\<lambda>n. case cached (bufs s) n of
         Some b \<Rightarrow> if locked (b_lock (bufs s b)) then Some (lk_pid (b_lock (bufs s b))) else None
       | None \<Rightarrow> None),
     ac_free = nfree (bufs s),
     ac_written = written s, ac_size = disksize s, ac_pid = mypid s\<rparr>"

definition buf_ok :: "(uint \<Rightarrow> block) \<Rightarrow> buf \<Rightarrow> bool" where
  "buf_ok D x \<longleftrightarrow> b_refcnt x = (if locked (b_lock x) then 1 else 0) \<and>
     (b_valid x \<longrightarrow> b_dev x = ROOTDEV) \<and> (b_dirty x \<or> locked (b_lock x) \<longrightarrow> b_valid x) \<and>
     (b_valid x \<and> buf_free x \<longrightarrow> b_data x = D (b_blockno x))"

definition bio_inv :: "bcache \<Rightarrow> bool" where
  "bio_inv s \<longleftrightarrow> (\<exists>xs. mru s xs) \<and>
     (\<forall>b c n. b < NBUF \<and> c < NBUF \<and> bkey (bufs s b) n \<and> bkey (bufs s c) n \<longrightarrow> b = c) \<and>
     (\<forall>b. b < NBUF \<longrightarrow> buf_ok (memdisk s) (bufs s b) \<and>
        (b_valid (bufs s b) \<longrightarrow> b_blockno (bufs s b) < disksize s))"

text \<open>The running process has the block \<open>n\<close> locked in the buffer \<open>b\<close>.\<close>

definition held :: "bcache \<Rightarrow> nat \<Rightarrow> uint \<Rightarrow> bool" where
  "held s b n \<longleftrightarrow> b < NBUF \<and> bkey (bufs s b) n \<and> b_valid (bufs s b) \<and>
     holdingsleep (mypid s) (b_lock (bufs s b))"

lemma find_upt: "find P [0..<k] = Some b \<Longrightarrow> b < k \<and> P b"
  by (auto simp: find_Some_iff)

lemma find_upt_None: "find P [0..<k] = None \<longleftrightarrow> (\<forall>b. b < k \<longrightarrow> \<not> P b)"
  by (auto simp: find_None_iff)

lemma cached_Some: "cached B n = Some b \<Longrightarrow> b < NBUF \<and> bkey (B b) n"
  unfolding cached_def by (rule find_upt)

lemma cached_None: "cached B n = None \<longleftrightarrow> (\<forall>b. b < NBUF \<longrightarrow> \<not> bkey (B b) n)"
  unfolding cached_def by (rule find_upt_None)

lemma cached_unique:
  assumes "\<And>b c n. b < NBUF \<Longrightarrow> c < NBUF \<Longrightarrow> bkey (B b) n \<Longrightarrow> bkey (B c) n \<Longrightarrow> b = c"
    and "b < NBUF" "bkey (B b) n"
  shows "cached B n = Some b"
proof (cases "cached B n")
  case None
  then show ?thesis using assms(2,3) by (simp add: cached_None)
next
  case (Some c)
  then show ?thesis using assms cached_Some by blast
qed

lemma cached_buf:
  assumes "bio_inv s" "b < NBUF" "bkey (bufs s b) n"
  shows "cached (bufs s) n = Some b"
proof -
  have "b = c" if "b < NBUF" "c < NBUF" "bkey (bufs s b) n" "bkey (bufs s c) n" for b c n
    using assms(1) that unfolding bio_inv_def by blast
  then show ?thesis using assms(2,3) by (rule cached_unique)
qed

lemma cached_upd:
  assumes "b_dev x = b_dev (B b)" "b_blockno x = b_blockno (B b)"
  shows "cached (B(b := x)) = cached B"
proof -
  have "bkey ((B(b := x)) c) n = bkey (B c) n" for c n using assms by (simp add: bkey_def)
  then show ?thesis by (intro ext) (simp only: cached_def)
qed

lemma bkey_inj: "bkey x n \<Longrightarrow> bkey x m \<Longrightarrow> n = m"
  by (simp add: bkey_def)

lemma cached_inj: "cached B n = Some b \<Longrightarrow> cached B m = Some b \<Longrightarrow> n = m"
  using cached_Some bkey_inj by blast

text \<open>Changing a buffer that stays on its block.\<close>

lemma nfree_upd:
  assumes "b < NBUF"
  shows "nfree (B(b := x)) = (if buf_free (B b) \<and> \<not> buf_free x then nfree B - 1
     else if \<not> buf_free (B b) \<and> buf_free x then Suc (nfree B) else nfree B)"
proof -
  define F where "F = {b. b < NBUF \<and> buf_free (B b)}"
  have "{c. c < NBUF \<and> buf_free ((B(b := x)) c)} = (if buf_free x then insert b F else F - {b})"
    using assms by (auto simp: F_def)
  moreover have "finite F" "b \<in> F \<longleftrightarrow> buf_free (B b)" using assms by (simp_all add: F_def)
  ultimately show ?thesis unfolding nfree_def F_def [symmetric] by (auto simp: insert_absorb)
qed

lemma nfree_pos:
  assumes "b < NBUF" "buf_free (B b)"
  shows "0 < nfree B"
proof -
  have "b \<in> {b. b < NBUF \<and> buf_free (B b)}" using assms by simp
  moreover have "finite {b. b < NBUF \<and> buf_free (B b)}" by simp
  ultimately show ?thesis unfolding nfree_def card_gt_0_iff by blast
qed

lemma abs_set_buf:
  assumes "bio_inv s" "b < NBUF" "bkey (bufs s b) n" "bkey (f (bufs s b)) n"
  shows "abs_cache (set_buf s b f) = (let x = f (bufs s b); a = abs_cache s in
    a\<lparr>ac_view := (ac_view a)(n := if b_valid x then b_data x else memdisk s n),
      ac_dirty := (ac_dirty a)(n := b_dirty x),
      ac_holder := (ac_holder a)(n := if locked (b_lock x) then Some (lk_pid (b_lock x)) else None),
      ac_free := nfree ((bufs s)(b := x))\<rparr>)"
proof -
  have c: "cached ((bufs s)(b := f (bufs s b))) = cached (bufs s)"
    using assms(3,4) by (intro cached_upd) (simp_all add: bkey_def)
  have n: "cached (bufs s) n = Some b" by (rule cached_buf [OF assms(1-3)])
  have o: "c \<noteq> b" if "cached (bufs s) m = Some c" "m \<noteq> n" for c m
    using that n cached_inj by blast
  show ?thesis unfolding abs_cache_def Let_def set_buf_frame c
    using n o by (simp add: fun_eq_iff split: option.splits)
qed

lemma bio_inv_set_buf:
  assumes "bio_inv s" "b < NBUF" "buf_ok (memdisk s) (f (bufs s b))"
    and "b_valid (f (bufs s b)) \<longrightarrow> b_blockno (f (bufs s b)) < disksize s"
    and "\<And>c n. c < NBUF \<Longrightarrow> c \<noteq> b \<Longrightarrow> bkey (f (bufs s b)) n \<Longrightarrow> \<not> bkey (bufs s c) n"
  shows "bio_inv (set_buf s b f)"
proof -
  have "\<exists>xs. mru (set_buf s b f) xs" using assms(1) by (auto simp: bio_inv_def)
  moreover have "c = d" if "c < NBUF" "d < NBUF" "bkey (bufs (set_buf s b f) c) n"
      "bkey (bufs (set_buf s b f) d) n" for c d n
  proof -
    have "c = d" if "bkey (bufs s c) n" "bkey (bufs s d) n"
      using assms(1) that \<open>c < NBUF\<close> \<open>d < NBUF\<close> unfolding bio_inv_def by blast
    then show ?thesis using that assms(5) by (auto split: if_splits)
  qed
  moreover have "buf_ok (memdisk s) (bufs (set_buf s b f) c) \<and>
      (b_valid (bufs (set_buf s b f) c) \<longrightarrow> b_blockno (bufs (set_buf s b f) c) < disksize s)"
    if "c < NBUF" for c
    using that assms(1,3,4) by (auto simp: bio_inv_def)
  ultimately show ?thesis unfolding bio_inv_def set_buf_frame(4,5) by blast
qed

lemma bio_inv_list: "bio_inv s \<Longrightarrow> b < NBUF \<Longrightarrow> bio_inv (list_push (list_unlink s b) b)"
  unfolding bio_inv_def using list_move_mru by auto

lemma abs_list [simp]: "abs_cache (list_push s b) = abs_cache s" "abs_cache (list_unlink s b) = abs_cache s"
  unfolding abs_cache_def list_push_frame list_unlink_frame by (rule refl)+

lemma held_facts:
  assumes "bio_inv s" "held s b n"
  shows "b < NBUF" "bkey (bufs s b) n" "b_valid (bufs s b)" "locked (b_lock (bufs s b))"
    "lk_pid (b_lock (bufs s b)) = mypid s" "n < disksize s" "b_refcnt (bufs s b) = 1"
    "cached (bufs s) n = Some b" "ac_view (abs_cache s) n = b_data (bufs s b)"
    "ac_dirty (abs_cache s) n = b_dirty (bufs s b)" "\<not> buf_free (bufs s b)"
    "b_blockno (bufs s b) = n" "b_dev (bufs s b) = 1"
proof -
  show a: "b < NBUF" "bkey (bufs s b) n" "b_valid (bufs s b)" "locked (b_lock (bufs s b))"
    "lk_pid (b_lock (bufs s b)) = mypid s"
    using assms(2) by (simp_all add: held_def holdingsleep_def)
  show c: "cached (bufs s) n = Some b" using cached_buf assms a by blast
  show "b_blockno (bufs s b) = n" "b_dev (bufs s b) = 1" using a by (simp_all add: bkey_def)
  then show "n < disksize s" using assms(1) a unfolding bio_inv_def by blast
  show "b_refcnt (bufs s b) = 1"
    using assms(1) a unfolding bio_inv_def buf_ok_def by auto
  show "ac_view (abs_cache s) n = b_data (bufs s b)" "ac_dirty (abs_cache s) n = b_dirty (bufs s b)"
    using a c by (simp_all add: abs_cache_def)
  show "\<not> buf_free (bufs s b)" using a by (simp add: buf_free_def)
qed

lemma bkey_other: "bio_inv s \<Longrightarrow> b < NBUF \<Longrightarrow> bkey (bufs s b) n \<Longrightarrow> c < NBUF \<Longrightarrow> c \<noteq> b \<Longrightarrow>
    \<not> bkey (bufs s c) n"
  unfolding bio_inv_def by blast

lemma bio_inv_same_key:
  assumes "bio_inv s" "held s b n" "buf_ok (memdisk s) (f (bufs s b))" "bkey (f (bufs s b)) n"
  shows "bio_inv (set_buf s b f)"
proof (rule bio_inv_set_buf [where b = b and f = f])
  note h = held_facts [OF assms(1,2)]
  show "b < NBUF" by (rule h(1))
  show "b_valid (f (bufs s b)) \<longrightarrow> b_blockno (f (bufs s b)) < disksize s"
    using h(6) assms(4) by (simp add: bkey_def)
  show "\<not> bkey (bufs s c) m" if "c < NBUF" "c \<noteq> b" "bkey (f (bufs s b)) m" for c m
    using bkey_other [OF assms(1) h(1,2)] that bkey_inj assms(4) by blast
qed (use assms in auto)

lemma abs_set_held:
  assumes "bio_inv s" "held s b n" "bkey (f (bufs s b)) n" "b_valid (f (bufs s b))"
  shows "abs_cache (set_buf s b f) = (let x = f (bufs s b); a = abs_cache s in
    a\<lparr>ac_view := (ac_view a)(n := b_data x), ac_dirty := (ac_dirty a)(n := b_dirty x),
      ac_holder := (ac_holder a)(n := if locked (b_lock x) then Some (lk_pid (b_lock x)) else None),
      ac_free := (if buf_free x then Suc (ac_free a) else ac_free a)\<rparr>)"
proof -
  note h = held_facts [OF assms(1,2)]
  have "ac_free (abs_cache s) = nfree (bufs s)" by (simp add: abs_cache_def)
  then show ?thesis
    using abs_set_buf [where f = f, OF assms(1) h(1,2) assms(3)] assms(4) h(11)
    by (simp add: Let_def nfree_upd [OF h(1)])
qed

lemma abs_held:
  assumes "bio_inv s" "held s b n"
  shows "(ac_dirty (abs_cache s))(n := b_dirty (bufs s b)) = ac_dirty (abs_cache s)"
    "(ac_holder (abs_cache s))(n := Some (lk_pid (b_lock (bufs s b)))) = ac_holder (abs_cache s)"
    "(ac_view (abs_cache s))(n := b_data (bufs s b)) = ac_view (abs_cache s)"
    "ac_holder (abs_cache s) n = Some (mypid s)"
  using held_facts [OF assms] by (simp_all add: abs_cache_def fun_eq_iff)

lemma held_buf_ok: "bio_inv s \<Longrightarrow> held s b n \<Longrightarrow> buf_ok (memdisk s) (bufs s b)"
  unfolding bio_inv_def held_def by blast

text \<open>Changing the data of a locked buffer.\<close>

lemma set_data_spec:
  assumes "bio_inv s" "held s b n"
  shows "bio_inv (set_data s b f)" "held (set_data s b f) c m = held s c m"
    "abs_cache (set_data s b f) =
      (abs_cache s)\<lparr>ac_view := (ac_view (abs_cache s))(n := f (ac_view (abs_cache s) n))\<rparr>"
proof -
  note h = held_facts [OF assms]
  show "bio_inv (set_data s b f)" unfolding set_data_def
    using held_buf_ok [OF assms] h
    by (intro bio_inv_same_key [OF assms]) (simp_all add: buf_ok_def buf_free_def bkey_def)
  show "held (set_data s b f) c m = held s c m"
    by (simp add: held_def set_data_def bkey_def)
  show "abs_cache (set_data s b f) =
      (abs_cache s)\<lparr>ac_view := (ac_view (abs_cache s))(n := f (ac_view (abs_cache s) n))\<rparr>"
    unfolding set_data_def using h abs_held [OF assms]
    by (subst abs_set_held [OF assms]) (simp_all add: bkey_def buf_free_def Let_def)
qed

text \<open>Pinning a locked buffer.\<close>

lemma set_dirty_spec:
  assumes "bio_inv s" "held s b n"
  shows "bio_inv (set_dirty s b)" "held (set_dirty s b) c m = held s c m"
    "abs_cache (set_dirty s b) =
      (abs_cache s)\<lparr>ac_dirty := (ac_dirty (abs_cache s))(n := True)\<rparr>"
proof -
  note h = held_facts [OF assms]
  show "bio_inv (set_dirty s b)" unfolding set_dirty_def
    using held_buf_ok [OF assms] h
    by (intro bio_inv_same_key [OF assms]) (simp_all add: buf_ok_def buf_free_def bkey_def)
  show "held (set_dirty s b) c m = held s c m"
    by (simp add: held_def set_dirty_def bkey_def)
  show "abs_cache (set_dirty s b) =
      (abs_cache s)\<lparr>ac_dirty := (ac_dirty (abs_cache s))(n := True)\<rparr>"
    unfolding set_dirty_def using h abs_held [OF assms]
    by (subst abs_set_held [OF assms]) (simp_all add: bkey_def buf_free_def Let_def)
qed

text \<open>Writing a locked buffer to the disk.\<close>

definition disk_write :: "bcache \<Rightarrow> uint \<Rightarrow> block \<Rightarrow> bcache" where
  "disk_write s n d = s\<lparr>memdisk := (memdisk s)(n := d), written := written s @ [(n, d)]\<rparr>"

lemma disk_write_frame [simp]:
  "bufs (disk_write s n d) = bufs s" "bnext (disk_write s n d) = bnext s"
  "bprev (disk_write s n d) = bprev s" "disksize (disk_write s n d) = disksize s"
  "mypid (disk_write s n d) = mypid s" "memdisk (disk_write s n d) = (memdisk s)(n := d)"
  "written (disk_write s n d) = written s @ [(n, d)]"
  by (simp_all add: disk_write_def)

lemma disk_write_spec:
  assumes "bio_inv s" "held s b n"
  shows "bio_inv (disk_write s n d)" "held (disk_write s n d) c m = held s c m"
    "abs_cache (disk_write s n d) = (abs_cache s)\<lparr>ac_disk := (ac_disk (abs_cache s))(n := d),
       ac_written := ac_written (abs_cache s) @ [(n, d)]\<rparr>"
proof -
  note h = held_facts [OF assms]
  have "buf_ok ((memdisk s)(n := d)) (bufs s c)" if c: "c < NBUF" for c
  proof -
    have ok: "buf_ok (memdisk s) (bufs s c)" using assms(1) c unfolding bio_inv_def by blast
    show ?thesis
    proof (cases "c = b")
      case True
      then show ?thesis using ok h by (simp add: buf_ok_def)
    next
      case False
      then have "\<not> bkey (bufs s c) n" using bkey_other [OF assms(1) h(1,2) c] by simp
      then show ?thesis using ok by (auto simp: buf_ok_def bkey_def)
    qed
  qed
  then show "bio_inv (disk_write s n d)"
    using assms(1) unfolding bio_inv_def mru_def disk_write_frame by blast
  show "held (disk_write s n d) c m = held s c m" by (simp add: held_def)
  show "abs_cache (disk_write s n d) = (abs_cache s)\<lparr>ac_disk := (ac_disk (abs_cache s))(n := d),
       ac_written := ac_written (abs_cache s) @ [(n, d)]\<rparr>"
    using h by (auto simp: abs_cache_def fun_eq_iff split: option.splits)
qed

lemma bwrite_spec:
  assumes "bio_inv s" "held s b n"
  shows "\<exists>s'. bwrite s b = Ok s' \<and> bio_inv s' \<and> (\<forall>c m. held s' c m = held s c m) \<and>
    abs_cache s' = ac_flush (abs_cache s) n"
proof -
  note h = held_facts [OF assms]
  let ?d = "b_data (bufs s b)"
  define t where "t = disk_write s n ?d"
  have t: "bio_inv t" "held t b n" using disk_write_spec [OF assms] assms(2) by (simp_all add: t_def)
  define s' where "s' = set_buf t b (\<lambda>x. x\<lparr>b_dirty := False, b_valid := True\<rparr>)"
  have "bwrite s b = Ok s'"
    using h by (simp add: bwrite_def iderw_def Let_def ac_defs holdingsleep_def s'_def t_def set_buf_def disk_write_def not_le)
  moreover have "buf_ok (memdisk t) ((bufs t b)\<lparr>b_dirty := False, b_valid := True\<rparr>)"
    using held_buf_ok [OF t] h by (simp add: buf_ok_def buf_free_def t_def)
  then have "bio_inv s'" unfolding s'_def
    using h by (intro bio_inv_same_key [OF t]) (simp_all add: bkey_def t_def)
  moreover have "held s' c m = held s c m" for c m
    using h by (simp add: held_def s'_def t_def bkey_def)
  moreover have "abs_cache s' = ac_flush (abs_cache s) n"
    unfolding s'_def using h abs_held [OF t] disk_write_spec(3) [OF assms, of ?d]
    by (subst abs_set_held [OF t]) (simp_all add: bkey_def buf_free_def Let_def ac_defs t_def)
  ultimately show ?thesis by blast
qed

text \<open>Releasing a buffer whose changes are on the disk or pinned.\<close>

lemma brelse_spec:
  assumes "bio_inv s" "held s b n"
    and "ac_dirty (abs_cache s) n \<or> ac_view (abs_cache s) n = ac_disk (abs_cache s) n"
  shows "\<exists>s'. brelse s b = Ok s' \<and> bio_inv s' \<and> (\<forall>c m. c \<noteq> b \<longrightarrow> held s' c m = held s c m) \<and>
    abs_cache s' = ac_unlock (abs_cache s) n"
proof -
  note h = held_facts [OF assms(1,2)]
  let ?f = "\<lambda>x. x\<lparr>b_lock := releasesleep (b_lock x), b_refcnt := b_refcnt x - 1\<rparr>"
  define t where "t = set_buf s b ?f"
  let ?s' = "list_push (list_unlink t b) b"
  have "brelse s b = Ok ?s'"
    using h unfolding brelse_Ok_iff t_def by (simp add: holdingsleep_def Let_def ac_defs)
  moreover have "ac_disk (abs_cache s) = memdisk s" by (simp add: abs_cache_def)
  then have ok: "buf_ok (memdisk s) (?f (bufs s b))"
    using held_buf_ok [OF assms(1,2)] h assms(3)
    by (auto simp: buf_ok_def buf_free_def releasesleep_def)
  have t: "bio_inv t" unfolding t_def
    using h by (intro bio_inv_same_key [where f = ?f, OF assms(1,2) ok]) (simp add: bkey_def)
  have "bio_inv ?s'" using t h(1) by (rule bio_inv_list)
  moreover have "held ?s' c m = held s c m" if "c \<noteq> b" for c m
    using that by (simp add: held_def t_def)
  moreover have "abs_cache t = ac_unlock (abs_cache s) n"
    unfolding t_def using h abs_held [OF assms(1,2)]
    by (subst abs_set_held [OF assms(1,2)])
      (simp_all add: bkey_def buf_free_def Let_def ac_defs releasesleep_def)
  ultimately show ?thesis by auto
qed

text \<open>Reading a block: the buffer \<^verbatim>\<open>bread\<close> returns, cached or recycled.\<close>

definition fill_buf :: "bcache \<Rightarrow> uint \<Rightarrow> buf \<Rightarrow> buf" where
  "fill_buf s n x = x\<lparr>b_dev := 1, b_blockno := n, b_valid := True, b_refcnt := 1,
     b_lock := \<lparr>locked = True, lk_pid = mypid s\<rparr>,
     b_data := if b_valid x \<and> bkey x n then b_data x else memdisk s n\<rparr>"

lemma fill_buf_simps [simp]:
  "b_dev (fill_buf s n x) = 1" "b_blockno (fill_buf s n x) = n" "b_valid (fill_buf s n x)"
  "b_refcnt (fill_buf s n x) = 1" "b_lock (fill_buf s n x) = \<lparr>locked = True, lk_pid = mypid s\<rparr>"
  "b_dirty (fill_buf s n x) = b_dirty x"
  "b_data (fill_buf s n x) = (if b_valid x \<and> bkey x n then b_data x else memdisk s n)"
  by (simp_all add: fill_buf_def)

lemma set_buf_twice: "set_buf (set_buf s b f) b g = set_buf s b (\<lambda>x. g (f x))"
  by (simp add: set_buf_def)

lemma bread_cached:
  assumes "bio_inv s" "b < NBUF" "bkey (bufs s b) n" "\<not> locked (b_lock (bufs s b))" "n < disksize s"
  shows "bread s 1 n = Ok (b, set_buf s b (fill_buf s n))"
proof -
  obtain xs where xs: "mru s xs" using assms(1) by (auto simp: bio_inv_def)
  have b: "b \<in> set xs" using xs assms(2) by (simp add: mru_def)
  have "bget_cached s 1 n = find (\<lambda>c. bkey (bufs s c) n) xs"
    unfolding bget_cached_eq [OF xs] bkey_def ..
  moreover have "find (\<lambda>c. bkey (bufs s c) n) xs = Some b"
  proof (cases "find (\<lambda>c. bkey (bufs s c) n) xs")
    case None
    then show ?thesis using b assms(3) by (auto simp: find_None_iff)
  next
    case (Some c)
    then have "c \<in> set xs" "bkey (bufs s c) n" by (auto simp: find_Some_iff)
    then have "c < NBUF" "bkey (bufs s c) n" using xs by (auto simp: mru_def)
    then show ?thesis using Some bkey_other [OF assms(1-3)] by blast
  qed
  ultimately have c: "bget_cached s 1 n = Some b" by simp
  have ok: "buf_ok (memdisk s) (bufs s b)" using assms(1,2) unfolding bio_inv_def by blast
  show ?thesis
    using c ok assms(3-5)
    by (cases "bufs s b"; cases "b_lock (bufs s b)")
      (auto simp: bread_def bget_def lock_buf_def acquiresleep_def set_buf_def fill_buf_def
        buf_ok_def bkey_def iderw_def Let_def ac_defs holdingsleep_def)
qed

lemma bread_recycled:
  assumes "bio_inv s" "cached (bufs s) n = None" "0 < nfree (bufs s)" "n < disksize s"
  shows "\<exists>b. b < NBUF \<and> buf_free (bufs s b) \<and> bread s 1 n = Ok (b, set_buf s b (fill_buf s n))"
proof -
  obtain xs where xs: "mru s xs" using assms(1) by (auto simp: bio_inv_def)
  have nk: "\<not> bkey (bufs s c) n" if "c < NBUF" for c using assms(2) that by (simp add: cached_None)
  have sx: "set xs = {..<NBUF}" using xs by (simp only: mru_def)
  have none: "bget_cached s 1 n = None"
    unfolding bget_cached_eq [OF xs] find_None_iff sx using nk by (auto simp: bkey_def)
  have ok: "buf_ok (memdisk s) (bufs s c)" if "c < NBUF" for c
    using assms(1) that unfolding bio_inv_def by blast
  have "{c. c < NBUF \<and> buf_free (bufs s c)} \<noteq> {}" using assms(3) unfolding nfree_def card_gt_0_iff by blast
  then obtain c where c: "c < NBUF" "buf_free (bufs s c)" by blast
  then have "b_refcnt (bufs s c) = 0 \<and> \<not> b_dirty (bufs s c)"
    using ok [OF c(1)] by (simp add: buf_ok_def buf_free_def)
  moreover have "c \<in> set (rev xs)" using c(1) sx by simp
  ultimately obtain b where u: "bget_unused s = Some b"
    unfolding bget_unused_eq [OF xs]
    by (cases "find (\<lambda>b. b_refcnt (bufs s b) = 0 \<and> \<not> b_dirty (bufs s b)) (rev xs)")
      (auto simp: find_None_iff)
  then have "b \<in> set (rev xs)" "b_refcnt (bufs s b) = 0" "\<not> b_dirty (bufs s b)"
    unfolding bget_unused_eq [OF xs] find_Some_iff by (metis nth_mem)+
  then have b: "b < NBUF" "b_refcnt (bufs s b) = 0" "\<not> b_dirty (bufs s b)" using sx by auto
  then have free: "buf_free (bufs s b)" using ok [OF b(1)] by (auto simp: buf_ok_def buf_free_def)
  have "bread s 1 n = Ok (b, set_buf s b (fill_buf s n))"
    using none u b free assms(4) nk [OF b(1)]
    by (cases "bufs s b"; cases "b_lock (bufs s b)")
      (auto simp: bread_def bget_def lock_buf_def acquiresleep_def set_buf_def fill_buf_def
        buf_free_def iderw_def Let_def ac_defs holdingsleep_def)
  then show ?thesis using b(1) free by blast
qed

lemma cached_recycled:
  assumes "cached B n = None" "bkey x n"
    and "\<And>b c n. b < NBUF \<Longrightarrow> c < NBUF \<Longrightarrow> bkey (B b) n \<Longrightarrow> bkey (B c) n \<Longrightarrow> b = c"
    and "b < NBUF"
  shows "cached (B(b := x)) m = (if m = n then Some b
     else if cached B m = Some b then None else cached B m)"
proof -
  have no: "\<not> bkey (B c) n" if "c < NBUF" for c using assms(1) that by (simp add: cached_None)
  have uniq: "c = d" if "c < NBUF" "d < NBUF" "bkey ((B(b := x)) c) k" "bkey ((B(b := x)) d) k" for c d k
    using that assms(3) [of c d k] no bkey_inj [OF assms(2), of k]
    by (cases "c = b"; cases "d = b") auto
  consider "m = n" | "m \<noteq> n" "cached B m = Some b" | "m \<noteq> n" "cached B m = None"
    | c where "m \<noteq> n" "cached B m = Some c" "c \<noteq> b" by fastforce
  then show ?thesis
  proof cases
    case 1
    have "cached (B(b := x)) n = Some b"
      using uniq assms(4) by (rule cached_unique) (use assms(2) in simp_all)
    then show ?thesis using 1 by simp
  next
    case 2
    have "\<not> bkey ((B(b := x)) c) m" if "c < NBUF" for c
      using that 2(1) assms(3) [of c b m] cached_Some [OF 2(2)] bkey_inj [OF assms(2), of m]
      by (cases "c = b") auto
    then have "cached (B(b := x)) m = None" unfolding cached_None by blast
    then show ?thesis using 2 by simp
  next
    case 3
    have "\<not> bkey ((B(b := x)) c) m" if "c < NBUF" for c
      using that 3 bkey_inj [OF assms(2), of m] unfolding cached_None by (cases "c = b") auto
    then have "cached (B(b := x)) m = None" unfolding cached_None by blast
    then show ?thesis using 3 by simp
  next
    case 4
    have "cached (B(b := x)) m = Some c"
      using uniq by (rule cached_unique) (use cached_Some [OF 4(2)] 4(3) in simp_all)
    then show ?thesis using 4 by simp
  qed
qed

lemma abs_recycled:
  assumes "bio_inv s" "cached (bufs s) n = None" "b < NBUF" "buf_free (bufs s b)"
  shows "abs_cache (set_buf s b (fill_buf s n)) = (let a = abs_cache s in
    a\<lparr>ac_holder := (ac_holder a)(n := Some (ac_pid a)), ac_free := ac_free a - 1\<rparr>)"
proof -
  have uniq: "b = c" if "b < NBUF" "c < NBUF" "bkey (bufs s b) n" "bkey (bufs s c) n" for b c n
    using assms(1) that unfolding bio_inv_def by blast
  have new: "cached ((bufs s)(b := fill_buf s n (bufs s b))) m = (if m = n then Some b
     else if cached (bufs s) m = Some b then None else cached (bufs s) m)" for m
    using assms(2) _ uniq assms(3) by (rule cached_recycled) (simp add: bkey_def)
  have ok: "buf_ok (memdisk s) (bufs s b)" using assms(1,3) unfolding bio_inv_def by blast
  have old: "b_valid (bufs s b) \<Longrightarrow> b_data (bufs s b) = memdisk s m" if "cached (bufs s) m = Some b" for m
    using ok cached_Some [OF that] assms(4) by (auto simp: buf_ok_def bkey_def)
  have nk: "\<not> bkey (bufs s b) n" using assms(2,3) by (simp add: cached_None)
  have free: "nfree ((bufs s)(b := fill_buf s n (bufs s b))) = nfree (bufs s) - 1"
    using assms(4) by (simp add: nfree_upd [OF assms(3)] buf_free_def)
  have d: "\<not> b_dirty (bufs s b)" "\<not> locked (b_lock (bufs s b))" using assms(4) by (auto simp: buf_free_def)
  show ?thesis unfolding abs_cache_def Let_def ac_defs set_buf_frame free
    using assms(2) new old d nk by (auto simp: fun_eq_iff split: option.splits)
qed

lemma abs_cached:
  assumes "bio_inv s" "b < NBUF" "bkey (bufs s b) n" "\<not> locked (b_lock (bufs s b))"
  shows "abs_cache (set_buf s b (fill_buf s n)) = ac_lock (abs_cache s) n"
proof -
  have c: "cached (bufs s) n = Some b" using assms(1-3) by (rule cached_buf)
  have "buf_free (bufs s b) = (\<not> b_dirty (bufs s b))" using assms(4) by (simp add: buf_free_def)
  then have free: "nfree ((bufs s)(b := fill_buf s n (bufs s b))) =
      (if b_dirty (bufs s b) then nfree (bufs s) else nfree (bufs s) - 1)"
    unfolding nfree_upd [OF assms(2)] by (simp add: buf_free_def)
  have a: "ac_view (abs_cache s) n = (if b_valid (bufs s b) then b_data (bufs s b) else memdisk s n)"
    "ac_dirty (abs_cache s) n = b_dirty (bufs s b)" "ac_free (abs_cache s) = nfree (bufs s)"
    "ac_pid (abs_cache s) = mypid s"
    using c by (simp_all add: abs_cache_def)
  show ?thesis
    using a assms(3) free
    by (subst abs_set_buf [OF assms(1-3)])
      (auto simp: bkey_def Let_def ac_defs fun_upd_idem)
qed

lemma bio_inv_fill:
  assumes "bio_inv s" "b < NBUF" "n < disksize s" "cached (bufs s) n = None \<or> bkey (bufs s b) n"
    "b_dirty (bufs s b) \<longrightarrow> bkey (bufs s b) n" "\<not> locked (b_lock (bufs s b))"
  shows "bio_inv (set_buf s b (fill_buf s n))"
proof (rule bio_inv_set_buf [where f = "fill_buf s n", OF assms(1,2)])
  show "buf_ok (memdisk s) (fill_buf s n (bufs s b))" by (simp add: buf_ok_def buf_free_def)
  show "\<not> bkey (bufs s c) m" if "c < NBUF" "c \<noteq> b" "bkey (fill_buf s n (bufs s b)) m" for c m
  proof -
    have "m = n" using that(3) by (simp add: bkey_def)
    then show ?thesis
      using assms(4) bkey_other [OF assms(1,2) _ that(1,2)] that(1) unfolding cached_None by blast
  qed
qed (use assms(3) in simp)

lemma bread_spec:
  assumes "bio_inv s" "ac_holder (abs_cache s) n = None" "n < ac_size (abs_cache s)"
    and "ac_dirty (abs_cache s) n \<or> 0 < ac_free (abs_cache s)"
  shows "\<exists>b s'. bread s 1 n = Ok (b, s') \<and> bio_inv s' \<and> held s' b n \<and>
    (\<forall>c m. held s c m \<longrightarrow> c \<noteq> b \<and> held s' c m) \<and>
    abs_cache s' = ac_lock (abs_cache s) n"
proof (cases "cached (bufs s) n")
  case (Some b)
  have b: "b < NBUF" "bkey (bufs s b) n" using cached_Some [OF Some] by auto
  have u: "\<not> locked (b_lock (bufs s b))" using assms(2) Some by (auto simp: abs_cache_def split: if_splits)
  have n: "n < disksize s" using assms(3) by (simp add: abs_cache_def)
  have "held (set_buf s b (fill_buf s n)) b n"
    using b by (simp add: held_def bkey_def holdingsleep_def)
  moreover have "c \<noteq> b \<and> held (set_buf s b (fill_buf s n)) c m" if "held s c m" for c m
    using that u by (auto simp: held_def holdingsleep_def)
  moreover have "bio_inv (set_buf s b (fill_buf s n))"
    using assms(1) b(1) n by (rule bio_inv_fill) (use b u in simp_all)
  ultimately show ?thesis using bread_cached [OF assms(1) b u n] abs_cached [OF assms(1) b u] by blast
next
  case None
  have n: "n < disksize s" "0 < nfree (bufs s)" using assms(3,4) None by (simp_all add: abs_cache_def)
  obtain b where b: "b < NBUF" "buf_free (bufs s b)" "bread s 1 n = Ok (b, set_buf s b (fill_buf s n))"
    using bread_recycled [OF assms(1) None n(2,1)] by blast
  have f: "\<not> locked (b_lock (bufs s b))" "\<not> b_dirty (bufs s b)" using b(2) by (auto simp: buf_free_def)
  have "\<not> ac_dirty (abs_cache s) n" using None by (simp add: abs_cache_def)
  then have "abs_cache (set_buf s b (fill_buf s n)) = ac_lock (abs_cache s) n"
    using abs_recycled [OF assms(1) None b(1,2)] by (simp add: Let_def ac_defs)
  moreover have "bio_inv (set_buf s b (fill_buf s n))"
    using assms(1) b(1) n(1) by (rule bio_inv_fill) (use None f in simp_all)
  moreover have "held (set_buf s b (fill_buf s n)) b n"
    using b by (simp add: held_def bkey_def holdingsleep_def)
  moreover have "c \<noteq> b \<and> held (set_buf s b (fill_buf s n)) c m" if "held s c m" for c m
    using that f by (auto simp: held_def holdingsleep_def)
  ultimately show ?thesis using b(3) by blast
qed

lemma held_abs:
  assumes "bio_inv s" "held s b n"
  shows "ac_holder (abs_cache s) n = Some (ac_pid (abs_cache s))" "n < ac_size (abs_cache s)"
  using held_facts [OF assms] by (simp_all add: abs_cache_def)

section \<open>The interface of the cache\<close>

text \<open>
  What \<^verbatim>\<open>log.c\<close> and \<^verbatim>\<open>fs.c\<close> rely on: the effect of each operation on the blocks (\<open>abs\<close>), for a
  process that uses only buffers it has locked (\<open>hld\<close>).
\<close>

definition ac_store :: "acache \<Rightarrow> uint \<Rightarrow> block \<Rightarrow> acache" where
  "ac_store a n d =
     a\<lparr>ac_view := (ac_view a)(n := d), ac_disk := (ac_disk a)(n := d),
       ac_dirty := (ac_dirty a)(n := False), ac_written := ac_written a @ [(n, d)],
       ac_free := (if ac_dirty a n then Suc (ac_free a) else ac_free a)\<rparr>"

definition ac_need :: "acache \<Rightarrow> uint \<Rightarrow> nat" where
  "ac_need a n = (if ac_dirty a n then 0 else 1)"

definition ac_lock2 :: "acache \<Rightarrow> uint \<Rightarrow> uint \<Rightarrow> acache" where
  "ac_lock2 a n m =
     a\<lparr>ac_holder := (ac_holder a)(n := Some (ac_pid a), m := Some (ac_pid a)),
       ac_free := ac_free a - (ac_need a n + ac_need a m)\<rparr>"

lemma ac_lock2_commute: "ac_lock2 a m n = ac_lock2 a n m"
  by (cases "n = m") (simp_all add: ac_lock2_def fun_upd_twist add.commute)

locale buffer_cache =
  fixes rd :: "'s \<Rightarrow> uint \<Rightarrow> ('b \<times> 's) res"
    and wr :: "'s \<Rightarrow> 'b \<Rightarrow> 's res"
    and rel :: "'s \<Rightarrow> 'b \<Rightarrow> 's res"
    and upd :: "'s \<Rightarrow> 'b \<Rightarrow> (block \<Rightarrow> block) \<Rightarrow> 's"
    and dat :: "'s \<Rightarrow> 'b \<Rightarrow> block"
    and inv :: "'s \<Rightarrow> bool"
    and hld :: "'s \<Rightarrow> 'b \<Rightarrow> uint \<Rightarrow> bool"
    and abs :: "'s \<Rightarrow> acache"
  assumes rd_law: "inv s \<Longrightarrow> ac_holder (abs s) n = None \<Longrightarrow> n < ac_size (abs s) \<Longrightarrow>
      ac_dirty (abs s) n \<or> 0 < ac_free (abs s) \<Longrightarrow>
      \<exists>b s'. rd s n = Ok (b, s') \<and> inv s' \<and> hld s' b n \<and>
        (\<forall>c m. hld s c m \<longrightarrow> c \<noteq> b \<and> hld s' c m) \<and>
        abs s' = ac_lock (abs s) n"
    and wr_law: "inv s \<Longrightarrow> hld s b n \<Longrightarrow>
      \<exists>s'. wr s b = Ok s' \<and> inv s' \<and> (\<forall>c m. hld s' c m = hld s c m) \<and>
        abs s' = ac_flush (abs s) n"
    and rel_law: "inv s \<Longrightarrow> hld s b n \<Longrightarrow>
      ac_dirty (abs s) n \<or> ac_view (abs s) n = ac_disk (abs s) n \<Longrightarrow>
      \<exists>s'. rel s b = Ok s' \<and> inv s' \<and> (\<forall>c m. c \<noteq> b \<longrightarrow> hld s' c m = hld s c m) \<and>
        abs s' = ac_unlock (abs s) n"
    and upd_inv: "inv s \<Longrightarrow> hld s b n \<Longrightarrow> inv (upd s b f)"
    and upd_hld: "inv s \<Longrightarrow> hld s b n \<Longrightarrow> hld (upd s b f) c m = hld s c m"
    and upd_abs: "inv s \<Longrightarrow> hld s b n \<Longrightarrow>
      abs (upd s b f) = (abs s)\<lparr>ac_view := (ac_view (abs s))(n := f (ac_view (abs s) n))\<rparr>"
    and dat_law: "inv s \<Longrightarrow> hld s b n \<Longrightarrow> dat s b = ac_view (abs s) n"
begin

text \<open>Rewriting a block through the cache.\<close>

lemma rewrite_block:
  assumes "inv s" "ac_holder (abs s) n = None" "n < ac_size (abs s)"
    "ac_dirty (abs s) n \<or> 0 < ac_free (abs s)"
  shows "\<exists>s'. andthen (rd s n) (\<lambda>(b, s). andthen (wr (upd s b f) b) (\<lambda>s. rel s b)) = Ok s' \<and>
    inv s' \<and> abs s' = ac_store (abs s) n (f (ac_view (abs s) n))"
proof -
  obtain b s1 where s1: "rd s n = Ok (b, s1)" "inv s1" "hld s1 b n"
    "abs s1 = ac_lock (abs s) n"
    using rd_law [OF assms] by blast
  let ?t = "upd s1 b f"
  have t: "inv ?t" "hld ?t b n" using s1 upd_inv upd_hld by blast+
  obtain s2 where s2: "wr ?t b = Ok s2" "inv s2" "hld s2 b n"
    "abs s2 = ac_flush (abs ?t) n"
    using wr_law [OF t] t(2) by blast
  note a2 = s2(4) [unfolded upd_abs [OF s1(2,3)] s1(4) Let_def ac_defs, simplified]
  obtain s3 where s3: "rel s2 b = Ok s3" "inv s3"
    "abs s3 = ac_unlock (abs s2) n"
    using rel_law [OF s2(2,3)] a2 by auto
  have "(ac_holder (abs s))(n := None) = ac_holder (abs s)" using assms(2) by (simp add: fun_eq_iff)
  then show ?thesis using s1(1) s2(1) s3 a2 assms(4) by (auto simp: Let_def ac_defs ac_store_def)
qed

text \<open>Reading a block.\<close>

lemma read_block:
  assumes "inv s" "ac_holder (abs s) n = None" "n < ac_size (abs s)"
    "ac_dirty (abs s) n \<or> 0 < ac_free (abs s)"
    "ac_dirty (abs s) n \<or> ac_view (abs s) n = ac_disk (abs s) n"
  shows "\<exists>b s1 s'. rd s n = Ok (b, s1) \<and> dat s1 b = ac_view (abs s) n \<and> rel s1 b = Ok s' \<and>
    inv s' \<and> abs s' = abs s"
proof -
  obtain b s1 where s1: "rd s n = Ok (b, s1)" "inv s1" "hld s1 b n" "abs s1 = ac_lock (abs s) n"
    using rd_law [OF assms(1-4)] by blast
  obtain s' where s': "rel s1 b = Ok s'" "inv s'" "abs s' = ac_unlock (abs s1) n"
    using rel_law [OF s1(2,3)] s1(4) assms(5) by (auto simp: ac_defs)
  have "(ac_holder (abs s))(n := None) = ac_holder (abs s)" using assms(2) by (simp add: fun_eq_iff)
  then have "abs s' = abs s" using s'(3) s1(4) assms(4) by (auto simp: ac_defs)
  moreover have "dat s1 b = ac_view (abs s) n" using dat_law [OF s1(2,3)] s1(4) by (simp add: ac_defs)
  ultimately show ?thesis using s1(1) s' by blast
qed

text \<open>Locking two blocks.\<close>

lemma lock_two:
  assumes "inv s" "n \<noteq> m" "ac_holder (abs s) n = None" "ac_holder (abs s) m = None"
    "n < ac_size (abs s)" "m < ac_size (abs s)" "ac_need (abs s) n + ac_need (abs s) m \<le> ac_free (abs s)"
  shows "\<exists>b s1 c s2. rd s n = Ok (b, s1) \<and> rd s1 m = Ok (c, s2) \<and> inv s2 \<and> b \<noteq> c \<and>
    hld s2 b n \<and> hld s2 c m \<and> abs s2 = ac_lock2 (abs s) n m"
proof -
  have "ac_dirty (abs s) n \<or> 0 < ac_free (abs s)"
    using assms(7) by (auto simp: ac_need_def split: if_splits)
  then obtain b s1 where s1: "rd s n = Ok (b, s1)" "inv s1" "hld s1 b n"
    "abs s1 = ac_lock (abs s) n"
    using rd_law [OF assms(1,3,5)] by blast
  have "ac_holder (abs s1) m = None" "m < ac_size (abs s1)"
    "ac_dirty (abs s1) m \<or> 0 < ac_free (abs s1)"
    using assms s1(4) by (auto simp: Let_def ac_defs ac_need_def split: if_splits)
  then obtain c s2 where s2: "rd s1 m = Ok (c, s2)" "inv s2" "hld s2 c m"
    "\<forall>b n. hld s1 b n \<longrightarrow> b \<noteq> c \<and> hld s2 b n"
    "abs s2 = ac_lock (abs s1) m"
    using rd_law [OF s1(2)] by blast
  have "b \<noteq> c" "hld s2 b n" using s2(4) s1(3) by blast+
  moreover have "abs s2 = ac_lock2 (abs s) n m"
    using s2(5) s1(4) by (simp add: Let_def ac_defs ac_lock2_def ac_need_def)
  ultimately show ?thesis using s1(1) s2(1-3) by blast
qed

text \<open>Copying the block \<open>m\<close>, locked in \<open>c\<close>, to the block \<open>n\<close>, locked in \<open>b\<close>, and to the disk.\<close>

lemma write_copy:
  assumes "inv s" "b \<noteq> c" "hld s b n" "hld s c m"
  shows "\<exists>s'. wr (upd s b (\<lambda>_. dat s c)) b = Ok s' \<and> inv s' \<and> hld s' b n \<and> hld s' c m \<and>
    abs s' = (let a = abs s; d = ac_view a m in
      a\<lparr>ac_view := (ac_view a)(n := d), ac_disk := (ac_disk a)(n := d),
        ac_dirty := (ac_dirty a)(n := False), ac_written := ac_written a @ [(n, d)]\<rparr>)"
proof -
  let ?t = "upd s b (\<lambda>_. dat s c)"
  have t: "inv ?t" "hld ?t b n" using assms upd_inv upd_hld by blast+
  show ?thesis
    using wr_law [OF t] assms(3,4) upd_hld [OF assms(1,3)] upd_abs [OF assms(1,3)] dat_law [OF assms(1,4)]
    by (auto simp: Let_def ac_defs)
qed

lemma release_two:
  assumes "inv s" "b \<noteq> c" "n \<noteq> m" "hld s b n" "hld s c m"
    "ac_dirty (abs s) n \<or> ac_view (abs s) n = ac_disk (abs s) n"
    "ac_dirty (abs s) m \<or> ac_view (abs s) m = ac_disk (abs s) m"
  shows "\<exists>s1 s2. rel s b = Ok s1 \<and> rel s1 c = Ok s2 \<and> inv s2 \<and> abs s2 = (let a = abs s in
      a\<lparr>ac_holder := (ac_holder a)(n := None, m := None),
        ac_free := ac_free a + (ac_need a n + ac_need a m)\<rparr>)"
proof -
  obtain s1 where s1: "rel s b = Ok s1" "inv s1" "hld s1 c m"
    "abs s1 = ac_unlock (abs s) n"
    using rel_law [OF assms(1,4,6)] assms(2,5) by metis
  then show ?thesis using rel_law [OF s1(2,3)] assms(7) by (auto simp: Let_def ac_defs ac_need_def)
qed

lemma copy_locked:
  assumes "n \<noteq> m" "ac_holder (abs s) n = None" "ac_holder (abs s) m = None"
    "ac_need (abs s) n + ac_need (abs s) m \<le> ac_free (abs s)"
    "ac_dirty (abs s) m \<or> ac_view (abs s) m = ac_disk (abs s) m"
    and s2: "inv s2" "b \<noteq> c" "hld s2 b n" "hld s2 c m" "abs s2 = ac_lock2 (abs s) n m"
  shows "\<exists>s'. andthen (wr (upd s2 b (\<lambda>_. dat s2 c)) b) (\<lambda>s. andthen (rel s c) (\<lambda>s. rel s b)) = Ok s' \<and>
    inv s' \<and> abs s' = ac_store (abs s) n (ac_view (abs s) m)"
proof -
  obtain s3 where s3: "wr (upd s2 b (\<lambda>_. dat s2 c)) b = Ok s3" "inv s3" "hld s3 b n" "hld s3 c m"
    "abs s3 = (let a = abs s2; d = ac_view a m in
      a\<lparr>ac_view := (ac_view a)(n := d), ac_disk := (ac_disk a)(n := d),
        ac_dirty := (ac_dirty a)(n := False), ac_written := ac_written a @ [(n, d)]\<rparr>)"
    using write_copy [OF s2(1-4)] by blast
  have "ac_dirty (abs s3) n \<or> ac_view (abs s3) n = ac_disk (abs s3) n"
    "ac_dirty (abs s3) m \<or> ac_view (abs s3) m = ac_disk (abs s3) m"
    using s3(5) s2(5) assms(1,5) by (auto simp: Let_def ac_defs ac_lock2_def)
  then obtain s4 s5 where s5: "rel s3 c = Ok s4" "rel s4 b = Ok s5" "inv s5"
    "abs s5 = (let a = abs s3 in a\<lparr>ac_holder := (ac_holder a)(m := None, n := None),
      ac_free := ac_free a + (ac_need a m + ac_need a n)\<rparr>)"
    using release_two [OF s3(2) s2(2) [symmetric] assms(1) [symmetric] s3(4,3)] by blast
  have "(ac_holder (abs s))(n := None, m := None) = ac_holder (abs s)" using assms(2,3) by auto
  then have "abs s5 = ac_store (abs s) n (ac_view (abs s) m)"
    using s5(4) s3(5) s2(5) assms(1,4)
    by (auto simp: Let_def ac_defs fun_upd_twist ac_lock2_def ac_store_def ac_need_def)
  then show ?thesis using s3(1) s5 by simp
qed

lemma copy_to_first:
  assumes "inv s" "n \<noteq> m" "ac_holder (abs s) n = None" "ac_holder (abs s) m = None"
    "n < ac_size (abs s)" "m < ac_size (abs s)" "ac_need (abs s) n + ac_need (abs s) m \<le> ac_free (abs s)"
    "ac_dirty (abs s) m \<or> ac_view (abs s) m = ac_disk (abs s) m"
  shows "\<exists>s'. andthen (rd s n) (\<lambda>(b, s). andthen (rd s m) (\<lambda>(c, s).
      andthen (wr (upd s b (\<lambda>_. dat s c)) b) (\<lambda>s. andthen (rel s c) (\<lambda>s. rel s b)))) = Ok s' \<and>
    inv s' \<and> abs s' = ac_store (abs s) n (ac_view (abs s) m)"
proof -
  obtain b s1 c s2 where "rd s n = Ok (b, s1)" "rd s1 m = Ok (c, s2)"
    and s2: "inv s2" "b \<noteq> c" "hld s2 b n" "hld s2 c m" "abs s2 = ac_lock2 (abs s) n m"
    using lock_two [OF assms(1-7)] by blast
  then show ?thesis using copy_locked [OF assms(2-4,7,8) s2] by simp
qed

lemma copy_to_second:
  assumes "inv s" "n \<noteq> m" "ac_holder (abs s) n = None" "ac_holder (abs s) m = None"
    "n < ac_size (abs s)" "m < ac_size (abs s)" "ac_need (abs s) n + ac_need (abs s) m \<le> ac_free (abs s)"
    "ac_dirty (abs s) m \<or> ac_view (abs s) m = ac_disk (abs s) m"
  shows "\<exists>s'. andthen (rd s m) (\<lambda>(c, s). andthen (rd s n) (\<lambda>(b, s).
      andthen (wr (upd s b (\<lambda>_. dat s c)) b) (\<lambda>s. andthen (rel s c) (\<lambda>s. rel s b)))) = Ok s' \<and>
    inv s' \<and> abs s' = ac_store (abs s) n (ac_view (abs s) m)"
proof -
  have "ac_need (abs s) m + ac_need (abs s) n \<le> ac_free (abs s)" using assms(7) by simp
  then obtain c s1 b s2 where "rd s m = Ok (c, s1)" "rd s1 n = Ok (b, s2)"
    and s2: "inv s2" "c \<noteq> b" "hld s2 c m" "hld s2 b n" "abs s2 = ac_lock2 (abs s) m n"
    using lock_two [OF assms(1) assms(2) [symmetric] assms(4,3,6,5)] by blast
  then show ?thesis
    using copy_locked [OF assms(2-4,7,8) s2(1) s2(2) [symmetric] s2(4,3)]
    by (simp add: ac_lock2_commute)
qed

end

interpretation bc: buffer_cache "\<lambda>s. bread s 1" bwrite brelse set_data "\<lambda>s b. b_data (bufs s b)"
  bio_inv held abs_cache
proof unfold_locales
  show "b_data (bufs s b) = ac_view (abs_cache s) n" if "bio_inv s" "held s b n" for s b n
    using held_facts(9) [OF that] by simp
qed (fact bread_spec bwrite_spec brelse_spec set_data_spec)+

section \<open>The cache at boot\<close>

text \<open>The cache after \<^verbatim>\<open>binit\<close> on zeroed memory, for a disk with the contents \<open>D\<close>.\<close>

definition zero_buf :: buf where
  "zero_buf = \<lparr>b_valid = False, b_dirty = False, b_dev = 0, b_blockno = 0,
     b_lock = \<lparr>locked = False, lk_pid = 0\<rparr>, b_refcnt = 0, b_data = (\<lambda>_. 0)\<rparr>"

definition boot_cache :: "(uint \<Rightarrow> block) \<Rightarrow> uint \<Rightarrow> int \<Rightarrow> bcache" where
  "boot_cache D sz pid = binit \<lparr>bufs = (\<lambda>_. zero_buf), bnext = (\<lambda>_. 0), bprev = (\<lambda>_. 0),
     memdisk = D, disksize = sz, written = [], mypid = pid\<rparr>"

lemma binit_loop_frame:
  "memdisk (binit_loop n s) = memdisk s" "disksize (binit_loop n s) = disksize s"
  "written (binit_loop n s) = written s" "mypid (binit_loop n s) = mypid s"
  by (induction n) simp_all

lemma binit_loop_bufs:
  "(\<And>b. b_lock (bufs s b) = initsleeplock) \<Longrightarrow> bufs (binit_loop n s) = bufs s"
  by (induction n) (auto simp: fun_eq_iff)

lemma boot_cache_bufs [simp]: "bufs (boot_cache D sz pid) = (\<lambda>_. zero_buf)"
  unfolding boot_cache_def binit_def
  by (subst binit_loop_bufs) (simp_all add: zero_buf_def initsleeplock_def)

lemma boot_cache_frame [simp]:
  "memdisk (boot_cache D sz pid) = D" "disksize (boot_cache D sz pid) = sz"
  "written (boot_cache D sz pid) = []" "mypid (boot_cache D sz pid) = pid"
  by (simp_all add: boot_cache_def binit_def binit_loop_frame)

lemma zero_buf_simps [simp]:
  "\<not> b_valid zero_buf" "\<not> b_dirty zero_buf" "\<not> bkey zero_buf n" "\<not> locked (b_lock zero_buf)"
  "b_refcnt zero_buf = 0"
  by (simp_all add: zero_buf_def bkey_def)

lemma boot_cache_inv: "bio_inv (boot_cache D sz pid)"
proof -
  have "\<exists>xs. mru (boot_cache D sz pid) xs" unfolding boot_cache_def using binit_mru by blast
  then show ?thesis unfolding bio_inv_def by (simp add: buf_ok_def)
qed

lemma boot_cache_abs: "abs_cache (boot_cache D sz pid) = \<lparr>ac_view = D, ac_disk = D,
    ac_dirty = (\<lambda>_. False), ac_holder = (\<lambda>_. None), ac_free = NBUF, ac_written = [],
    ac_size = sz, ac_pid = pid\<rparr>"
proof -
  have "cached (\<lambda>_. zero_buf) n = None" for n by (simp add: cached_None)
  moreover have "nfree (\<lambda>_. zero_buf) = NBUF" by (simp add: nfree_def buf_free_def)
  ultimately show ?thesis by (simp add: abs_cache_def)
qed

section \<open>Properties\<close>

text \<open>C2: the buffer cache implements a disk with block locks. \<^verbatim>\<open>bread\<close> of an unlocked block returns
  a buffer with the current contents of the block, evicting only blocks that are neither locked nor
  pinned, and leaves the contents of all blocks as they were; \<^verbatim>\<open>bwrite\<close> makes the disk agree with
  the locked block; \<^verbatim>\<open>brelse\<close> gives the lock back. None of them panics when used this way.\<close>

theorem bcache_refines_disk:
  assumes "bio_inv s"
  shows "(ac_holder (abs_cache s) n = None \<and> n < ac_size (abs_cache s) \<and>
      (ac_dirty (abs_cache s) n \<or> 0 < ac_free (abs_cache s)) \<longrightarrow>
      (\<exists>b s'. bread s ROOTDEV n = Ok (b, s') \<and> bio_inv s' \<and> held s' b n \<and>
        b_data (bufs s' b) = ac_view (abs_cache s) n \<and>
        abs_cache s' = ac_lock (abs_cache s) n)) \<and>
    (held s b n \<longrightarrow> (\<exists>s'. bwrite s b = Ok s' \<and> bio_inv s' \<and> held s' b n \<and>
        abs_cache s' = ac_flush (abs_cache s) n)) \<and>
    (held s b n \<and> (ac_dirty (abs_cache s) n \<or> ac_view (abs_cache s) n = ac_disk (abs_cache s) n) \<longrightarrow>
      (\<exists>s'. brelse s b = Ok s' \<and> bio_inv s' \<and>
        abs_cache s' = ac_unlock (abs_cache s) n))"
proof (intro conjI impI)
  assume "ac_holder (abs_cache s) n = None \<and> n < ac_size (abs_cache s) \<and>
      (ac_dirty (abs_cache s) n \<or> 0 < ac_free (abs_cache s))"
  then obtain b s' where s': "bread s ROOTDEV n = Ok (b, s')" "bio_inv s'" "held s' b n"
    "abs_cache s' = ac_lock (abs_cache s) n"
    using bread_spec [OF assms] by blast
  moreover have "b_data (bufs s' b) = ac_view (abs_cache s) n"
    using held_facts(9) [OF s'(2,3)] s'(4) by (simp add: Let_def ac_defs)
  ultimately show "\<exists>b s'. bread s ROOTDEV n = Ok (b, s') \<and> bio_inv s' \<and> held s' b n \<and>
        b_data (bufs s' b) = ac_view (abs_cache s) n \<and>
        abs_cache s' = ac_lock (abs_cache s) n" by blast
qed (use bwrite_spec [OF assms] brelse_spec [OF assms] in blast)+

theorem bcache_refines_disk_witness:
  "\<exists>b s'. bread (boot_cache (\<lambda>n _. ucast n) 1000 1) ROOTDEV 3 = Ok (b, s') \<and> b_data (bufs s' b) = (\<lambda>_. 3)"
  using bcache_refines_disk [OF boot_cache_inv [of "\<lambda>n _. ucast n" 1000 1], of 3,
      THEN conjunct1]
  by (auto simp: boot_cache_abs)

lemma bget_mru: "mru s xs \<Longrightarrow> bget s dev n = Ok (b, s') \<Longrightarrow> mru s' xs"
  by (auto simp: bget_def lock_buf_def andthen_Ok_iff split: option.splits)

text \<open>The pointer fields always describe a list of all buffers in order of last use. \<^verbatim>\<open>bget\<close>
  searches it from the most recently used end for the block and from the least recently used end
  for a buffer to recycle, and keeps the order; \<^verbatim>\<open>brelse\<close> moves a buffer nobody waits for to the
  front.\<close>

theorem bcache_mru_order:
  assumes "mru s xs"
  shows "bget_cached s dev n =
      find (\<lambda>b. b_dev (bufs s b) = dev \<and> b_blockno (bufs s b) = n) xs \<and>
    bget_unused s = find (\<lambda>b. b_refcnt (bufs s b) = 0 \<and> \<not> b_dirty (bufs s b)) (rev xs) \<and>
    (bget s dev n = Ok (b, s') \<longrightarrow> mru s' xs) \<and>
    (b < NBUF \<and> brelse s b = Ok s' \<longrightarrow>
      mru s' (if b_refcnt (bufs s b) = 1 then b # remove1 b xs else xs))"
  using bget_cached_eq [OF assms] bget_unused_eq [OF assms] bget_mru [OF assms] brelse_mru [OF assms]
  by simp

theorem bcache_mru_order_witness:
  "bget_unused (boot_cache (\<lambda>_ _. 0) 1000 1) = Some 0"
proof -
  have "mru (boot_cache (\<lambda>_ _. 0) 1000 1) (rev [0..<NBUF])" unfolding boot_cache_def by (rule binit_mru)
  from bcache_mru_order [OF this] show ?thesis by (simp add: upt_rec)
qed

end
