(* ===== verification/Log.thy ===== *)
theory Log
  imports Bio
begin

text \<open>
  The redo log, \<^verbatim>\<open>log.c\<close>, over the buffer cache. Every routine is executed on the cache model, so a
  commit is the sequence of disk writes its \<^verbatim>\<open>bwrite\<close> calls make; the crash theorem looks at the
  disk after each prefix of that sequence and boots from it.
\<close>

section \<open>Definitions\<close>

abbreviation (input) MAXOPBLOCKS :: int where "MAXOPBLOCKS \<equiv> 10"
abbreviation (input) LOGSIZE :: int where "LOGSIZE \<equiv> 30"

text \<open>The superblock, block 1 of the disk (\<^verbatim>\<open>fs.h\<close>, \<^verbatim>\<open>readsb\<close> of \<^verbatim>\<open>fs.c\<close>).\<close>

record superblock =
  sb_size :: uint
  sb_nblocks :: uint
  sb_ninodes :: uint
  sb_nlog :: uint
  sb_logstart :: uint
  sb_inodestart :: uint
  sb_bmapstart :: uint

definition get_super :: "block \<Rightarrow> superblock" where
  "get_super d = \<lparr>sb_size = get32 d 0, sb_nblocks = get32 d 4, sb_ninodes = get32 d 8,
     sb_nlog = get32 d 12, sb_logstart = get32 d 16, sb_inodestart = get32 d 20,
     sb_bmapstart = get32 d 24\<rparr>"

definition readsb :: "bcache \<Rightarrow> uint \<Rightarrow> (superblock \<times> bcache) res" where
  "readsb s dev = andthen (bread s dev 1) (\<lambda>(b, s).
     let sb = get_super (b_data (bufs s b)) in
     andthen (brelse s b) (\<lambda>s. Ok (sb, s)))"

text \<open>
  \<^verbatim>\<open>struct log\<close> with its \<^verbatim>\<open>struct logheader\<close>. Block numbers, which the C code keeps in \<^verbatim>\<open>int\<close>
  variables and passes as \<^verbatim>\<open>uint\<close>, are 32-bit words; the counters are signed integers.
\<close>

record log =
  lg_start :: uint
  lg_size :: int
  lg_outstanding :: int
  lg_committing :: bool
  lg_dev :: uint
  lh_n :: int
  lh_block :: "nat \<Rightarrow> uint"

definition log_block :: "log \<Rightarrow> nat \<Rightarrow> uint" where
  "log_block lg tail = lg_start lg + of_nat tail + 1"

text \<open>One turn of the loop of \<^verbatim>\<open>install_trans\<close>, and the loop over the given turns.\<close>

definition install_one :: "log \<Rightarrow> nat \<Rightarrow> bcache \<Rightarrow> bcache res" where
  "install_one lg tail s =
     andthen (bread s (lg_dev lg) (log_block lg tail)) (\<lambda>(lbuf, s).
     andthen (bread s (lg_dev lg) (lh_block lg tail)) (\<lambda>(dbuf, s).
     andthen (bwrite (set_data s dbuf (\<lambda>_. b_data (bufs s lbuf))) dbuf) (\<lambda>s.
     andthen (brelse s lbuf) (\<lambda>s. brelse s dbuf))))"

primrec install_loop :: "log \<Rightarrow> nat list \<Rightarrow> bcache \<Rightarrow> bcache res" where
  "install_loop lg [] s = Ok s"
| "install_loop lg (tail # ts) s = andthen (install_one lg tail s) (install_loop lg ts)"

definition install_trans :: "log \<Rightarrow> bcache \<Rightarrow> bcache res" where
  "install_trans lg s = install_loop lg [0..<nat (lh_n lg)] s"

text \<open>
  \<^verbatim>\<open>read_head\<close>: a header with more than \<^verbatim>\<open>LOGSIZE\<close> entries is copied past the end of
  \<^verbatim>\<open>log.lh.block\<close>, which is undefined behaviour.
\<close>

definition read_head :: "log \<Rightarrow> bcache \<Rightarrow> (log \<times> bcache) res" where
  "read_head lg s = andthen (bread s (lg_dev lg) (lg_start lg)) (\<lambda>(b, s).
     let d = b_data (bufs s b); n = sint (get32 d 0) in
     if LOGSIZE < n then Fault
     else andthen (brelse s b) (\<lambda>s.
       Ok (lg\<lparr>lh_n := n, lh_block := \<lambda>i. if int i < n then get32 d (4 + 4 * i) else lh_block lg i\<rparr>, s)))"

definition put_head :: "log \<Rightarrow> block \<Rightarrow> block" where
  "put_head lg d = fold (\<lambda>i d. put32 d (4 + 4 * i) (lh_block lg i)) [0..<nat (lh_n lg)]
     (put32 d 0 (word_of_int (lh_n lg)))"

definition write_head :: "log \<Rightarrow> bcache \<Rightarrow> bcache res" where
  "write_head lg s = andthen (bread s (lg_dev lg) (lg_start lg)) (\<lambda>(b, s).
     andthen (bwrite (set_data s b (put_head lg)) b) (\<lambda>s. brelse s b))"

definition recover_from_log :: "log \<Rightarrow> bcache \<Rightarrow> (log \<times> bcache) res" where
  "recover_from_log lg s = andthen (read_head lg s) (\<lambda>(lg, s).
     andthen (install_trans lg s) (\<lambda>s.
     let lg = lg\<lparr>lh_n := 0\<rparr> in
     andthen (write_head lg s) (\<lambda>s. Ok (lg, s))))"

definition initlog :: "uint \<Rightarrow> log \<Rightarrow> bcache \<Rightarrow> (log \<times> bcache) res" where
  "initlog dev lg s =
     (if int BSIZE \<le> 4 + 4 * LOGSIZE then Panic ''initlog: too big logheader''
      else andthen (readsb s dev) (\<lambda>(sb, s).
        recover_from_log (lg\<lparr>lg_start := sb_logstart sb, lg_size := sint (sb_nlog sb), lg_dev := dev\<rparr>) s))"

text \<open>\<^verbatim>\<open>begin_op\<close>: one turn of its loop, \<open>Blocked\<close> when the caller sleeps.\<close>

definition begin_op :: "log \<Rightarrow> log res" where
  "begin_op lg =
     (if lg_committing lg then Blocked
      else if lh_n lg + (lg_outstanding lg + 1) * MAXOPBLOCKS > LOGSIZE then Blocked
      else Ok (lg\<lparr>lg_outstanding := lg_outstanding lg + 1\<rparr>))"

definition write_log_one :: "log \<Rightarrow> nat \<Rightarrow> bcache \<Rightarrow> bcache res" where
  "write_log_one lg tail s =
     andthen (bread s (lg_dev lg) (log_block lg tail)) (\<lambda>(to, s).
     andthen (bread s (lg_dev lg) (lh_block lg tail)) (\<lambda>(from, s).
     andthen (bwrite (set_data s to (\<lambda>_. b_data (bufs s from))) to) (\<lambda>s.
     andthen (brelse s from) (\<lambda>s. brelse s to))))"

primrec write_log_loop :: "log \<Rightarrow> nat list \<Rightarrow> bcache \<Rightarrow> bcache res" where
  "write_log_loop lg [] s = Ok s"
| "write_log_loop lg (tail # ts) s = andthen (write_log_one lg tail s) (write_log_loop lg ts)"

definition write_log :: "log \<Rightarrow> bcache \<Rightarrow> bcache res" where
  "write_log lg s = write_log_loop lg [0..<nat (lh_n lg)] s"

definition commit :: "log \<Rightarrow> bcache \<Rightarrow> (log \<times> bcache) res" where
  "commit lg s =
     (if lh_n lg > 0
      then andthen (write_log lg s) (\<lambda>s.
        andthen (write_head lg s) (\<lambda>s.
        andthen (install_trans lg s) (\<lambda>s.
        let lg = lg\<lparr>lh_n := 0\<rparr> in
        andthen (write_head lg s) (\<lambda>s. Ok (lg, s)))))
      else Ok (lg, s))"

text \<open>
  \<^verbatim>\<open>end_op\<close>: the first critical section decides whether this caller commits; the commit runs
  without \<^verbatim>\<open>log.lock\<close>; a last section ends it. The wakeups are not part of the sequential state.
\<close>

definition end_op_enter :: "log \<Rightarrow> (bool \<times> log) res" where
  "end_op_enter lg =
     (let lg = lg\<lparr>lg_outstanding := lg_outstanding lg - 1\<rparr> in
      if lg_committing lg then Panic ''log.committing''
      else if lg_outstanding lg = 0 then Ok (True, lg\<lparr>lg_committing := True\<rparr>)
      else Ok (False, lg))"

definition end_op :: "log \<Rightarrow> bcache \<Rightarrow> (log \<times> bcache) res" where
  "end_op lg s = andthen (end_op_enter lg) (\<lambda>(do_commit, lg).
     if do_commit
     then andthen (commit lg s) (\<lambda>(lg, s). Ok (lg\<lparr>lg_committing := False\<rparr>, s))
     else Ok (lg, s))"

text \<open>\<^verbatim>\<open>log_write\<close>: the position of the block in the header, or the first free one.\<close>

definition log_index :: "log \<Rightarrow> uint \<Rightarrow> nat" where
  "log_index lg blockno =
     (case find (\<lambda>i. lh_block lg i = blockno) [0..<nat (lh_n lg)] of
        Some i \<Rightarrow> i | None \<Rightarrow> nat (lh_n lg))"

definition log_add :: "log \<Rightarrow> uint \<Rightarrow> log res" where
  "log_add lg blockno =
     (if lh_n lg \<ge> LOGSIZE \<or> lh_n lg \<ge> lg_size lg - 1 then Panic ''too big a transaction''
      else if lg_outstanding lg < 1 then Panic ''log_write outside of trans''
      else
        let i = log_index lg blockno;
            lg = lg\<lparr>lh_block := (lh_block lg)(i := blockno)\<rparr>
        in Ok (if int i = lh_n lg then lg\<lparr>lh_n := lh_n lg + 1\<rparr> else lg))"

definition log_write :: "log \<Rightarrow> bcache \<Rightarrow> nat \<Rightarrow> (log \<times> bcache) res" where
  "log_write lg s b = andthen (log_add lg (b_blockno (bufs s b))) (\<lambda>lg. Ok (lg, set_dirty s b))"

section \<open>Sequences of disk writes\<close>

definition apply_writes :: "(uint \<times> block) list \<Rightarrow> (uint \<Rightarrow> block) \<Rightarrow> uint \<Rightarrow> block" where
  "apply_writes ws D = fold (\<lambda>(n, d) D. D(n := d)) ws D"

definition store_all :: "(uint \<times> block) list \<Rightarrow> acache \<Rightarrow> acache" where
  "store_all ws a = fold (\<lambda>(n, d) a. ac_store a n d) ws a"

lemma apply_writes_simps [simp]:
  "apply_writes [] D = D" "apply_writes ((n, d) # ws) D = apply_writes ws (D(n := d))"
  "apply_writes (vs @ ws) D = apply_writes ws (apply_writes vs D)"
  by (simp_all add: apply_writes_def)

lemma store_all_simps [simp]:
  "store_all [] a = a" "store_all ((n, d) # ws) a = store_all ws (ac_store a n d)"
  "store_all (vs @ ws) a = store_all ws (store_all vs a)"
  by (simp_all add: store_all_def)

lemma apply_writes_notin: "n \<notin> fst ` set ws \<Longrightarrow> apply_writes ws D n = D n"
  by (induction ws arbitrary: D) auto

lemma apply_writes_in:
  "distinct (map fst ws) \<Longrightarrow> (n, d) \<in> set ws \<Longrightarrow> apply_writes ws D n = d"
proof (induction ws arbitrary: D)
  case (Cons w ws)
  then show ?case using apply_writes_notin [of n ws] by (cases w) (force split: if_splits)
qed simp

lemma ac_store_sel [simp]:
  "ac_view (ac_store a n d) = (ac_view a)(n := d)" "ac_disk (ac_store a n d) = (ac_disk a)(n := d)"
  "ac_dirty (ac_store a n d) = (ac_dirty a)(n := False)" "ac_holder (ac_store a n d) = ac_holder a"
  "ac_size (ac_store a n d) = ac_size a" "ac_pid (ac_store a n d) = ac_pid a"
  "ac_written (ac_store a n d) = ac_written a @ [(n, d)]"
  "ac_free (ac_store a n d) = (if ac_dirty a n then Suc (ac_free a) else ac_free a)"
  by (simp_all add: ac_store_def)

lemma store_all_sel [simp]:
  "ac_view (store_all ws a) = apply_writes ws (ac_view a)"
  "ac_disk (store_all ws a) = apply_writes ws (ac_disk a)"
  "ac_holder (store_all ws a) = ac_holder a" "ac_size (store_all ws a) = ac_size a"
  "ac_pid (store_all ws a) = ac_pid a" "ac_written (store_all ws a) = ac_written a @ ws"
  by (induction ws arbitrary: a) auto

lemma store_all_dirty [simp]:
  "ac_dirty (store_all ws a) n \<longleftrightarrow> ac_dirty a n \<and> n \<notin> fst ` set ws"
  by (induction ws arbitrary: a) (force split: if_splits)+

lemma store_all_free: "ac_free a \<le> ac_free (store_all ws a)"
proof (induction ws arbitrary: a)
  case (Cons w ws)
  obtain n d where "w = (n, d)" by (cases w)
  then show ?case using Cons [of "ac_store a n d"] by (auto split: if_splits)
qed simp

section \<open>The routines on the view of the disk\<close>

text \<open>What the loops over the header entries \<open>ts\<close> need: the blocks are on the disk and unlocked, and
  no home block is a block of the log.\<close>

definition log_ready :: "log \<Rightarrow> acache \<Rightarrow> nat list \<Rightarrow> bool" where
  "log_ready lg a ts \<longleftrightarrow> lg_dev lg = 1 \<and> (\<forall>i\<in>set ts.
     ac_holder a (log_block lg i) = None \<and> ac_holder a (lh_block lg i) = None \<and>
     log_block lg i < ac_size a \<and> lh_block lg i < ac_size a \<and>
     (\<forall>j\<in>set ts. log_block lg i \<noteq> lh_block lg j))"

lemma log_ready_cong:
  "ac_holder a' = ac_holder a \<Longrightarrow> ac_size a' = ac_size a \<Longrightarrow> log_ready lg a' ts = log_ready lg a ts"
  by (simp add: log_ready_def)

lemma log_ready_ConsD: "log_ready lg a (t # ts) \<Longrightarrow> log_ready lg a ts"
  by (simp add: log_ready_def)

definition log_image :: "log \<Rightarrow> (uint \<Rightarrow> block) \<Rightarrow> nat list \<Rightarrow> (uint \<times> block) list" where
  "log_image lg V ts = map (\<lambda>i. (log_block lg i, V (lh_block lg i))) ts"

definition home_image :: "log \<Rightarrow> (uint \<Rightarrow> block) \<Rightarrow> nat list \<Rightarrow> (uint \<times> block) list" where
  "home_image lg V ts = map (\<lambda>i. (lh_block lg i, V (log_block lg i))) ts"

lemma image_simps [simp]:
  "log_image lg V [] = []" "home_image lg V [] = []"
  "log_image lg V (t # ts) = (log_block lg t, V (lh_block lg t)) # log_image lg V ts"
  "home_image lg V (t # ts) = (lh_block lg t, V (log_block lg t)) # home_image lg V ts"
  by (simp_all add: log_image_def home_image_def)

lemma write_log_loop_spec:
  assumes "bio_inv s" "log_ready lg (abs_cache s) ts" "0 < ac_free (abs_cache s)"
    "\<And>i. i \<in> set ts \<Longrightarrow> ac_dirty (abs_cache s) (lh_block lg i)"
  shows "\<exists>s'. write_log_loop lg ts s = Ok s' \<and> bio_inv s' \<and>
    abs_cache s' = store_all (log_image lg (ac_view (abs_cache s)) ts) (abs_cache s)"
  using assms
proof (induction ts arbitrary: s)
  case (Cons t ts)
  let ?a = "abs_cache s" and ?n = "log_block lg t" and ?m = "lh_block lg t"
  have r: "lg_dev lg = 1" "?n \<noteq> ?m" "ac_holder ?a ?n = None" "ac_holder ?a ?m = None"
    "?n < ac_size ?a" "?m < ac_size ?a" "ac_dirty ?a ?m" "\<forall>j\<in>set ts. ?n \<noteq> lh_block lg j"
    using Cons.prems by (auto simp: log_ready_def)
  have "ac_need ?a ?n + ac_need ?a ?m \<le> ac_free ?a" using r(7) Cons.prems(3) by (simp add: ac_need_def)
  from bc.copy_to_first [OF Cons.prems(1) r(2-6) this] r(1,7)
  obtain s1 where s1: "write_log_one lg t s = Ok s1" "bio_inv s1"
    "abs_cache s1 = ac_store ?a ?n (ac_view ?a ?m)"
    unfolding write_log_one_def by auto
  have "log_image lg ((ac_view ?a)(?n := ac_view ?a ?m)) ts = log_image lg (ac_view ?a) ts"
    using r(8) by (auto simp: log_image_def)
  moreover have "\<exists>s'. write_log_loop lg ts s1 = Ok s' \<and> bio_inv s' \<and>
      abs_cache s' = store_all (log_image lg (ac_view (abs_cache s1)) ts) (abs_cache s1)"
  proof (rule Cons.IH [OF s1(2)])
    show "log_ready lg (abs_cache s1) ts"
      using log_ready_ConsD [OF Cons.prems(2)] log_ready_cong [of "abs_cache s1" ?a] s1(3) by simp
    show "0 < ac_free (abs_cache s1)" using Cons.prems(3) s1(3) by simp
    show "ac_dirty (abs_cache s1) (lh_block lg i)" if "i \<in> set ts" for i
      using that Cons.prems(4) [of i] r(8) s1(3) by auto
  qed
  ultimately show ?case using s1 by simp
qed simp

lemma install_loop_spec:
  assumes "bio_inv s" "log_ready lg (abs_cache s) ts"
    "2 \<le> ac_free (abs_cache s) \<or>
      0 < ac_free (abs_cache s) \<and> (\<forall>i\<in>set ts. ac_dirty (abs_cache s) (lh_block lg i))"
    "\<And>i. i \<in> set ts \<Longrightarrow>
      ac_view (abs_cache s) (log_block lg i) = ac_disk (abs_cache s) (log_block lg i)"
  shows "\<exists>s'. install_loop lg ts s = Ok s' \<and> bio_inv s' \<and>
    abs_cache s' = store_all (home_image lg (ac_view (abs_cache s)) ts) (abs_cache s)"
  using assms
proof (induction ts arbitrary: s)
  case (Cons t ts)
  let ?a = "abs_cache s" and ?m = "log_block lg t" and ?n = "lh_block lg t"
  have r: "lg_dev lg = 1" "?n \<noteq> ?m" "ac_holder ?a ?n = None" "ac_holder ?a ?m = None"
    "?n < ac_size ?a" "?m < ac_size ?a" "ac_view ?a ?m = ac_disk ?a ?m"
    "\<forall>j\<in>set ts. log_block lg j \<noteq> ?n"
    using Cons.prems by (auto simp: log_ready_def)
  have "ac_need ?a ?n + ac_need ?a ?m \<le> ac_free ?a" using Cons.prems(3) by (auto simp: ac_need_def)
  from bc.copy_to_second [OF Cons.prems(1) r(2-6) this] r(1,7)
  obtain s1 where s1: "install_one lg t s = Ok s1" "bio_inv s1"
    "abs_cache s1 = ac_store ?a ?n (ac_view ?a ?m)"
    unfolding install_one_def by auto
  have "home_image lg ((ac_view ?a)(?n := ac_view ?a ?m)) ts = home_image lg (ac_view ?a) ts"
    using r(8) by (auto simp: home_image_def)
  moreover have "\<exists>s'. install_loop lg ts s1 = Ok s' \<and> bio_inv s' \<and>
      abs_cache s' = store_all (home_image lg (ac_view (abs_cache s1)) ts) (abs_cache s1)"
  proof (rule Cons.IH [OF s1(2)])
    show "log_ready lg (abs_cache s1) ts"
      using log_ready_ConsD [OF Cons.prems(2)] log_ready_cong [of "abs_cache s1" ?a] s1(3) by simp
    show "2 \<le> ac_free (abs_cache s1) \<or> 0 < ac_free (abs_cache s1) \<and>
        (\<forall>i\<in>set ts. ac_dirty (abs_cache s1) (lh_block lg i))"
      using Cons.prems(3) s1(3) by auto
    show "ac_view (abs_cache s1) (log_block lg i) = ac_disk (abs_cache s1) (log_block lg i)"
      if "i \<in> set ts" for i
      using that Cons.prems(4) [of i] s1(3) by auto
  qed
  ultimately show ?case using s1 by simp
qed simp

lemma write_head_spec:
  assumes "bio_inv s" "lg_dev lg = 1" "ac_holder (abs_cache s) (lg_start lg) = None"
    "lg_start lg < ac_size (abs_cache s)" "0 < ac_free (abs_cache s)"
  shows "\<exists>s'. write_head lg s = Ok s' \<and> bio_inv s' \<and>
    abs_cache s' = ac_store (abs_cache s) (lg_start lg) (put_head lg (ac_view (abs_cache s) (lg_start lg)))"
  using bc.rewrite_block [OF assms(1,3,4), of "put_head lg"] assms(2,5) by (simp add: write_head_def)

section \<open>The header block\<close>

lemma put_entries:
  "get32 (fold (\<lambda>i d. put32 d (4 + 4 * i) (B i)) [0..<k] d) 0 = get32 d 0"
  "i < k \<Longrightarrow> get32 (fold (\<lambda>i d. put32 d (4 + 4 * i) (B i)) [0..<k] d) (4 + 4 * i) = B i"
  by (induction k) (auto simp: block_simps less_Suc_eq)

lemma sint_small: "0 \<le> n \<Longrightarrow> n \<le> LOGSIZE \<Longrightarrow> sint (word_of_int n :: uint) = n"
  by (simp add: int_word_sint)

text \<open>\<^verbatim>\<open>read_head\<close> gets back what \<^verbatim>\<open>write_head\<close> stored.\<close>

lemma head_roundtrip:
  assumes "0 \<le> lh_n lg" "lh_n lg \<le> LOGSIZE"
  shows "sint (get32 (put_head lg d) 0) = lh_n lg"
    "int i < lh_n lg \<Longrightarrow> get32 (put_head lg d) (4 + 4 * i) = lh_block lg i"
proof -
  show "sint (get32 (put_head lg d) 0) = lh_n lg"
    using sint_small [OF assms] by (simp only: put_head_def put_entries get32_put32)
  assume "int i < lh_n lg"
  then have "i < nat (lh_n lg)" by simp
  then show "get32 (put_head lg d) (4 + 4 * i) = lh_block lg i"
    unfolding put_head_def by (rule put_entries(2))
qed

section \<open>Commit\<close>

text \<open>The log area of the header with \<open>k\<close> entries.\<close>

lemma log_block_inj: "log_block lg i = log_block lg j \<Longrightarrow> i < 2 ^ 32 \<Longrightarrow> j < 2 ^ 32 \<Longrightarrow> i = j"
  using of_nat_uint_inj by (simp add: log_block_def)

lemma log_block_start: "i < 2 ^ 31 \<Longrightarrow> log_block lg i \<noteq> lg_start lg"
  using of_nat_uint_inj [of "Suc i" 0] by (auto simp: log_block_def algebra_simps)

abbreviation entries :: "log \<Rightarrow> nat list" where
  "entries lg \<equiv> [0..<nat (lh_n lg)]"

definition commit_ready :: "log \<Rightarrow> acache \<Rightarrow> bool" where
  "commit_ready lg a \<longleftrightarrow> log_ready lg a (entries lg) \<and> 0 \<le> lh_n lg \<and> lh_n lg \<le> LOGSIZE \<and>
     ac_holder a (lg_start lg) = None \<and> lg_start lg < ac_size a \<and> 0 < ac_free a \<and>
     distinct (map (lh_block lg) (entries lg)) \<and>
     (\<forall>i\<in>set (entries lg). lh_block lg i \<noteq> lg_start lg \<and> ac_dirty a (lh_block lg i))"

text \<open>The disk writes of a commit, in order: the log, the header, the home blocks, the empty header.\<close>

definition home_new :: "log \<Rightarrow> (uint \<Rightarrow> block) \<Rightarrow> (uint \<times> block) list" where
  "home_new lg V = map (\<lambda>i. (lh_block lg i, V (lh_block lg i))) (entries lg)"

definition commit_writes :: "log \<Rightarrow> (uint \<Rightarrow> block) \<Rightarrow> (uint \<times> block) list" where
  "commit_writes lg V =
     (let h = put_head lg (V (lg_start lg)) in
      log_image lg V (entries lg) @ [(lg_start lg, h)] @ home_new lg V @
      [(lg_start lg, put_head (lg\<lparr>lh_n := 0\<rparr>) h)])"

lemma distinct_log_image:
  assumes "lh_n lg \<le> LOGSIZE"
  shows "distinct (map fst (log_image lg V (entries lg)))"
proof -
  have "inj_on (log_block lg) (set (entries lg))"
    using assms log_block_inj by (intro inj_onI) auto
  then show ?thesis by (simp add: log_image_def distinct_map comp_def)
qed

lemma fst_log_image: "fst ` set (log_image lg V ts) = log_block lg ` set ts"
  by (simp add: log_image_def image_image)

lemma fst_home_new: "fst ` set (home_new lg V) = lh_block lg ` set (entries lg)"
  by (simp add: home_new_def image_image)

lemma log_image_get:
  assumes "lh_n lg \<le> LOGSIZE" "i \<in> set (entries lg)"
  shows "apply_writes (log_image lg V (entries lg)) D (log_block lg i) = V (lh_block lg i)"
proof (rule apply_writes_in [OF distinct_log_image [OF assms(1)]])
  show "(log_block lg i, V (lh_block lg i)) \<in> set (log_image lg V (entries lg))"
    using assms(2) by (auto simp: log_image_def)
qed

lemma log_blocks_not_start:
  assumes "lh_n lg \<le> LOGSIZE"
  shows "i \<in> set (entries lg) \<Longrightarrow> log_block lg i \<noteq> lg_start lg"
    "lg_start lg \<notin> fst ` set (log_image lg V (entries lg))"
proof -
  show ne: "log_block lg i \<noteq> lg_start lg" if "i \<in> set (entries lg)" for i
    using that assms by (intro log_block_start) simp
  show "lg_start lg \<notin> fst ` set (log_image lg V (entries lg))"
    unfolding fst_log_image using ne by (metis imageE)
qed

lemma log_image_start:
  assumes "lh_n lg \<le> LOGSIZE"
  shows "apply_writes (log_image lg V (entries lg)) D (lg_start lg) = D (lg_start lg)"
  using log_blocks_not_start(2) [OF assms] by (rule apply_writes_notin)

lemma commit_ready_disjoint:
  assumes "commit_ready lg a"
  shows "i \<in> set (entries lg) \<Longrightarrow> lh_block lg i \<notin> fst ` set (log_image lg V (entries lg))"
    "lg_start lg \<notin> fst ` set (home_new lg V)"
    "i \<in> set (entries lg) \<Longrightarrow> log_block lg i \<notin> fst ` set (home_new lg V)"
  using assms unfolding commit_ready_def log_ready_def fst_log_image fst_home_new by fastforce+

lemma home_image_log:
  assumes "\<And>i. i \<in> set (entries lg) \<Longrightarrow> V' (log_block lg i) = V (lh_block lg i)"
  shows "home_image lg V' (entries lg) = home_new lg V"
  using assms by (simp add: home_image_def home_new_def)

text \<open>The first two steps of a commit: the log blocks and the header.\<close>

lemma write_log_head_spec:
  assumes "bio_inv s" "commit_ready lg (abs_cache s)"
  defines "V \<equiv> ac_view (abs_cache s)"
  shows "\<exists>s1 s2. write_log lg s = Ok s1 \<and> write_head lg s1 = Ok s2 \<and> bio_inv s2 \<and>
    abs_cache s2 = store_all (log_image lg V (entries lg) @ [(lg_start lg, put_head lg (V (lg_start lg)))])
      (abs_cache s)"
proof -
  note c = assms(2) [unfolded commit_ready_def]
  obtain s1 where s1: "write_log lg s = Ok s1" "bio_inv s1"
    "abs_cache s1 = store_all (log_image lg V (entries lg)) (abs_cache s)"
    using write_log_loop_spec [OF assms(1), of lg "entries lg"] c by (auto simp: write_log_def V_def)
  have f: "0 < ac_free (abs_cache s1)"
    using c store_all_free [of "abs_cache s" "log_image lg V (entries lg)"] s1(3) by simp
  have d: "lg_dev lg = 1" using c by (simp add: log_ready_def)
  obtain s2 where "write_head lg s1 = Ok s2" "bio_inv s2" "abs_cache s2 =
      ac_store (abs_cache s1) (lg_start lg) (put_head lg (ac_view (abs_cache s1) (lg_start lg)))"
    using write_head_spec [OF s1(2) d _ _ f] c s1(3) by auto
  moreover have "ac_view (abs_cache s1) (lg_start lg) = V (lg_start lg)"
    using s1(3) log_image_start c by (simp add: V_def)
  ultimately show ?thesis using s1 by simp
qed

lemma commit_spec:
  assumes "bio_inv s" "commit_ready lg (abs_cache s)"
  defines "V \<equiv> ac_view (abs_cache s)"
  shows "\<exists>s'. commit lg s = Ok (lg\<lparr>lh_n := 0\<rparr>, s') \<and> bio_inv s' \<and> abs_cache s' =
    store_all (if 0 < lh_n lg then commit_writes lg V else []) (abs_cache s)"
proof (cases "0 < lh_n lg")
  case True
  note c = assms(2) [unfolded commit_ready_def]
  let ?S = "lg_start lg" and ?h = "put_head lg (V (lg_start lg))"
  obtain s1 s2 where s2: "write_log lg s = Ok s1" "write_head lg s1 = Ok s2" "bio_inv s2"
    "abs_cache s2 = store_all (log_image lg V (entries lg) @ [(?S, ?h)]) (abs_cache s)"
    using write_log_head_spec [OF assms(1,2)] by (auto simp: V_def)
  have lb: "log_block lg i \<noteq> ?S" if "i \<in> set (entries lg)" for i
    using log_blocks_not_start(1) that c by blast
  have v: "ac_view (abs_cache s2) (log_block lg i) = V (lh_block lg i)"
    "ac_disk (abs_cache s2) (log_block lg i) = V (lh_block lg i)" if "i \<in> set (entries lg)" for i
    using that lb [OF that] log_image_get c s2(4) by auto
  have dirty: "ac_dirty (abs_cache s2) (lh_block lg i)" if "i \<in> set (entries lg)" for i
    using that c s2(4) commit_ready_disjoint(1) [OF assms(2) that] by simp
  have free: "0 < ac_free (abs_cache s2)"
    using c store_all_free [of "abs_cache s"] s2(4) by (metis less_le_trans)
  have "log_ready lg (abs_cache s2) (entries lg)"
    using c log_ready_cong [of "abs_cache s2" "abs_cache s"] s2(4) by simp
  then obtain s3 where s3: "install_trans lg s2 = Ok s3" "bio_inv s3"
    "abs_cache s3 = store_all (home_new lg V) (abs_cache s2)"
    using install_loop_spec [OF s2(3), of lg "entries lg"] v dirty free home_image_log [of lg _ V]
    unfolding install_trans_def by metis
  have "0 < ac_free (abs_cache s3)" using free store_all_free s3(3) by (metis less_le_trans)
  then obtain s4 where s4: "write_head (lg\<lparr>lh_n := 0\<rparr>) s3 = Ok s4" "bio_inv s4" "abs_cache s4 =
      ac_store (abs_cache s3) ?S (put_head (lg\<lparr>lh_n := 0\<rparr>) (ac_view (abs_cache s3) ?S))"
    using write_head_spec [OF s3(2), of "lg\<lparr>lh_n := 0\<rparr>"] c s2(4) s3(3) by (auto simp: log_ready_def)
  have "ac_view (abs_cache s3) ?S = ?h"
    using apply_writes_notin [OF commit_ready_disjoint(2) [OF assms(2)]] s2(4) s3(3) by simp
  then show ?thesis
    using True s2 s3 s4 by (simp add: commit_def commit_writes_def Let_def)
next
  case False
  then have "lg\<lparr>lh_n := 0\<rparr> = lg" using assms(2) by (simp add: commit_ready_def)
  then show ?thesis using False assms(1) by (simp add: commit_def)
qed

section \<open>Recovery\<close>

definition head_of :: "log \<Rightarrow> block \<Rightarrow> log" where
  "head_of lg d = lg\<lparr>lh_n := sint (get32 d 0),
     lh_block := \<lambda>i. if int i < sint (get32 d 0) then get32 d (4 + 4 * i) else lh_block lg i\<rparr>"

lemma head_of_simps [simp]:
  "lg_start (head_of lg d) = lg_start lg" "lg_dev (head_of lg d) = lg_dev lg"
  "lh_n (head_of lg d) = sint (get32 d 0)" "log_block (head_of lg d) i = log_block lg i"
  by (simp_all add: head_of_def log_block_def)

text \<open>A cache nobody uses yet.\<close>

definition fresh :: "acache \<Rightarrow> bool" where
  "fresh a \<longleftrightarrow> (\<forall>n. ac_holder a n = None) \<and> ac_view a = ac_disk a \<and> 2 \<le> ac_free a"

lemma read_head_spec:
  assumes "bio_inv s" "fresh (abs_cache s)" "lg_dev lg = 1" "lg_start lg < ac_size (abs_cache s)"
    "sint (get32 (ac_disk (abs_cache s) (lg_start lg)) 0) \<le> LOGSIZE"
  shows "\<exists>s'. read_head lg s = Ok (head_of lg (ac_disk (abs_cache s) (lg_start lg)), s') \<and>
    bio_inv s' \<and> abs_cache s' = abs_cache s"
  using bc.read_block [OF assms(1), of "lg_start lg"] assms(2-5)
  by (auto simp: fresh_def read_head_def head_of_def Let_def cong: if_cong)

lemma readsb_spec:
  assumes "bio_inv s" "fresh (abs_cache s)" "1 < ac_size (abs_cache s)"
  shows "\<exists>s'. readsb s 1 = Ok (get_super (ac_disk (abs_cache s) 1), s') \<and> bio_inv s' \<and>
    abs_cache s' = abs_cache s"
  using bc.read_block [OF assms(1), of 1] assms(2,3) by (auto simp: fresh_def readsb_def Let_def)

lemma recover_spec:
  assumes "bio_inv s" "fresh (abs_cache s)" "lg_dev lg = 1" "lg_start lg < ac_size (abs_cache s)"
  defines "D \<equiv> ac_disk (abs_cache s)"
  defines "lg' \<equiv> head_of lg (D (lg_start lg))"
  assumes "lh_n lg' \<le> LOGSIZE" "log_ready lg' (abs_cache s) (entries lg')"
  shows "\<exists>s' h. recover_from_log lg s = Ok (lg'\<lparr>lh_n := 0\<rparr>, s') \<and> bio_inv s' \<and>
    abs_cache s' = store_all (home_image lg' D (entries lg') @ [(lg_start lg, h)]) (abs_cache s)"
proof -
  obtain s1 where s1: "read_head lg s = Ok (lg', s1)" "bio_inv s1" "abs_cache s1 = abs_cache s"
    using read_head_spec [OF assms(1-4)] assms(7) by (auto simp: lg'_def D_def)
  obtain s2 where s2: "install_trans lg' s1 = Ok s2" "bio_inv s2"
    "abs_cache s2 = store_all (home_image lg' D (entries lg')) (abs_cache s)"
    using install_loop_spec [OF s1(2), of lg' "entries lg'"] assms(2,8) s1(3)
    by (auto simp: install_trans_def fresh_def D_def)
  have "0 < ac_free (abs_cache s2)"
    using assms(2) store_all_free [of "abs_cache s"] s2(3) unfolding fresh_def
    by (metis le_trans not_numeral_le_zero gr0I)
  then show ?thesis
    using write_head_spec [OF s2(2), of "lg'\<lparr>lh_n := 0\<rparr>"] s1 s2 assms(2-4)
    by (auto simp: recover_from_log_def Let_def fresh_def lg'_def)
qed

text \<open>Booting from a disk: \<^verbatim>\<open>binit\<close> and \<^verbatim>\<open>initlog\<close> on zeroed memory.\<close>

definition zero_log :: log where
  "zero_log = \<lparr>lg_start = 0, lg_size = 0, lg_outstanding = 0, lg_committing = False, lg_dev = 0,
     lh_n = 0, lh_block = (\<lambda>_. 0)\<rparr>"

definition boot_log :: "(uint \<Rightarrow> block) \<Rightarrow> log" where
  "boot_log D = (let sb = get_super (D 1) in
     zero_log\<lparr>lg_start := sb_logstart sb, lg_size := sint (sb_nlog sb), lg_dev := 1\<rparr>)"

definition reboot :: "(uint \<Rightarrow> block) \<Rightarrow> uint \<Rightarrow> int \<Rightarrow> (log \<times> bcache) res" where
  "reboot D sz pid = initlog ROOTDEV zero_log (boot_cache D sz pid)"

lemma reboot_spec:
  assumes "1 < sz" "lg_start (boot_log D) < sz"
  defines "lg \<equiv> head_of (boot_log D) (D (lg_start (boot_log D)))"
  assumes "lh_n lg \<le> LOGSIZE"
    "\<And>i j. i \<in> set (entries lg) \<Longrightarrow> j \<in> set (entries lg) \<Longrightarrow>
      log_block lg i < sz \<and> lh_block lg i < sz \<and> log_block lg i \<noteq> lh_block lg j"
  shows "\<exists>lg' s' h. reboot D sz pid = Ok (lg', s') \<and> lh_n lg' = 0 \<and>
    memdisk s' = (apply_writes (home_image lg D (entries lg)) D)(lg_start lg := h)"
proof -
  let ?s = "boot_cache D sz pid"
  note a = boot_cache_abs [of D sz pid]
  have f: "fresh (abs_cache ?s)" by (simp add: fresh_def a)
  obtain s1 where s1: "readsb ?s 1 = Ok (get_super (D 1), s1)" "bio_inv s1" "abs_cache s1 = abs_cache ?s"
    using readsb_spec [OF boot_cache_inv f] assms(1) by (auto simp: a)
  have dev: "lg_dev (boot_log D) = 1" by (simp add: boot_log_def Let_def)
  then have "log_ready lg (abs_cache ?s) (entries lg)"
    using assms(5) by (auto simp: log_ready_def a lg_def)
  then obtain s2 h where "recover_from_log (boot_log D) s1 = Ok (lg\<lparr>lh_n := 0\<rparr>, s2)"
    "abs_cache s2 = store_all (home_image lg D (entries lg) @ [(lg_start (boot_log D), h)]) (abs_cache ?s)"
    using recover_spec [OF s1(2), of "boot_log D"] f dev assms(2,4) s1(3) by (auto simp: a lg_def)
  moreover have "memdisk s2 = ac_disk (abs_cache s2)" by (simp add: abs_cache_def)
  ultimately show ?thesis
    using s1(1) by (auto simp: reboot_def initlog_def boot_log_def Let_def lg_def a)
qed

section \<open>Crashes during a commit\<close>

text \<open>The part of the disk the log owns, and the layout that keeps the home blocks out of it.\<close>

definition log_area :: "log \<Rightarrow> uint set" where
  "log_area lg = insert (lg_start lg) (log_block lg ` set (entries lg))"

definition disk_layout :: "log \<Rightarrow> (uint \<Rightarrow> block) \<Rightarrow> uint \<Rightarrow> bool" where
  "disk_layout lg D sz \<longleftrightarrow> 1 < sz \<and> sb_logstart (get_super (D 1)) = lg_start lg \<and>
     1 \<notin> log_area lg \<and> 1 \<notin> lh_block lg ` set (entries lg)"

definition new_disk :: "log \<Rightarrow> bcache \<Rightarrow> uint \<Rightarrow> block" where
  "new_disk lg s = apply_writes (home_new lg (ac_view (abs_cache s))) (memdisk s)"

lemma boot_log_start: "lg_start (boot_log D) = sb_logstart (get_super (D 1))"
  "lg_dev (boot_log D) = 1" "lh_n (boot_log D) = 0"
  by (simp_all add: boot_log_def Let_def zero_log_def)

text \<open>A disk with an empty header is left alone.\<close>

lemma reboot_empty:
  assumes "1 < sz" "sb_logstart (get_super (D 1)) = S" "S < sz" "sint (get32 (D S) 0) = 0"
  shows "\<exists>lg' s' h. reboot D sz pid = Ok (lg', s') \<and> lh_n lg' = 0 \<and> memdisk s' = D(S := h)"
  using reboot_spec [of sz D pid] assms by (simp add: boot_log_start)

text \<open>A disk with the committed header gets the home blocks from the log.\<close>

lemma reboot_committed:
  assumes "1 < sz" "sb_logstart (get_super (D 1)) = lg_start lg" "0 \<le> lh_n lg" "lh_n lg \<le> LOGSIZE"
    "D (lg_start lg) = put_head lg d" "lg_start lg < sz"
    "\<And>i j. i \<in> set (entries lg) \<Longrightarrow> j \<in> set (entries lg) \<Longrightarrow>
      log_block lg i < sz \<and> lh_block lg i < sz \<and> log_block lg i \<noteq> lh_block lg j"
    "\<And>i. i \<in> set (entries lg) \<Longrightarrow> D (log_block lg i) = V (lh_block lg i)"
  shows "\<exists>lg' s' h. reboot D sz pid = Ok (lg', s') \<and> lh_n lg' = 0 \<and>
    memdisk s' = (apply_writes (home_new lg V) D)(lg_start lg := h)"
proof -
  define lg1 where "lg1 = head_of (boot_log D) (D (lg_start (boot_log D)))"
  have st: "lg_start (boot_log D) = lg_start lg" using assms(2) by (simp add: boot_log_start)
  have n: "lh_n lg1 = lh_n lg" using st assms(5) head_roundtrip(1) [OF assms(3,4)] by (simp add: lg1_def)
  have b: "log_block lg1 i = log_block lg i" for i
    using st by (simp add: log_block_def lg1_def)
  have h: "lh_block lg1 i = lh_block lg i" if "i \<in> set (entries lg)" for i
    using that st assms(5) head_roundtrip [OF assms(3,4)] by (simp add: lg1_def head_of_def zless_nat_eq_int_zless)
  have "home_image lg1 D (entries lg1) = home_new lg V"
    using h assms(8) by (simp add: home_image_def home_new_def n b)
  moreover have "\<exists>lg' s' h. reboot D sz pid = Ok (lg', s') \<and> lh_n lg' = 0 \<and>
      memdisk s' = (apply_writes (home_image lg1 D (entries lg1)) D)(lg_start lg1 := h)"
    unfolding lg1_def
  proof (rule reboot_spec, fold lg1_def)
    show "log_block lg1 i < sz \<and> lh_block lg1 i < sz \<and> log_block lg1 i \<noteq> lh_block lg1 j"
      if "i \<in> set (entries lg1)" "j \<in> set (entries lg1)" for i j
      using that assms(7) [of i j] h b n by simp
  qed (use assms st n in auto)
  ultimately show ?thesis using st by (simp add: lg1_def)
qed

lemma take_notin: "n \<notin> fst ` set ws \<Longrightarrow> n \<notin> fst ` set (take k ws)"
  using set_take_subset [of k ws] by blast

lemma fst_log_area: "b \<notin> log_area lg \<Longrightarrow> b \<notin> fst ` set (log_image lg V (entries lg))"
  unfolding log_area_def fst_log_image by blast

lemma home_new_get:
  assumes "distinct (map (lh_block lg) (entries lg))"
  shows "apply_writes (home_new lg V) D b =
    (if b \<in> lh_block lg ` set (entries lg) then V b else D b)"
proof (cases "b \<in> lh_block lg ` set (entries lg)")
  case True
  have "distinct (map fst (home_new lg V))" using assms by (simp add: home_new_def comp_def)
  moreover have "(b, V b) \<in> set (home_new lg V)" using True by (auto simp: home_new_def)
  ultimately show ?thesis using True by (simp add: apply_writes_in)
next
  case False
  then show ?thesis using apply_writes_notin [of b "home_new lg V"] unfolding fst_home_new by auto
qed

text \<open>Where the crash cuts the writes of a commit.\<close>

lemma take_commit_writes:
  fixes k :: nat
  obtains (log) "take k (commit_writes lg V) = take k (log_image lg V (entries lg))" "k \<le> nat (lh_n lg)"
  | (home) j where "take k (commit_writes lg V) = log_image lg V (entries lg) @
      [(lg_start lg, put_head lg (V (lg_start lg)))] @ take j (home_new lg V)" "nat (lh_n lg) < k"
  | (all) "take k (commit_writes lg V) = commit_writes lg V" "nat (lh_n lg) < k"
proof -
  let ?N = "nat (lh_n lg)"
  have len: "length (log_image lg V (entries lg)) = ?N" "length (home_new lg V) = ?N"
    by (simp_all add: log_image_def home_new_def)
  consider "k \<le> ?N" | "?N < k" "k \<le> ?N + 1 + ?N" | "?N + 1 + ?N < k" by linarith
  then show thesis
  proof cases
    case 1
    then show thesis using len by (intro log) (simp_all add: commit_writes_def Let_def)
  next
    case 2
    then have "k - ?N = Suc (k - ?N - 1)" by simp
    then show thesis using 2 len
      by (intro home [of "k - ?N - 1"]) (auto simp: commit_writes_def Let_def take_Suc_conv_app_nth)
  next
    case 3
    then show thesis using len by (intro all) (simp_all add: commit_writes_def Let_def)
  qed
qed

definition recovers :: "(log \<times> bcache) res \<Rightarrow> (uint \<Rightarrow> block) \<Rightarrow> uint set \<Rightarrow> bool" where
  "recovers r D A \<longleftrightarrow> (\<exists>lg s. r = Ok (lg, s) \<and> lh_n lg = 0 \<and> (\<forall>b. b \<notin> A \<longrightarrow> memdisk s b = D b))"

text \<open>The three kinds of crash. The first: the header still says that the log is empty.\<close>

lemma crash_in_log:
  assumes "commit_ready lg a" "disk_layout lg D (ac_size a)" "get32 (D (lg_start lg)) 0 = 0"
  shows "recovers (reboot (apply_writes (take k (log_image lg V (entries lg))) D) (ac_size a) pid) D
    (log_area lg)"
proof -
  let ?D = "apply_writes (take k (log_image lg V (entries lg))) D"
  note c = assms(1) [unfolded commit_ready_def] and l = assms(2) [unfolded disk_layout_def]
  have same: "?D b = D b" if "b \<notin> fst ` set (log_image lg V (entries lg))" for b
    using apply_writes_notin [OF take_notin [OF that]] .
  have S: "?D (lg_start lg) = D (lg_start lg)"
    using c log_blocks_not_start(2) by (intro same) blast
  have "\<exists>lg' s' h. reboot ?D (ac_size a) pid = Ok (lg', s') \<and> lh_n lg' = 0 \<and>
      memdisk s' = ?D(lg_start lg := h)"
    using l c S same [of 1] fst_log_area [of 1] assms(3) by (intro reboot_empty) auto
  then obtain lg' s' h where "reboot ?D (ac_size a) pid = Ok (lg', s')" "lh_n lg' = 0"
    "memdisk s' = ?D(lg_start lg := h)" by blast
  moreover have "(?D(lg_start lg := h)) b = D b" if "b \<notin> log_area lg" for b
    using that same [OF fst_log_area [OF that]] by (auto simp: log_area_def)
  ultimately show ?thesis by (auto simp: recovers_def)
qed

text \<open>The second: the header is written, and some home blocks are installed.\<close>

lemma crash_in_home:
  assumes "commit_ready lg a" "disk_layout lg D (ac_size a)"
  shows "recovers (reboot (apply_writes (log_image lg V (entries lg) @
      [(lg_start lg, put_head lg d)] @ take j (home_new lg V)) D) (ac_size a) pid)
    (apply_writes (home_new lg V) D) (log_area lg)"
proof -
  let ?D1 = "(apply_writes (log_image lg V (entries lg)) D)(lg_start lg := put_head lg d)"
  let ?D = "apply_writes (take j (home_new lg V)) ?D1"
  note c = assms(1) [unfolded commit_ready_def] and l = assms(2) [unfolded disk_layout_def]
  have same: "?D b = ?D1 b" if "b \<notin> fst ` set (home_new lg V)" for b
    using apply_writes_notin [OF take_notin [OF that]] .
  have S: "?D (lg_start lg) = put_head lg d"
    using same [OF commit_ready_disjoint(2) [OF assms(1)]] by simp
  have L: "?D (log_block lg i) = V (lh_block lg i)" if "i \<in> set (entries lg)" for i
    using same [OF commit_ready_disjoint(3) [OF assms(1) that]] log_image_get [OF _ that]
      log_blocks_not_start(1) [OF _ that] c by simp
  have "?D 1 = D 1"
    using same [of 1] l apply_writes_notin [OF fst_log_area, of 1 lg V D] by (auto simp: fst_home_new log_area_def)
  then have "\<exists>lg' s' h. reboot ?D (ac_size a) pid = Ok (lg', s') \<and> lh_n lg' = 0 \<and>
      memdisk s' = (apply_writes (home_new lg V) ?D)(lg_start lg := h)"
    using l c S L by (intro reboot_committed [where d = d]) (auto simp: log_ready_def)
  then obtain lg' s' h where "reboot ?D (ac_size a) pid = Ok (lg', s')" "lh_n lg' = 0"
    "memdisk s' = (apply_writes (home_new lg V) ?D)(lg_start lg := h)" by blast
  moreover have "((apply_writes (home_new lg V) ?D)(lg_start lg := h)) b = apply_writes (home_new lg V) D b"
    if "b \<notin> log_area lg" for b
    using that same [of b] c apply_writes_notin [OF fst_log_area [OF that]]
    by (auto simp: home_new_get log_area_def fst_home_new)
  ultimately show ?thesis by (auto simp: recovers_def)
qed

text \<open>The third: the commit is complete.\<close>

lemma crash_after:
  assumes "commit_ready lg a" "disk_layout lg D (ac_size a)"
  shows "recovers (reboot (apply_writes (commit_writes lg V) D) (ac_size a) pid)
    (apply_writes (home_new lg V) D) (log_area lg)"
proof -
  define h where "h = put_head lg (V (lg_start lg))"
  define D' where "D' = apply_writes (commit_writes lg V) D"
  note c = assms(1) [unfolded commit_ready_def] and l = assms(2) [unfolded disk_layout_def]
  have D': "D' = (apply_writes (home_new lg V) ((apply_writes (log_image lg V (entries lg)) D)
      (lg_start lg := h)))(lg_start lg := put_head (lg\<lparr>lh_n := 0\<rparr>) h)"
    by (simp add: D'_def commit_writes_def Let_def h_def)
  have same: "D' b = apply_writes (home_new lg V) D b" if "b \<notin> log_area lg" for b
    unfolding D' using that c apply_writes_notin [OF fst_log_area [OF that]]
    by (auto simp: home_new_get log_area_def)
  have "D' 1 = D 1" using same [of 1] l c by (simp add: home_new_get)
  moreover have "sint (get32 (D' (lg_start lg)) 0) = 0"
    using head_roundtrip(1) [of "lg\<lparr>lh_n := 0\<rparr>"] by (simp add: D')
  ultimately obtain lg' s' h' where "reboot D' (ac_size a) pid = Ok (lg', s')" "lh_n lg' = 0"
    "memdisk s' = D'(lg_start lg := h')"
    using reboot_empty [of "ac_size a" D' "lg_start lg" pid] l c by auto
  moreover have "(D'(lg_start lg := h')) b = apply_writes (home_new lg V) D b" if "b \<notin> log_area lg" for b
    using that same [OF that] by (auto simp: log_area_def)
  ultimately show ?thesis unfolding recovers_def D'_def [symmetric] by auto
qed

section \<open>Recording blocks\<close>

definition logged :: "log \<Rightarrow> uint set" where
  "logged lg = lh_block lg ` set (entries lg)"

text \<open>The header lists every pinned block once.\<close>

definition log_inv :: "log \<Rightarrow> acache \<Rightarrow> bool" where
  "log_inv lg a \<longleftrightarrow> 0 \<le> lh_n lg \<and> lh_n lg \<le> LOGSIZE \<and> distinct (map (lh_block lg) (entries lg)) \<and>
     (\<forall>n. ac_dirty a n \<longleftrightarrow> n \<in> logged lg)"

lemma log_index_cases:
  obtains (old) "blockno \<in> logged lg" "log_index lg blockno < nat (lh_n lg)"
      "lh_block lg (log_index lg blockno) = blockno"
  | (new) "blockno \<notin> logged lg" "log_index lg blockno = nat (lh_n lg)"
proof (cases "find (\<lambda>i. lh_block lg i = blockno) (entries lg)")
  case None
  then have "log_index lg blockno = nat (lh_n lg)" by (simp add: log_index_def)
  moreover have "blockno \<notin> logged lg" using None by (auto simp: logged_def find_upt_None)
  ultimately show ?thesis using new by blast
next
  case (Some i)
  then show ?thesis using old find_upt [OF Some] by (auto simp: log_index_def logged_def)
qed

definition can_log :: "log \<Rightarrow> bool" where
  "can_log lg \<longleftrightarrow> lh_n lg < LOGSIZE \<and> lh_n lg < lg_size lg - 1 \<and> 1 \<le> lg_outstanding lg"

lemma log_add_spec:
  assumes "0 \<le> lh_n lg" "distinct (map (lh_block lg) (entries lg))" "can_log lg"
  shows "\<exists>lg'. log_add lg n = Ok lg' \<and> distinct (map (lh_block lg') (entries lg')) \<and>
    logged lg' = insert n (logged lg) \<and> lh_n lg' = lh_n lg + (if n \<in> logged lg then 0 else 1) \<and>
    lg' = lg\<lparr>lh_n := lh_n lg', lh_block := lh_block lg'\<rparr>"
proof (cases rule: log_index_cases [of n lg])
  case old
  then have "(lh_block lg)(log_index lg n := n) = lh_block lg" by (simp add: fun_upd_idem)
  moreover have "int (log_index lg n) \<noteq> lh_n lg" using old(2) assms(1) by linarith
  ultimately have "log_add lg n = Ok lg" using assms(3) by (simp add: log_add_def can_log_def Let_def)
  then show ?thesis using old(1) assms(2) by (simp add: insert_absorb)
next
  case new
  let ?lg = "lg\<lparr>lh_block := (lh_block lg)(nat (lh_n lg) := n), lh_n := lh_n lg + 1\<rparr>"
  have "log_add lg n = Ok ?lg" using assms new(2) by (simp add: log_add_def can_log_def Let_def)
  moreover have e: "nat (lh_n lg + 1) = Suc (nat (lh_n lg))" using assms(1) by simp
  have m: "map (lh_block ?lg) (entries ?lg) = map (lh_block lg) (entries lg) @ [n]"
    using assms(1) by (simp add: e)
  have "logged ?lg = insert n (logged lg)" unfolding logged_def image_set m by simp
  moreover have "distinct (map (lh_block ?lg) (entries ?lg))"
    unfolding m using assms(2) new(1) by (auto simp: logged_def)
  ultimately show ?thesis using new(1) by (intro exI [of _ ?lg]) simp
qed

lemma log_write_spec:
  assumes "bio_inv s" "held s b n" "log_inv lg (abs_cache s)" "can_log lg"
  shows "\<exists>lg' s'. log_write lg s b = Ok (lg', s') \<and> bio_inv s' \<and> held s' b n \<and>
    log_inv lg' (abs_cache s') \<and> logged lg' = insert n (logged lg) \<and>
    lh_n lg' = lh_n lg + (if n \<in> logged lg then 0 else 1) \<and>
    abs_cache s' = (abs_cache s)\<lparr>ac_dirty := (ac_dirty (abs_cache s))(n := True)\<rparr>"
proof -
  note sd = set_dirty_spec [OF assms(1,2)]
  have bn: "b_blockno (bufs s b) = n" using held_facts [OF assms(1,2)] by simp
  obtain lg' where lg': "log_add lg n = Ok lg'" "distinct (map (lh_block lg') (entries lg'))"
    "logged lg' = insert n (logged lg)" "lh_n lg' = lh_n lg + (if n \<in> logged lg then 0 else 1)"
    using log_add_spec assms(3,4) unfolding log_inv_def by blast
  then have "log_inv lg' (abs_cache (set_dirty s b))"
    using assms(3,4) sd(3) by (auto simp: log_inv_def can_log_def)
  then show ?thesis using lg' sd assms(2) bn by (simp add: log_write_def)
qed

text \<open>C27: \<^verbatim>\<open>log_write\<close> on a locked buffer, while there is room, adds its block to the header unless the
  header has it already, and pins exactly the blocks of the header.\<close>

theorem log_write_records:
  assumes "bio_inv s" "held s b n" "log_inv lg (abs_cache s)" "can_log lg"
  shows "\<exists>lg' s'. log_write lg s b = Ok (lg', s') \<and> bio_inv s' \<and> held s' b n \<and>
    log_inv lg' (abs_cache s') \<and> logged lg' = insert n (logged lg) \<and>
    lh_n lg' = lh_n lg + (if n \<in> logged lg then 0 else 1) \<and>
    abs_cache s' = (abs_cache s)\<lparr>ac_dirty := (ac_dirty (abs_cache s))(n := True)\<rparr>"
  using assms by (rule log_write_spec)

section \<open>Atomicity of commits\<close>

text \<open>C1: a transaction is atomic under crashes. The commit returns, having made a sequence of disk
  writes with a commit point: booting from the disk that a crash before that point leaves recovers
  the old contents of every block outside the log, and after it the contents with all blocks of the
  transaction updated.\<close>

theorem commit_crash_safe:
  assumes "bio_inv s" "commit_ready lg (abs_cache s)" "disk_layout lg (memdisk s) (disksize s)"
    and "get32 (memdisk s (lg_start lg)) 0 = 0"
  shows "\<exists>s' ws m. commit lg s = Ok (lg\<lparr>lh_n := 0\<rparr>, s') \<and> written s' = written s @ ws \<and>
    memdisk s' = apply_writes ws (memdisk s) \<and> m \<le> length ws \<and>
    (\<forall>k. recovers (reboot (apply_writes (take k ws) (memdisk s)) (disksize s) pid)
       (if k < m then memdisk s else new_disk lg s) (log_area lg))"
proof -
  let ?V = "ac_view (abs_cache s)"
  define ws where "ws = (if 0 < lh_n lg then commit_writes lg ?V else [])"
  have sz: "disksize s = ac_size (abs_cache s)" by (simp add: abs_cache_def)
  note crash = assms(2) assms(3) [unfolded sz]
  obtain s' where s': "commit lg s = Ok (lg\<lparr>lh_n := 0\<rparr>, s')" "abs_cache s' = store_all ws (abs_cache s)"
    using commit_spec [OF assms(1,2)] by (auto simp: ws_def)
  then have "ac_written (abs_cache s') = written s @ ws" "ac_disk (abs_cache s') = apply_writes ws (memdisk s)"
    by (simp_all add: abs_cache_def [of s])
  then have w: "written s' = written s @ ws" "memdisk s' = apply_writes ws (memdisk s)"
    by (simp_all add: abs_cache_def)
  define m where "m = (if 0 < lh_n lg then Suc (nat (lh_n lg)) else 0)"
  have "m \<le> length ws" by (simp add: ws_def m_def commit_writes_def log_image_def Let_def)
  moreover have "recovers (reboot (apply_writes (take k ws) (memdisk s)) (disksize s) pid)
       (if k < m then memdisk s else new_disk lg s) (log_area lg)" for k
  proof (cases "0 < lh_n lg")
    case False
    then have "new_disk lg s = memdisk s" "ws = log_image lg ?V (entries lg)"
      by (simp_all add: new_disk_def home_new_def ws_def)
    then show ?thesis using crash_in_log [OF crash assms(4)] by (simp add: sz)
  next
    case True
    show ?thesis
    proof (cases rule: take_commit_writes [of k lg ?V])
      case log
      then show ?thesis using crash_in_log [OF crash assms(4)] True by (simp add: ws_def m_def sz)
    next
      case (home j)
      then show ?thesis
        using crash_in_home [OF crash] True by (simp add: ws_def m_def sz new_disk_def del: apply_writes_simps)
    next
      case all
      then show ?thesis using crash_after [OF crash] True by (simp add: ws_def m_def sz new_disk_def)
    qed
  qed
  ultimately show ?thesis using s'(1) w by blast
qed

section \<open>A transaction on a concrete disk\<close>

text \<open>A disk of 1000 blocks whose superblock puts a log of 30 blocks at block 2, and the log of a
  running system call on it.\<close>

definition sample_disk :: "uint \<Rightarrow> block" where
  "sample_disk = (\<lambda>_ _. 0)(1 := put32 (put32 (\<lambda>_. 0) 12 30) 16 2)"

definition sample_log :: log where
  "sample_log = zero_log\<lparr>lg_start := 2, lg_size := 30, lg_dev := 1, lg_outstanding := 1\<rparr>"

lemma sample_log_sel:
  "lh_n sample_log = 0" "lg_start sample_log = 2" "lg_size sample_log = 30" "lg_dev sample_log = 1"
  "lg_outstanding sample_log = 1" "logged sample_log = {}"
  by (simp_all add: sample_log_def zero_log_def logged_def)

lemma sample_log_inv: "can_log sample_log" "log_inv sample_log (abs_cache (boot_cache sample_disk 1000 1))"
  by (simp_all add: can_log_def log_inv_def sample_log_sel boot_cache_abs)

lemma sample_bread: "\<exists>b s. bread (boot_cache sample_disk 1000 1) 1 50 = Ok (b, s) \<and> bio_inv s \<and>
    held s b 50 \<and> abs_cache s = ac_lock (abs_cache (boot_cache sample_disk 1000 1)) 50"
  using bread_spec [OF boot_cache_inv [of sample_disk 1000 1], of 50] by (auto simp: boot_cache_abs)

theorem log_write_records_witness:
  "\<exists>b s lg' s'. bread (boot_cache sample_disk 1000 1) ROOTDEV 50 = Ok (b, s) \<and>
     log_write sample_log s b = Ok (lg', s') \<and> logged lg' = {50} \<and> ac_dirty (abs_cache s') 50"
proof -
  obtain b s where s: "bread (boot_cache sample_disk 1000 1) 1 50 = Ok (b, s)" "bio_inv s" "held s b 50"
    "abs_cache s = ac_lock (abs_cache (boot_cache sample_disk 1000 1)) 50" using sample_bread by blast
  have "log_inv sample_log (abs_cache s)" using sample_log_inv(2) s(4) by (simp add: log_inv_def ac_lock_def)
  from log_write_records [OF s(2,3) this sample_log_inv(1)] show ?thesis
    using s(1) by (auto simp: sample_log_sel)
qed

text \<open>The state in which a one-block transaction commits.\<close>

lemma sample_commit_state: "\<exists>s. bio_inv s \<and> memdisk s = sample_disk \<and> disksize s = 1000 \<and>
    ac_view (abs_cache s) = sample_disk(50 := \<lambda>_. 7) \<and> ac_dirty (abs_cache s) = (\<lambda>n. n = 50) \<and>
    (\<forall>n. ac_holder (abs_cache s) n = None) \<and> 0 < ac_free (abs_cache s)"
proof -
  obtain b s where s: "bio_inv s" "held s b 50"
    "abs_cache s = ac_lock (abs_cache (boot_cache sample_disk 1000 1)) 50" using sample_bread by blast
  let ?t = "set_data s b (\<lambda>_ _. 7)"
  note d = set_data_spec [OF s(1,2), of "\<lambda>_ _. 7"]
  have t: "bio_inv ?t" "held ?t b 50" using d s(2) by simp_all
  note e = set_dirty_spec [OF t]
  have u: "bio_inv (set_dirty ?t b)" "held (set_dirty ?t b) b 50" using e t by simp_all
  obtain s' where "bio_inv s'" "abs_cache s' = ac_unlock (abs_cache (set_dirty ?t b)) 50"
    using brelse_spec [OF u] e(3) by auto
  moreover have "memdisk s' = ac_disk (abs_cache s')" "disksize s' = ac_size (abs_cache s')"
    by (simp_all add: abs_cache_def)
  ultimately show ?thesis
    using d(3) e(3) s(3) by (intro exI [of _ s']) (auto simp: ac_defs boot_cache_abs fun_eq_iff)
qed

definition sample_tx :: log where
  "sample_tx = sample_log\<lparr>lh_n := 1, lh_block := (\<lambda>_. 50)\<rparr>"

theorem commit_crash_safe_witness:
  "\<exists>s s' ws m. memdisk s = sample_disk \<and> commit sample_tx s = Ok (sample_tx\<lparr>lh_n := 0\<rparr>, s') \<and>
     m \<le> length ws \<and> memdisk s' = apply_writes ws sample_disk \<and>
     recovers (reboot (apply_writes (take m ws) sample_disk) 1000 1) (sample_disk(50 := \<lambda>_. 7)) {2, 3}"
proof -
  obtain s where s: "bio_inv s" "memdisk s = sample_disk" "disksize s = 1000"
    "ac_view (abs_cache s) = sample_disk(50 := \<lambda>_. 7)" "ac_dirty (abs_cache s) = (\<lambda>n. n = 50)"
    "\<forall>n. ac_holder (abs_cache s) n = None" "0 < ac_free (abs_cache s)"
    using sample_commit_state by blast
  have sz: "ac_size (abs_cache s) = 1000" using s(3) by (simp add: abs_cache_def)
  have tx: "lh_n sample_tx = 1" "lg_start sample_tx = 2" "lg_dev sample_tx = 1"
    "lh_block sample_tx i = 50" "log_block sample_tx 0 = 3" for i
    by (simp_all add: sample_tx_def sample_log_sel log_block_def)
  have c: "commit_ready sample_tx (abs_cache s)"
    using s sz by (simp add: commit_ready_def log_ready_def tx)
  have a: "log_area sample_tx = {2, 3}" by (auto simp: log_area_def tx)
  have l: "disk_layout sample_tx (memdisk s) (disksize s)"
    using s(2,3) a by (simp add: disk_layout_def tx sample_disk_def get_super_def block_simps)
  have "get32 (memdisk s (lg_start sample_tx)) 0 = 0" using s(2) by (simp add: tx sample_disk_def get32_def)
  from commit_crash_safe [OF s(1) c l this, of 1, unfolded s(2,3) a] obtain s' ws m where w:
    "commit sample_tx s = Ok (sample_tx\<lparr>lh_n := 0\<rparr>, s')" "memdisk s' = apply_writes ws sample_disk"
    "m \<le> length ws" "recovers (reboot (apply_writes (take m ws) sample_disk) 1000 1)
       (if m < m then sample_disk else new_disk sample_tx s) {2, 3}"
    by blast
  moreover have "new_disk sample_tx s = sample_disk(50 := \<lambda>_. 7)"
    using s(2,4) by (simp add: new_disk_def home_new_def tx)
  ultimately show ?thesis using s(2) by auto
qed

section \<open>Reserving log space\<close>

text \<open>
  File system calls running concurrently, each between its \<^verbatim>\<open>begin_op\<close> and \<^verbatim>\<open>end_op\<close>; \<open>ops\<close> has for
  each of them the number of \<^verbatim>\<open>log_write\<close> calls it made, which the callers keep to
  \<^verbatim>\<open>MAXOPBLOCKS\<close>. A commit runs while no call is outstanding and ends with an empty header.
\<close>

record op_sys =
  olog :: log
  ops :: "nat list"

inductive op_step :: "op_sys \<Rightarrow> op_sys \<Rightarrow> bool" where
  op_begin: "begin_op (olog s) = Ok lg \<Longrightarrow> op_step s \<lparr>olog = lg, ops = 0 # ops s\<rparr>"
| op_write: "j < length (ops s) \<Longrightarrow> ops s ! j < 10 \<Longrightarrow> log_add (olog s) n = Ok lg \<Longrightarrow>
    op_step s \<lparr>olog = lg, ops = (ops s)[j := Suc (ops s ! j)]\<rparr>"
| op_end: "j < length (ops s) \<Longrightarrow> end_op_enter (olog s) = Ok (do_commit, lg) \<Longrightarrow>
    op_step s \<lparr>olog = lg, ops = take j (ops s) @ drop (Suc j) (ops s)\<rparr>"
| op_commit: "lg_committing (olog s) \<Longrightarrow>
    op_step s (s\<lparr>olog := (olog s)\<lparr>lh_n := 0, lg_committing := False\<rparr>\<rparr>)"

inductive op_reach :: "log \<Rightarrow> op_sys \<Rightarrow> bool" for lg where
  op_start: "op_reach lg \<lparr>olog = lg, ops = []\<rparr>"
| op_more: "op_reach lg s \<Longrightarrow> op_step s s' \<Longrightarrow> op_reach lg s'"

definition reserved :: "nat list \<Rightarrow> nat" where
  "reserved cs = sum_list (map (\<lambda>c. 10 - c) cs)"

lemma reserved_update:
  assumes "j < length cs" "cs ! j < 10"
  shows "Suc (reserved (cs[j := Suc (cs ! j)])) = reserved cs"
proof -
  have "cs = take j cs @ cs ! j # drop (Suc j) cs" using assms(1) by (rule id_take_nth_drop)
  then have "reserved cs = reserved (take j cs) + (10 - cs ! j) + reserved (drop (Suc j) cs)"
    by (metis (no_types, lifting) reserved_def map_append sum_list_append list.simps(9) sum_list.Cons add.assoc)
  moreover have "reserved (cs[j := Suc (cs ! j)]) =
      reserved (take j cs) + (10 - Suc (cs ! j)) + reserved (drop (Suc j) cs)"
    using assms(1) by (simp add: reserved_def upd_conv_take_nth_drop)
  ultimately show ?thesis using assms(2) by simp
qed

lemma reserved_remove: "j < length cs \<Longrightarrow> reserved (take j cs @ drop (Suc j) cs) \<le> reserved cs"
  by (subst (3) id_take_nth_drop [of j cs]) (simp_all add: reserved_def)

lemma reserved_pos: "j < length cs \<Longrightarrow> cs ! j < 10 \<Longrightarrow> 0 < reserved cs"
  using reserved_update [of j cs] by simp

lemma reserved_bound: "reserved cs \<le> 10 * length cs"
  by (induction cs) (auto simp: reserved_def)

definition op_inv :: "log \<Rightarrow> op_sys \<Rightarrow> bool" where
  "op_inv lg s \<longleftrightarrow> lg_outstanding (olog s) = int (length (ops s)) \<and> lg_size (olog s) = lg_size lg \<and>
     (lg_committing (olog s) \<longrightarrow> ops s = []) \<and> 0 \<le> lh_n (olog s) \<and>
     distinct (map (lh_block (olog s)) (entries (olog s))) \<and>
     lh_n (olog s) + int (reserved (ops s)) \<le> LOGSIZE"

lemma op_inv_write:
  assumes "op_inv lg s" "j < length (ops s)" "ops s ! j < 10" "log_add (olog s) n = Ok lg'"
  shows "op_inv lg \<lparr>olog = lg', ops = (ops s)[j := Suc (ops s ! j)]\<rparr>"
proof -
  have "can_log (olog s)" using assms(4) by (auto simp: log_add_def can_log_def split: if_splits)
  then obtain lg1 where lg1: "log_add (olog s) n = Ok lg1" "distinct (map (lh_block lg1) (entries lg1))"
    "lh_n lg1 = lh_n (olog s) + (if n \<in> logged (olog s) then 0 else 1)"
    "lg1 = (olog s)\<lparr>lh_n := lh_n lg1, lh_block := lh_block lg1\<rparr>"
    using log_add_spec assms(1) unfolding op_inv_def by blast
  have "lg1 = lg'" using lg1(1) assms(4) by simp
  moreover have "lg_outstanding lg1 = lg_outstanding (olog s)" "lg_size lg1 = lg_size (olog s)"
    "lg_committing lg1 = lg_committing (olog s)" by (subst lg1(4), simp)+
  ultimately show ?thesis
    using lg1(2,3) assms(1) reserved_update [OF assms(2,3)] by (auto simp: op_inv_def)
qed

lemma op_inv_step: "op_step s s' \<Longrightarrow> op_inv lg s \<Longrightarrow> op_inv lg s'"
proof (induction rule: op_step.induct)
  case (op_begin s lg')
  have "reserved (0 # ops s) \<le> 10 * Suc (length (ops s))" using reserved_bound [of "0 # ops s"] by simp
  then show ?case using op_begin by (auto simp: begin_op_def op_inv_def split: if_splits)
next
  case (op_write j s n lg')
  then show ?case by (intro op_inv_write) auto
next
  case (op_end j s do_commit lg')
  let ?os = "take j (ops s) @ drop (Suc j) (ops s)"
  have "int (reserved ?os) \<le> int (reserved (ops s))" using reserved_remove [OF op_end(1)] by simp
  moreover have "int (length ?os) = int (length (ops s)) - 1" using op_end(1) by simp
  ultimately show ?case using op_end
    by (auto simp: end_op_enter_def op_inv_def Let_def split: if_splits)
next
  case (op_commit s)
  then show ?case by (auto simp: op_inv_def reserved_def)
qed

lemma op_reach_inv:
  "op_reach lg s \<Longrightarrow> lg_outstanding lg = 0 \<Longrightarrow> \<not> lg_committing lg \<Longrightarrow> lh_n lg = 0 \<Longrightarrow> op_inv lg s"
proof (induction rule: op_reach.induct)
  case op_start
  then show ?case by (simp add: op_inv_def reserved_def)
qed (simp add: op_inv_step)

text \<open>C28: with a log area of more than \<^verbatim>\<open>LOGSIZE\<close> blocks the reservation of \<^verbatim>\<open>begin_op\<close> is enough: in
  every interleaving of calls that log at most \<^verbatim>\<open>MAXOPBLOCKS\<close> blocks each, no \<^verbatim>\<open>log_write\<close> and no
  \<^verbatim>\<open>end_op\<close> panics.\<close>

theorem log_space_reserved:
  assumes "op_reach lg s" "lg_outstanding lg = 0" "\<not> lg_committing lg" "lh_n lg = 0"
    and "LOGSIZE < lg_size lg" "j < length (ops s)"
  shows "(\<exists>r. end_op_enter (olog s) = Ok r) \<and>
    (ops s ! j < 10 \<longrightarrow> (\<exists>lg'. log_add (olog s) n = Ok lg'))"
proof -
  have i: "op_inv lg s" using op_reach_inv assms(1-4) by blast
  then have "\<not> lg_committing (olog s)" using assms(6) by (auto simp: op_inv_def)
  then have "\<exists>r. end_op_enter (olog s) = Ok r" by (auto simp: end_op_enter_def Let_def)
  moreover have "can_log (olog s)" if "ops s ! j < 10"
    using i reserved_pos [OF assms(6) that] assms(5,6) by (auto simp: op_inv_def can_log_def)
  then have "ops s ! j < 10 \<longrightarrow> (\<exists>lg'. log_add (olog s) n = Ok lg')"
    using log_add_spec [of "olog s" n] i unfolding op_inv_def by blast
  ultimately show ?thesis by blast
qed

text \<open>The header after \<open>k\<close> blocks from 100 on were logged by three calls, in a log area of \<open>sz\<close> blocks.\<close>

definition three_calls :: "int \<Rightarrow> nat \<Rightarrow> log" where
  "three_calls sz k = zero_log\<lparr>lg_size := sz, lg_outstanding := 3, lh_n := int k,
     lh_block := \<lambda>i. if i < k then of_nat (100 + i) else 0\<rparr>"

lemma three_calls_add:
  assumes "k < 29" "29 < sz"
  shows "log_add (three_calls sz k) (of_nat (100 + k)) = Ok (three_calls sz (Suc k))"
proof -
  let ?lg = "three_calls sz k"
  have "(of_nat (100 + i) :: uint) \<noteq> of_nat (100 + k)" if "i < k" for i
    using that assms(1) of_nat_uint_inj [of "100 + i" "100 + k"] by auto
  then have "find (\<lambda>i. lh_block ?lg i = of_nat (100 + k)) [0..<k] = None"
    by (auto simp: find_upt_None three_calls_def)
  moreover have "lh_n ?lg = int k" by (simp add: three_calls_def)
  ultimately have "log_index ?lg (of_nat (100 + k)) = k" by (simp add: log_index_def)
  then show ?thesis using assms
    by (auto simp: log_add_def three_calls_def Let_def fun_eq_iff zero_log_def)
qed

lemma three_calls_start: "op_reach (zero_log\<lparr>lg_size := sz\<rparr>) \<lparr>olog = three_calls sz 0, ops = [0, 0, 0]\<rparr>"
proof -
  let ?l = "\<lambda>k. zero_log\<lparr>lg_size := sz, lg_outstanding := k\<rparr>"
  have 0: "op_reach (zero_log\<lparr>lg_size := sz\<rparr>) \<lparr>olog = ?l 0, ops = []\<rparr>"
    using op_start [of "zero_log\<lparr>lg_size := sz\<rparr>"] by (simp add: zero_log_def)
  have step: "op_step \<lparr>olog = ?l k, ops = os\<rparr> \<lparr>olog = ?l (k + 1), ops = 0 # os\<rparr>" if "k \<le> 2" for k os
    using that op_begin [of "\<lparr>olog = ?l k, ops = os\<rparr>" "?l (k + 1)"] by (simp add: begin_op_def zero_log_def)
  have 1: "op_reach (zero_log\<lparr>lg_size := sz\<rparr>) \<lparr>olog = ?l 1, ops = [0]\<rparr>"
    using op_more [OF 0 step] by simp
  have 2: "op_reach (zero_log\<lparr>lg_size := sz\<rparr>) \<lparr>olog = ?l 2, ops = [0, 0]\<rparr>"
    using op_more [OF 1 step] by simp
  have "?l 3 = three_calls sz 0" by (simp add: three_calls_def zero_log_def)
  then show ?thesis using op_more [OF 2 step] by simp
qed

text \<open>The three calls take turns of ten blocks.\<close>

lemma three_calls_write:
  assumes "29 < sz" "j < 3" "length os = 3" "os ! j = 0" "k + m \<le> 29" "m \<le> 10"
    "op_reach lg \<lparr>olog = three_calls sz k, ops = os\<rparr>"
  shows "op_reach lg \<lparr>olog = three_calls sz (k + m), ops = os[j := m]\<rparr>"
  using assms(5,6)
proof (induction m)
  case 0
  have "os[j := 0] = os" using assms(4) by (metis list_update_id)
  then show ?case using assms(7) by simp
next
  case (Suc m)
  have "op_step \<lparr>olog = three_calls sz (k + m), ops = os[j := m]\<rparr>
      \<lparr>olog = three_calls sz (k + Suc m), ops = os[j := Suc m]\<rparr>"
    using op_write [of j "\<lparr>olog = three_calls sz (k + m), ops = os[j := m]\<rparr>" "of_nat (100 + (k + m))"
        "three_calls sz (k + Suc m)"] Suc assms(1-3) three_calls_add [of "k + m" sz]
    by simp
  then show ?case using Suc op_more by fastforce
qed

text \<open>C37: the area \<^verbatim>\<open>mkfs\<close> makes, \<^verbatim>\<open>LOGSIZE\<close> blocks with the header among them, is one block too small:
  three calls admitted together can log ten blocks each, and the last of the thirty \<^verbatim>\<open>log_write\<close>
  calls panics.\<close>

theorem log_space_short:
  "\<exists>s. op_reach (zero_log\<lparr>lg_size := LOGSIZE\<rparr>) s \<and> ops s = [10, 10, 9] \<and>
     log_add (olog s) n = Panic ''too big a transaction''"
proof -
  let ?r = "op_reach (zero_log\<lparr>lg_size := LOGSIZE\<rparr>)"
  have "?r \<lparr>olog = three_calls 30 10, ops = [10, 0, 0]\<rparr>"
    using three_calls_write [OF _ _ _ _ _ _ three_calls_start, of 30 0 10] by simp
  then have "?r \<lparr>olog = three_calls 30 20, ops = [10, 10, 0]\<rparr>"
    using three_calls_write [of 30 1 "[10, 0, 0]" 10 10] by simp
  then have "?r \<lparr>olog = three_calls 30 29, ops = [10, 10, 9]\<rparr>"
    using three_calls_write [of 30 2 "[10, 10, 0]" 20 9] by simp
  moreover have "log_add (three_calls 30 29) n = Panic ''too big a transaction''"
    by (simp add: log_add_def three_calls_def)
  ultimately show ?thesis by (intro exI [of _ "\<lparr>olog = three_calls 30 29, ops = [10, 10, 9]\<rparr>"]) simp
qed

theorem log_space_reserved_witness:
  "(\<exists>r. end_op_enter (three_calls 31 0) = Ok r) \<and> (\<exists>lg'. log_add (three_calls 31 0) 7 = Ok lg')"
  using log_space_reserved [OF three_calls_start [of 31], of 0 7] by (simp add: zero_log_def)

end
