(* ===== verification/Txn.thy ===== *)
theory Txn
  imports Log Memlib
begin

text \<open>
  The state of the file system (\<^verbatim>\<open>fs.c\<close>) and the way its code uses the layers below: inside a
  transaction it reads blocks through the buffer cache and logs the blocks it changes. A routine works
  on the record \<open>fs\<close>: the log and the buffer cache, the superblock, and the table \<^verbatim>\<open>icache.inode\<close>. A
  pointer to an inode is its index in the table. The state \<open>fs_dev\<close> belongs to the devices.
\<close>

section \<open>State\<close>

record inode =
  i_dev :: uint
  i_inum :: uint
  i_ref :: int
  i_lock :: sleeplock
  i_valid :: bool
  i_type :: ushort
  i_major :: ushort
  i_minor :: ushort
  i_nlink :: ushort
  i_size :: uint
  i_addrs :: "nat \<Rightarrow> uint"

record 'd fs =
  fs_log :: log
  fs_bc :: bcache
  fs_sb :: superblock
  icache :: "nat \<Rightarrow> inode"
  fs_dev :: 'd

definition set_inode :: "'d fs \<Rightarrow> nat \<Rightarrow> (inode \<Rightarrow> inode) \<Rightarrow> 'd fs" where
  "set_inode s ip f = s\<lparr>icache := (icache s)(ip := f (icache s ip))\<rparr>"

abbreviation inode_of :: "'d fs \<Rightarrow> nat \<Rightarrow> inode" where
  "inode_of s ip \<equiv> icache s ip"

text \<open>The buffer cache and log routines on the larger state.\<close>

definition fs_bread :: "'d fs \<Rightarrow> uint \<Rightarrow> uint \<Rightarrow> (nat \<times> 'd fs) res" where
  "fs_bread s dev n = andthen (bread (fs_bc s) dev n) (\<lambda>(b, c). Ok (b, s\<lparr>fs_bc := c\<rparr>))"

definition fs_brelse :: "'d fs \<Rightarrow> nat \<Rightarrow> 'd fs res" where
  "fs_brelse s b = andthen (brelse (fs_bc s) b) (\<lambda>c. Ok (s\<lparr>fs_bc := c\<rparr>))"

definition fs_data :: "'d fs \<Rightarrow> nat \<Rightarrow> block" where
  "fs_data s b = b_data (bufs (fs_bc s) b)"

definition fs_set_data :: "'d fs \<Rightarrow> nat \<Rightarrow> (block \<Rightarrow> block) \<Rightarrow> 'd fs" where
  "fs_set_data s b f = s\<lparr>fs_bc := set_data (fs_bc s) b f\<rparr>"

definition fs_log_write :: "'d fs \<Rightarrow> nat \<Rightarrow> 'd fs res" where
  "fs_log_write s b = andthen (log_write (fs_log s) (fs_bc s) b) (\<lambda>(lg, c).
     Ok (s\<lparr>fs_log := lg, fs_bc := c\<rparr>))"

text \<open>The pattern of the file system code: change the data of a buffer, log it, release it.\<close>

definition fs_put :: "'d fs \<Rightarrow> nat \<Rightarrow> (block \<Rightarrow> block) \<Rightarrow> 'd fs res" where
  "fs_put s b f = andthen (fs_log_write (fs_set_data s b f) b) (\<lambda>s. fs_brelse s b)"

section \<open>Transactions\<close>

text \<open>The contents of the blocks as the transaction sees them, and the state above the blocks.\<close>

definition view :: "'d fs \<Rightarrow> uint \<Rightarrow> block" where
  "view s = ac_view (abs_cache (fs_bc s))"

definition rest :: "'d fs \<Rightarrow> superblock \<times> (nat \<Rightarrow> inode) \<times> 'd \<times> uint \<times> int" where
  "rest s = (fs_sb s, icache s, fs_dev s, disksize (fs_bc s), mypid (fs_bc s))"

text \<open>
  The process has the blocks \<open>H\<close> locked, every other block is unlocked, and \<open>k\<close> more blocks can be
  logged: there is room for them in the log and in the cache, and if there are any, a transaction is
  open.
\<close>

definition spare_bufs :: "acache \<Rightarrow> uint set \<Rightarrow> nat" where
  "spare_bufs a H = ac_free a + card {n \<in> H. \<not> ac_dirty a n}"

definition txn :: "nat \<Rightarrow> uint set \<Rightarrow> 'd fs \<Rightarrow> bool" where
  "txn k H s \<longleftrightarrow> bio_inv (fs_bc s) \<and> log_inv (fs_log s) (abs_cache (fs_bc s)) \<and>
     (0 < k \<longrightarrow> 1 \<le> lg_outstanding (fs_log s)) \<and> lh_n (fs_log s) + int k \<le> LOGSIZE \<and>
     lh_n (fs_log s) + int k \<le> lg_size (fs_log s) - 1 \<and> finite H \<and>
     (\<forall>n. ac_dirty (abs_cache (fs_bc s)) n \<or> ac_view (abs_cache (fs_bc s)) n = ac_disk (abs_cache (fs_bc s)) n) \<and>
     (\<forall>n. ac_holder (abs_cache (fs_bc s)) n = (if n \<in> H then Some (mypid (fs_bc s)) else None)) \<and>
     k + 2 \<le> spare_bufs (abs_cache (fs_bc s)) H"

text \<open>The buffer \<open>b\<close> is the one the process has locked the block \<open>n\<close> in.\<close>

definition fs_held :: "'d fs \<Rightarrow> nat \<Rightarrow> uint \<Rightarrow> bool" where
  "fs_held s b n \<longleftrightarrow> held (fs_bc s) b n"

lemma txn_mono: "txn k H s \<Longrightarrow> j \<le> k \<Longrightarrow> txn j H s"
  by (auto simp: txn_def)

lemma abs_cache_sel [simp]: "ac_size (abs_cache c) = disksize c" "ac_pid (abs_cache c) = mypid c"
  by (simp_all add: abs_cache_def)

lemma spare_bufs_lock:
  assumes "finite H" "n \<notin> H" "ac_dirty a n \<or> 0 < ac_free a"
  shows "spare_bufs (ac_lock a n) (insert n H) = spare_bufs a H"
proof -
  have "{m \<in> insert n H. \<not> ac_dirty a m} = (if ac_dirty a n then {} else {n}) \<union> {m \<in> H. \<not> ac_dirty a m}" by auto
  then show ?thesis using assms by (auto simp: spare_bufs_def ac_lock_def)
qed

lemma spare_bufs_unlock:
  assumes "finite H" "n \<in> H"
  shows "spare_bufs (ac_unlock a n) (H - {n}) = spare_bufs a H"
proof -
  have "{m \<in> H. \<not> ac_dirty a m} = (if ac_dirty a n then {} else {n}) \<union> {m \<in> H - {n}. \<not> ac_dirty a m}"
    using assms(2) by auto
  then show ?thesis using assms(1) by (auto simp: spare_bufs_def ac_unlock_def)
qed

lemma spare_bufs_dirty:
  assumes "finite H" "n \<in> H"
  shows "spare_bufs a H \<le> Suc (spare_bufs (a\<lparr>ac_view := v, ac_dirty := (ac_dirty a)(n := True)\<rparr>) H)"
proof -
  have "card {m \<in> H. \<not> ac_dirty a m} \<le> Suc (card {m \<in> H. \<not> ((ac_dirty a)(n := True)) m})"
  proof -
    have "{m \<in> H. \<not> ac_dirty a m} \<subseteq> insert n {m \<in> H. \<not> ((ac_dirty a)(n := True)) m}" by auto
    from card_mono [OF _ this] show ?thesis using assms(1) by (simp add: card_insert_if split: if_splits)
  qed
  then show ?thesis by (simp add: spare_bufs_def)
qed

lemma spare_bufs_free:
  assumes "finite H" "k + 2 \<le> spare_bufs a H" "card H \<le> 1"
  shows "0 < ac_free a"
proof -
  have "card {n \<in> H. \<not> ac_dirty a n} \<le> card H" using assms(1) by (intro card_mono) auto
  then show ?thesis using assms by (simp add: spare_bufs_def)
qed

lemma fs_bread_spec:
  assumes "txn k H s" "n \<notin> H" "card H \<le> 1" "n < disksize (fs_bc s)"
  shows "\<exists>b s'. fs_bread s 1 n = Ok (b, s') \<and> txn k (insert n H) s' \<and> fs_held s' b n \<and>
    (\<forall>c m. fs_held s c m \<longrightarrow> c \<noteq> b \<and> fs_held s' c m) \<and> fs_data s' b = view s n \<and>
    view s' = view s \<and> rest s' = rest s"
proof -
  let ?a = "abs_cache (fs_bc s)"
  have t: "bio_inv (fs_bc s)" "finite H" "k + 2 \<le> spare_bufs ?a H" "ac_holder ?a n = None"
    using assms(1,2) by (auto simp: txn_def)
  have f: "ac_dirty ?a n \<or> 0 < ac_free ?a" using spare_bufs_free [OF t(2,3) assms(3)] by simp
  obtain b c where b: "bread (fs_bc s) 1 n = Ok (b, c)" "bio_inv c" "held c b n"
    "\<And>d m. held (fs_bc s) d m \<Longrightarrow> d \<noteq> b \<and> held c d m" "abs_cache c = ac_lock ?a n"
    using bc.rd_law [OF t(1,4) _ f] assms(4) by auto
  have sz: "disksize c = disksize (fs_bc s)" "mypid c = mypid (fs_bc s)"
    using arg_cong [OF b(5), of ac_size] arg_cong [OF b(5), of ac_pid] by (simp_all add: ac_lock_def)
  have "txn k (insert n H) (s\<lparr>fs_bc := c\<rparr>)"
    using assms(1) b(2,5) spare_bufs_lock [OF t(2) assms(2) f] sz
    by (auto simp: txn_def ac_lock_def log_inv_def)
  moreover have "fs_data (s\<lparr>fs_bc := c\<rparr>) b = view s n"
    using bc.dat_law [OF b(2,3)] b(5) by (simp add: fs_data_def view_def ac_lock_def)
  ultimately show ?thesis
    using b sz by (auto simp: fs_bread_def fs_held_def view_def rest_def ac_lock_def)
qed

lemma fs_brelse_spec:
  assumes "txn k H s" "n \<in> H" "fs_held s b n"
  shows "\<exists>s'. fs_brelse s b = Ok s' \<and> txn k (H - {n}) s' \<and>
    (\<forall>c m. c \<noteq> b \<longrightarrow> fs_held s' c m = fs_held s c m) \<and> view s' = view s \<and> rest s' = rest s"
proof -
  let ?a = "abs_cache (fs_bc s)"
  have t: "bio_inv (fs_bc s)" "finite H" "ac_dirty ?a n \<or> ac_view ?a n = ac_disk ?a n"
    using assms(1) by (auto simp: txn_def)
  obtain c where c: "brelse (fs_bc s) b = Ok c" "bio_inv c"
    "\<And>d m. d \<noteq> b \<Longrightarrow> held c d m = held (fs_bc s) d m" "abs_cache c = ac_unlock ?a n"
    using bc.rel_law [OF t(1) _ t(3)] assms(3) unfolding fs_held_def by blast
  have sz: "disksize c = disksize (fs_bc s)" "mypid c = mypid (fs_bc s)"
    using arg_cong [OF c(4), of ac_size] arg_cong [OF c(4), of ac_pid] by (simp_all add: ac_unlock_def)
  have "txn k (H - {n}) (s\<lparr>fs_bc := c\<rparr>)"
    using assms(1) c(2,4) spare_bufs_unlock [OF t(2) assms(2), of ?a] sz
    by (auto simp: txn_def ac_unlock_def log_inv_def)
  then show ?thesis using c sz by (auto simp: fs_brelse_def fs_held_def view_def rest_def ac_unlock_def)
qed

lemma fs_log_spec:
  assumes "txn (Suc k) H s" "n \<in> H" "fs_held s b n"
  shows "\<exists>s'. fs_log_write (fs_set_data s b f) b = Ok s' \<and> txn k H s' \<and>
    (\<forall>c m. fs_held s' c m = fs_held s c m) \<and> view s' = (view s)(n := f (view s n)) \<and> rest s' = rest s"
proof -
  let ?a = "abs_cache (fs_bc s)" and ?c = "set_data (fs_bc s) b f"
  have t: "bio_inv (fs_bc s)" "finite H" "held (fs_bc s) b n" using assms by (auto simp: txn_def fs_held_def)
  note d = set_data_spec [OF t(1,3), of f]
  have "held ?c b n" "log_inv (fs_log s) (abs_cache ?c)" "can_log (fs_log s)"
    using d t(3) assms(1) by (auto simp: txn_def log_inv_def can_log_def)
  then obtain lg c where c: "log_write (fs_log s) ?c b = Ok (lg, c)" "bio_inv c" "log_inv lg (abs_cache c)"
    "lh_n lg = lh_n (fs_log s) + (if n \<in> logged (fs_log s) then 0 else 1)"
    "abs_cache c = (abs_cache ?c)\<lparr>ac_dirty := (ac_dirty (abs_cache ?c))(n := True)\<rparr>"
    using log_write_spec [OF d(1)] by blast
  have fr: "lg_size lg = lg_size (fs_log s)" "lg_outstanding lg = lg_outstanding (fs_log s)"
    "\<And>e m. held c e m = held (fs_bc s) e m"
    using c(1) d(2) set_dirty_spec(2) [OF d(1), of b n]  \<open>held ?c b n\<close>
    by (auto simp: log_write_def log_add_def Let_def res_simps split: if_splits)
  have a: "abs_cache c = ?a\<lparr>ac_view := (ac_view ?a)(n := f (ac_view ?a n)), ac_dirty := (ac_dirty ?a)(n := True)\<rparr>"
    using c(5) d(3) by simp
  have sz: "disksize c = disksize (fs_bc s)" "mypid c = mypid (fs_bc s)"
    using arg_cong [OF a, of ac_size] arg_cong [OF a, of ac_pid] by simp_all
  have "k + 2 \<le> spare_bufs (abs_cache c) H"
    using spare_bufs_dirty [OF t(2) assms(2), of ?a "(ac_view ?a)(n := f (ac_view ?a n))"] assms(1)
    unfolding a by (simp add: txn_def)
  then have "txn k H (s\<lparr>fs_log := lg, fs_bc := c\<rparr>)"
    using assms(1) c(2-4) a fr sz by (auto simp: txn_def)
  then show ?thesis using c(1) fr sz a
    by (auto simp: fs_log_write_def fs_set_data_def fs_held_def view_def rest_def)
qed

lemma fs_put_spec:
  assumes "txn (Suc k) H s" "n \<in> H" "fs_held s b n"
  shows "\<exists>s'. fs_put s b f = Ok s' \<and> txn k (H - {n}) s' \<and>
    (\<forall>c m. c \<noteq> b \<longrightarrow> fs_held s' c m = fs_held s c m) \<and> view s' = (view s)(n := f (view s n)) \<and> rest s' = rest s"
proof -
  obtain s1 where s1: "fs_log_write (fs_set_data s b f) b = Ok s1" "txn k H s1"
    "\<And>c m. fs_held s1 c m = fs_held s c m" "view s1 = (view s)(n := f (view s n))" "rest s1 = rest s"
    using fs_log_spec [OF assms] by blast
  have "fs_held s1 b n" using s1(3) assms(3) by simp
  then show ?thesis using fs_brelse_spec [OF s1(2) assms(2)] s1 by (auto simp: fs_put_def)
qed

text \<open>The interface the file system code relies on.\<close>

locale block_store =
  fixes rd :: "'s \<Rightarrow> uint \<Rightarrow> ('b \<times> 's) res"
    and rel :: "'s \<Rightarrow> 'b \<Rightarrow> 's res"
    and put :: "'s \<Rightarrow> 'b \<Rightarrow> (block \<Rightarrow> block) \<Rightarrow> 's res"
    and dat :: "'s \<Rightarrow> 'b \<Rightarrow> block"
    and inv :: "nat \<Rightarrow> uint set \<Rightarrow> 's \<Rightarrow> bool"
    and hld :: "'s \<Rightarrow> 'b \<Rightarrow> uint \<Rightarrow> bool"
    and vw :: "'s \<Rightarrow> uint \<Rightarrow> block"
    and oth :: "'s \<Rightarrow> 'o"
    and lim :: "'o \<Rightarrow> uint"
  assumes rd_law: "inv k H s \<Longrightarrow> n \<notin> H \<Longrightarrow> card H \<le> 1 \<Longrightarrow> n < lim (oth s) \<Longrightarrow>
      \<exists>b s'. rd s n = Ok (b, s') \<and> inv k (insert n H) s' \<and> hld s' b n \<and>
        (\<forall>c m. hld s c m \<longrightarrow> c \<noteq> b \<and> hld s' c m) \<and> dat s' b = vw s n \<and> vw s' = vw s \<and> oth s' = oth s"
    and rel_law: "inv k H s \<Longrightarrow> n \<in> H \<Longrightarrow> hld s b n \<Longrightarrow>
      \<exists>s'. rel s b = Ok s' \<and> inv k (H - {n}) s' \<and> (\<forall>c m. c \<noteq> b \<longrightarrow> hld s' c m = hld s c m) \<and>
        vw s' = vw s \<and> oth s' = oth s"
    and put_law: "inv (Suc k) H s \<Longrightarrow> n \<in> H \<Longrightarrow> hld s b n \<Longrightarrow>
      \<exists>s'. put s b f = Ok s' \<and> inv k (H - {n}) s' \<and> (\<forall>c m. c \<noteq> b \<longrightarrow> hld s' c m = hld s c m) \<and>
        vw s' = (vw s)(n := f (vw s n)) \<and> oth s' = oth s"
begin

text \<open>Reading a block and giving it back.\<close>

lemma peek:
  assumes "inv k H s" "n \<notin> H" "card H \<le> 1" "n < lim (oth s)"
  shows "\<exists>b s1 s'. rd s n = Ok (b, s1) \<and> dat s1 b = vw s n \<and> oth s1 = oth s \<and> rel s1 b = Ok s' \<and>
    inv k H s' \<and> (\<forall>c m. hld s c m \<longrightarrow> hld s' c m) \<and> vw s' = vw s \<and> oth s' = oth s"
proof -
  obtain b s1 where s1: "rd s n = Ok (b, s1)" "inv k (insert n H) s1" "hld s1 b n" "dat s1 b = vw s n"
    "\<forall>c m. hld s c m \<longrightarrow> c \<noteq> b \<and> hld s1 c m" "vw s1 = vw s" "oth s1 = oth s"
    using rd_law [OF assms] by blast
  have "insert n H - {n} = H" using assms(2) by simp
  then show ?thesis using rel_law [OF s1(2) _ s1(3)] s1 by (metis insertI1)
qed

text \<open>Changing a block.\<close>

lemma change:
  assumes "inv (Suc k) H s" "n \<notin> H" "card H \<le> 1" "n < lim (oth s)"
  shows "\<exists>b s1 s'. rd s n = Ok (b, s1) \<and> dat s1 b = vw s n \<and> oth s1 = oth s \<and> put s1 b f = Ok s' \<and>
    inv k H s' \<and> (\<forall>c m. hld s c m \<longrightarrow> hld s' c m) \<and> vw s' = (vw s)(n := f (vw s n)) \<and> oth s' = oth s"
proof -
  obtain b s1 where s1: "rd s n = Ok (b, s1)" "inv (Suc k) (insert n H) s1" "hld s1 b n" "dat s1 b = vw s n"
    "\<forall>c m. hld s c m \<longrightarrow> c \<noteq> b \<and> hld s1 c m" "vw s1 = vw s" "oth s1 = oth s"
    using rd_law [OF assms] by blast
  have "insert n H - {n} = H" using assms(2) by simp
  then show ?thesis using put_law [OF s1(2) _ s1(3), of f] s1 by (metis insertI1)
qed

end

interpretation tx: block_store "\<lambda>s. fs_bread s 1" fs_brelse fs_put fs_data txn fs_held view rest
  "\<lambda>r. fst (snd (snd (snd r)))"
proof unfold_locales
  fix k H and s :: "'a fs" and n
  assume "txn k H s" "n \<notin> H" "card H \<le> 1" "n < fst (snd (snd (snd (rest s))))"
  then show "\<exists>b s'. fs_bread s 1 n = Ok (b, s') \<and> txn k (insert n H) s' \<and> fs_held s' b n \<and>
      (\<forall>c m. fs_held s c m \<longrightarrow> c \<noteq> b \<and> fs_held s' c m) \<and> fs_data s' b = view s n \<and> view s' = view s \<and> rest s' = rest s"
    using fs_bread_spec by (simp add: rest_def)
qed (fact fs_brelse_spec fs_put_spec)+

end
