(* ===== verification/Inode.thy ===== *)
theory Inode
  imports Txn
begin

text \<open>
  The block and inode layers of the file system, \<^verbatim>\<open>fs.c\<close> up to \<^verbatim>\<open>writei\<close>: the block bitmap, the inode
  cache, and the contents of files. \<open>Blocked\<close> is the outcome when a sleep lock is taken.
\<close>

section \<open>Constants\<close>

abbreviation (input) NDIRECT :: nat where "NDIRECT \<equiv> 12"
abbreviation (input) NINDIRECT :: nat where "NINDIRECT \<equiv> 128"
abbreviation (input) MAXFILE :: nat where "MAXFILE \<equiv> NDIRECT + NINDIRECT"
abbreviation (input) IPB :: nat where "IPB \<equiv> 8"
abbreviation (input) BPB :: nat where "BPB \<equiv> 4096"
abbreviation (input) NINODE :: nat where "NINODE \<equiv> 50"
abbreviation (input) NDEV :: int where "NDEV \<equiv> 10"
abbreviation (input) T_DIR :: ushort where "T_DIR \<equiv> 1"
abbreviation (input) T_FILE :: ushort where "T_FILE \<equiv> 2"
abbreviation (input) T_DEV :: ushort where "T_DEV \<equiv> 3"

section \<open>Blocks\<close>

definition bzero :: "'d fs \<Rightarrow> uint \<Rightarrow> uint \<Rightarrow> 'd fs res" where
  "bzero s dev bno = andthen (fs_bread s dev bno) (\<lambda>(bp, s).
     fs_put s bp (\<lambda>d i. if i < BSIZE then 0 else d i))"

definition BBLOCK :: "nat \<Rightarrow> superblock \<Rightarrow> uint" where
  "BBLOCK b sb = of_nat (b div BPB) + sb_bmapstart sb"

definition IBLOCK :: "uint \<Rightarrow> superblock \<Rightarrow> uint" where
  "IBLOCK i sb = i div 8 + sb_inodestart sb"

text \<open>The bit of the block \<open>bi\<close> in a block of the bitmap.\<close>

definition bitmask :: "nat \<Rightarrow> uchar" where
  "bitmask bi = push_bit (bi mod 8) 1"

definition bit_free :: "block \<Rightarrow> nat \<Rightarrow> bool" where
  "bit_free d bi \<longleftrightarrow> d (bi div 8) AND bitmask bi = 0"

definition mark_used :: "nat \<Rightarrow> block \<Rightarrow> block" where
  "mark_used bi d = d(bi div 8 := d (bi div 8) OR bitmask bi)"

definition mark_free :: "nat \<Rightarrow> block \<Rightarrow> block" where
  "mark_free bi d = d(bi div 8 := d (bi div 8) AND NOT (bitmask bi))"

text \<open>The outer loop of \<^verbatim>\<open>balloc\<close> over the numbers \<open>b\<close> the blocks of the bitmap start with; the inner loop
  looks for the first free bit.\<close>

primrec balloc_loop :: "nat list \<Rightarrow> 'd fs \<Rightarrow> uint \<Rightarrow> (uint \<times> 'd fs) res" where
  "balloc_loop [] s dev = Panic ''balloc: out of blocks''"
| "balloc_loop (b # bs) s dev =
     andthen (fs_bread s dev (BBLOCK b (fs_sb s))) (\<lambda>(bp, s).
       case find (bit_free (fs_data s bp)) [0..<min BPB (unat (sb_size (fs_sb s)) - b)] of
         Some bi \<Rightarrow> andthen (fs_put s bp (mark_used bi)) (\<lambda>s.
           andthen (bzero s dev (of_nat (b + bi))) (\<lambda>s. Ok (of_nat (b + bi), s)))
       | None \<Rightarrow> andthen (fs_brelse s bp) (\<lambda>s. balloc_loop bs s dev))"

definition balloc :: "'d fs \<Rightarrow> uint \<Rightarrow> (uint \<times> 'd fs) res" where
  "balloc s dev =
     balloc_loop (map (\<lambda>k. k * BPB) [0..<(unat (sb_size (fs_sb s)) + (BPB - 1)) div BPB]) s dev"

definition bfree :: "'d fs \<Rightarrow> uint \<Rightarrow> uint \<Rightarrow> 'd fs res" where
  "bfree s dev b = andthen (fs_bread s dev (BBLOCK (unat b) (fs_sb s))) (\<lambda>(bp, s).
     let bi = unat b mod BPB in
     if bit_free (fs_data s bp) bi then Panic ''freeing free block''
     else fs_put s bp (mark_free bi))"

section \<open>Inodes\<close>

text \<open>\<^verbatim>\<open>struct dinode\<close> at the offset \<open>off\<close> of a block.\<close>

definition get_dinode :: "block \<Rightarrow> nat \<Rightarrow> inode \<Rightarrow> inode" where
  "get_dinode d off ip = ip\<lparr>i_type := get16 d off, i_major := get16 d (off + 2), i_minor := get16 d (off + 4),
     i_nlink := get16 d (off + 6), i_size := get32 d (off + 8),
     i_addrs := \<lambda>k. if k \<le> NDIRECT then get32 d (off + 12 + 4 * k) else i_addrs ip k\<rparr>"

definition put_dinode :: "inode \<Rightarrow> nat \<Rightarrow> block \<Rightarrow> block" where
  "put_dinode ip off d =
     (let d = put16 d off (i_type ip); d = put16 d (off + 2) (i_major ip);
          d = put16 d (off + 4) (i_minor ip); d = put16 d (off + 6) (i_nlink ip);
          d = put32 d (off + 8) (i_size ip)
      in fold (\<lambda>k d. put32 d (off + 12 + 4 * k) (i_addrs ip k)) [0..<Suc NDIRECT] d)"

definition dinode_off :: "uint \<Rightarrow> nat" where
  "dinode_off inum = unat inum mod IPB * 64"

definition iinit :: "'d fs \<Rightarrow> uint \<Rightarrow> 'd fs res" where
  "iinit s dev =
     (let s = s\<lparr>icache := \<lambda>i. if i < NINODE then (icache s i)\<lparr>i_lock := initsleeplock\<rparr> else icache s i\<rparr> in
      andthen (readsb (fs_bc s) dev) (\<lambda>(sb, c). Ok (s\<lparr>fs_bc := c, fs_sb := sb\<rparr>)))"

text \<open>The loop of \<^verbatim>\<open>iget\<close>: the entry of the inode (\<open>Inl\<close>), or else the first unused entry seen.\<close>

primrec iget_loop :: "nat list \<Rightarrow> (nat \<Rightarrow> inode) \<Rightarrow> uint \<Rightarrow> uint \<Rightarrow> nat option \<Rightarrow> nat + nat option" where
  "iget_loop [] t dev inum slot = Inr slot"
| "iget_loop (ip # ips) t dev inum slot =
     (if 0 < i_ref (t ip) \<and> i_dev (t ip) = dev \<and> i_inum (t ip) = inum then Inl ip
      else iget_loop ips t dev inum (if slot = None \<and> i_ref (t ip) = 0 then Some ip else slot))"

definition iget :: "'d fs \<Rightarrow> uint \<Rightarrow> uint \<Rightarrow> (nat \<times> 'd fs) res" where
  "iget s dev inum =
     (case iget_loop [0..<NINODE] (icache s) dev inum None of
        Inl ip \<Rightarrow> Ok (ip, set_inode s ip (\<lambda>x. x\<lparr>i_ref := i_ref x + 1\<rparr>))
      | Inr None \<Rightarrow> Panic ''iget: no inodes''
      | Inr (Some ip) \<Rightarrow> Ok (ip, set_inode s ip (\<lambda>x. x\<lparr>i_dev := dev, i_inum := inum, i_ref := 1, i_valid := False\<rparr>)))"

primrec ialloc_loop :: "nat list \<Rightarrow> 'd fs \<Rightarrow> uint \<Rightarrow> ushort \<Rightarrow> (nat \<times> 'd fs) res" where
  "ialloc_loop [] s dev ty = Panic ''ialloc: no inodes''"
| "ialloc_loop (k # ks) s dev ty =
     (let inum = of_nat k :: uint in
      andthen (fs_bread s dev (IBLOCK inum (fs_sb s))) (\<lambda>(bp, s).
        let off = dinode_off inum in
        if get16 (fs_data s bp) off = 0
        then andthen (fs_put s bp (\<lambda>d. put16 (\<lambda>i. if off \<le> i \<and> i < off + 64 then 0 else d i) off ty))
               (\<lambda>s. iget s dev inum)
        else andthen (fs_brelse s bp) (\<lambda>s. ialloc_loop ks s dev ty)))"

definition ialloc :: "'d fs \<Rightarrow> uint \<Rightarrow> ushort \<Rightarrow> (nat \<times> 'd fs) res" where
  "ialloc s dev ty = ialloc_loop [1..<unat (sb_ninodes (fs_sb s))] s dev ty"

definition iupdate :: "'d fs \<Rightarrow> nat \<Rightarrow> 'd fs res" where
  "iupdate s ip =
     (let x = inode_of s ip in
      andthen (fs_bread s (i_dev x) (IBLOCK (i_inum x) (fs_sb s))) (\<lambda>(bp, s).
        fs_put s bp (put_dinode x (dinode_off (i_inum x)))))"

definition idup :: "'d fs \<Rightarrow> nat \<Rightarrow> nat \<times> 'd fs" where
  "idup s ip = (ip, set_inode s ip (\<lambda>x. x\<lparr>i_ref := i_ref x + 1\<rparr>))"

definition ilock :: "'d fs \<Rightarrow> nat \<Rightarrow> 'd fs res" where
  "ilock s ip =
     (if i_ref (inode_of s ip) < 1 then Panic ''ilock''
      else andthen (acquiresleep (mypid (fs_bc s)) (i_lock (inode_of s ip))) (\<lambda>lk.
        let s = set_inode s ip (\<lambda>x. x\<lparr>i_lock := lk\<rparr>); x = inode_of s ip in
        if i_valid x then Ok s
        else andthen (fs_bread s (i_dev x) (IBLOCK (i_inum x) (fs_sb s))) (\<lambda>(bp, s).
          let s = set_inode s ip (get_dinode (fs_data s bp) (dinode_off (i_inum x))) in
          andthen (fs_brelse s bp) (\<lambda>s.
            let s = set_inode s ip (\<lambda>x. x\<lparr>i_valid := True\<rparr>) in
            if i_type (inode_of s ip) = 0 then Panic ''ilock: no type'' else Ok s))))"

definition iunlock :: "'d fs \<Rightarrow> nat \<Rightarrow> 'd fs res" where
  "iunlock s ip =
     (if \<not> holdingsleep (mypid (fs_bc s)) (i_lock (inode_of s ip)) \<or> i_ref (inode_of s ip) < 1 then Panic ''iunlock''
      else Ok (set_inode s ip (\<lambda>x. x\<lparr>i_lock := releasesleep (i_lock x)\<rparr>)))"

section \<open>Contents\<close>

definition set_addr :: "'d fs \<Rightarrow> nat \<Rightarrow> nat \<Rightarrow> uint \<Rightarrow> 'd fs" where
  "set_addr s ip k a = set_inode s ip (\<lambda>x. x\<lparr>i_addrs := (i_addrs x)(k := a)\<rparr>)"

text \<open>\<^verbatim>\<open>ip->addrs[k]\<close>, allocated when it is \<open>0\<close>.\<close>

definition need_addr :: "'d fs \<Rightarrow> nat \<Rightarrow> nat \<Rightarrow> (uint \<times> 'd fs) res" where
  "need_addr s ip k =
     (if i_addrs (inode_of s ip) k = 0
      then andthen (balloc s (i_dev (inode_of s ip))) (\<lambda>(a, s). Ok (a, set_addr s ip k a))
      else Ok (i_addrs (inode_of s ip) k, s))"

text \<open>The entry \<open>k\<close> of the indirect block \<open>addr\<close>, allocated when it is \<open>0\<close>.\<close>

definition indirect_entry :: "'d fs \<Rightarrow> nat \<Rightarrow> uint \<Rightarrow> nat \<Rightarrow> (uint \<times> 'd fs) res" where
  "indirect_entry s ip addr k = andthen (fs_bread s (i_dev (inode_of s ip)) addr) (\<lambda>(bp, s).
     let addr = get32 (fs_data s bp) (4 * k) in
     if addr = 0
     then andthen (balloc s (i_dev (inode_of s ip))) (\<lambda>(addr, s).
       andthen (fs_put s bp (\<lambda>d. put32 d (4 * k) addr)) (\<lambda>s. Ok (addr, s)))
     else andthen (fs_brelse s bp) (\<lambda>s. Ok (addr, s)))"

definition bmap :: "'d fs \<Rightarrow> nat \<Rightarrow> nat \<Rightarrow> (uint \<times> 'd fs) res" where
  "bmap s ip bn =
     (if bn < NDIRECT then need_addr s ip bn
      else if bn - NDIRECT < NINDIRECT
      then andthen (need_addr s ip NDIRECT) (\<lambda>(addr, s). indirect_entry s ip addr (bn - NDIRECT))
      else Panic ''bmap: out of range'')"

text \<open>The two loops of \<^verbatim>\<open>itrunc\<close>.\<close>

primrec itrunc_direct :: "nat list \<Rightarrow> 'd fs \<Rightarrow> nat \<Rightarrow> 'd fs res" where
  "itrunc_direct [] s ip = Ok s"
| "itrunc_direct (i # is) s ip =
     (let a = i_addrs (inode_of s ip) i in
      if a \<noteq> 0
      then andthen (bfree s (i_dev (inode_of s ip)) a) (\<lambda>s. itrunc_direct is (set_addr s ip i 0) ip)
      else itrunc_direct is s ip)"

primrec itrunc_indirect :: "nat list \<Rightarrow> 'd fs \<Rightarrow> uint \<Rightarrow> nat \<Rightarrow> 'd fs res" where
  "itrunc_indirect [] s dev bp = Ok s"
| "itrunc_indirect (j # js) s dev bp =
     (let a = get32 (fs_data s bp) (4 * j) in
      if a \<noteq> 0 then andthen (bfree s dev a) (\<lambda>s. itrunc_indirect js s dev bp)
      else itrunc_indirect js s dev bp)"

definition itrunc :: "'d fs \<Rightarrow> nat \<Rightarrow> 'd fs res" where
  "itrunc s ip = andthen (itrunc_direct [0..<NDIRECT] s ip) (\<lambda>s.
     let a = i_addrs (inode_of s ip) NDIRECT; dev = i_dev (inode_of s ip) in
     andthen (if a \<noteq> 0
       then andthen (fs_bread s dev a) (\<lambda>(bp, s).
         andthen (itrunc_indirect [0..<NINDIRECT] s dev bp) (\<lambda>s.
         andthen (fs_brelse s bp) (\<lambda>s.
         andthen (bfree s dev a) (\<lambda>s. Ok (set_addr s ip NDIRECT 0)))))
       else Ok s) (\<lambda>s.
     iupdate (set_inode s ip (\<lambda>x. x\<lparr>i_size := 0\<rparr>)) ip))"

definition iput :: "'d fs \<Rightarrow> nat \<Rightarrow> 'd fs res" where
  "iput s ip = andthen (acquiresleep (mypid (fs_bc s)) (i_lock (inode_of s ip))) (\<lambda>lk.
     let s = set_inode s ip (\<lambda>x. x\<lparr>i_lock := lk\<rparr>); x = inode_of s ip in
     andthen (if i_valid x \<and> i_nlink x = 0 \<and> i_ref x = 1
       then andthen (itrunc s ip) (\<lambda>s.
         andthen (iupdate (set_inode s ip (\<lambda>x. x\<lparr>i_type := 0\<rparr>)) ip) (\<lambda>s.
         Ok (set_inode s ip (\<lambda>x. x\<lparr>i_valid := False\<rparr>))))
       else Ok s) (\<lambda>s.
     let s = set_inode s ip (\<lambda>x. x\<lparr>i_lock := releasesleep (i_lock x)\<rparr>) in
     Ok (set_inode s ip (\<lambda>x. x\<lparr>i_ref := i_ref x - 1\<rparr>))))"

definition iunlockput :: "'d fs \<Rightarrow> nat \<Rightarrow> 'd fs res" where
  "iunlockput s ip = andthen (iunlock s ip) (\<lambda>s. iput s ip)"

record stat =
  st_type :: ushort
  st_dev :: uint
  st_ino :: uint
  st_nlink :: ushort
  st_size :: uint

definition stati :: "'d fs \<Rightarrow> nat \<Rightarrow> stat" where
  "stati s ip = (let x = inode_of s ip in
     \<lparr>st_type = i_type x, st_dev = i_dev x, st_ino = i_inum x, st_nlink = i_nlink x, st_size = i_size x\<rparr>)"

text \<open>
  The table \<^verbatim>\<open>devsw\<close> of function pointers, an argument of the routines that call through it. A read
  returns its value and the bytes it has put in the buffer.
\<close>

record 'd devsw =
  dev_read :: "nat \<Rightarrow> ('d fs \<Rightarrow> nat \<Rightarrow> uint \<Rightarrow> ((int \<times> uchar list) \<times> 'd fs) res) option"
  dev_write :: "nat \<Rightarrow> ('d fs \<Rightarrow> nat \<Rightarrow> uchar list \<Rightarrow> (int \<times> 'd fs) res) option"

text \<open>The loop of \<^verbatim>\<open>readi\<close>, with \<open>rem\<close> bytes still to read from the offset \<open>off\<close>.\<close>

function readi_loop :: "'d fs \<Rightarrow> nat \<Rightarrow> nat \<Rightarrow> nat \<Rightarrow> (uchar list \<times> 'd fs) res" where
  "readi_loop s ip off rem =
     (if rem = 0 then Ok ([], s)
      else andthen (bmap s ip (off div BSIZE)) (\<lambda>(addr, s).
        andthen (fs_bread s (i_dev (inode_of s ip)) addr) (\<lambda>(bp, s).
        let m = min rem (BSIZE - off mod BSIZE);
            ds = map (\<lambda>j. fs_data s bp (off mod BSIZE + j)) [0..<m] in
        andthen (fs_brelse s bp) (\<lambda>s.
        andthen (readi_loop s ip (off + m) (rem - m)) (\<lambda>(es, s). Ok (ds @ es, s))))))"
  by pat_completeness auto

termination by (relation "measure (\<lambda>(s, ip, off, rem). rem)") auto

declare readi_loop.simps [simp del]

definition readi :: "'d devsw \<Rightarrow> 'd fs \<Rightarrow> nat \<Rightarrow> uint \<Rightarrow> uint \<Rightarrow> ((int \<times> uchar list) \<times> 'd fs) res" where
  "readi dv s ip off n =
     (let x = inode_of s ip in
      if i_type x = T_DEV
      then (if sint (i_major x) < 0 \<or> sint (i_major x) \<ge> NDEV then Ok ((-1, []), s)
            else case dev_read dv (unat (i_major x)) of None \<Rightarrow> Ok ((-1, []), s) | Some f \<Rightarrow> f s ip n)
      else if off > i_size x \<or> off + n < off then Ok ((-1, []), s)
      else let n = (if off + n > i_size x then i_size x - off else n) in
        andthen (readi_loop s ip (unat off) (unat n)) (\<lambda>(ds, s). Ok ((sint n, ds), s)))"

text \<open>The loop of \<^verbatim>\<open>writei\<close> over the bytes still to write; the value is the final offset.\<close>

function writei_loop :: "'d fs \<Rightarrow> nat \<Rightarrow> nat \<Rightarrow> uchar list \<Rightarrow> (nat \<times> 'd fs) res" where
  "writei_loop s ip off src =
     (if src = [] then Ok (off, s)
      else andthen (bmap s ip (off div BSIZE)) (\<lambda>(addr, s).
        andthen (fs_bread s (i_dev (inode_of s ip)) addr) (\<lambda>(bp, s).
        let m = min (length src) (BSIZE - off mod BSIZE) in
        andthen (fs_put s bp (\<lambda>d i. if off mod BSIZE \<le> i \<and> i < off mod BSIZE + m then src ! (i - off mod BSIZE) else d i)) (\<lambda>s.
        writei_loop s ip (off + m) (drop m src)))))"
  by pat_completeness auto

termination by (relation "measure (\<lambda>(s, ip, off, src). length src)") auto

declare writei_loop.simps [simp del]

definition writei :: "'d devsw \<Rightarrow> 'd fs \<Rightarrow> nat \<Rightarrow> uchar list \<Rightarrow> uint \<Rightarrow> (int \<times> 'd fs) res" where
  "writei dv s ip src off =
     (let x = inode_of s ip; n = of_nat (length src) :: uint in
      if i_type x = T_DEV
      then (if sint (i_major x) < 0 \<or> sint (i_major x) \<ge> NDEV then Ok (-1, s)
            else case dev_write dv (unat (i_major x)) of None \<Rightarrow> Ok (-1, s) | Some f \<Rightarrow> f s ip src)
      else if off > i_size x \<or> off + n < off then Ok (-1, s)
      else if off + n > of_nat (MAXFILE * BSIZE) then Ok (-1, s)
      else andthen (writei_loop s ip (unat off) src) (\<lambda>(off, s).
        andthen (if n > 0 \<and> off > unat (i_size (inode_of s ip))
          then iupdate (set_inode s ip (\<lambda>x. x\<lparr>i_size := of_nat off\<rparr>)) ip else Ok s) (\<lambda>s.
        Ok (sint n, s))))"

end
