(* ===== verification/Bitmap.thy ===== *)
theory Bitmap
  imports Inode
begin

text \<open>
  The block bitmap: \<^verbatim>\<open>balloc\<close> and \<^verbatim>\<open>bfree\<close> of \<^verbatim>\<open>fs.c\<close> implement a set of free blocks.
\<close>

section \<open>Frames\<close>

lemma restD:
  assumes "rest s' = rest s"
  shows "fs_sb s' = fs_sb s" "icache s' = icache s" "fs_dev s' = fs_dev s"
    "disksize (fs_bc s') = disksize (fs_bc s)" "mypid (fs_bc s') = mypid (fs_bc s)"
  using assms by (simp_all add: rest_def)

lemma set_inode_frame [simp]:
  "view (set_inode s ip f) = view s" "txn k H (set_inode s ip f) = txn k H s"
  "fs_held (set_inode s ip f) = fs_held s" "fs_sb (set_inode s ip f) = fs_sb s"
  "fs_bc (set_inode s ip f) = fs_bc s" "fs_dev (set_inode s ip f) = fs_dev s"
  "icache (set_inode s ip f) = (icache s)(ip := f (icache s ip))" "fs_log (set_inode s ip f) = fs_log s"
  by (simp_all add: set_inode_def view_def txn_def fs_held_def fun_eq_iff)

text \<open>\<open>zeroed\<close> is what \<^verbatim>\<open>bzero\<close> makes of a block.\<close>

definition zeroed :: "block \<Rightarrow> block" where
  "zeroed d = (\<lambda>i. if i < BSIZE then 0 else d i)"

lemma disk_limit: "n < disksize (fs_bc s) \<Longrightarrow> n < fst (snd (snd (snd (rest s))))"
  by (simp add: rest_def)

lemmas peek_block = tx.peek [OF _ _ _ disk_limit]
lemmas change_block = tx.change [OF _ _ _ disk_limit]

lemma bzero_spec:
  assumes "txn (Suc k) H s" "n \<notin> H" "card H \<le> 1" "n < disksize (fs_bc s)"
  shows "\<exists>s'. bzero s 1 n = Ok s' \<and> txn k H s' \<and> (\<forall>c m. fs_held s c m \<longrightarrow> fs_held s' c m) \<and>
    view s' = (view s)(n := zeroed (view s n)) \<and> rest s' = rest s"
proof -
  have "bzero s 1 n = andthen (fs_bread s 1 n) (\<lambda>(bp, s). fs_put s bp zeroed)"
    by (simp add: bzero_def zeroed_def [abs_def])
  then show ?thesis using change_block [OF assms, of zeroed] by auto
qed

section \<open>Bits\<close>

lemma bit_free_iff: "bit_free d bi \<longleftrightarrow> \<not> bit (d (bi div 8)) (bi mod 8)"
proof -
  have "d (bi div 8) AND bitmask bi = 0 \<longleftrightarrow> \<not> bit (d (bi div 8)) (bi mod 8)"
    unfolding bitmask_def and_exp_eq_0_iff_not_bit [symmetric] push_bit_of_1 ..
  then show ?thesis by (simp add: bit_free_def)
qed

lemma bit_mask: "bit (bitmask bi) j \<longleftrightarrow> j = bi mod 8"
  by (auto simp: bitmask_def push_bit_of_1 bit_exp_iff intro: less_trans [of _ 8])

lemma same_bit: "bi div 8 = bj div 8 \<Longrightarrow> bi mod 8 = bj mod 8 \<longleftrightarrow> bi = (bj :: nat)"
  by (metis div_mult_mod_eq)

lemma bit_free_used: "bit_free (mark_used bi d) bj \<longleftrightarrow> bj \<noteq> bi \<and> bit_free d bj"
  using same_bit [of bi bj] by (auto simp: bit_free_iff mark_used_def bit_or_iff bit_mask)

lemma bit_free_free: "bit_free (mark_free bi d) bj \<longleftrightarrow> bj = bi \<or> bit_free d bj"
  using same_bit [of bi bj] by (auto simp: bit_free_iff mark_free_def bit_and_iff bit_not_iff bit_mask)

lemma mark_free_used:
  assumes "bit_free d bi"
  shows "mark_free bi (mark_used bi d) = d"
proof -
  have "(d (bi div 8) OR bitmask bi) AND NOT (bitmask bi) = d (bi div 8)"
    using assms by (intro bit_word_eqI) (auto simp: bit_free_iff bit_and_iff bit_or_iff bit_not_iff bit_mask)
  then show ?thesis by (auto simp: mark_free_def mark_used_def fun_eq_iff)
qed

section \<open>Allocation\<close>

definition blk_free :: "(uint \<Rightarrow> block) \<Rightarrow> superblock \<Rightarrow> nat \<Rightarrow> bool" where
  "blk_free V sb b \<longleftrightarrow> bit_free (V (BBLOCK b sb)) (b mod BPB)"

text \<open>
  The bitmap is where the superblock says, on the disk, not in use by the caller, and the blocks it
  shows as free are not blocks of it and not in use by the caller either.
\<close>

definition bitmap_ok :: "'d fs \<Rightarrow> uint set \<Rightarrow> bool" where
  "bitmap_ok s H \<longleftrightarrow> (\<forall>b<unat (sb_size (fs_sb s)).
     BBLOCK b (fs_sb s) \<notin> H \<and> BBLOCK b (fs_sb s) < disksize (fs_bc s) \<and>
     (blk_free (view s) (fs_sb s) b \<longrightarrow> of_nat b \<notin> H \<and> of_nat b < disksize (fs_bc s) \<and>
       (\<forall>c<unat (sb_size (fs_sb s)). of_nat b \<noteq> BBLOCK c (fs_sb s))))"

lemma bitmap_ok_free:
  assumes "bitmap_ok s H" "b < unat (sb_size (fs_sb s))" "blk_free (view s) (fs_sb s) b"
  shows "of_nat b \<notin> H" "of_nat b < disksize (fs_bc s)" "c < unat (sb_size (fs_sb s)) \<Longrightarrow> of_nat b \<noteq> BBLOCK c (fs_sb s)"
  using assms unfolding bitmap_ok_def by blast+

text \<open>What the allocation of the block \<open>b\<close> does to the contents of the disk.\<close>

definition alloc_view :: "superblock \<Rightarrow> nat \<Rightarrow> (uint \<Rightarrow> block) \<Rightarrow> uint \<Rightarrow> block" where
  "alloc_view sb b V = V(BBLOCK b sb := mark_used (b mod BPB) (V (BBLOCK b sb)), of_nat b := zeroed (V (of_nat b)))"

definition allocated :: "nat \<Rightarrow> uint set \<Rightarrow> 'd fs \<Rightarrow> nat \<Rightarrow> 'd fs \<Rightarrow> bool" where
  "allocated k H s m s' \<longleftrightarrow> m < unat (sb_size (fs_sb s)) \<and> blk_free (view s) (fs_sb s) m \<and> txn k H s' \<and>
     (\<forall>c n. fs_held s c n \<longrightarrow> fs_held s' c n) \<and> view s' = alloc_view (fs_sb s) m (view s) \<and> rest s' = rest s"

lemma balloc_loop_spec:
  assumes "txn (Suc (Suc k)) H s" "card H \<le> 1" "bitmap_ok s H"
    "\<forall>b\<in>set bs. b mod BPB = 0 \<and> b < unat (sb_size (fs_sb s))" "sorted_wrt (<) bs"
  shows "(\<exists>m s'. balloc_loop bs s 1 = Ok (of_nat m, s') \<and> allocated k H s m s' \<and>
      (\<forall>j<m. j div BPB * BPB \<in> set bs \<longrightarrow> \<not> blk_free (view s) (fs_sb s) j)) \<or>
    balloc_loop bs s 1 = Panic ''balloc: out of blocks'' \<and>
      (\<forall>m<unat (sb_size (fs_sb s)). m div BPB * BPB \<in> set bs \<longrightarrow> \<not> blk_free (view s) (fs_sb s) m)"
  using assms
proof (induction bs arbitrary: s)
  case Nil
  then show ?case by simp
next
  case (Cons b bs)
  let ?sb = "fs_sb s" and ?V = "view s"
  let ?N = "min BPB (unat (sb_size ?sb) - b)"
  have b: "b mod 4096 = 0" "b < unat (sb_size ?sb)" using Cons.prems(4) by auto
  obtain q where q: "b = 4096 * q" using b(1) by (auto simp: mod_eq_0_iff_dvd)
  have bi: "BBLOCK (b + i) ?sb = BBLOCK b ?sb" "(b + i) mod 4096 = i" if "i < 4096" for i
    using that by (simp_all add: BBLOCK_def q)
  have bb: "BBLOCK b ?sb \<notin> H" "BBLOCK b ?sb < disksize (fs_bc s)" using Cons.prems(3) b(2) by (auto simp: bitmap_ok_def)
  show ?case
  proof (cases "find (bit_free (?V (BBLOCK b ?sb))) [0..<?N]")
    case None
    obtain bp s1 s2 where p: "fs_bread s 1 (BBLOCK b ?sb) = Ok (bp, s1)" "fs_data s1 bp = ?V (BBLOCK b ?sb)"
      "rest s1 = rest s" "fs_brelse s1 bp = Ok s2" "txn (Suc (Suc k)) H s2" "\<forall>c m. fs_held s c m \<longrightarrow> fs_held s2 c m"
      "view s2 = ?V" "rest s2 = rest s" using peek_block [OF Cons.prems(1) bb(1) Cons.prems(2) bb(2)] by blast
    note f = restD [OF p(3)] restD [OF p(8)]
    have eq: "balloc_loop (b # bs) s 1 = balloc_loop bs s2 1" using p f None by simp
    have none: "\<not> blk_free ?V ?sb m" if "m < unat (sb_size ?sb)" "m div BPB * BPB = b" for m
    proof -
      have "m = b + m mod 4096" using that(2) by (metis div_mult_mod_eq)
      moreover from this have "m mod 4096 \<in> set [0..<?N]" using that(1) by auto
      then have "\<not> bit_free (?V (BBLOCK b ?sb)) (m mod 4096)" using None unfolding find_None_iff by blast
      ultimately show ?thesis using bi(1) [of "m mod 4096"] by (simp add: blk_free_def)
    qed
    have "bitmap_ok s2 H" using Cons.prems(3) f p(7) by (simp add: bitmap_ok_def)
    moreover have "\<forall>b\<in>set bs. b mod BPB = 0 \<and> b < unat (sb_size (fs_sb s2))" "sorted_wrt (<) bs"
      using Cons.prems(4,5) f by simp_all
    ultimately consider
      m s' where "balloc_loop bs s2 1 = Ok (of_nat m, s')" "allocated k H s2 m s'"
        "\<forall>j<m. j div BPB * BPB \<in> set bs \<longrightarrow> \<not> blk_free ?V ?sb j"
      | "balloc_loop bs s2 1 = Panic ''balloc: out of blocks''"
        "\<forall>m<unat (sb_size ?sb). m div BPB * BPB \<in> set bs \<longrightarrow> \<not> blk_free ?V ?sb m"
      using Cons.IH [OF p(5) Cons.prems(2)] unfolding f p(7) by blast
    then show ?thesis
    proof cases
      case (1 m s')
      have a: "allocated k H s m s'" using 1(2) f p(6-8) by (simp add: allocated_def)
      then have "m < unat (sb_size ?sb)" by (simp add: allocated_def)
      then have "\<not> blk_free ?V ?sb j" if "j < m" "j div BPB * BPB \<in> set (b # bs)" for j
        using that 1(3) none [of j] by auto
      then show ?thesis using eq 1(1) a by auto
    next
      case 2
      then have "\<not> blk_free ?V ?sb m" if "m < unat (sb_size ?sb)" "m div BPB * BPB \<in> set (b # bs)" for m
        using that none [of m] by auto
      then show ?thesis using eq 2(1) by auto
    qed
  next
    case (Some i)
    then have i: "i < 4096" "b + i < unat (sb_size ?sb)" "bit_free (?V (BBLOCK b ?sb)) i"
      by (auto simp: find_Some_iff)
    let ?n = "of_nat (b + i) :: uint"
    obtain bp s1 s2 where p: "fs_bread s 1 (BBLOCK b ?sb) = Ok (bp, s1)" "fs_data s1 bp = ?V (BBLOCK b ?sb)"
      "rest s1 = rest s" "fs_put s1 bp (mark_used i) = Ok s2" "txn (Suc k) H s2" "\<forall>c m. fs_held s c m \<longrightarrow> fs_held s2 c m"
      "view s2 = ?V(BBLOCK b ?sb := mark_used i (?V (BBLOCK b ?sb)))" "rest s2 = rest s"
      using change_block [OF Cons.prems(1) bb(1) Cons.prems(2) bb(2), of "mark_used i"] by blast
    have fr: "blk_free ?V ?sb (b + i)" using i bi by (simp add: blk_free_def)
    then have n: "?n \<notin> H" "?n < disksize (fs_bc s2)" "?n \<noteq> BBLOCK b ?sb"
      using bitmap_ok_free [OF Cons.prems(3) i(2) fr] b(2) restD [OF p(8)] by (simp_all del: of_nat_add)
    obtain s3 where z: "bzero s2 1 ?n = Ok s3" "txn k H s3" "\<forall>c m. fs_held s2 c m \<longrightarrow> fs_held s3 c m"
      "view s3 = (view s2)(?n := zeroed (view s2 ?n))" "rest s3 = rest s2"
      using bzero_spec [OF p(5) n(1) Cons.prems(2) n(2)] by blast
    have "balloc_loop (b # bs) s 1 = Ok (?n, s3)"
      using p(1-4) restD [OF p(3)] Some z(1) by simp
    moreover have "allocated k H s (b + i) s3"
      using i fr z p n(3) bi [OF i(1)] by (simp add: allocated_def alloc_view_def)
    moreover have "\<not> blk_free ?V ?sb j" if j: "j < b + i" "j div BPB * BPB \<in> set (b # bs)" for j
    proof -
      have "j div 4096 * 4096 = b"
      proof (rule ccontr)
        assume "j div 4096 * 4096 \<noteq> b"
        then have "b < j div 4096 * 4096" using j(2) Cons.prems(5) by auto
        then have "q < j div 4096" by (simp add: q)
        then show False using j(1) i(1) q by auto
      qed
      then have "j = b + j mod 4096" by (metis div_mult_mod_eq)
      moreover from this have "j mod 4096 < i" using j(1) by linarith
      then have "\<not> bit_free (?V (BBLOCK b ?sb)) (j mod 4096)" using Some by (auto simp: find_Some_iff)
      ultimately show ?thesis using bi(1) [of "j mod 4096"] by (simp add: blk_free_def)
    qed
    ultimately show ?thesis by blast
  qed
qed

lemma balloc_spec:
  assumes "txn (Suc (Suc k)) H s" "card H \<le> 1" "bitmap_ok s H"
  shows "(\<exists>m s'. balloc s 1 = Ok (of_nat m, s') \<and> allocated k H s m s' \<and> (\<forall>j<m. \<not> blk_free (view s) (fs_sb s) j)) \<or>
    balloc s 1 = Panic ''balloc: out of blocks'' \<and>
      (\<forall>m<unat (sb_size (fs_sb s)). \<not> blk_free (view s) (fs_sb s) m)"
proof -
  let ?n = "unat (sb_size (fs_sb s))"
  let ?bs = "map (\<lambda>k. k * 4096) [0..<(?n + 4095) div 4096]"
  have chunk: "m div 4096 * 4096 \<in> set ?bs" if "m < ?n" for m
  proof -
    have "(m + 4096) div 4096 \<le> (?n + 4095) div 4096" using that by (intro div_le_mono) simp
    then have "m div 4096 < (?n + 4095) div 4096" by simp
    then show ?thesis by auto
  qed
  have "\<forall>b\<in>set ?bs. b mod 4096 = 0 \<and> b < ?n" "sorted_wrt (<) ?bs" by (auto simp: sorted_wrt_map)
  note r = balloc_loop_spec [OF assms this]
  have eq: "balloc s 1 = balloc_loop ?bs s 1" by (simp add: balloc_def)
  from r consider
    m s' where "balloc s 1 = Ok (of_nat m, s')" "allocated k H s m s'"
      "\<forall>j<m. j div BPB * BPB \<in> set ?bs \<longrightarrow> \<not> blk_free (view s) (fs_sb s) j"
    | "balloc s 1 = Panic ''balloc: out of blocks''"
      "\<forall>m<?n. m div BPB * BPB \<in> set ?bs \<longrightarrow> \<not> blk_free (view s) (fs_sb s) m"
    unfolding eq by blast
  then show ?thesis
  proof cases
    case (1 m s')
    then have "m < ?n" by (simp add: allocated_def)
    then have "\<not> blk_free (view s) (fs_sb s) j" if "j < m" for j using that 1(3) chunk [of j] by simp
    then show ?thesis using 1(1,2) by blast
  qed (use chunk in blast)
qed

lemma bfree_spec:
  assumes "txn (Suc k) H s" "card H \<le> 1" "BBLOCK (unat b) (fs_sb s) \<notin> H" "BBLOCK (unat b) (fs_sb s) < disksize (fs_bc s)"
  defines "n \<equiv> BBLOCK (unat b) (fs_sb s)"
  shows "if blk_free (view s) (fs_sb s) (unat b) then bfree s 1 b = Panic ''freeing free block''
    else \<exists>s'. bfree s 1 b = Ok s' \<and> txn k H s' \<and> (\<forall>c m. fs_held s c m \<longrightarrow> fs_held s' c m) \<and>
      view s' = (view s)(n := mark_free (unat b mod BPB) (view s n)) \<and> rest s' = rest s"
proof -
  obtain bp s1 s2 where p: "fs_bread s 1 n = Ok (bp, s1)" "fs_data s1 bp = view s n"
      "fs_put s1 bp (mark_free (unat b mod BPB)) = Ok s2" "txn k H s2" "\<forall>c m. fs_held s c m \<longrightarrow> fs_held s2 c m"
      "view s2 = (view s)(n := mark_free (unat b mod BPB) (view s n))" "rest s2 = rest s"
    using change_block [OF assms(1,3,2,4), of "mark_free (unat b mod BPB)"] unfolding n_def by blast
  then show ?thesis by (auto simp: bfree_def Let_def blk_free_def n_def [symmetric])
qed

lemma bfree_panics:
  assumes "txn k H s" "card H \<le> 1" "BBLOCK (unat b) (fs_sb s) \<notin> H" "BBLOCK (unat b) (fs_sb s) < disksize (fs_bc s)"
    "blk_free (view s) (fs_sb s) (unat b)"
  shows "bfree s 1 b = Panic ''freeing free block''"
  using fs_bread_spec [OF assms(1,3,2,4)] assms(5) by (auto simp: bfree_def Let_def blk_free_def)

text \<open>The free blocks after an allocation and after a release.\<close>

lemma blk_free_alloc:
  assumes "\<forall>c<N. (of_nat m :: uint) \<noteq> BBLOCK c sb" "j < N" "m < N" "N \<le> 2 ^ 32"
  shows "blk_free (alloc_view sb m V) sb j \<longleftrightarrow> j \<noteq> m \<and> blk_free V sb j"
proof -
  have "j = m" if "BBLOCK j sb = BBLOCK m sb" "j mod 4096 = m mod 4096"
  proof -
    have "(of_nat (j div 4096) :: uint) = of_nat (m div 4096)" using that(1) by (simp add: BBLOCK_def)
    then have "j div 4096 = m div 4096" using assms(2-4) by (intro of_nat_uint_inj) auto
    then show ?thesis using that(2) by (metis div_mult_mod_eq)
  qed
  then show ?thesis using assms(1,2)
    by (auto simp: blk_free_def alloc_view_def bit_free_used)
qed

text \<open>C29: Inside a transaction with room for two blocks, \<^verbatim>\<open>balloc\<close> takes the first block out of the set of free blocks,
  returns it zeroed, and changes no other block than its block of the bitmap; it panics exactly when no
  block is free.\<close>

theorem balloc_correct:
  assumes "txn (Suc (Suc k)) H s" "card H \<le> 1" "bitmap_ok s H"
  defines "N \<equiv> unat (sb_size (fs_sb s))"
  shows "(\<exists>m s'. balloc s 1 = Ok (of_nat m, s') \<and> txn k H s' \<and> rest s' = rest s \<and>
      m < N \<and> blk_free (view s) (fs_sb s) m \<and> (\<forall>j<m. \<not> blk_free (view s) (fs_sb s) j) \<and>
      (\<forall>j<N. blk_free (view s') (fs_sb s) j \<longleftrightarrow> j \<noteq> m \<and> blk_free (view s) (fs_sb s) j) \<and>
      (\<forall>i<BSIZE. view s' (of_nat m) i = 0) \<and>
      (\<forall>n. n \<noteq> of_nat m \<and> n \<noteq> BBLOCK m (fs_sb s) \<longrightarrow> view s' n = view s n)) \<or>
    balloc s 1 = Panic ''balloc: out of blocks'' \<and> (\<forall>m<N. \<not> blk_free (view s) (fs_sb s) m)"
  using balloc_spec [OF assms(1-3)]
proof (elim disjE exE conjE)
  fix m s' assume b: "balloc s 1 = Ok (of_nat m, s')" "allocated k H s m s'" "\<forall>j<m. \<not> blk_free (view s) (fs_sb s) j"
  then have m: "m < N" "blk_free (view s) (fs_sb s) m" "view s' = alloc_view (fs_sb s) m (view s)"
    by (simp_all add: allocated_def N_def)
  have "N \<le> 2 ^ 32" using unat_uint_bound [of "sb_size (fs_sb s)"] by (simp add: N_def)
  from blk_free_alloc [OF _ _ m(1) this] bitmap_ok_free(3) [OF assms(3) m(1) [unfolded N_def] m(2)]
  have "\<forall>j<N. blk_free (view s') (fs_sb s) j \<longleftrightarrow> j \<noteq> m \<and> blk_free (view s) (fs_sb s) j"
    unfolding m(3) N_def by blast
  then show ?thesis using b m
    by (intro disjI1 exI [of _ m] exI [of _ s']) (auto simp: allocated_def alloc_view_def zeroed_def)
qed (auto simp: N_def)

text \<open>\<^verbatim>\<open>bfree\<close> panics on a block that is free already, and releasing the block \<^verbatim>\<open>balloc\<close> has just returned puts
  the bitmap back as it was.\<close>

theorem bfree_undoes_balloc:
  assumes "txn (Suc (Suc (Suc k))) H s" "card H \<le> 1" "bitmap_ok s H" "balloc s 1 = Ok (b, s1)"
  shows "\<exists>s2. bfree s1 1 b = Ok s2 \<and> txn k H s2 \<and>
    view s2 = (view s)(b := zeroed (view s b)) \<and> bfree s2 1 b = Panic ''freeing free block''"
proof -
  obtain m where m: "b = of_nat m" "allocated (Suc k) H s m s1"
    using balloc_spec [OF assms(1-3)] assms(4) by auto
  note a = m(2) [unfolded allocated_def]
  let ?sb = "fs_sb s" and ?n = "BBLOCK m (fs_sb s)"
  have mb: "m < 2 ^ 32" using a unat_uint_bound [of "sb_size ?sb"] by simp
  then have um: "unat b = m" unfolding m(1) by (rule unat_of_nat_small)
  have f: "fs_sb s1 = ?sb" "disksize (fs_bc s1) = disksize (fs_bc s)" using a restD by blast+
  have nb: "?n \<notin> H" "?n < disksize (fs_bc s)" "of_nat m \<noteq> ?n"
    using a assms(3) bitmap_ok_free(3) [OF assms(3)] by (auto simp: bitmap_ok_def)
  have V: "view s1 ?n = mark_used (m mod 4096) (view s ?n)" using a nb(3) by (simp add: alloc_view_def)
  have "\<not> blk_free (view s1) ?sb m" by (simp add: blk_free_def V bit_free_used)
  then obtain s2 where s2: "bfree s1 1 b = Ok s2" "txn k H s2"
    "view s2 = (view s1)(?n := mark_free (m mod 4096) (view s1 ?n))" "rest s2 = rest s1"
    using bfree_spec [of k H s1 b] a assms(2) nb f um by auto
  have v2: "view s2 = (view s)(b := zeroed (view s b))"
    using s2(3) V a nb(3) mark_free_used m(1) by (auto simp: alloc_view_def blk_free_def fun_eq_iff)
  have f2: "fs_sb s2 = ?sb" "disksize (fs_bc s2) = disksize (fs_bc s)" using restD [OF s2(4)] f by simp_all
  have "blk_free (view s2) ?sb m" using v2 a nb(3) m(1) by (simp add: blk_free_def)
  then have "bfree s2 1 b = Panic ''freeing free block''"
    using nb um f2 by (intro bfree_panics [OF s2(2) assms(2)]) simp_all
  then show ?thesis using s2 v2 by blast
qed

section \<open>A small file system\<close>

text \<open>The layout \<^verbatim>\<open>mkfs\<close> makes for 1000 blocks, on any disk contents, with a transaction open.\<close>

definition sample_sb :: superblock where
  "sample_sb = \<lparr>sb_size = 1000, sb_nblocks = 941, sb_ninodes = 200, sb_nlog = 30, sb_logstart = 2,
     sb_inodestart = 32, sb_bmapstart = 58\<rparr>"

definition sample_fs :: "(uint \<Rightarrow> block) \<Rightarrow> (nat \<Rightarrow> inode) \<Rightarrow> unit fs" where
  "sample_fs D ic = \<lparr>fs_log = sample_log, fs_bc = boot_cache D 1000 1, fs_sb = sample_sb, icache = ic, fs_dev = ()\<rparr>"

lemma sample_fs_sel [simp]:
  "view (sample_fs D ic) = D" "fs_sb (sample_fs D ic) = sample_sb" "icache (sample_fs D ic) = ic"
  "disksize (fs_bc (sample_fs D ic)) = 1000" "mypid (fs_bc (sample_fs D ic)) = 1"
  by (simp_all add: view_def sample_fs_def boot_cache_abs)

lemma sample_txn: "k \<le> 28 \<Longrightarrow> txn k {} (sample_fs D ic)"
  using boot_cache_inv [of D 1000 1]
  by (simp add: txn_def sample_fs_def boot_cache_abs sample_log_sel log_inv_def spare_bufs_def)

text \<open>The bitmap of a disk whose blocks from 59 on are free.\<close>

definition sample_bitmap :: block where
  "sample_bitmap = (\<lambda>i. if i < 7 then 255 else if i = 7 then 7 else 0)"

definition sample_bits :: "uint \<Rightarrow> block" where
  "sample_bits = (\<lambda>_ _. 0)(58 := sample_bitmap)"

lemma sample_bit:
  assumes "b < 1000"
  shows "blk_free sample_bits sample_sb b \<longleftrightarrow> 59 \<le> b"
proof -
  have "\<not> bit (255 :: uchar) j \<longleftrightarrow> False" "bit (7 :: uchar) j \<longleftrightarrow> j < 3" if "j < 8" for j
  proof -
    consider "j = 0" | "j = 1" | "j = 2" | "j = 3" | "j = 4" | "j = 5" | "j = 6" | "j = 7" using \<open>j < 8\<close> by linarith
    then show "\<not> bit (255 :: uchar) j \<longleftrightarrow> False" "bit (7 :: uchar) j \<longleftrightarrow> j < 3" by (cases; simp)+
  qed
  note B = this [of "b mod 8", simplified]
  have "BBLOCK b sample_sb = 58" "b mod 4096 = b" using assms by (simp_all add: BBLOCK_def sample_sb_def)
  then have "blk_free sample_bits sample_sb b \<longleftrightarrow> \<not> bit (sample_bitmap (b div 8)) (b mod 8)"
    by (simp add: blk_free_def bit_free_iff sample_bits_def)
  moreover have "59 \<le> b \<longleftrightarrow> \<not> b div 8 < 7 \<and> (b div 8 = 7 \<longrightarrow> 3 \<le> b mod 8)" by presburger
  ultimately show ?thesis using B by (auto simp: sample_bitmap_def)
qed

lemma sample_bitmap_ok: "bitmap_ok (sample_fs sample_bits ic) {}"
proof -
  have bb: "BBLOCK b sample_sb = 58" if "b < 1000" for b using that by (simp add: BBLOCK_def sample_sb_def)
  have sz: "unat (sb_size sample_sb) = 1000" by (simp add: sample_sb_def)
  have "of_nat b < (1000 :: uint) \<and> of_nat b \<noteq> (58 :: uint)" if "b < 1000" "59 \<le> b" for b
    using that by (auto simp: word_less_nat_alt unat_of_nat dest: arg_cong [of _ _ unat])
  then show ?thesis using bb sample_bit unfolding bitmap_ok_def by (auto simp: sz)
qed

definition zero_inode :: inode where
  "zero_inode = \<lparr>i_dev = 0, i_inum = 0, i_ref = 0, i_lock = initsleeplock, i_valid = False, i_type = 0,
     i_major = 0, i_minor = 0, i_nlink = 0, i_size = 0, i_addrs = (\<lambda>_. 0)\<rparr>"

definition demo_fs :: "unit fs" where
  "demo_fs = sample_fs sample_bits (\<lambda>_. zero_inode)"

lemma demo_fs_facts:
  "txn (Suc (Suc 0)) {} demo_fs" "txn (Suc (Suc (Suc 0))) {} demo_fs" "bitmap_ok demo_fs {}"
  "view demo_fs = sample_bits" "fs_sb demo_fs = sample_sb" "unat (sb_size sample_sb) = 1000"
  "blk_free (view demo_fs) (fs_sb demo_fs) 100" "card ({} :: uint set) \<le> 1"
  using sample_bitmap_ok sample_bit [of 100] by (simp_all add: demo_fs_def sample_txn sample_sb_def)

theorem balloc_correct_witness:
  "\<exists>s'. balloc demo_fs 1 = Ok (59, s') \<and> \<not> blk_free (view s') sample_sb 59 \<and> blk_free (view s') sample_sb 60"
proof -
  have f: "\<exists>m s'. balloc demo_fs 1 = Ok (of_nat m, s') \<and> m < 1000 \<and> blk_free sample_bits sample_sb m \<and>
      (\<forall>j<m. \<not> blk_free sample_bits sample_sb j) \<and>
      (\<forall>j<1000. blk_free (view s') sample_sb j \<longleftrightarrow> j \<noteq> m \<and> blk_free sample_bits sample_sb j)"
    using balloc_correct [OF demo_fs_facts(1,8,3)] demo_fs_facts(7) unfolding demo_fs_facts(4-6)
    by (elim disjE) (blast, drule conjunct2, drule spec [of _ 100], simp)
  then obtain m s' where m: "balloc demo_fs 1 = Ok (of_nat m, s')" "m < 1000" "blk_free sample_bits sample_sb m"
    "\<forall>j<m. \<not> blk_free sample_bits sample_sb j"
    "\<forall>j<1000. blk_free (view s') sample_sb j \<longleftrightarrow> j \<noteq> m \<and> blk_free sample_bits sample_sb j" by blast
  have "59 \<le> m" using m(2,3) sample_bit [of m] by blast
  moreover have "\<not> 59 < m" using m(4) sample_bit [of 59] by auto
  ultimately have "m = 59" by simp
  then show ?thesis using m(1,5) sample_bit [of 60] by (intro exI [of _ s']) simp
qed

theorem bfree_undoes_balloc_witness:
  "\<exists>b s1 s2. balloc demo_fs 1 = Ok (b, s1) \<and> bfree s1 1 b = Ok s2 \<and>
     view s2 = sample_bits(b := zeroed (sample_bits b))"
proof -
  have "\<not> (\<forall>m<unat (sb_size (fs_sb demo_fs)). \<not> blk_free (view demo_fs) (fs_sb demo_fs) m)"
    using demo_fs_facts(7) unfolding demo_fs_facts(5,6) by (auto intro!: exI [of _ 100])
  then obtain b s1 where "balloc demo_fs 1 = Ok (b, s1)"
    using balloc_spec [OF demo_fs_facts(1,8,3)] by blast
  then show ?thesis using bfree_undoes_balloc [OF demo_fs_facts(2,8,3)] demo_fs_facts(4) by auto
qed

end
