(* ===== verification/Content.thy ===== *)
theory Content
  imports Bitmap
begin

text \<open>
  The contents of files: \<^verbatim>\<open>bmap\<close>, \<^verbatim>\<open>readi\<close> and \<^verbatim>\<open>writei\<close> of \<^verbatim>\<open>fs.c\<close> implement an array of bytes per inode,
  kept in blocks that no other file uses.
\<close>

section \<open>The blocks of a file\<close>

text \<open>
  The block numbers an inode refers to: slots 0 to 11 are the direct blocks, 12 is the indirect block,
  and the slots from 13 on are the entries of the indirect block. \<open>0\<close> is no block.
\<close>

definition slot :: "(uint \<Rightarrow> block) \<Rightarrow> inode \<Rightarrow> nat \<Rightarrow> uint" where
  "slot V x j = (if j \<le> NDIRECT then i_addrs x j
     else if i_addrs x NDIRECT = 0 then 0 else get32 (V (i_addrs x NDIRECT)) (4 * (j - 13)))"

definition fblock :: "(uint \<Rightarrow> block) \<Rightarrow> inode \<Rightarrow> nat \<Rightarrow> uint" where
  "fblock V x k = slot V x (if k < NDIRECT then k else Suc k)"

definition fbyte :: "(uint \<Rightarrow> block) \<Rightarrow> inode \<Rightarrow> nat \<Rightarrow> uchar" where
  "fbyte V x i = (if fblock V x (i div BSIZE) = 0 then 0 else V (fblock V x (i div BSIZE)) (i mod BSIZE))"

text \<open>A block in use that is not a block of the bitmap.\<close>

definition good :: "superblock \<Rightarrow> uint \<Rightarrow> (uint \<Rightarrow> block) \<Rightarrow> uint \<Rightarrow> bool" where
  "good sb sz V a \<longleftrightarrow> unat a < unat (sb_size sb) \<and> \<not> blk_free V sb (unat a) \<and> a < sz \<and>
     (\<forall>c<unat (sb_size sb). a \<noteq> BBLOCK c sb)"

definition map_ok :: "superblock \<Rightarrow> uint \<Rightarrow> (uint \<Rightarrow> block) \<Rightarrow> bool" where
  "map_ok sb sz V \<longleftrightarrow> \<not> blk_free V sb 0 \<and> (\<forall>b<unat (sb_size sb). BBLOCK b sb < sz \<and>
     (blk_free V sb b \<longrightarrow> of_nat b < sz \<and> (\<forall>c<unat (sb_size sb). of_nat b \<noteq> BBLOCK c sb)))"

text \<open>A file on a sound disk: its blocks are in use, and no block serves twice.\<close>

definition file_ok :: "superblock \<Rightarrow> uint \<Rightarrow> (uint \<Rightarrow> block) \<Rightarrow> inode \<Rightarrow> bool" where
  "file_ok sb sz V x \<longleftrightarrow> i_dev x = 1 \<and> map_ok sb sz V \<and>
     (\<forall>j<141. slot V x j \<noteq> 0 \<longrightarrow> good sb sz V (slot V x j)) \<and>
     (\<forall>i<141. \<forall>j<141. slot V x i = slot V x j \<and> slot V x i \<noteq> 0 \<longrightarrow> i = j)"

lemma file_okD:
  assumes "file_ok sb sz V x"
  shows "i_dev x = 1" "map_ok sb sz V" "j < 141 \<Longrightarrow> slot V x j \<noteq> 0 \<Longrightarrow> good sb sz V (slot V x j)"
    "i < 141 \<Longrightarrow> j < 141 \<Longrightarrow> slot V x i = slot V x j \<Longrightarrow> slot V x i \<noteq> 0 \<Longrightarrow> i = j"
  using assms unfolding file_ok_def by blast+

lemma map_ok_bitmap:
  assumes "map_ok (fs_sb s) (disksize (fs_bc s)) (view s)" "\<forall>a\<in>H. good (fs_sb s) (disksize (fs_bc s)) (view s) a"
  shows "bitmap_ok s H"
proof -
  have "of_nat b \<notin> H" if "b < unat (sb_size (fs_sb s))" "blk_free (view s) (fs_sb s) b" for b
  proof
    assume "of_nat b \<in> H"
    moreover have "unat (of_nat b :: uint) = b"
      using that(1) unat_uint_bound [of "sb_size (fs_sb s)"] by (intro unat_of_nat_small) simp
    ultimately show False using assms(2) that(2) by (auto simp: good_def)
  qed
  then show ?thesis using assms by (auto simp: bitmap_ok_def map_ok_def good_def)
qed

section \<open>Allocating a block for a file\<close>

lemma alloc_keeps:
  assumes "good sb sz V a" "map_ok sb sz V" "m < unat (sb_size sb)" "blk_free V sb m"
  shows "alloc_view sb m V a = V a" "good sb sz (alloc_view sb m V) a"
proof -
  have ne: "a \<noteq> of_nat m"
  proof
    assume "a = of_nat m"
    moreover have "unat (of_nat m :: uint) = m"
      using assms(3) unat_uint_bound [of "sb_size sb"] by (intro unat_of_nat_small) simp
    ultimately show False using assms(1,4) by (simp add: good_def)
  qed
  then show "alloc_view sb m V a = V a" using assms(1,3) by (simp add: alloc_view_def good_def)
  have "unat (sb_size sb) \<le> 2 ^ 32" using unat_uint_bound [of "sb_size sb"] by simp
  then show "good sb sz (alloc_view sb m V) a"
    using assms blk_free_alloc [of "unat (sb_size sb)" m sb "unat a" V] by (auto simp: good_def map_ok_def)
qed

lemma alloc_new:
  assumes "map_ok sb sz V" "m < unat (sb_size sb)" "blk_free V sb m"
  shows "good sb sz (alloc_view sb m V) (of_nat m)" "(of_nat m :: uint) \<noteq> 0" "i < 512 \<Longrightarrow> alloc_view sb m V (of_nat m) i = 0"
    "map_ok sb sz (alloc_view sb m V)" "\<not> good sb sz V (of_nat m)"
proof -
  have N: "unat (sb_size sb) \<le> 2 ^ 32" using unat_uint_bound [of "sb_size sb"] by simp
  have u: "unat (of_nat m :: uint) = m" using assms(2) N by (intro unat_of_nat_small) simp
  note b = blk_free_alloc [OF _ _ assms(2) N, where V = V]
  have bm: "\<forall>c<unat (sb_size sb). (of_nat m :: uint) \<noteq> BBLOCK c sb" using assms by (simp add: map_ok_def)
  show "good sb sz (alloc_view sb m V) (of_nat m)" using assms u b [OF bm] by (simp add: good_def map_ok_def)
  have "m \<noteq> 0" using assms(1,3) unfolding map_ok_def by metis
  then show "(of_nat m :: uint) \<noteq> 0" using u by auto
  show "i < 512 \<Longrightarrow> alloc_view sb m V (of_nat m) i = 0" by (simp add: alloc_view_def zeroed_def)
  have "0 < unat (sb_size sb)" using assms(2) by simp
  then show "map_ok sb sz (alloc_view sb m V)" using assms(1) b [OF bm] by (simp add: map_ok_def)
  show "\<not> good sb sz V (of_nat m)" using u assms(3) by (simp add: good_def)
qed

definition free_blocks :: "'d fs \<Rightarrow> nat" where
  "free_blocks s = card {b. b < unat (sb_size (fs_sb s)) \<and> blk_free (view s) (fs_sb s) b}"

lemma free_blocks_cong: "view s' = view s \<Longrightarrow> fs_sb s' = fs_sb s \<Longrightarrow> free_blocks s' = free_blocks s"
  by (simp add: free_blocks_def)

lemma free_blocks_alloc:
  assumes "allocated k H s m s'" "map_ok (fs_sb s) sz (view s)"
  shows "free_blocks s = Suc (free_blocks s')"
proof -
  let ?N = "unat (sb_size (fs_sb s))" and ?F = "{b. b < unat (sb_size (fs_sb s)) \<and> blk_free (view s) (fs_sb s) b}"
  note a = assms(1) [unfolded allocated_def]
  have "?N \<le> 2 ^ 32" using unat_uint_bound [of "sb_size (fs_sb s)"] by simp
  then have "{b. b < ?N \<and> blk_free (view s') (fs_sb s) b} = ?F - {m}"
    using a blk_free_alloc [of ?N m "fs_sb s" _ "view s"] assms(2) by (auto simp: map_ok_def)
  moreover have "m \<in> ?F" "finite ?F" using a by auto
  ultimately show ?thesis using a restD(1) [of s' s] card_Suc_Diff1 [of ?F m] by (simp add: free_blocks_def)
qed

lemma free_blocks_none: "\<forall>m<unat (sb_size (fs_sb s)). \<not> blk_free (view s) (fs_sb s) m \<Longrightarrow> free_blocks s = 0"
  by (auto simp: free_blocks_def)

lemma slot_alloc:
  assumes "file_ok sb sz V x" "m < unat (sb_size sb)" "blk_free V sb m"
  shows "slot (alloc_view sb m V) x j = slot V x j"
proof -
  have "alloc_view sb m V (i_addrs x 12) = V (i_addrs x 12)" if "i_addrs x 12 \<noteq> 0"
    using alloc_keeps(1) [OF file_okD(3) [OF assms(1), of 12] file_okD(2) [OF assms(1)] assms(2,3)] that
    by (simp add: slot_def)
  then show ?thesis by (simp add: slot_def)
qed

lemma file_ok_alloc:
  assumes "file_ok sb sz V x" "m < unat (sb_size sb)" "blk_free V sb m"
  shows "file_ok sb sz (alloc_view sb m V) x" "j < 141 \<Longrightarrow> slot V x j \<noteq> of_nat m"
proof -
  note d = file_okD [OF assms(1)] and s = slot_alloc [OF assms]
  show "slot V x j \<noteq> of_nat m" if "j < 141" for j
    using d(3) [OF that] alloc_new(2,5) [OF d(2) assms(2,3)] by metis
  show "file_ok sb sz (alloc_view sb m V) x"
    unfolding file_ok_def s using d alloc_keeps(2) [OF _ d(2) assms(2,3)] alloc_new(4) [OF d(2) assms(2,3)] by blast
qed

text \<open>A new block that nothing refers to yet.\<close>

definition unused :: "superblock \<Rightarrow> uint \<Rightarrow> (uint \<Rightarrow> block) \<Rightarrow> inode \<Rightarrow> uint \<Rightarrow> bool" where
  "unused sb sz V x a \<longleftrightarrow> good sb sz V a \<and> a \<noteq> 0 \<and> (\<forall>i<BSIZE. V a i = 0) \<and> (\<forall>j<141. slot V x j \<noteq> a)"

lemma alloc_unused:
  assumes "file_ok sb sz V x" "m < unat (sb_size sb)" "blk_free V sb m"
  shows "unused sb sz (alloc_view sb m V) x (of_nat m)"
  using alloc_new [OF file_okD(2) [OF assms(1)] assms(2,3)] file_ok_alloc(2) [OF assms] slot_alloc [OF assms]
  by (simp add: unused_def)

lemma file_ok_update:
  assumes "file_ok sb sz V x" "j < 141" "a \<noteq> 0" "\<And>i. i < 141 \<Longrightarrow> slot V x i \<noteq> a" "i_dev x' = i_dev x"
    "\<And>i. i < 141 \<Longrightarrow> slot V' x' i = (if i = j then a else slot V x i)" "map_ok sb sz V'" "good sb sz V' a"
    "\<And>b. good sb sz V b \<Longrightarrow> good sb sz V' b"
  shows "file_ok sb sz V' x'"
  using assms file_okD [OF assms(1)] unfolding file_ok_def by (simp, metis)

text \<open>Entering it in the inode.\<close>

lemma get32_zero: "(\<And>i. j \<le> i \<Longrightarrow> i < j + 4 \<Longrightarrow> d i = 0) \<Longrightarrow> get32 d j = 0"
  by (simp add: get32_def)

lemma attach_direct:
  assumes "file_ok sb sz V x" "j \<le> 12" "slot V x j = 0" "unused sb sz V x a"
  defines "x' \<equiv> x\<lparr>i_addrs := (i_addrs x)(j := a)\<rparr>"
  shows "i < 141 \<Longrightarrow> slot V x' i = (if i = j then a else slot V x i)" "file_ok sb sz V x'"
proof -
  have z: "get32 (V a) (4 * (i - 13)) = 0" if "i < 141" for i
    using assms(4) that by (intro get32_zero) (auto simp: unused_def)
  show sl: "slot V x' i = (if i = j then a else slot V x i)" if "i < 141" for i
    using that assms(2,3) z [OF that] by (auto simp: slot_def x'_def)
  have "map_ok sb sz V" using file_okD(2) [OF assms(1)] .
  then show "file_ok sb sz V x'"
    using assms(2,4) sl by (intro file_ok_update [OF assms(1), of j a]) (auto simp: unused_def x'_def)
qed

text \<open>Entering it in the indirect block.\<close>

lemma good_change:
  assumes "good sb sz V c" "map_ok sb sz V"
  shows "good sb sz (V(c := d)) b = good sb sz V b" "map_ok sb sz (V(c := d))"
proof -
  have "blk_free (V(c := d)) sb k = blk_free V sb k" if "k < unat (sb_size sb)" for k
    using that assms(1) by (auto simp: blk_free_def good_def)
  then show "good sb sz (V(c := d)) b = good sb sz V b" "map_ok sb sz (V(c := d))"
    using assms by (auto simp: good_def map_ok_def)
qed

lemma free_blocks_change:
  assumes "good (fs_sb s) sz (view s) c" "view s' = (view s)(c := d)" "fs_sb s' = fs_sb s"
  shows "free_blocks s' = free_blocks s"
proof -
  have "blk_free (view s') (fs_sb s) k = blk_free (view s) (fs_sb s) k" if "k < unat (sb_size (fs_sb s))" for k
    using that assms(1,2) by (auto simp: blk_free_def good_def)
  then have "{b. b < unat (sb_size (fs_sb s)) \<and> blk_free (view s') (fs_sb s) b} =
      {b. b < unat (sb_size (fs_sb s)) \<and> blk_free (view s) (fs_sb s) b}" by auto
  then show ?thesis using assms(3) by (simp add: free_blocks_def)
qed

lemma attach_indirect:
  assumes "file_ok sb sz V x" "k < 128" "i_addrs x 12 = c" "c \<noteq> 0" "slot V x (13 + k) = 0" "unused sb sz V x a"
  defines "V' \<equiv> V(c := put32 (V c) (4 * k) a)"
  shows "i < 141 \<Longrightarrow> slot V' x i = (if i = 13 + k then a else slot V x i)" "file_ok sb sz V' x"
proof -
  have c: "good sb sz V c" using file_okD(3) [OF assms(1), of 12] assms(3,4) by (simp add: slot_def)
  show sl: "slot V' x i = (if i = 13 + k then a else slot V x i)" if "i < 141" for i
  proof -
    have "get32 (put32 (V c) (4 * k) a) (4 * (i - 13)) = (if i = 13 + k then a else get32 (V c) (4 * (i - 13)))" if "13 \<le> i"
    proof (cases "i - 13 = k")
      case False
      then have "4 * (i - 13) + 4 \<le> 4 * k \<or> 4 * k + 4 \<le> 4 * (i - 13)" by linarith
      then show ?thesis using False by (auto simp: get32_put32_other)
    qed (use that in auto)
    then show ?thesis using assms(3,4) by (simp add: slot_def V'_def)
  qed
  note g = good_change [OF c file_okD(2) [OF assms(1)], of "put32 (V c) (4 * k) a", folded V'_def]
  show "file_ok sb sz V' x"
    using assms(2,6) sl g by (intro file_ok_update [OF assms(1), of "13 + k" a]) (auto simp: unused_def)
qed

text \<open>The contents do not change when a zeroed block is entered in an empty slot.\<close>

lemma fbyte_attach:
  assumes "\<And>i. i < 141 \<Longrightarrow> slot V' x' i = (if i = j then a else slot V x i)" "slot V x j = 0" "a \<noteq> 0"
    "\<And>i. i < 512 \<Longrightarrow> V' a i = 0"
    "\<And>i. i < 141 \<Longrightarrow> i \<noteq> 12 \<Longrightarrow> slot V x i \<noteq> 0 \<Longrightarrow> V' (slot V x i) = V (slot V x i)" "n < 140 * 512"
  shows "fbyte V' x' n = fbyte V x n"
proof -
  define i where "i = (if n div 512 < 12 then n div 512 else Suc (n div 512))"
  have i: "i < 141" "i \<noteq> 12" using assms(6) by (auto simp: i_def)
  show ?thesis using assms(1) [OF i(1)] assms(5) [OF i] assms(2-4)
    unfolding fbyte_def fblock_def i_def [symmetric] by (cases "i = j") auto
qed

section \<open>The block map\<close>

text \<open>
  What \<^verbatim>\<open>bmap\<close> leaves: the file has a block for the given number, its contents are as before, and the
  blocks in use that do not belong to it are as before.
\<close>

definition fs_file_ok :: "'d fs \<Rightarrow> nat \<Rightarrow> bool" where
  "fs_file_ok s ip \<longleftrightarrow> file_ok (fs_sb s) (disksize (fs_bc s)) (view s) (inode_of s ip)"

definition kept :: "'d fs \<Rightarrow> nat \<Rightarrow> 'd fs \<Rightarrow> bool" where
  "kept s ip s' \<longleftrightarrow> fs_sb s' = fs_sb s \<and> fs_dev s' = fs_dev s \<and> disksize (fs_bc s') = disksize (fs_bc s) \<and>
     mypid (fs_bc s') = mypid (fs_bc s) \<and>
     (\<exists>f. icache s' = (icache s)(ip := (inode_of s ip)\<lparr>i_addrs := f\<rparr>)) \<and>
     (\<forall>a. good (fs_sb s) (disksize (fs_bc s)) (view s) a \<and> (\<forall>j<141. slot (view s) (inode_of s ip) j \<noteq> a) \<longrightarrow>
       view s' a = view s a \<and> good (fs_sb s) (disksize (fs_bc s)) (view s') a \<and>
       (\<forall>j<141. slot (view s') (inode_of s' ip) j \<noteq> a))"

definition mapped_block :: "nat \<Rightarrow> 'd fs \<Rightarrow> nat \<Rightarrow> nat \<Rightarrow> uint \<Rightarrow> 'd fs \<Rightarrow> bool" where
  "mapped_block k s ip j a s' \<longleftrightarrow> txn k {} s' \<and> fs_file_ok s' ip \<and> kept s ip s' \<and> a \<noteq> 0 \<and>
     slot (view s') (inode_of s' ip) j = a \<and>
     (\<forall>i<141. slot (view s) (inode_of s ip) i \<noteq> 0 \<longrightarrow>
       slot (view s') (inode_of s' ip) i = slot (view s) (inode_of s ip) i) \<and>
     (\<forall>n<MAXFILE * BSIZE. fbyte (view s') (inode_of s' ip) n = fbyte (view s) (inode_of s ip) n)"

lemma kept_refl: "kept s ip s"
  by (auto simp: kept_def intro!: exI [of _ "i_addrs (inode_of s ip)"])

lemma kept_trans:
  assumes "kept s ip s1" "kept s1 ip s2"
  shows "kept s ip s2"
proof -
  obtain f g where "icache s1 = (icache s)(ip := (inode_of s ip)\<lparr>i_addrs := f\<rparr>)"
    "icache s2 = (icache s1)(ip := (inode_of s1 ip)\<lparr>i_addrs := g\<rparr>)" using assms by (auto simp: kept_def)
  then have "\<exists>f. icache s2 = (icache s)(ip := (inode_of s ip)\<lparr>i_addrs := f\<rparr>)" by auto
  then show ?thesis using assms unfolding kept_def by simp
qed

lemma mapped_block_trans:
  assumes "mapped_block l s ip i b s1" "mapped_block k s1 ip j a s2"
  shows "mapped_block k s ip j a s2"
  using assms kept_trans [of s ip s1 s2] by (simp add: mapped_block_def)

text \<open>The effect of entering the newly allocated block \<open>a\<close> in the slot \<open>j\<close>, in terms of the old and the new
  contents \<open>V\<close> and \<open>V'\<close>.\<close>

lemma mapped_blockI:
  assumes "txn k {} s'" "fs_file_ok s ip" "fs_file_ok s' ip" "j < 141" "a \<noteq> 0"
    "fs_sb s' = fs_sb s" "fs_dev s' = fs_dev s" "disksize (fs_bc s') = disksize (fs_bc s)"
    "mypid (fs_bc s') = mypid (fs_bc s)" "icache s' = (icache s)(ip := (inode_of s ip)\<lparr>i_addrs := f\<rparr>)"
    "slot (view s) (inode_of s ip) j = 0" "\<And>i. i < 512 \<Longrightarrow> view s' a i = 0"
    "\<And>i. i < 141 \<Longrightarrow> slot (view s') (inode_of s' ip) i = (if i = j then a else slot (view s) (inode_of s ip) i)"
    "\<not> good (fs_sb s) (disksize (fs_bc s)) (view s) a"
    "\<And>b. good (fs_sb s) (disksize (fs_bc s)) (view s) b \<Longrightarrow> good (fs_sb s) (disksize (fs_bc s)) (view s') b"
    "\<And>b. good (fs_sb s) (disksize (fs_bc s)) (view s) b \<Longrightarrow> b \<noteq> i_addrs (inode_of s ip) 12 \<Longrightarrow> view s' b = view s b"
  shows "mapped_block k s ip j a s'"
proof -
  let ?V = "view s" and ?x = "inode_of s ip"
  note d = file_okD [OF assms(2) [unfolded fs_file_ok_def]]
  have keep: "view s' (slot ?V ?x i) = ?V (slot ?V ?x i)" if "i < 141" "i \<noteq> 12" "slot ?V ?x i \<noteq> 0" for i
  proof -
    have "slot ?V ?x 12 = i_addrs ?x 12" by (simp add: slot_def)
    then have "slot ?V ?x i \<noteq> i_addrs ?x 12" using d(4) [OF that(1), of 12] that by auto
    then show ?thesis using assms(16) d(3) [OF that(1,3)] by blast
  qed
  have "fbyte (view s') (inode_of s' ip) n = fbyte ?V ?x n" if "n < 140 * 512" for n
    using fbyte_attach [OF assms(13,11,5,12) keep that] .
  moreover have "kept s ip s'"
  proof -
    have "view s' b = view s b \<and> good (fs_sb s) (disksize (fs_bc s)) (view s') b \<and>
        (\<forall>j<141. slot (view s') (inode_of s' ip) j \<noteq> b)"
      if "good (fs_sb s) (disksize (fs_bc s)) ?V b" "\<forall>j<141. slot ?V ?x j \<noteq> b" for b
    proof -
      have "b \<noteq> i_addrs ?x 12" using that(2) [rule_format, of 12] by (simp add: slot_def)
      moreover have "a \<noteq> b" using that(1) assms(14) by blast
      ultimately show ?thesis using that assms(13,15,16) by auto
    qed
    then show ?thesis using assms(6-10) unfolding kept_def by blast
  qed
  ultimately show ?thesis using assms(1,3-5,11,13) by (auto simp: mapped_block_def)
qed

lemma need_addr_spec:
  assumes "txn (k + 2) {} s" "fs_file_ok s ip" "j \<le> 12"
  shows "(\<exists>a s'. need_addr s ip j = Ok (a, s') \<and> mapped_block k s ip j a s' \<and> free_blocks s \<le> Suc (free_blocks s')) \<or>
    need_addr s ip j = Panic ''balloc: out of blocks'' \<and> free_blocks s = 0"
proof (cases "i_addrs (inode_of s ip) j = 0")
  case False
  then show ?thesis using assms txn_mono [OF assms(1)] kept_refl [of s ip]
    by (auto simp: need_addr_def mapped_block_def slot_def)
next
  case True
  let ?V = "view s" and ?x = "inode_of s ip" and ?sb = "fs_sb s" and ?sz = "disksize (fs_bc s)"
  note f = assms(2) [unfolded fs_file_ok_def] and d = file_okD [OF assms(2) [unfolded fs_file_ok_def]]
  have "bitmap_ok s {}" using map_ok_bitmap [of s "{}"] d(2) by simp
  then consider m s1 where "balloc s 1 = Ok (of_nat m, s1)" "allocated k {} s m s1"
    | "balloc s 1 = Panic ''balloc: out of blocks''" "free_blocks s = 0"
    using balloc_spec [of k "{}" s] free_blocks_none [of s] assms(1) by auto
  then show ?thesis
  proof cases
    case 1
    note a = 1(2) [unfolded allocated_def]
    note r = restD [of s1 s]
    let ?s' = "set_addr s1 ip j (of_nat m)"
    have sl: "slot ?V ?x j = 0" using True assms(3) by (simp add: slot_def)
    have u: "unused ?sb ?sz (view s1) ?x (of_nat m)" using alloc_unused [OF f, of m] a by simp
    have f1: "file_ok ?sb ?sz (view s1) ?x" using file_ok_alloc(1) [OF f, of m] a by simp
    have s1: "slot (view s1) ?x i = slot ?V ?x i" for i using slot_alloc [OF f, of m] a by simp
    note at = attach_direct [OF f1 assms(3) _ u, unfolded s1, OF sl]
    have "mapped_block k s ip j (of_nat m) ?s'"
    proof (rule mapped_blockI)
      show "txn k {} ?s'" using a by (simp add: set_addr_def)
      show "fs_file_ok ?s' ip" using at(2) a r by (simp add: fs_file_ok_def set_addr_def)
      show "slot (view ?s') (inode_of ?s' ip) i = (if i = j then of_nat m else slot ?V ?x i)" if "i < 141" for i
        using at(1) [OF that] a r by (simp add: set_addr_def)
      show "view ?s' b = ?V b" if "good ?sb ?sz ?V b" for b
        using alloc_keeps(1) [OF that d(2)] a by (simp add: set_addr_def)
      show "good ?sb ?sz (view ?s') b" if "good ?sb ?sz ?V b" for b
        using alloc_keeps(2) [OF that d(2)] a by (simp add: set_addr_def)
      show "\<not> good ?sb ?sz ?V (of_nat m)" using alloc_new(5) [OF d(2)] a by blast
      show "icache ?s' = (icache s)(ip := (inode_of s ip)\<lparr>i_addrs := (i_addrs ?x)(j := of_nat m)\<rparr>)"
        using a r by (simp add: set_addr_def)
    qed (use assms u sl a r in \<open>auto simp: unused_def set_addr_def\<close>)
    moreover have "free_blocks ?s' = free_blocks s1" by (rule free_blocks_cong) (simp_all add: set_addr_def)
    ultimately show ?thesis using True 1 d(1) a r free_blocks_alloc [OF 1(2) d(2)] by (auto simp: need_addr_def)
  next
    case 2
    then show ?thesis using True d(1) by (simp add: need_addr_def)
  qed
qed

text \<open>The entry \<open>k\<close> of the indirect block, which exists.\<close>

lemma indirect_spec:
  assumes "txn (l + 3) {} s" "fs_file_ok s ip" "k < 128" "c = i_addrs (inode_of s ip) 12" "c \<noteq> 0"
  shows "(\<exists>a s'. indirect_entry s ip c k = Ok (a, s') \<and> mapped_block l s ip (13 + k) a s' \<and>
      free_blocks s \<le> Suc (free_blocks s')) \<or>
    indirect_entry s ip c k = Panic ''balloc: out of blocks'' \<and> free_blocks s = 0"
proof -
  let ?V = "view s" and ?x = "inode_of s ip" and ?sb = "fs_sb s" and ?sz = "disksize (fs_bc s)"
  let ?e = "get32 (?V c) (4 * k)"
  note f = assms(2) [unfolded fs_file_ok_def] and d = file_okD [OF assms(2) [unfolded fs_file_ok_def]]
  have c: "good ?sb ?sz ?V c" using d(3) [of 12] assms(4,5) by (simp add: slot_def)
  have e: "slot ?V ?x (13 + k) = ?e" using assms(4,5) by (simp add: slot_def)
  obtain bp s1 where b: "fs_bread s 1 c = Ok (bp, s1)" "txn (l + 3) {c} s1" "fs_held s1 bp c"
      "fs_data s1 bp = ?V c" "view s1 = ?V" "rest s1 = rest s"
    using fs_bread_spec [OF assms(1), of c] c by (auto simp: good_def)
  note r1 = restD [OF b(6)]
  show ?thesis
  proof (cases "?e = 0")
    case False
    obtain s2 where s2: "fs_brelse s1 bp = Ok s2" "txn (l + 3) {} s2" "view s2 = ?V" "rest s2 = rest s"
      using fs_brelse_spec [OF b(2) _ b(3)] b(5,6) by auto
    have "mapped_block l s ip (13 + k) ?e s2"
      using False e assms(2) s2 txn_mono [OF s2(2)] kept_refl [of s ip] restD [OF s2(4)]
      by (simp add: mapped_block_def fs_file_ok_def kept_def)
    moreover have "free_blocks s2 = free_blocks s" using s2(3) restD [OF s2(4)] by (intro free_blocks_cong) simp_all
    ultimately show ?thesis using b(1,4) s2(1) False d(1) by (auto simp: indirect_entry_def Let_def)
  next
    case True
    have fb1: "free_blocks s1 = free_blocks s" using b(5) r1 by (intro free_blocks_cong) simp_all
    have "bitmap_ok s1 {c}" using map_ok_bitmap [of s1 "{c}"] d(2) c b(5) r1 by simp
    then consider m s2 where "balloc s1 1 = Ok (of_nat m, s2)" "allocated (Suc l) {c} s1 m s2"
      | "balloc s1 1 = Panic ''balloc: out of blocks''" "free_blocks s1 = 0"
      using balloc_spec [of "Suc l" "{c}" s1] free_blocks_none [of s1] b(2) by (auto simp: numeral_3_eq_3)
    then show ?thesis
    proof cases
      case 2
      then show ?thesis using b(1,4) True d(1) r1 fb1 by (auto simp: indirect_entry_def Let_def)
    next
      case 1
      let ?a = "of_nat m :: uint"
      note a = 1(2) [unfolded allocated_def b(5) r1]
      have r2: "rest s2 = rest s" using a b(6) by simp
      have h: "fs_held s2 bp c" using a b(3) by blast
      obtain s3 where s3: "fs_put s2 bp (\<lambda>d. put32 d (4 * k) ?a) = Ok s3" "txn l {} s3"
        "view s3 = (view s2)(c := put32 (view s2 c) (4 * k) ?a)" "rest s3 = rest s"
        using fs_put_spec [of l "{c}" s2 c bp "\<lambda>d. put32 d (4 * k) ?a"] a h r2 by auto
      note r3 = restD [OF s3(4)]
      have al: "m < unat (sb_size ?sb)" "blk_free ?V ?sb m" "view s2 = alloc_view ?sb m ?V" using a by simp_all
      have sl: "slot (view s2) ?x i = slot ?V ?x i" for i using slot_alloc [OF f al(1,2)] al(3) by simp
      have f2: "file_ok ?sb ?sz (view s2) ?x" "unused ?sb ?sz (view s2) ?x ?a"
        using file_ok_alloc(1) [OF f al(1,2)] alloc_unused [OF f al(1,2)] al(3) by simp_all
      note at = attach_indirect [OF f2(1) assms(3) assms(4) [symmetric] assms(5) _ f2(2), folded s3(3), unfolded sl e, OF True]
      have c2: "good ?sb ?sz (view s2) c" using alloc_keeps(2) [OF c d(2) al(1,2)] al(3) by simp
      have g: "good ?sb ?sz (view s3) b" if "good ?sb ?sz ?V b" for b
        using alloc_keeps(2) [OF that d(2) al(1,2)] good_change(1) [OF c2 file_okD(2) [OF f2(1)]] s3(3) al(3) by simp
      have "mapped_block l s ip (13 + k) ?a s3"
      proof (rule mapped_blockI)
        show "fs_file_ok s3 ip" using at(2) r3 by (simp add: fs_file_ok_def)
        show "slot (view s3) (inode_of s3 ip) i = (if i = 13 + k then ?a else slot ?V ?x i)" if "i < 141" for i
          using at(1) [OF that] r3 by simp
        show "view s3 b = ?V b" if "good ?sb ?sz ?V b" "b \<noteq> i_addrs ?x 12" for b
          using alloc_keeps(1) [OF that(1) d(2) al(1,2)] that(2) s3(3) al(3) assms(4) by simp
        show "\<not> good ?sb ?sz ?V ?a" using alloc_new(5) [OF d(2) al(1,2)] .
        show "icache s3 = (icache s)(ip := ?x\<lparr>i_addrs := i_addrs ?x\<rparr>)" using r3 by simp
        have "?a \<noteq> c" using f2(2) sl assms(4) by (auto simp: unused_def slot_def dest!: spec [of _ 12])
        then show "view s3 ?a i = 0" if "i < 512" for i using f2(2) that s3(3) by (simp add: unused_def)
      qed (use assms s3 r3 f2(2) True e g in \<open>auto simp: unused_def\<close>)
      moreover have "free_blocks s3 = free_blocks s2" using free_blocks_change [of s2 ?sz c s3] c2 s3(3) r3 restD [OF r2] by simp
      moreover have "free_blocks s = Suc (free_blocks s2)"
        using free_blocks_alloc [OF 1(2)] d(2) b(5) r1 fb1 by simp
      ultimately show ?thesis using b(1,4) 1(1) True d(1) r1 s3(1) by (auto simp: indirect_entry_def Let_def)
    qed
  qed
qed

lemma bmap_spec:
  assumes "txn (k + 5) {} s" "fs_file_ok s ip" "bn < 140"
  shows "(\<exists>a s'. bmap s ip bn = Ok (a, s') \<and> mapped_block k s ip (if bn < 12 then bn else Suc bn) a s' \<and>
      free_blocks s \<le> free_blocks s' + 2) \<or>
    bmap s ip bn = Panic ''balloc: out of blocks'' \<and> free_blocks s < 2"
proof (cases "bn < 12")
  case True
  have "txn (k + 2) {} s" by (rule txn_mono [OF assms(1)]) simp
  then show ?thesis using need_addr_spec [OF _ assms(2), of k bn] True by (auto simp: bmap_def)
next
  case False
  let ?k = "bn - 12"
  have k: "?k < 128" "Suc bn = 13 + ?k" using assms(3) False by auto
  have "txn ((k + 3) + 2) {} s" using assms(1) by (simp add: ac_simps)
  from need_addr_spec [OF this assms(2), of 12]
  consider c s1 where "need_addr s ip 12 = Ok (c, s1)" "mapped_block (k + 3) s ip 12 c s1"
      "free_blocks s \<le> Suc (free_blocks s1)"
    | "need_addr s ip 12 = Panic ''balloc: out of blocks''" "free_blocks s = 0" by auto
  then show ?thesis
  proof cases
    case 1
    have m: "txn (k + 3) {} s1" "fs_file_ok s1 ip" "c = i_addrs (inode_of s1 ip) 12" "c \<noteq> 0"
      using 1(2) by (simp_all add: mapped_block_def slot_def)
    have "bmap s ip bn = indirect_entry s1 ip c ?k" using False k(1) 1(1) by (simp add: bmap_def)
    moreover have "(\<exists>a s'. indirect_entry s1 ip c ?k = Ok (a, s') \<and> mapped_block k s ip (Suc bn) a s' \<and>
        free_blocks s \<le> free_blocks s' + 2) \<or>
      indirect_entry s1 ip c ?k = Panic ''balloc: out of blocks'' \<and> free_blocks s < 2"
      using indirect_spec [OF m(1,2) k(1) m(3,4)] mapped_block_trans [OF 1(2)] 1(3) k(2) by fastforce
    ultimately show ?thesis using False by simp
  qed (use False assms(3) in \<open>simp add: bmap_def\<close>)
qed

section \<open>Reading\<close>

definition slot_no :: "nat \<Rightarrow> nat" where
  "slot_no k = (if k < NDIRECT then k else Suc k)"

lemma slot_no_simps: "slot_no k \<noteq> 12" "k < 140 \<Longrightarrow> slot_no k < 141" "slot_no j = slot_no k \<longleftrightarrow> j = k"
  "fblock V x k = slot V x (slot_no k)"
  by (auto simp: slot_no_def fblock_def)

lemma bmap_present:
  assumes "txn k {} s" "fs_file_ok s ip" "bn < 140" "fblock (view s) (inode_of s ip) bn \<noteq> 0"
  shows "\<exists>s'. bmap s ip bn = Ok (fblock (view s) (inode_of s ip) bn, s') \<and> txn k {} s' \<and> view s' = view s \<and> rest s' = rest s"
proof (cases "bn < 12")
  case True
  then show ?thesis using assms by (auto simp: bmap_def need_addr_def fblock_def slot_def)
next
  case False
  let ?c = "i_addrs (inode_of s ip) 12"
  note d = file_okD [OF assms(2) [unfolded fs_file_ok_def]]
  have e: "?c \<noteq> 0" "fblock (view s) (inode_of s ip) bn = get32 (view s ?c) (4 * (bn - 12))"
    using assms(4) False by (auto simp: fblock_def slot_def split: if_splits)
  have "good (fs_sb s) (disksize (fs_bc s)) (view s) ?c" using d(3) [of 12] e(1) by (simp add: slot_def)
  then have c: "?c < disksize (fs_bc s)" by (simp add: good_def)
  obtain bp s1 s2 where p: "fs_bread s 1 ?c = Ok (bp, s1)" "fs_data s1 bp = view s ?c" "fs_brelse s1 bp = Ok s2"
    "txn k {} s2" "view s2 = view s" "rest s2 = rest s"
    using peek_block [OF assms(1) _ _ c] by auto
  have "indirect_entry s ip ?c (bn - 12) = Ok (get32 (view s ?c) (4 * (bn - 12)), s2)"
    using p assms(4) e(2) d(1) by (simp add: indirect_entry_def Let_def)
  then show ?thesis using False assms(3) e p(4-6) by (simp add: bmap_def need_addr_def)
qed

lemma readi_loop_spec:
  assumes "txn k {} s" "fs_file_ok s ip" "off + rem \<le> 140 * 512"
    "\<And>b. off div 512 \<le> b \<Longrightarrow> b * 512 < off + rem \<Longrightarrow> fblock (view s) (inode_of s ip) b \<noteq> 0"
  shows "\<exists>s'. readi_loop s ip off rem = Ok (map (fbyte (view s) (inode_of s ip)) [off..<off + rem], s') \<and>
    txn k {} s' \<and> view s' = view s \<and> rest s' = rest s"
  using assms
proof (induction rem arbitrary: s off rule: less_induct)
  case (less rem)
  show ?case
  proof (cases "rem = 0")
    case False
    let ?b = "off div 512" and ?m = "min rem (512 - off mod 512)" and ?x = "inode_of s ip"
    let ?a = "fblock (view s) ?x ?b"
    have b: "?b < 140" "?a \<noteq> 0" using less.prems(3,4) False by (auto simp: div_times_less_eq_dividend intro!: less.prems(4))
    note d = file_okD [OF less.prems(2) [unfolded fs_file_ok_def]]
    have a: "?a < disksize (fs_bc s)" using d(3) [of "slot_no ?b"] b by (simp add: slot_no_simps good_def)
    obtain s1 where s1: "bmap s ip ?b = Ok (?a, s1)" "txn k {} s1" "view s1 = view s" "rest s1 = rest s"
      using bmap_present [OF less.prems(1,2) b] by blast
    note r1 = restD [OF s1(4)]
    obtain bp s2 s3 where p: "fs_bread s1 1 ?a = Ok (bp, s2)" "fs_data s2 bp = view s ?a" "rest s2 = rest s"
      "fs_brelse s2 bp = Ok s3" "txn k {} s3" "view s3 = view s" "rest s3 = rest s"
      using peek_block [OF s1(2), of ?a] a r1 s1(3,4) by auto
    note r3 = restD [OF p(7)]
    have eq: "fbyte (view s) ?x (off + j) = view s ?a (off mod 512 + j)" if "j < ?m" for j
    proof -
      have "off mod 512 + j < 512" using that by auto
      then have "(off + j) div 512 = ?b" "(off + j) mod 512 = off mod 512 + j"
        by (auto simp: div_add1_eq [of off] mod_add_left_eq [of off, symmetric])
      then show ?thesis using b(2) by (simp add: fbyte_def)
    qed
    have ds: "map (\<lambda>j. fs_data s2 bp (off mod 512 + j)) [0..<?m] = map (fbyte (view s) ?x) [off..<off + ?m]"
      using eq p(2) by (intro nth_equalityI) auto
    have nx: "off div 512 \<le> (off + ?m) div 512" by (intro div_le_mono) simp
    have "\<exists>s'. readi_loop s3 ip (off + ?m) (rem - ?m) =
        Ok (map (fbyte (view s3) (inode_of s3 ip)) [off + ?m..<off + ?m + (rem - ?m)], s') \<and>
        txn k {} s' \<and> view s' = view s3 \<and> rest s' = rest s3"
    proof (rule less.IH [OF _ p(5)])
      show "rem - ?m < rem" using False by simp
      show "fs_file_ok s3 ip" using less.prems(2) p(6) r3 by (simp add: fs_file_ok_def)
      show "off + ?m + (rem - ?m) \<le> 140 * 512" using less.prems(3) by simp
      show "fblock (view s3) (inode_of s3 ip) b \<noteq> 0" if "(off + ?m) div 512 \<le> b" "b * 512 < off + ?m + (rem - ?m)" for b
        using less.prems(4) [of b] that nx p(6) r3 by simp
    qed
    then obtain s' where s': "readi_loop s3 ip (off + ?m) (rem - ?m) = Ok (map (fbyte (view s) ?x) [off + ?m..<off + rem], s')"
      "txn k {} s'" "view s' = view s" "rest s' = rest s" using p(6,7) r3 by auto
    have "[off..<off + rem] = [off..<off + ?m] @ [off + ?m..<off + rem]"
      using upt_add_eq_append [of off "off + ?m" "rem - ?m"] by simp
    then have "readi_loop s ip off rem = Ok (map (fbyte (view s) ?x) [off..<off + rem], s')"
      using False s1(1) p(1,4) r1 d(1) ds s'(1) by (subst readi_loop.simps) (simp add: Let_def)
    then show ?thesis using s' by blast
  qed (use less.prems(1) in \<open>simp add: readi_loop.simps\<close>)
qed

section \<open>Writing\<close>

text \<open>Changing the data in a block of the file.\<close>

lemma put_block:
  fixes d :: block
  assumes "file_ok sb sz V x" "b < 140" "fblock V x b \<noteq> 0"
  defines "V' \<equiv> V(fblock V x b := d)"
  shows "slot V' x j = slot V x j" "file_ok sb sz V' x"
    "n < 140 * 512 \<Longrightarrow> fbyte V' x n = (if n div 512 = b then d (n mod 512) else fbyte V x n)"
proof -
  let ?a = "fblock V x b"
  note f = file_okD [OF assms(1)]
  have g: "good sb sz V ?a" using f(3) [of "slot_no b"] assms(2,3) by (simp add: slot_no_simps)
  have "i_addrs x 12 \<noteq> ?a" if "i_addrs x 12 \<noteq> 0"
  proof -
    have "slot V x 12 = i_addrs x 12" by (simp add: slot_def)
    then show ?thesis using f(4) [of 12 "slot_no b"] that assms(2) by (auto simp: slot_no_simps)
  qed
  then show sl: "slot V' x j = slot V x j" for j by (auto simp: slot_def V'_def)
  note gc = good_change [OF g f(2), of d, folded V'_def]
  show "file_ok sb sz V' x" unfolding file_ok_def gc(1) sl using f gc(2) by blast
  show "fbyte V' x n = (if n div 512 = b then d (n mod 512) else fbyte V x n)" if "n < 140 * 512"
  proof -
    have "fblock V x (n div 512) = ?a \<longleftrightarrow> n div 512 = b" if "fblock V x (n div 512) \<noteq> 0"
      using that f(4) [of "slot_no (n div 512)" "slot_no b"] assms(2) \<open>n < 140 * 512\<close> by (auto simp: slot_no_simps)
    moreover have "fblock V' x k = fblock V x k" for k by (simp add: fblock_def sl)
    ultimately show ?thesis using assms(3) unfolding fbyte_def
      by (cases "n div 512 = b") (simp_all add: V'_def)
  qed
qed

text \<open>The file \<open>ip\<close> after \<open>src\<close> has been written at \<open>off\<close>.\<close>

definition wrote :: "'d fs \<Rightarrow> nat \<Rightarrow> nat \<Rightarrow> uchar list \<Rightarrow> 'd fs \<Rightarrow> bool" where
  "wrote s ip off src s' \<longleftrightarrow> fs_file_ok s' ip \<and> kept s ip s' \<and>
     (\<forall>n<MAXFILE * BSIZE. fbyte (view s') (inode_of s' ip) n =
       (if off \<le> n \<and> n < off + length src then src ! (n - off) else fbyte (view s) (inode_of s ip) n)) \<and>
     (\<forall>n. off \<le> n \<and> n < off + length src \<longrightarrow> fblock (view s') (inode_of s' ip) (n div BSIZE) \<noteq> 0) \<and>
     (\<forall>b<MAXFILE. fblock (view s) (inode_of s ip) b \<noteq> 0 \<longrightarrow> fblock (view s') (inode_of s' ip) b \<noteq> 0)"

lemma wrote_refl: "fs_file_ok s ip \<Longrightarrow> wrote s ip off [] s"
  using kept_refl [of s ip] by (auto simp: wrote_def)

lemma wrote_append:
  assumes "wrote s ip off xs s1" "wrote s1 ip (off + length xs) ys s2" "off + length xs + length ys \<le> MAXFILE * BSIZE"
  shows "wrote s ip off (xs @ ys) s2"
proof -
  have "fblock (view s2) (inode_of s2 ip) (n div 512) \<noteq> 0" if "off \<le> n" "n < off + length (xs @ ys)" for n
  proof (cases "n < off + length xs")
    case True
    then have "fblock (view s1) (inode_of s1 ip) (n div 512) \<noteq> 0" "n div 512 < 140"
      using that(1) assms(1,3) by (auto simp: wrote_def)
    then show ?thesis using assms(2) by (simp add: wrote_def)
  qed (use that assms(2) in \<open>simp add: wrote_def\<close>)
  moreover have "fbyte (view s2) (inode_of s2 ip) n = (if off \<le> n \<and> n < off + length (xs @ ys)
      then (xs @ ys) ! (n - off) else fbyte (view s) (inode_of s ip) n)" if "n < 140 * 512" for n
  proof -
    have "fbyte (view s2) (inode_of s2 ip) n = (if off + length xs \<le> n \<and> n < off + length xs + length ys
        then ys ! (n - (off + length xs)) else fbyte (view s1) (inode_of s1 ip) n)"
      "fbyte (view s1) (inode_of s1 ip) n = (if off \<le> n \<and> n < off + length xs then xs ! (n - off)
        else fbyte (view s) (inode_of s ip) n)" using that assms(1,2) by (simp_all add: wrote_def)
    then show ?thesis by (auto simp: nth_append)
  qed
  moreover have "kept s ip s2" using assms(1,2) kept_trans unfolding wrote_def by blast
  moreover have "fs_file_ok s2 ip" "\<forall>b<140. fblock (view s) (inode_of s ip) b \<noteq> 0 \<longrightarrow> fblock (view s2) (inode_of s2 ip) b \<noteq> 0"
    using assms(1,2) by (auto simp: wrote_def)
  ultimately show ?thesis by (simp add: wrote_def)
qed

lemma block_span:
  fixes off m n :: nat
  assumes "off mod 512 + m \<le> 512" "off \<le> n" "n < off + m"
  shows "n div 512 = off div 512"
proof -
  have "off = 512 * (off div 512) + off mod 512" by simp
  then have "512 * (off div 512) \<le> n" "n < 512 * (off div 512) + 512" using assms by linarith+
  then show ?thesis by (intro div_nat_eqI) auto
qed

text \<open>One turn of the loop, which writes \<open>m\<close> bytes in one block.\<close>

lemma write_turn:
  assumes "txn (k + 6) {} s" "fs_file_ok s ip" "src \<noteq> []" "off + length src \<le> MAXFILE * BSIZE"
  defines "m \<equiv> min (length src) (BSIZE - off mod BSIZE)"
  shows "(\<exists>s1. writei_loop s ip off src = writei_loop s1 ip (off + m) (drop m src) \<and> txn k {} s1 \<and>
      wrote s ip off (take m src) s1 \<and> free_blocks s \<le> free_blocks s1 + 2) \<or>
    writei_loop s ip off src = Panic ''balloc: out of blocks'' \<and> free_blocks s < 2"
proof -
  let ?b = "off div 512"
  have b: "?b < 140" using assms(3,4) by (cases src) auto
  have m: "m \<le> length src" "off mod 512 + m \<le> 512" by (auto simp: m_def)
  have "txn ((k + 1) + 5) {} s" using assms(1) by (simp add: ac_simps)
  from bmap_spec [OF this assms(2) b, folded slot_no_def]
  consider a s1 where "bmap s ip ?b = Ok (a, s1)" "mapped_block (k + 1) s ip (slot_no ?b) a s1"
      "free_blocks s \<le> free_blocks s1 + 2"
    | "bmap s ip ?b = Panic ''balloc: out of blocks''" "free_blocks s < 2" by blast
  then show ?thesis
  proof cases
    case 2
    then show ?thesis using assms(3) by (subst writei_loop.simps) simp
  next
    case 1
    let ?V = "view s1" and ?x = "inode_of s1 ip" and ?sb = "fs_sb s1" and ?sz = "disksize (fs_bc s1)"
    let ?f = "\<lambda>d i. if off mod 512 \<le> i \<and> i < off mod 512 + m then src ! (i - off mod 512) else d i"
    have mb: "txn (Suc k) {} s1" "fs_file_ok s1 ip" "kept s ip s1" "a \<noteq> 0" "fblock ?V ?x ?b = a"
      "\<And>n. n < 140 * 512 \<Longrightarrow> fbyte ?V ?x n = fbyte (view s) (inode_of s ip) n"
      "\<And>i. i < 141 \<Longrightarrow> slot (view s) (inode_of s ip) i \<noteq> 0 \<Longrightarrow> slot ?V ?x i = slot (view s) (inode_of s ip) i"
      using 1(2) by (simp_all add: mapped_block_def slot_no_simps)
    note f = mb(2) [unfolded fs_file_ok_def]
    have a: "a < ?sz" "i_dev ?x = 1"
      using file_okD(3) [OF f, of "slot_no ?b"] file_okD(1) [OF f] b mb(4,5) by (simp_all add: slot_no_simps good_def)
    obtain bp s2 s3 where p: "fs_bread s1 1 a = Ok (bp, s2)" "fs_put s2 bp ?f = Ok s3" "txn k {} s3"
      "view s3 = ?V(a := ?f (?V a))" "rest s3 = rest s1" "rest s2 = rest s1"
      using change_block [OF mb(1) _ _ a(1), of ?f] by auto
    note r = restD [OF p(5)]
    note pb = put_block [OF f b, unfolded mb(5), OF mb(4), where d = "?f (?V a)", folded p(4)]
    have byte: "fbyte (view s3) ?x n = (if off \<le> n \<and> n < off + m then src ! (n - off) else fbyte ?V ?x n)"
      if "n < 140 * 512" for n
    proof (cases "n div 512 = ?b")
      case True
      have "n = 512 * ?b + n mod 512" "off = 512 * ?b + off mod 512" using True by (metis mult_div_mod_eq)+
      then have "off mod 512 \<le> n mod 512 \<longleftrightarrow> off \<le> n" "n mod 512 < off mod 512 + m \<longleftrightarrow> n < off + m"
        "n mod 512 - off mod 512 = n - off" by linarith+
      then show ?thesis using pb(3) [OF that] True mb(4,5) by (simp add: fbyte_def)
    next
      case False
      then have "\<not> (off \<le> n \<and> n < off + m)" using block_span [OF m(2), of n] by blast
      then show ?thesis using pb(3) [OF that] False by auto
    qed
    have sl: "slot (view s3) ?x j = slot ?V ?x j" for j by (rule pb(1))
    have g: "good ?sb ?sz ?V a" using file_okD(3) [OF f, of "slot_no ?b"] b mb(4,5) by (simp add: slot_no_simps)
    have fb: "free_blocks s3 = free_blocks s1" using free_blocks_change [OF g p(4)] r by simp
    have k13: "kept s1 ip s3"
    proof -
      have "view s3 c = ?V c \<and> good ?sb ?sz (view s3) c \<and> (\<forall>j<141. slot (view s3) (inode_of s3 ip) j \<noteq> c)"
        if "good ?sb ?sz ?V c" "\<forall>j<141. slot ?V ?x j \<noteq> c" for c
      proof -
        have "c \<noteq> a" using that(2) [rule_format, of "slot_no ?b"] b mb(5) by (simp add: slot_no_simps)
        then show ?thesis using that p(4) good_change(1) [OF g file_okD(2) [OF f]] sl r by simp
      qed
      then show ?thesis using r by (auto simp: kept_def intro!: exI [of _ "i_addrs ?x"])
    qed
    have "fblock (view s3) (inode_of s3 ip) (n div 512) \<noteq> 0" if "off \<le> n" "n < off + m" for n
      using block_span [OF m(2) that] mb(4,5) sl r by (simp add: fblock_def)
    moreover have "fblock (view s3) (inode_of s3 ip) b \<noteq> 0" if "b < 140" "fblock (view s) (inode_of s ip) b \<noteq> 0" for b
      using mb(7) [of "slot_no b"] that sl r by (simp add: slot_no_simps)
    moreover have "fs_file_ok s3 ip" using pb(2) r by (simp add: fs_file_ok_def)
    moreover have "length (take m src) = m" using m(1) by simp
    moreover have "fbyte (view s3) (inode_of s3 ip) n = (if off \<le> n \<and> n < off + m then take m src ! (n - off)
        else fbyte (view s) (inode_of s ip) n)" if "n < 140 * 512" for n
      using byte [OF that] mb(6) [OF that] r by (cases "off \<le> n \<and> n < off + m") auto
    ultimately have w: "wrote s ip off (take m src) s3"
      using kept_trans [OF mb(3) k13] unfolding wrote_def by simp
    have "writei_loop s ip off src = writei_loop s3 ip (off + m) (drop m src)"
      using assms(3) 1(1) p(1,2) a(2) by (subst writei_loop.simps) (simp add: Let_def m_def [symmetric])
    then show ?thesis using w p(3) 1(3) fb by auto
  qed
qed

text \<open>The number of blocks that \<open>len\<close> bytes from \<open>off\<close> on lie in.\<close>

definition nblk :: "nat \<Rightarrow> nat \<Rightarrow> nat" where
  "nblk off len = (if len = 0 then 0 else (off mod BSIZE + len + (BSIZE - 1)) div BSIZE)"

lemma nblk_turn:
  fixes off :: nat
  assumes "len \<noteq> 0"
  defines "m \<equiv> min len (BSIZE - off mod BSIZE)"
  shows "nblk off len = Suc (nblk (off + m) (len - m))"
proof (cases "len \<le> 512 - off mod 512")
  case True
  then have "off mod 512 + len \<le> 512" "m = len" by (auto simp: m_def)
  then have "(off mod 512 + len + 511) div 512 = 1" using assms(1) by (intro div_nat_eqI) auto
  then show ?thesis using assms(1) \<open>m = len\<close> by (simp add: nblk_def)
next
  case False
  then have m: "m = 512 - off mod 512" by (simp add: m_def)
  have "off + m = 512 * (off div 512) + 512" using m by (metis add.assoc le_add_diff_inverse mod_less_divisor mult_div_mod_eq order_less_imp_le zero_less_numeral)
  then have z: "(off + m) mod 512 = 0" by simp
  have nz: "len - m \<noteq> 0" using False m by simp
  have "off mod 512 + len + 511 = (len - m + 511) + 512" using False m by simp
  then have "(off mod 512 + len + 511) div 512 = Suc ((len - m + 511) div 512)" by (simp only:)
  then show ?thesis using assms(1) z nz unfolding nblk_def by simp
qed

lemma writei_loop_spec:
  assumes "txn (6 * nblk off (length src) + k) {} s" "fs_file_ok s ip" "off + length src \<le> MAXFILE * BSIZE"
  shows "(\<exists>s'. writei_loop s ip off src = Ok (off + length src, s') \<and> txn k {} s' \<and> wrote s ip off src s') \<or>
    writei_loop s ip off src = Panic ''balloc: out of blocks'' \<and> free_blocks s < 2 * nblk off (length src)"
  using assms
proof (induction "length src" arbitrary: s off src rule: less_induct)
  case less
  show ?case
  proof (cases "src = []")
    case True
    then show ?thesis using less.prems wrote_refl [of s ip off] by (auto simp: writei_loop.simps nblk_def)
  next
    case False
    let ?m = "min (length src) (512 - off mod 512)"
    let ?k = "6 * nblk (off + ?m) (length src - ?m) + k"
    have nb: "nblk off (length src) = Suc (nblk (off + ?m) (length src - ?m))"
      using nblk_turn [of "length src" off] False by simp
    then have "txn (?k + 6) {} s" using less.prems(1) by (simp add: ac_simps)
    from write_turn [OF this less.prems(2) False less.prems(3)]
    consider s1 where "writei_loop s ip off src = writei_loop s1 ip (off + ?m) (drop ?m src)" "txn ?k {} s1"
        "wrote s ip off (take ?m src) s1" "free_blocks s \<le> free_blocks s1 + 2"
      | "writei_loop s ip off src = Panic ''balloc: out of blocks''" "free_blocks s < 2" by blast
    then show ?thesis
    proof cases
      case 1
      have l: "length (drop ?m src) < length src" "length (take ?m src) = ?m" "off + ?m + length (drop ?m src) = off + length src"
        using False by auto
      have "fs_file_ok s1 ip" using 1(3) by (simp add: wrote_def)
      from less.hyps [OF l(1) _ this, of "off + ?m"] 1(2) less.prems(3) l(3)
      consider s' where "writei_loop s1 ip (off + ?m) (drop ?m src) = Ok (off + length src, s')" "txn k {} s'"
          "wrote s1 ip (off + ?m) (drop ?m src) s'"
        | "writei_loop s1 ip (off + ?m) (drop ?m src) = Panic ''balloc: out of blocks''"
          "free_blocks s1 < 2 * nblk (off + ?m) (length src - ?m)" by auto
      then show ?thesis
      proof cases
        case a: 1
        have "wrote s ip off (take ?m src @ drop ?m src) s'"
          using wrote_append [OF 1(3), of "drop ?m src" s'] a(3) l(2) less.prems(3) by simp
        then show ?thesis using 1(1) a(1,2) by auto
      qed (use 1(1,4) nb in simp)
    qed (use nb in simp)
  qed
qed

section \<open>The inode on the disk\<close>

lemma put_addrs_get:
  "k < n \<Longrightarrow> get32 (fold (\<lambda>k d. put32 d (b + 4 * k) (f k)) [0..<n] d) (b + 4 * k) = f k"
  "j + 4 \<le> b \<Longrightarrow> get32 (fold (\<lambda>k d. put32 d (b + 4 * k) (f k)) [0..<n] d) j = get32 d j"
  "j + 2 \<le> b \<Longrightarrow> get16 (fold (\<lambda>k d. put32 d (b + 4 * k) (f k)) [0..<n] d) j = get16 d j"
  by (induction n) (auto simp: block_simps less_Suc_eq)

lemma dinode_roundtrip:
  "get_dinode (put_dinode x off d) off y = y\<lparr>i_type := i_type x, i_major := i_major x, i_minor := i_minor x,
     i_nlink := i_nlink x, i_size := i_size x, i_addrs := \<lambda>k. if k \<le> NDIRECT then i_addrs x k else i_addrs y k\<rparr>"
proof -
  have "get32 (put_dinode x off d) (off + 12 + 4 * k) = i_addrs x k" if "k \<le> 12" for k
    unfolding put_dinode_def Let_def using that by (intro put_addrs_get(1)) simp
  moreover have "get16 (put_dinode x off d) off = i_type x" "get16 (put_dinode x off d) (off + 2) = i_major x"
    "get16 (put_dinode x off d) (off + 4) = i_minor x" "get16 (put_dinode x off d) (off + 6) = i_nlink x"
    "get32 (put_dinode x off d) (off + 8) = i_size x"
    unfolding put_dinode_def Let_def by (simp_all add: put_addrs_get block_simps)
  ultimately show ?thesis by (auto simp: get_dinode_def fun_eq_iff)
qed

lemma iupdate_spec:
  assumes "txn (Suc k) {} s" "i_dev (inode_of s ip) = 1"
  defines "n \<equiv> IBLOCK (i_inum (inode_of s ip)) (fs_sb s)"
  assumes "n < disksize (fs_bc s)"
  shows "\<exists>s'. iupdate s ip = Ok s' \<and> txn k {} s' \<and> rest s' = rest s \<and>
    view s' = (view s)(n := put_dinode (inode_of s ip) (dinode_off (i_inum (inode_of s ip))) (view s n))"
  using change_block [OF assms(1) _ _ assms(4), of "put_dinode (inode_of s ip) (dinode_off (i_inum (inode_of s ip)))"] assms(2)
  by (auto simp: iupdate_def Let_def n_def)

text \<open>The block of the inode is in use and not a block of the file.\<close>

definition own_block :: "'d fs \<Rightarrow> nat \<Rightarrow> uint" where
  "own_block s ip = IBLOCK (i_inum (inode_of s ip)) (fs_sb s)"

definition inode_ok :: "'d fs \<Rightarrow> nat \<Rightarrow> bool" where
  "inode_ok s ip \<longleftrightarrow> fs_file_ok s ip \<and> good (fs_sb s) (disksize (fs_bc s)) (view s) (own_block s ip) \<and>
     (\<forall>j<141. slot (view s) (inode_of s ip) j \<noteq> own_block s ip)"

lemma keptD:
  assumes "kept s ip s'"
  shows "fs_sb s' = fs_sb s" "disksize (fs_bc s') = disksize (fs_bc s)" "mypid (fs_bc s') = mypid (fs_bc s)"
    "i_size (inode_of s' ip) = i_size (inode_of s ip)" "i_inum (inode_of s' ip) = i_inum (inode_of s ip)"
    "i_dev (inode_of s' ip) = i_dev (inode_of s ip)" "i_type (inode_of s' ip) = i_type (inode_of s ip)"
    "own_block s' ip = own_block s ip" "inode_ok s ip \<Longrightarrow> fs_file_ok s' ip \<Longrightarrow> inode_ok s' ip"
  using assms by (auto simp: kept_def own_block_def inode_ok_def)

text \<open>Writing the inode back leaves the contents of the file alone.\<close>

lemma iupdate_contents:
  assumes "txn (Suc k) {} s" "inode_ok s ip"
  shows "\<exists>s'. iupdate s ip = Ok s' \<and> txn k {} s' \<and> rest s' = rest s \<and> inode_ok s' ip \<and>
    (\<forall>j. slot (view s') (inode_of s ip) j = slot (view s) (inode_of s ip) j) \<and>
    (\<forall>n<MAXFILE * BSIZE. fbyte (view s') (inode_of s ip) n = fbyte (view s) (inode_of s ip) n) \<and>
    (\<forall>a. a \<noteq> own_block s ip \<longrightarrow> view s' a = view s a) \<and>
    get_dinode (view s' (own_block s ip)) (dinode_off (i_inum (inode_of s ip))) (inode_of s ip) = inode_of s ip"
proof -
  let ?x = "inode_of s ip" and ?n = "own_block s ip"
  let ?d = "put_dinode ?x (dinode_off (i_inum ?x)) (view s ?n)"
  have g: "good (fs_sb s) (disksize (fs_bc s)) (view s) ?n" "\<And>j. j < 141 \<Longrightarrow> slot (view s) ?x j \<noteq> ?n"
    "file_ok (fs_sb s) (disksize (fs_bc s)) (view s) ?x" using assms(2) by (auto simp: inode_ok_def fs_file_ok_def)
  note f = file_okD [OF g(3)]
  obtain s' where s': "iupdate s ip = Ok s'" "txn k {} s'" "rest s' = rest s" "view s' = (view s)(?n := ?d)"
    using iupdate_spec [OF assms(1) f(1)] g(1) by (auto simp: own_block_def good_def)
  note r = restD [OF s'(3)]
  have "i_addrs ?x 12 \<noteq> ?n" using g(2) [of 12] by (simp add: slot_def)
  then have sl: "slot (view s') ?x j = slot (view s) ?x j" for j using s'(4) by (simp add: slot_def)
  have "fblock (view s) ?x b \<noteq> ?n" if "b < 140" for b using g(2) [of "slot_no b"] that by (simp add: slot_no_simps)
  then have "fbyte (view s') ?x n = fbyte (view s) ?x n" if "n < 140 * 512" for n
    using that s'(4) sl by (simp add: fbyte_def fblock_def)
  moreover have "inode_ok s' ip"
    using g f good_change [OF g(1) f(2), of ?d] sl r s'(4) unfolding inode_ok_def fs_file_ok_def file_ok_def own_block_def
    by simp
  moreover have "get_dinode (view s' ?n) (dinode_off (i_inum ?x)) ?x = ?x"
    using s'(4) by (simp add: dinode_roundtrip cong: if_cong)
  ultimately show ?thesis using s' sl by auto
qed

section \<open>Files as arrays of bytes\<close>

text \<open>The outcome of a write of \<open>src\<close> at \<open>off\<close> that succeeds.\<close>

definition file_written :: "'d fs \<Rightarrow> nat \<Rightarrow> nat \<Rightarrow> uchar list \<Rightarrow> 'd fs \<Rightarrow> bool" where
  "file_written s ip off src s' \<longleftrightarrow> inode_ok s' ip \<and>
     fs_sb s' = fs_sb s \<and> fs_dev s' = fs_dev s \<and> disksize (fs_bc s') = disksize (fs_bc s) \<and>
     unat (i_size (inode_of s' ip)) = (if src = [] then unat (i_size (inode_of s ip))
       else max (unat (i_size (inode_of s ip))) (off + length src)) \<and>
     (\<exists>f z. icache s' = (icache s)(ip := (inode_of s ip)\<lparr>i_addrs := f, i_size := z\<rparr>)) \<and>
     (\<forall>n<MAXFILE * BSIZE. fbyte (view s') (inode_of s' ip) n =
       (if off \<le> n \<and> n < off + length src then src ! (n - off) else fbyte (view s) (inode_of s ip) n)) \<and>
     (\<forall>n. off \<le> n \<and> n < off + length src \<longrightarrow> fblock (view s') (inode_of s' ip) (n div BSIZE) \<noteq> 0) \<and>
     (\<forall>b<MAXFILE. fblock (view s) (inode_of s ip) b \<noteq> 0 \<longrightarrow> fblock (view s') (inode_of s' ip) b \<noteq> 0) \<and>
     (\<forall>a. good (fs_sb s) (disksize (fs_bc s)) (view s) a \<and> a \<noteq> own_block s ip \<and>
       (\<forall>j<141. slot (view s) (inode_of s ip) j \<noteq> a) \<longrightarrow> view s' a = view s a)"

lemma sint_of_nat_small: "n < 2 ^ 31 \<Longrightarrow> sint (of_nat n :: uint) = int n"
  by (simp add: signed_of_nat signed_take_bit_int_eq_self)

lemma size_bound: "off + len \<le> 71680 \<Longrightarrow> unat (of_nat (off + len) :: uint) = off + len"
  by (rule unat_of_nat_small) simp

lemma wrote_file_written:
  assumes "wrote s ip off src s1" "inode_ok s ip" "off + length src \<le> unat (i_size (inode_of s ip)) \<or> src = []"
  shows "file_written s ip off src s1"
proof -
  have k: "kept s ip s1" using assms(1) by (simp add: wrote_def)
  then obtain f where f: "icache s1 = (icache s)(ip := (inode_of s ip)\<lparr>i_addrs := f\<rparr>)" by (auto simp: kept_def)
  then have "icache s1 = (icache s)(ip := (inode_of s ip)\<lparr>i_addrs := f, i_size := i_size (inode_of s ip)\<rparr>)" by simp
  then have "\<exists>f z. icache s1 = (icache s)(ip := (inode_of s ip)\<lparr>i_addrs := f, i_size := z\<rparr>)" by blast
  then show ?thesis using assms k keptD [OF k] by (auto simp: file_written_def wrote_def kept_def)
qed

text \<open>The contents do not depend on the size an inode shows.\<close>

lemma size_irrelevant:
  "slot V (x\<lparr>i_size := z\<rparr>) j = slot V x j" "fblock V (x\<lparr>i_size := z\<rparr>) b = fblock V x b"
  "fbyte V (x\<lparr>i_size := z\<rparr>) n = fbyte V x n"
  by (simp_all add: slot_def fblock_def fbyte_def)

lemma file_ok_size [simp]: "file_ok sb sz V (x\<lparr>i_size := z\<rparr>) = file_ok sb sz V x"
  unfolding file_ok_def size_irrelevant by simp

lemma extended_file_written:
  assumes "wrote s ip off src s1" "off + length src \<le> MAXFILE * BSIZE" "unat (i_size (inode_of s ip)) < off + length src"
    "src \<noteq> []" "rest s2 = rest (set_inode s1 ip (\<lambda>x. x\<lparr>i_size := of_nat (off + length src)\<rparr>))" "inode_ok s2 ip"
    "\<And>j. slot (view s2) (inode_of s1 ip) j = slot (view s1) (inode_of s1 ip) j"
    "\<And>n. n < MAXFILE * BSIZE \<Longrightarrow> fbyte (view s2) (inode_of s1 ip) n = fbyte (view s1) (inode_of s1 ip) n"
    "\<And>a. a \<noteq> own_block s ip \<Longrightarrow> view s2 a = view s1 a"
  shows "file_written s ip off src s2"
proof -
  have k: "kept s ip s1" using assms(1) by (simp add: wrote_def)
  then obtain f where f: "icache s1 = (icache s)(ip := (inode_of s ip)\<lparr>i_addrs := f\<rparr>)" by (auto simp: kept_def)
  note r = restD [OF assms(5)]
  have x: "inode_of s2 ip = (inode_of s1 ip)\<lparr>i_size := of_nat (off + length src)\<rparr>" using r by simp
  have "\<exists>f z. icache s2 = (icache s)(ip := (inode_of s ip)\<lparr>i_addrs := f, i_size := z\<rparr>)" using r f by auto
  moreover have "unat (i_size (inode_of s2 ip)) = max (unat (i_size (inode_of s ip))) (off + length src)"
    using size_bound [of off "length src"] assms(2,3) x by simp
  moreover have "view s2 a = view s a" if "good (fs_sb s) (disksize (fs_bc s)) (view s) a" "a \<noteq> own_block s ip"
      "\<forall>j<141. slot (view s) (inode_of s ip) j \<noteq> a" for a
    using that k assms(9) by (simp add: kept_def)
  moreover have "fblock (view s2) (inode_of s2 ip) b = fblock (view s1) (inode_of s1 ip) b" for b
    using assms(7) by (simp only: x size_irrelevant) (simp add: fblock_def)
  ultimately show ?thesis
    using assms(1,4,6,8) r keptD [OF k] k unfolding file_written_def wrote_def x size_irrelevant by (simp add: kept_def)
qed

lemma writei_spec:
  assumes "txn (6 * nblk (unat off) (length src) + 1 + k) {} s" "inode_ok s ip" "i_type (inode_of s ip) \<noteq> T_DEV"
    "off \<le> i_size (inode_of s ip)" "unat off + length src \<le> MAXFILE * BSIZE"
  shows "(\<exists>s'. writei dv s ip src off = Ok (int (length src), s') \<and> txn k {} s' \<and> file_written s ip (unat off) src s') \<or>
    writei dv s ip src off = Panic ''balloc: out of blocks'' \<and> free_blocks s < 2 * nblk (unat off) (length src)"
proof -
  let ?x = "inode_of s ip" and ?o = "unat off" and ?n = "of_nat (length src) :: uint"
  have n: "unat ?n = length src" "sint ?n = int (length src)" "unat (off + ?n) = ?o + length src"
    using assms(5) size_bound [of 0 "length src"] sint_of_nat_small [of "length src"]
    by (simp_all add: unat_plus_small)
  have g: "\<not> off + ?n < off" "\<not> off + ?n > of_nat (140 * 512)"
    using n(3) assms(5) by (simp_all add: word_less_nat_alt)
  have fk: "fs_file_ok s ip" using assms(2) by (simp add: inode_ok_def)
  have "txn (6 * nblk ?o (length src) + Suc k) {} s" using assms(1) by simp
  from writei_loop_spec [OF this fk assms(5)]
  consider s1 where "writei_loop s ip ?o src = Ok (?o + length src, s1)" "txn (Suc k) {} s1" "wrote s ip ?o src s1"
    | "writei_loop s ip ?o src = Panic ''balloc: out of blocks''" "free_blocks s < 2 * nblk ?o (length src)" by blast
  then show ?thesis
  proof cases
    case 1
    have k1: "kept s ip s1" "fs_file_ok s1 ip" using 1(3) by (simp_all add: wrote_def)
    note kd = keptD [OF k1(1)]
    have ne: "0 < ?n \<longleftrightarrow> src \<noteq> []" using n(1) by (auto simp: word_less_nat_alt)
    show ?thesis
    proof (cases "src \<noteq> [] \<and> ?o + length src > unat (i_size ?x)")
      case False
      have "writei dv s ip src off = Ok (int (length src), s1)"
        using assms(3,4) g n(2) 1(1) False kd ne by (auto simp: writei_def Let_def not_less)
      moreover have "file_written s ip ?o src s1"
        using wrote_file_written [OF 1(3) assms(2)] False by auto
      ultimately show ?thesis using txn_mono [OF 1(2), of k] by auto
    next
      case True
      let ?s = "set_inode s1 ip (\<lambda>x. x\<lparr>i_size := of_nat (?o + length src)\<rparr>)"
      have xo: "inode_ok ?s ip" using kd(9) [OF assms(2) k1(2)]
        by (simp add: inode_ok_def fs_file_ok_def own_block_def size_irrelevant)
      obtain s2 where s2: "iupdate ?s ip = Ok s2" "txn k {} s2" "rest s2 = rest ?s" "inode_ok s2 ip"
        "\<And>j. slot (view s2) (inode_of ?s ip) j = slot (view s1) (inode_of ?s ip) j"
        "\<And>n. n < 140 * 512 \<Longrightarrow> fbyte (view s2) (inode_of ?s ip) n = fbyte (view s1) (inode_of ?s ip) n"
        "\<And>a. a \<noteq> own_block ?s ip \<Longrightarrow> view s2 a = view s1 a"
        using iupdate_contents [OF _ xo, of k] 1(2) by auto
      note r = restD [OF s2(3)]
      have "writei dv s ip src off = Ok (int (length src), s2)"
        using assms(3,4) g n(2) 1(1) True kd ne s2(1) by (auto simp: writei_def Let_def not_less)
      moreover have "file_written s ip ?o src s2"
        using extended_file_written [OF 1(3) assms(5) _ _ s2(3,4)] True s2(5-7) kd(8)
        by (simp add: size_irrelevant own_block_def)
      ultimately show ?thesis using s2(2) by auto
    qed
  next
    case 2
    then show ?thesis using assms(3,4) g by (simp add: writei_def Let_def not_less)
  qed
qed

lemma readi_spec:
  assumes "txn k {} s" "fs_file_ok s ip" "i_type (inode_of s ip) \<noteq> T_DEV" "off \<le> i_size (inode_of s ip)"
    "i_size (inode_of s ip) \<le> of_nat (MAXFILE * BSIZE)" "unat off + unat n < 2 ^ 31"
  defines "m \<equiv> min (unat n) (unat (i_size (inode_of s ip)) - unat off)"
  assumes "\<And>i. unat off \<le> i \<Longrightarrow> i < unat off + m \<Longrightarrow> fblock (view s) (inode_of s ip) (i div BSIZE) \<noteq> 0"
  shows "\<exists>s'. readi dv s ip off n =
    Ok ((int m, map (fbyte (view s) (inode_of s ip)) [unat off..<unat off + m]), s') \<and>
    txn k {} s' \<and> view s' = view s \<and> rest s' = rest s"
proof -
  let ?x = "inode_of s ip" and ?o = "unat off" and ?z = "unat (i_size (inode_of s ip))"
  define n' where "n' = (if off + n > i_size ?x then i_size ?x - off else n)"
  have on: "unat (off + n) = ?o + unat n" using assms(6) by (intro unat_plus_small) simp
  then have g: "\<not> off + n < off" by (simp add: word_less_nat_alt)
  have n': "unat n' = m" using assms(4) on
    by (auto simp: n'_def m_def word_less_nat_alt word_le_nat_alt unat_sub)
  have "m < 2 ^ 31" using assms(6) by (simp add: m_def)
  moreover have "n' = of_nat m" unfolding n' [symmetric] by simp
  ultimately have sn: "sint n' = int m" using sint_of_nat_small by simp
  have bl: "fblock (view s) ?x b \<noteq> 0" if "?o div 512 \<le> b" "b * 512 < ?o + m" "m \<noteq> 0" for b
  proof -
    have "max ?o (b * 512) div 512 = b"
    proof (cases "?o \<le> b * 512")
      case False
      then have "b \<le> ?o div 512" by (simp add: less_eq_div_iff_mult_less_eq)
      then show ?thesis using False that(1) by simp
    qed simp
    then show ?thesis using assms(8) [of "max ?o (b * 512)"] that(2,3) by simp
  qed
  have "?o + m \<le> 140 * 512" using assms(4,5) by (auto simp: m_def word_le_nat_alt)
  then have "\<exists>s'. readi_loop s ip ?o m = Ok (map (fbyte (view s) ?x) [?o..<?o + m], s') \<and>
      txn k {} s' \<and> view s' = view s \<and> rest s' = rest s"
    using readi_loop_spec [OF assms(1,2), of ?o m] bl assms(1) by (cases "m = 0") (simp_all add: readi_loop.simps [of _ _ _ 0])
  then show ?thesis using assms(3,4) g n' sn by (auto simp: readi_def Let_def n'_def [symmetric] not_less)
qed

lemma writei_too_big:
  assumes "i_type (inode_of s ip) \<noteq> T_DEV" "length src < 2 ^ 31"
    "off > i_size (inode_of s ip) \<or> unat off + length src > MAXFILE * BSIZE"
  shows "writei dv s ip src off = Ok (-1, s)"
proof -
  let ?n = "of_nat (length src) :: uint"
  have n: "unat ?n = length src" using assms(2) by (intro unat_of_nat_small) simp
  have "off > i_size (inode_of s ip) \<or> off + ?n < off \<or> off + ?n > 71680"
  proof (cases "unat off + length src < 2 ^ 32")
    case False
    have "unat (off + ?n) = unat off + length src - 4294967296"
      using False n assms(2) unat_uint_bound [of off] by (simp add: unat_word_ariths le_mod_geq)
    moreover have "length src < 4294967296" "4294967296 \<le> unat off + length src" using False assms(2) by simp_all
    ultimately have "unat (off + ?n) < unat off" by linarith
    then show ?thesis by (simp add: word_less_nat_alt)
  next
    case True
    have "unat (off + ?n) = unat off + length src" using True n by (subst unat_plus_small) simp_all
    then show ?thesis using assms(3) by (auto simp: word_less_nat_alt)
  qed
  then show ?thesis using assms(1) by (auto simp: writei_def Let_def)
qed

text \<open>C3: \<^verbatim>\<open>writei\<close> on a regular file inside a transaction with room for its blocks returns the number of bytes
  after making exactly them the contents of the file from the offset on; the file grows to hold them,
  and no block in use that belongs to something else changes. It fails with \<open>-1\<close> and changes nothing when
  the offset is beyond the end of the file or the file would get too large, and otherwise it panics
  only when there are fewer free blocks than two for each block it writes to.\<close>

theorem writei_correct:
  assumes "txn (6 * nblk (unat off) (length src) + 1 + k) {} s" "inode_ok s ip" "i_type (inode_of s ip) \<noteq> T_DEV"
    "length src < 2 ^ 31"
  shows "if off > i_size (inode_of s ip) \<or> unat off + length src > MAXFILE * BSIZE then writei dv s ip src off = Ok (-1, s)
    else (\<exists>s'. writei dv s ip src off = Ok (int (length src), s') \<and> txn k {} s' \<and>
        file_written s ip (unat off) src s') \<or>
      writei dv s ip src off = Panic ''balloc: out of blocks'' \<and> free_blocks s < 2 * nblk (unat off) (length src)"
proof (cases "off > i_size (inode_of s ip) \<or> unat off + length src > MAXFILE * BSIZE")
  case True
  then show ?thesis using writei_too_big [OF assms(3,4)] by simp
next
  case False
  then show ?thesis using writei_spec [OF assms(1-3), of dv] by (auto simp: not_less)
qed

text \<open>C4: What \<^verbatim>\<open>writei\<close> has written, \<^verbatim>\<open>readi\<close> returns.\<close>

theorem readi_after_writei:
  assumes "txn (6 * nblk (unat off) (length src) + 1 + k) {} s" "inode_ok s ip" "i_type (inode_of s ip) \<noteq> T_DEV"
    "off \<le> i_size (inode_of s ip)" "i_size (inode_of s ip) \<le> of_nat (MAXFILE * BSIZE)" "length src < 2 ^ 31"
    "writei dv s ip src off = Ok (r, s1)" "0 \<le> r"
  shows "r = int (length src) \<and> (\<exists>s2. readi dv s1 ip off (of_nat (length src)) = Ok ((r, src), s2) \<and> view s2 = view s1)"
proof -
  let ?n = "length src" and ?o = "unat off"
  have "\<not> ?o + ?n > MAXFILE * BSIZE"
  proof
    assume "?o + ?n > MAXFILE * BSIZE"
    then have "writei dv s ip src off = Ok (-1, s)" using writei_too_big [OF assms(3,6)] by simp
    then show False using assms(7,8) by simp
  qed
  then have b: "?o + ?n \<le> MAXFILE * BSIZE" by simp
  from writei_spec [OF assms(1-4) b, of dv] assms(7)
  have w: "r = int ?n" "txn k {} s1" "file_written s ip ?o src s1" by auto
  note fw = w(3) [unfolded file_written_def]
  obtain f z where x: "inode_of s1 ip = (inode_of s ip)\<lparr>i_addrs := f, i_size := z\<rparr>" using fw by auto
  have n: "unat (of_nat ?n :: uint) = ?n" using b by (intro unat_of_nat_small) simp
  have sz: "off \<le> i_size (inode_of s1 ip)" "i_size (inode_of s1 ip) \<le> of_nat (MAXFILE * BSIZE)"
    "src \<noteq> [] \<Longrightarrow> ?o + ?n \<le> unat (i_size (inode_of s1 ip))"
    using fw assms(4,5) b by (auto simp: word_le_nat_alt split: if_splits)
  then have m: "min ?n (unat (i_size (inode_of s1 ip)) - ?o) = ?n" by (cases "src = []") auto
  have "\<exists>s'. readi dv s1 ip off (of_nat ?n) = Ok ((int ?n, map (fbyte (view s1) (inode_of s1 ip)) [?o..<?o + ?n]), s') \<and>
      txn k {} s' \<and> view s' = view s1 \<and> rest s' = rest s1"
    using readi_spec [OF w(2) _ _ sz(1,2), of "of_nat ?n" dv, unfolded n m] fw x assms(3) b
    by (simp add: inode_ok_def)
  moreover have "map (fbyte (view s1) (inode_of s1 ip)) [?o..<?o + ?n] = src"
    using fw b by (intro nth_equalityI) auto
  ultimately show ?thesis using w(1) by auto
qed

section \<open>An example\<close>

definition sample_file :: inode where
  "sample_file = zero_inode\<lparr>i_dev := 1, i_inum := 1, i_ref := 1, i_valid := True, i_type := T_FILE, i_nlink := 1\<rparr>"

definition file_fs :: "unit fs" where
  "file_fs = sample_fs sample_bits ((\<lambda>_. zero_inode)(0 := sample_file))"

definition no_devices :: "unit devsw" where
  "no_devices = \<lparr>dev_read = (\<lambda>_. None), dev_write = (\<lambda>_. None)\<rparr>"

lemma sample_map_ok: "map_ok sample_sb 1000 sample_bits"
  using sample_bitmap_ok [of "\<lambda>_. zero_inode"] sample_bit [of 0]
  by (simp add: bitmap_ok_def map_ok_def)

lemma file_fs_facts:
  "inode_of file_fs 0 = sample_file" "i_type sample_file \<noteq> T_DEV" "i_size sample_file = 0" "inode_ok file_fs 0"
  "txn (6 * nblk (unat (0 :: uint)) (length [7 :: uchar, 8, 9]) + 1 + 0) {} file_fs"
  "2 \<le> free_blocks file_fs"
proof -
  show x: "inode_of file_fs 0 = sample_file" "i_type sample_file \<noteq> T_DEV" "i_size sample_file = 0"
    by (simp_all add: file_fs_def sample_file_def zero_inode_def)
  have "slot V sample_file j = 0" for V j by (simp add: slot_def sample_file_def zero_inode_def)
  moreover have "IBLOCK 1 sample_sb = 32" by (simp add: IBLOCK_def sample_sb_def)
  moreover have "good sample_sb 1000 sample_bits 32"
    using sample_bit [of 32] by (auto simp: good_def sample_sb_def BBLOCK_def)
  ultimately show "inode_ok file_fs 0" using sample_map_ok x(1)
    by (simp add: inode_ok_def fs_file_ok_def file_ok_def own_block_def file_fs_def sample_file_def)
  show "txn (6 * nblk (unat (0 :: uint)) (length [7 :: uchar, 8, 9]) + 1 + 0) {} file_fs"
    by (simp add: nblk_def file_fs_def sample_txn)
  have "{100, 101} \<subseteq> {b. b < 1000 \<and> blk_free sample_bits sample_sb b}"
    using sample_bit [of 100] sample_bit [of 101] by simp
  from card_mono [OF _ this] show "2 \<le> free_blocks file_fs" by (simp add: free_blocks_def file_fs_def sample_sb_def)
qed

theorem writei_correct_witness:
  "\<exists>s'. writei no_devices file_fs 0 [7, 8, 9] 0 = Ok (3, s') \<and> unat (i_size (inode_of s' 0)) = 3 \<and>
     fbyte (view s') (inode_of s' 0) 1 = 8"
proof -
  have n: "nblk 0 (Suc (Suc (Suc 0))) = 1" by (simp add: nblk_def)
  show ?thesis
    using writei_correct [OF file_fs_facts(5,4), of no_devices] file_fs_facts(1-3,6)
    by (auto simp: file_written_def n)
qed

theorem readi_after_writei_witness:
  "\<exists>s1 s2. writei no_devices file_fs 0 [7, 8, 9] 0 = Ok (3, s1) \<and> readi no_devices s1 0 0 3 = Ok ((3, [7, 8, 9]), s2)"
proof -
  have n: "nblk 0 (Suc (Suc (Suc 0))) = 1" by (simp add: nblk_def)
  obtain s1 where s1: "writei no_devices file_fs 0 [7, 8, 9] 0 = Ok (3, s1)"
    using writei_spec [OF file_fs_facts(5,4), of no_devices] file_fs_facts(1-3,6) by (auto simp: n)
  then show ?thesis
    using readi_after_writei [OF file_fs_facts(5,4), of no_devices 3 s1] file_fs_facts(1-3) by auto
qed

end
