(* ===== verification/Dir.thy ===== *)
theory Dir
  imports Content
begin

text \<open>
  Directories and path names, the upper layers of \<^verbatim>\<open>fs.c\<close>. A name is the array of \<^verbatim>\<open>DIRSIZ\<close> characters
  the code passes around, which need not end in a null character; a path is the list of its characters
  up to the terminating one. The null pointer the routines return when they find nothing is \<open>None\<close>.
\<close>

section \<open>Directory entries\<close>

abbreviation (input) DIRSIZ :: nat where "DIRSIZ \<equiv> 14"
abbreviation (input) ROOTINO :: uint where "ROOTINO \<equiv> 1"

type_synonym name = "nat \<Rightarrow> uchar"

record dirent =
  de_inum :: ushort
  de_name :: name

definition namecmp :: "name \<Rightarrow> name \<Rightarrow> int" where
  "namecmp s t = strncmp s t DIRSIZ"

text \<open>The 16 bytes of a \<^verbatim>\<open>struct dirent\<close>.\<close>

definition get_dirent :: "uchar list \<Rightarrow> dirent" where
  "get_dirent bs = \<lparr>de_inum = get16 (\<lambda>i. bs ! i) 0, de_name = (\<lambda>i. bs ! (2 + i))\<rparr>"

definition put_dirent :: "dirent \<Rightarrow> uchar list" where
  "put_dirent de = map (put16 (\<lambda>i. de_name de (i - 2)) 0 (de_inum de)) [0..<16]"

text \<open>\<^verbatim>\<open>strncpy(de.name, name, DIRSIZ)\<close>: the characters of \<open>name\<close> up to the first null one, then null characters.\<close>

definition copy_name :: "name \<Rightarrow> name" where
  "copy_name name = (\<lambda>i. if 0 \<in> set (map name [0..<Suc i]) then 0 else name i)"

text \<open>The offsets the loops over a directory of the given size go through.\<close>

definition dir_offs :: "uint \<Rightarrow> nat list" where
  "dir_offs sz = map (\<lambda>k. 16 * k) [0..<(unat sz + 15) div 16]"

primrec dirlookup_loop :: "nat list \<Rightarrow> 'd devsw \<Rightarrow> 'd fs \<Rightarrow> nat \<Rightarrow> name \<Rightarrow> ((nat \<times> uint) option \<times> 'd fs) res" where
  "dirlookup_loop [] dv s dp name = Ok (None, s)"
| "dirlookup_loop (off # offs) dv s dp name =
     andthen (readi dv s dp (of_nat off) 16) (\<lambda>((n, bs), s).
       if n \<noteq> 16 then Panic ''dirlookup read''
       else let de = get_dirent bs in
         if de_inum de = 0 then dirlookup_loop offs dv s dp name
         else if namecmp name (de_name de) = 0
         then andthen (iget s (i_dev (inode_of s dp)) (ucast (de_inum de))) (\<lambda>(ip, s).
           Ok (Some (ip, of_nat off), s))
         else dirlookup_loop offs dv s dp name)"

definition dirlookup :: "'d devsw \<Rightarrow> 'd fs \<Rightarrow> nat \<Rightarrow> name \<Rightarrow> ((nat \<times> uint) option \<times> 'd fs) res" where
  "dirlookup dv s dp name =
     (if i_type (inode_of s dp) \<noteq> T_DIR then Panic ''dirlookup not DIR''
      else dirlookup_loop (dir_offs (i_size (inode_of s dp))) dv s dp name)"

text \<open>The loop of \<^verbatim>\<open>dirlink\<close>: the offset of the first unused entry, or \<open>off\<close> past the last one.\<close>

primrec dirlink_slot :: "nat list \<Rightarrow> nat \<Rightarrow> 'd devsw \<Rightarrow> 'd fs \<Rightarrow> nat \<Rightarrow> (nat \<times> 'd fs) res" where
  "dirlink_slot [] lst dv s dp = Ok (lst, s)"
| "dirlink_slot (off # offs) lst dv s dp =
     andthen (readi dv s dp (of_nat off) 16) (\<lambda>((n, bs), s).
       if n \<noteq> 16 then Panic ''dirlink read''
       else if de_inum (get_dirent bs) = 0 then Ok (off, s)
       else dirlink_slot offs lst dv s dp)"

definition dirlink :: "'d devsw \<Rightarrow> 'd fs \<Rightarrow> nat \<Rightarrow> name \<Rightarrow> uint \<Rightarrow> (int \<times> 'd fs) res" where
  "dirlink dv s dp name inum = andthen (dirlookup dv s dp name) (\<lambda>(r, s).
     case r of
       Some (ip, _) \<Rightarrow> andthen (iput s ip) (\<lambda>s. Ok (-1, s))
     | None \<Rightarrow>
         let offs = dir_offs (i_size (inode_of s dp)) in
         andthen (dirlink_slot offs (16 * length offs) dv s dp) (\<lambda>(off, s).
         andthen (writei dv s dp (put_dirent \<lparr>de_inum = ucast inum, de_name = copy_name name\<rparr>) (of_nat off)) (\<lambda>(n, s).
           if n \<noteq> 16 then Panic ''dirlink'' else Ok (0, s))))"

section \<open>Paths\<close>

abbreviation (input) slash :: uchar where "slash \<equiv> 47"

definition skipelem :: "uchar list \<Rightarrow> name \<Rightarrow> (uchar list \<times> name) option" where
  "skipelem path name =
     (let path = dropWhile (\<lambda>c. c = slash) path in
      if path = [] then None
      else let elem = takeWhile (\<lambda>c. c \<noteq> slash) path; len = length elem;
               path = dropWhile (\<lambda>c. c \<noteq> slash) path;
               name = (if len \<ge> DIRSIZ then (\<lambda>i. if i < DIRSIZ then elem ! i else name i)
                       else (\<lambda>i. if i < len then elem ! i else name i)(len := 0))
           in Some (dropWhile (\<lambda>c. c = slash) path, name))"

lemma skipelem_shorter: "skipelem path name = Some (path', name') \<Longrightarrow> length path' < length path"
proof -
  assume a: "skipelem path name = Some (path', name')"
  let ?p = "dropWhile (\<lambda>c. c = 47) path"
  have p: "?p \<noteq> []" "path' = dropWhile (\<lambda>c. c = 47) (dropWhile (\<lambda>c. c \<noteq> 47) ?p)"
    using a by (auto simp: skipelem_def Let_def split: if_splits)
  have "hd ?p \<noteq> 47" using hd_dropWhile [OF p(1)] by blast
  then have "dropWhile (\<lambda>c. c \<noteq> 47) ?p = dropWhile (\<lambda>c. c \<noteq> 47) (tl ?p)" using p(1) by (cases ?p) auto
  then have "length path' \<le> length (dropWhile (\<lambda>c. c \<noteq> 47) (tl ?p))"
    unfolding p(2) by (simp only: length_dropWhile_le)
  also have "\<dots> \<le> length (tl ?p)" by (rule length_dropWhile_le)
  also have "\<dots> < length ?p" using p(1) by simp
  also have "\<dots> \<le> length path" by (rule length_dropWhile_le)
  finally show ?thesis .
qed

text \<open>The loop of \<^verbatim>\<open>namex\<close>. The value is the inode, if any, and the last name copied.\<close>

function namex_loop :: "'d devsw \<Rightarrow> 'd fs \<Rightarrow> nat \<Rightarrow> uchar list \<Rightarrow> bool \<Rightarrow> name \<Rightarrow> ((nat option \<times> name) \<times> 'd fs) res" where
  "namex_loop dv s ip path parent name =
     (case skipelem path name of
        None \<Rightarrow> if parent then andthen (iput s ip) (\<lambda>s. Ok ((None, name), s)) else Ok ((Some ip, name), s)
      | Some (path, name) \<Rightarrow>
          andthen (ilock s ip) (\<lambda>s.
            if i_type (inode_of s ip) \<noteq> T_DIR
            then andthen (iunlockput s ip) (\<lambda>s. Ok ((None, name), s))
            else if parent \<and> path = []
            then andthen (iunlock s ip) (\<lambda>s. Ok ((Some ip, name), s))
            else andthen (dirlookup dv s ip name) (\<lambda>(r, s).
              case r of
                None \<Rightarrow> andthen (iunlockput s ip) (\<lambda>s. Ok ((None, name), s))
              | Some (nxt, _) \<Rightarrow> andthen (iunlockput s ip) (\<lambda>s. namex_loop dv s nxt path parent name))))"
  by pat_completeness auto

termination
  by (relation "measure (\<lambda>(dv, s, ip, path, parent, name). length path)") (auto dest: skipelem_shorter)

declare namex_loop.simps [simp del]

definition namex :: "'d devsw \<Rightarrow> 'd fs \<Rightarrow> nat \<Rightarrow> uchar list \<Rightarrow> bool \<Rightarrow> name \<Rightarrow> ((nat option \<times> name) \<times> 'd fs) res" where
  "namex dv s cwd path parent name =
     (if path \<noteq> [] \<and> hd path = slash
      then andthen (iget s ROOTDEV ROOTINO) (\<lambda>(ip, s). namex_loop dv s ip path parent name)
      else let (ip, s) = idup s cwd in namex_loop dv s ip path parent name)"

definition namei :: "'d devsw \<Rightarrow> 'd fs \<Rightarrow> nat \<Rightarrow> uchar list \<Rightarrow> (nat option \<times> 'd fs) res" where
  "namei dv s cwd path = andthen (namex dv s cwd path False (\<lambda>_. 0)) (\<lambda>((r, _), s). Ok (r, s))"

definition nameiparent :: "'d devsw \<Rightarrow> 'd fs \<Rightarrow> nat \<Rightarrow> uchar list \<Rightarrow> name \<Rightarrow> ((nat option \<times> name) \<times> 'd fs) res" where
  "nameiparent dv s cwd path name = namex dv s cwd path True name"

section \<open>Splitting a path\<close>

text \<open>The reference: the maximal pieces without a slash, the empty ones left out.\<close>

fun split_path :: "uchar list \<Rightarrow> uchar list \<Rightarrow> uchar list list" where
  "split_path acc [] = (if acc = [] then [] else [rev acc])"
| "split_path acc (c # cs) =
     (if c = slash then (if acc = [] then [] else [rev acc]) @ split_path [] cs else split_path (c # acc) cs)"

text \<open>The names that repeated calls of \<^verbatim>\<open>skipelem\<close> copy out.\<close>

function skip_all :: "uchar list \<Rightarrow> name \<Rightarrow> uchar list list" where
  "skip_all path name = (case skipelem path name of
      None \<Rightarrow> [] | Some (path, name) \<Rightarrow> cstrn name DIRSIZ # skip_all path name)"
  by pat_completeness auto

termination
  by (relation "measure (\<lambda>(path, name). length path)") (auto dest: skipelem_shorter)

declare skip_all.simps [simp del]

lemma split_path_elem:
  "split_path acc p = (let e = rev acc @ takeWhile (\<lambda>c. c \<noteq> slash) p in
     (if e = [] then [] else [e]) @ split_path [] (dropWhile (\<lambda>c. c \<noteq> slash) p))"
  by (induction acc p rule: split_path.induct) (auto simp: Let_def)

lemma split_path_slashes: "split_path [] (dropWhile (\<lambda>c. c = slash) p) = split_path [] p"
  by (induction p) auto

lemma cstrn_take:
  assumes "\<And>i. i < length xs \<Longrightarrow> i < n \<Longrightarrow> f i = xs ! i" "0 \<notin> set xs" "length xs < n \<Longrightarrow> f (length xs) = 0"
  shows "cstrn f n = take n xs"
  using assms
proof (induction n arbitrary: f xs)
  case (Suc n)
  then show ?case by (cases xs) (auto simp: cstrn_Suc)
qed simp

text \<open>C34: \<^verbatim>\<open>skipelem\<close> splits a path the way its comment says: calling it until it returns null copies out the parts
  of the path between slashes, in order, without the empty ones and each cut to \<^verbatim>\<open>DIRSIZ\<close> characters.\<close>

theorem skipelem_splits_path:
  assumes "0 \<notin> set path"
  shows "skip_all path name = map (take DIRSIZ) (split_path [] path)"
  using assms
proof (induction path name rule: skip_all.induct)
  case (1 path name)
  let ?p = "dropWhile (\<lambda>c. c = slash) path"
  show ?case
  proof (cases "?p = []")
    case True
    have "split_path [] path = []" using split_path_slashes [of path, unfolded True] by simp
    then show ?thesis using True by (subst skip_all.simps) (simp add: skipelem_def)
  next
    case False
    let ?e = "takeWhile (\<lambda>c. c \<noteq> slash) ?p" and ?q = "dropWhile (\<lambda>c. c = slash) (dropWhile (\<lambda>c. c \<noteq> slash) ?p)"
    obtain name' where s: "skipelem path name = Some (?q, name')" "name' = (if length ?e \<ge> 14 then (\<lambda>i. if i < 14 then ?e ! i else name i)
        else (\<lambda>i. if i < length ?e then ?e ! i else name i)(length ?e := 0))"
      using False by (simp add: skipelem_def Let_def)
    have "hd ?p \<noteq> slash" using hd_dropWhile [OF False] by blast
    then have e: "?e \<noteq> []" using False by (cases ?p) auto
    have z: "0 \<notin> set ?e" "0 \<notin> set ?q" using 1(2) by (auto dest!: set_takeWhileD set_dropWhileD)
    have "cstrn name' 14 = take 14 ?e" using s(2) z(1) by (intro cstrn_take) auto
    moreover have "split_path [] path = ?e # split_path [] ?q"
      using split_path_slashes [of path] split_path_elem [of "[]" ?p] split_path_slashes [of "dropWhile (\<lambda>c. c \<noteq> slash) ?p"] e
      by (simp add: Let_def)
    ultimately show ?thesis using 1(1) [OF s(1)] s(1) z(2) by (subst skip_all.simps) simp
  qed
qed

theorem skipelem_splits_path_witness:
  "skip_all [47, 97, 47, 47, 98, 99, 47] (\<lambda>_. 0) = [[97], [98, 99]]"
  using skipelem_splits_path [of "[47, 97, 47, 47, 98, 99, 47]" "\<lambda>_. 0"] by simp

end
