(* ===== verification/Dirmap.thy ===== *)
theory Dirmap
  imports Dir
begin

text \<open>
  Directories as maps: \<^verbatim>\<open>dirlookup\<close> and \<^verbatim>\<open>dirlink\<close> of \<^verbatim>\<open>fs.c\<close> look names up in and add them to the finite map
  that the contents of the directory stand for.
\<close>

section \<open>The inode cache\<close>

text \<open>No inode has two entries in use, and the reference counts are not negative.\<close>

definition refers :: "inode \<Rightarrow> uint \<Rightarrow> uint \<Rightarrow> bool" where
  "refers x dev inum \<longleftrightarrow> 0 < i_ref x \<and> i_dev x = dev \<and> i_inum x = inum"

definition icache_ok :: "'d fs \<Rightarrow> bool" where
  "icache_ok s \<longleftrightarrow> (\<forall>i<NINODE. 0 \<le> i_ref (inode_of s i)) \<and>
     (\<forall>i j d n. i < NINODE \<longrightarrow> j < NINODE \<longrightarrow> refers (inode_of s i) d n \<longrightarrow> refers (inode_of s j) d n \<longrightarrow> i = j)"

lemma icache_okD:
  assumes "icache_ok s"
  shows "i < NINODE \<Longrightarrow> 0 \<le> i_ref (inode_of s i)"
    "i < NINODE \<Longrightarrow> j < NINODE \<Longrightarrow> refers (inode_of s i) d n \<Longrightarrow> refers (inode_of s j) d n \<Longrightarrow> i = j"
  using assms unfolding icache_ok_def by blast+

lemma icache_ok_update:
  assumes ok: "icache_ok s" and x: "0 \<le> i_ref (f (inode_of s ip))"
    and new: "\<And>i d n. i < NINODE \<Longrightarrow> i \<noteq> ip \<Longrightarrow> refers (f (inode_of s ip)) d n \<Longrightarrow> \<not> refers (inode_of s i) d n"
  shows "icache_ok (set_inode s ip f)"
  unfolding icache_ok_def
proof (intro conjI allI impI)
  fix i j d n assume a: "i < NINODE" "j < NINODE"
    and b: "refers (inode_of (set_inode s ip f) i) d n" "refers (inode_of (set_inode s ip f) j) d n"
  show "i = j"
    using b icache_okD(2) [OF ok a, of d n] new [OF a(1), of d n] new [OF a(2), of d n] by (auto split: if_splits)
qed (use icache_okD(1) [OF ok] x in simp)

lemma iget_loop_eq:
  "iget_loop ips t dev inum sl =
     (case find (\<lambda>i. refers (t i) dev inum) ips of
        Some i \<Rightarrow> Inl i
      | None \<Rightarrow> Inr (case sl of Some i \<Rightarrow> Some i | None \<Rightarrow> find (\<lambda>i. i_ref (t i) = 0) ips))"
  by (induction ips arbitrary: sl) (auto simp: refers_def split: option.split)

lemma iget_spec:
  assumes "icache_ok s"
  shows "(\<exists>ip s'. iget s dev inum = Ok (ip, s') \<and> ip < NINODE \<and> icache_ok s' \<and> refers (inode_of s' ip) dev inum \<and>
      (\<forall>i. i \<noteq> ip \<longrightarrow> inode_of s' i = inode_of s i) \<and> view s' = view s \<and>
      (if refers (inode_of s ip) dev inum
       then inode_of s' ip = (inode_of s ip)\<lparr>i_ref := i_ref (inode_of s ip) + 1\<rparr>
       else i_ref (inode_of s ip) = 0 \<and> i_ref (inode_of s' ip) = 1 \<and> \<not> i_valid (inode_of s' ip) \<and>
         (\<forall>i<NINODE. \<not> refers (inode_of s i) dev inum))) \<or>
    iget s dev inum = Panic ''iget: no inodes'' \<and>
      (\<forall>i<NINODE. 0 < i_ref (inode_of s i) \<and> \<not> refers (inode_of s i) dev inum)"
proof (cases "find (\<lambda>i. refers (inode_of s i) dev inum) [0..<50]")
  case (Some ip)
  let ?s = "set_inode s ip (\<lambda>x. x\<lparr>i_ref := i_ref x + 1\<rparr>)"
  have ip: "ip < 50" "refers (inode_of s ip) dev inum" using Some by (auto simp: find_Some_iff)
  moreover have "iget s dev inum = Ok (ip, ?s)" using Some by (simp add: iget_def iget_loop_eq)
  moreover have "icache_ok ?s"
    using ip by (intro icache_ok_update [OF assms]) (auto simp: refers_def dest: icache_okD(2) [OF assms _ _ _ ip(2)])
  ultimately show ?thesis by (intro disjI1 exI [of _ ip] exI [of _ ?s]) (auto simp: refers_def)
next
  case None
  then have none: "\<And>i. i < 50 \<Longrightarrow> \<not> refers (inode_of s i) dev inum" by (auto simp: find_None_iff)
  show ?thesis
  proof (cases "find (\<lambda>i. i_ref (inode_of s i) = 0) [0..<50]")
    case n: None
    then have "0 < i_ref (inode_of s i)" if "i < 50" for i
      using that assms by (auto simp: find_None_iff icache_ok_def order_le_less)
    moreover have "iget s dev inum = Panic ''iget: no inodes''" using None n by (simp add: iget_def iget_loop_eq)
    ultimately show ?thesis using none by blast
  next
    case (Some ip)
    let ?s = "set_inode s ip (\<lambda>x. x\<lparr>i_dev := dev, i_inum := inum, i_ref := 1, i_valid := False\<rparr>)"
    have ip: "ip < 50" "i_ref (inode_of s ip) = 0" using Some by (auto simp: find_Some_iff)
    moreover have "iget s dev inum = Ok (ip, ?s)" using None Some by (simp add: iget_def iget_loop_eq)
    moreover have "icache_ok ?s" using none by (intro icache_ok_update [OF assms]) (auto simp: refers_def)
    ultimately show ?thesis using none by (intro disjI1 exI [of _ ip] exI [of _ ?s]) (auto simp: refers_def)
  qed
qed

section \<open>The map\<close>

definition dent :: "(uint \<Rightarrow> block) \<Rightarrow> inode \<Rightarrow> nat \<Rightarrow> dirent" where
  "dent V x k = get_dirent (map (fbyte V x) [16 * k..<16 * k + 16])"

definition entry_for :: "(uint \<Rightarrow> block) \<Rightarrow> inode \<Rightarrow> uchar list \<Rightarrow> nat \<Rightarrow> bool" where
  "entry_for V x nm k \<longleftrightarrow> de_inum (dent V x k) \<noteq> 0 \<and> cstrn (de_name (dent V x k)) DIRSIZ = nm"

definition dir_len :: "inode \<Rightarrow> nat" where
  "dir_len x = unat (i_size x) div 16"

definition dir_map :: "'d fs \<Rightarrow> nat \<Rightarrow> uchar list \<Rightarrow> ushort option" where
  "dir_map s dp nm = map_option (\<lambda>k. de_inum (dent (view s) (inode_of s dp) k))
     (find (entry_for (view s) (inode_of s dp) nm) [0..<dir_len (inode_of s dp)])"

definition dir_ok :: "'d fs \<Rightarrow> nat \<Rightarrow> bool" where
  "dir_ok s dp \<longleftrightarrow> inode_ok s dp \<and> i_type (inode_of s dp) = T_DIR \<and> unat (i_size (inode_of s dp)) mod 16 = 0 \<and>
     unat (i_size (inode_of s dp)) \<le> MAXFILE * BSIZE \<and>
     (\<forall>n<unat (i_size (inode_of s dp)). fblock (view s) (inode_of s dp) (n div BSIZE) \<noteq> 0)"

lemma dir_okD:
  assumes "dir_ok s dp"
  shows "inode_ok s dp" "fs_file_ok s dp" "i_type (inode_of s dp) = 1"
    "unat (i_size (inode_of s dp)) = 16 * dir_len (inode_of s dp)" "unat (i_size (inode_of s dp)) \<le> MAXFILE * BSIZE"
    "n < unat (i_size (inode_of s dp)) \<Longrightarrow> fblock (view s) (inode_of s dp) (n div BSIZE) \<noteq> 0"
  using assms by (auto simp: dir_ok_def inode_ok_def dir_len_def)

lemma dir_ok_cong: "view s' = view s \<Longrightarrow> rest s' = rest s \<Longrightarrow> dir_ok s' dp = dir_ok s dp"
  using restD [of s' s] by (simp add: dir_ok_def inode_ok_def fs_file_ok_def own_block_def)

lemma dir_map_cong: "view s' = view s \<Longrightarrow> rest s' = rest s \<Longrightarrow> dir_map s' dp = dir_map s dp"
  using restD [of s' s] by (intro ext) (simp add: dir_map_def)

text \<open>Reading one entry.\<close>

lemma read_dirent:
  assumes "txn k {} s" "dir_ok s dp" "j < dir_len (inode_of s dp)"
  shows "\<exists>s'. readi dv s dp (of_nat (16 * j)) 16 =
      Ok ((16, map (fbyte (view s) (inode_of s dp)) [16 * j..<16 * j + 16]), s') \<and>
    txn k {} s' \<and> view s' = view s \<and> rest s' = rest s"
proof -
  note d = dir_okD [OF assms(2)]
  let ?z = "unat (i_size (inode_of s dp))" and ?o = "of_nat (16 * j) :: uint"
  have j: "16 * j + 16 \<le> ?z" using assms(3) d(4) by simp
  have o: "unat ?o = 16 * j" using j d(5) by (intro unat_of_nat_small) simp
  have m: "min (unat (16 :: uint)) (?z - unat ?o) = 16" using j o by simp
  show ?thesis
    using readi_spec [OF assms(1) d(2), of ?o 16 dv, unfolded m o] d(3,5,6) j o
    by (auto simp: word_le_nat_alt)
qed

lemma namecmp_0: "namecmp a b = 0 \<longleftrightarrow> cstrn a DIRSIZ = cstrn b DIRSIZ"
  by (simp add: namecmp_def strncmp_eq_0)

lemma dirlookup_loop_spec:
  fixes name :: name
  assumes "txn k {} s" "dir_ok s dp" "set ks \<subseteq> {..<dir_len (inode_of s dp)}"
  defines "E \<equiv> entry_for (view s) (inode_of s dp) (cstrn name DIRSIZ)"
  shows "\<exists>s'. txn k {} s' \<and> view s' = view s \<and> rest s' = rest s \<and>
    dirlookup_loop (map (\<lambda>j. 16 * j) ks) dv s dp name =
      (case find E ks of
         None \<Rightarrow> Ok (None, s')
       | Some j \<Rightarrow> andthen (iget s' 1 (ucast (de_inum (dent (view s) (inode_of s dp) j))))
           (\<lambda>(ip, s). Ok (Some (ip, of_nat (16 * j)), s)))"
  using assms(1-3) unfolding E_def
proof (induction ks arbitrary: s)
  case Nil
  then show ?case by auto
next
  case (Cons j ks)
  obtain s1 where s1: "readi dv s dp (of_nat (16 * j)) 16 =
      Ok ((16, map (fbyte (view s) (inode_of s dp)) [16 * j..<16 * j + 16]), s1)"
    "txn k {} s1" "view s1 = view s" "rest s1 = rest s"
    using read_dirent [OF Cons.prems(1,2), of j dv] Cons.prems(3) by auto
  note r = restD [OF s1(4)]
  have dv1: "i_dev (inode_of s dp) = 1"
    using file_okD(1) dir_okD(2) [OF Cons.prems(2)] by (auto simp: fs_file_ok_def)
  obtain s2 where IH: "txn k {} s2" "view s2 = view s" "rest s2 = rest s"
    "dirlookup_loop (map (\<lambda>j. 16 * j) ks) dv s1 dp name =
      (case find (entry_for (view s) (inode_of s dp) (cstrn name DIRSIZ)) ks of
         None \<Rightarrow> Ok (None, s2)
       | Some j \<Rightarrow> andthen (iget s2 1 (ucast (de_inum (dent (view s) (inode_of s dp) j))))
           (\<lambda>(ip, s). Ok (Some (ip, of_nat (16 * j)), s)))"
    using Cons.IH [OF s1(2), unfolded r s1(3,4) dir_ok_cong [OF s1(3,4)]] Cons.prems(2,3) by auto
  show ?case
  proof (cases "entry_for (view s) (inode_of s dp) (cstrn name DIRSIZ) j")
    case True
    then show ?thesis using s1 r dv1
      by (intro exI [of _ s1]) (auto simp: entry_for_def dent_def [symmetric] Let_def namecmp_0)
  next
    case False
    then have "dirlookup_loop (map (\<lambda>j. 16 * j) (j # ks)) dv s dp name = dirlookup_loop (map (\<lambda>j. 16 * j) ks) dv s1 dp name"
      using s1(1) by (auto simp: entry_for_def dent_def [symmetric] Let_def namecmp_0)
    then show ?thesis using IH False by (intro exI [of _ s2]) simp
  qed
qed

lemma dir_offs_eq: "dir_ok s dp \<Longrightarrow> dir_offs (i_size (inode_of s dp)) = map (\<lambda>j. 16 * j) [0..<dir_len (inode_of s dp)]"
  using dir_okD(4) [of s dp] by (simp add: dir_offs_def)

lemma dirlookup_spec:
  assumes "txn k {} s" "dir_ok s dp"
  shows "\<exists>s'. txn k {} s' \<and> view s' = view s \<and> rest s' = rest s \<and>
    dirlookup dv s dp name =
      (case find (entry_for (view s) (inode_of s dp) (cstrn name DIRSIZ)) [0..<dir_len (inode_of s dp)] of
         None \<Rightarrow> Ok (None, s')
       | Some j \<Rightarrow> andthen (iget s' 1 (ucast (de_inum (dent (view s) (inode_of s dp) j))))
           (\<lambda>(ip, s). Ok (Some (ip, of_nat (16 * j)), s)))"
  using dirlookup_loop_spec [OF assms, of "[0..<dir_len (inode_of s dp)]" dv name]
    dir_okD(3) [OF assms(2)] dir_offs_eq [OF assms(2)] by (auto simp: dirlookup_def lessThan_atLeast0)

text \<open>The slot \<^verbatim>\<open>dirlink\<close> finds.\<close>

lemma dirlink_slot_spec:
  assumes "txn k {} s" "dir_ok s dp" "set ks \<subseteq> {..<dir_len (inode_of s dp)}"
  shows "\<exists>s'. txn k {} s' \<and> view s' = view s \<and> rest s' = rest s \<and>
    dirlink_slot (map (\<lambda>j. 16 * j) ks) l dv s dp =
      Ok (case find (\<lambda>j. de_inum (dent (view s) (inode_of s dp) j) = 0) ks of None \<Rightarrow> l | Some j \<Rightarrow> 16 * j, s')"
  using assms
proof (induction ks arbitrary: s)
  case Nil
  then show ?case by auto
next
  case (Cons j ks)
  obtain s1 where s1: "readi dv s dp (of_nat (16 * j)) 16 =
      Ok ((16, map (fbyte (view s) (inode_of s dp)) [16 * j..<16 * j + 16]), s1)"
    "txn k {} s1" "view s1 = view s" "rest s1 = rest s"
    using read_dirent [OF Cons.prems(1,2), of j dv] Cons.prems(3) by auto
  note r = restD [OF s1(4)]
  show ?case
    using Cons.IH [OF s1(2), unfolded r s1(3,4) dir_ok_cong [OF s1(3,4)]] Cons.prems(2,3) s1
    by (auto simp: dent_def [symmetric])
qed

text \<open>Writing an entry and reading it back.\<close>

lemma put_dirent_length [simp]: "length (put_dirent de) = 16"
  by (simp add: put_dirent_def)

lemma get_put_dirent:
  "de_inum (get_dirent (put_dirent de)) = de_inum de"
  "cstrn (de_name (get_dirent (put_dirent de))) DIRSIZ = cstrn (de_name de) DIRSIZ"
proof -
  let ?d = "put16 (\<lambda>i. de_name de (i - 2)) 0 (de_inum de)"
  have n: "put_dirent de ! i = ?d i" if "i < 16" for i using that by (simp add: put_dirent_def)
  have "get16 (\<lambda>i. put_dirent de ! i) 0 = get16 ?d 0" by (rule get16_cong) (simp add: n)
  then show "de_inum (get_dirent (put_dirent de)) = de_inum de" by (simp add: get_dirent_def)
  show "cstrn (de_name (get_dirent (put_dirent de))) 14 = cstrn (de_name de) 14"
    by (rule cstrn_cong) (simp add: get_dirent_def n put16_other)
qed

lemma copy_name_Suc: "name 0 \<noteq> 0 \<Longrightarrow> copy_name name (Suc i) = copy_name (\<lambda>i. name (Suc i)) i"
  unfolding copy_name_def set_map set_upt atLeast0_lessThan_Suc_eq_insert_0 [of "Suc i"]
  by (simp add: image_image del: image_Suc_atLeastLessThan)

lemma cstrn_copy_name: "cstrn (copy_name name) n = cstrn name n"
proof (induction n arbitrary: name)
  case (Suc n)
  have "copy_name name 0 = name 0" by (simp add: copy_name_def)
  then show ?case using Suc.IH [of "\<lambda>i. name (Suc i)"] by (simp add: cstrn_Suc copy_name_Suc)
qed simp

text \<open>The first match in a sequence in which one position, until then without a match, changes.\<close>

lemma find_snoc: "find P (xs @ [x]) = (case find P xs of Some y \<Rightarrow> Some y | None \<Rightarrow> if P x then Some x else None)"
  by (induction xs) auto

lemma find_change:
  assumes "e \<le> n" "\<And>j. j < n \<Longrightarrow> j \<noteq> e \<Longrightarrow> Q j = P j" "e < n \<Longrightarrow> \<not> P e"
  shows "find Q [0..<max n (Suc e)] =
    (if Q e \<and> find P [0..<n] = None then Some e else if Q e then find Q [0..<max n (Suc e)] else find P [0..<n])"
proof (cases "e = n")
  case True
  have "find Q [0..<n] = find P [0..<n]" by (rule find_cong) (use assms(2) True in auto)
  then show ?thesis using True find_snoc [of Q "[0..<n]" n] by (simp split: option.split)
next
  case False
  then have n: "e < n" "max n (Suc e) = n" using assms(1) by simp_all
  show ?thesis
  proof (cases "Q e")
    case True
    have "find Q [0..<n] = Some e" if "find P [0..<n] = None"
      using that True assms(2) n(1) unfolding find_None_iff find_Some_iff
      by (intro exI [of _ e]) auto
    then show ?thesis using True n by auto
  next
    case qe: False
    have "find Q [0..<n] = find P [0..<n]"
    proof (rule find_cong)
      show "Q j = P j" if "j \<in> set [0..<n]" for j using that qe assms(2,3) n(1) by (cases "j = e") auto
    qed simp
    then show ?thesis using qe n by simp
  qed
qed

text \<open>The directory after an entry has been written.\<close>

lemma dent_written:
  assumes "file_written s dp (16 * e) (put_dirent de) s'" "16 * e + 16 \<le> MAXFILE * BSIZE" "16 * j + 16 \<le> MAXFILE * BSIZE"
  shows "dent (view s') (inode_of s' dp) j = (if j = e then get_dirent (put_dirent de) else dent (view s) (inode_of s dp) j)"
proof -
  have b: "fbyte (view s') (inode_of s' dp) n = (if 16 * e \<le> n \<and> n < 16 * e + 16 then put_dirent de ! (n - 16 * e)
      else fbyte (view s) (inode_of s dp) n)" if "n < MAXFILE * BSIZE" for n
    using assms(1) that by (simp add: file_written_def)
  have "map (fbyte (view s') (inode_of s' dp)) [16 * e..<16 * e + 16] = put_dirent de"
    by (rule nth_equalityI) (use b assms(2) in auto)
  moreover have "map (fbyte (view s') (inode_of s' dp)) [16 * j..<16 * j + 16] = map (fbyte (view s) (inode_of s dp)) [16 * j..<16 * j + 16]"
    if "j \<noteq> e" by (rule map_cong) (use b assms(3) that in auto)
  ultimately show ?thesis by (cases "j = e") (simp_all only: dent_def if_True if_False simp_thms)
qed

lemma dir_written:
  assumes "dir_ok s dp" "file_written s dp (16 * e) (put_dirent de) s'" "e \<le> dir_len (inode_of s dp)" "16 * e + 16 \<le> MAXFILE * BSIZE"
  shows "dir_ok s' dp" "dir_len (inode_of s' dp) = max (dir_len (inode_of s dp)) (Suc e)"
proof -
  note d = dir_okD [OF assms(1)] and fw = assms(2) [unfolded file_written_def]
  have ne: "put_dirent de \<noteq> []" by (simp add: put_dirent_def)
  have z: "unat (i_size (inode_of s' dp)) = 16 * max (dir_len (inode_of s dp)) (Suc e)"
    using fw ne d(4) by (simp add: nat_mult_max_right)
  then show "dir_len (inode_of s' dp) = max (dir_len (inode_of s dp)) (Suc e)" by (simp add: dir_len_def)
  have "fblock (view s') (inode_of s' dp) (n div 512) \<noteq> 0" if "n < unat (i_size (inode_of s' dp))" for n
  proof (cases "n < unat (i_size (inode_of s dp))")
    case True
    then have "n div 512 < MAXFILE" using d(5) by simp
    then show ?thesis using fw d(6) [OF True] by simp
  next
    case False
    then have "16 * e \<le> n" "n < 16 * e + 16" using that z d(4) assms(3) by (auto simp: max_def split: if_splits)
    then show ?thesis using fw by simp
  qed
  moreover obtain f w where "inode_of s' dp = (inode_of s dp)\<lparr>i_addrs := f, i_size := w\<rparr>" using fw by auto
  ultimately show "dir_ok s' dp" using fw z d(3,4,5) assms(4) unfolding dir_ok_def by auto
qed

lemma dir_map_written:
  fixes name :: name
  assumes "dir_ok s dp" "file_written s dp (16 * e) (put_dirent de) s'" "e \<le> dir_len (inode_of s dp)" "16 * e + 16 \<le> MAXFILE * BSIZE"
    "e < dir_len (inode_of s dp) \<Longrightarrow> de_inum (dent (view s) (inode_of s dp) e) = 0"
    "dir_map s dp (cstrn (de_name de) DIRSIZ) = None" "de_inum de \<noteq> 0"
  shows "dir_map s' dp = (dir_map s dp)(cstrn (de_name de) DIRSIZ \<mapsto> de_inum de)"
proof (rule ext)
  fix nm
  let ?n = "dir_len (inode_of s dp)" and ?P = "entry_for (view s) (inode_of s dp) nm" and ?Q = "entry_for (view s') (inode_of s' dp) nm"
  let ?D = "dent (view s) (inode_of s dp)" and ?D' = "dent (view s') (inode_of s' dp)"
  have len: "16 * ?n \<le> MAXFILE * BSIZE" using dir_okD(4,5) [OF assms(1)] by simp
  have D: "?D' j = (if j = e then get_dirent (put_dirent de) else ?D j)" if "j < ?n \<or> j = e" for j
    using dent_written [OF assms(2,4), of j] that len assms(4) by auto
  have Q: "?Q j = ?P j" if "j < ?n" "j \<noteq> e" for j using D [of j] that by (simp add: entry_for_def)
  have Qe: "?Q e \<longleftrightarrow> nm = cstrn (de_name de) 14" using D [of e] assms(7) get_put_dirent [of de] by (auto simp: entry_for_def)
  have Pe: "\<not> ?P e" if "e < ?n" using assms(5) [OF that] by (simp add: entry_for_def)
  note find_change [where Q = ?Q and P = ?P, OF assms(3) Q Pe, folded dir_written(2) [OF assms(1-4)]]
  moreover have "?D' j = ?D j" if "find ?P [0..<?n] = Some j" for j
  proof -
    have "j < ?n" "?P j" using that by (auto simp: find_Some_iff)
    then show ?thesis using D [of j] Pe by auto
  qed
  ultimately show "dir_map s' dp nm = ((dir_map s dp)(cstrn (de_name de) 14 \<mapsto> de_inum de)) nm"
    using assms(6) Qe D [of e] get_put_dirent(1) [of de]
    by (cases "find ?P [0..<?n]") (auto simp: dir_map_def)
qed

text \<open>
  Taking a reference and releasing it again: \<^verbatim>\<open>iput\<close> has to wait for the lock of the inode, but it is never
  the last reference to an inode with contents, so nothing is truncated.
\<close>

lemma dir_map_eq:
  assumes "view s' = view s" "i_size (inode_of s' dp) = i_size (inode_of s dp)" "i_addrs (inode_of s' dp) = i_addrs (inode_of s dp)"
  shows "dir_map s' dp = dir_map s dp"
proof -
  have "fblock (view s) (inode_of s' dp) = fblock (view s) (inode_of s dp)" using assms(3) by (intro ext) (simp add: fblock_def slot_def)
  then have "fbyte (view s) (inode_of s' dp) = fbyte (view s) (inode_of s dp)" by (intro ext) (simp add: fbyte_def)
  then have "dent (view s) (inode_of s' dp) = dent (view s) (inode_of s dp)" by (intro ext) (simp add: dent_def)
  then show ?thesis using assms(1,2) by (intro ext) (simp add: dir_map_def entry_for_def [abs_def] dir_len_def)
qed

lemma released: "r = Ok (set_inode s ip f) \<Longrightarrow> \<forall>x. i_size (f x) = i_size x \<and> i_addrs (f x) = i_addrs x \<Longrightarrow>
    \<exists>ip f. r = Ok (set_inode s ip f) \<and> (\<forall>x. i_size (f x) = i_size x \<and> i_addrs (f x) = i_addrs x)"
  by blast

lemma iget_iput:
  assumes "icache_ok s" "\<forall>i<NINODE. i_ref (inode_of s i) = 0 \<longrightarrow> \<not> locked (i_lock (inode_of s i))"
  shows "if \<exists>ip<NINODE. refers (inode_of s ip) dev inum \<and> locked (i_lock (inode_of s ip))
    then andthen (iget s dev inum) (\<lambda>(ip, s). iput s ip) = Blocked
    else (\<exists>ip f. andthen (iget s dev inum) (\<lambda>(ip, s). iput s ip) = Ok (set_inode s ip f) \<and>
        (\<forall>x. i_size (f x) = i_size x \<and> i_addrs (f x) = i_addrs x)) \<or>
      andthen (iget s dev inum) (\<lambda>(ip, s). iput s ip) = Panic ''iget: no inodes'' \<and> (\<forall>i<NINODE. 0 < i_ref (inode_of s i))"
proof (cases "find (\<lambda>i. refers (inode_of s i) dev inum) [0..<50]")
  case (Some ip)
  then have ip: "ip < 50" "refers (inode_of s ip) dev inum" by (auto simp: find_Some_iff)
  have only: "(\<exists>ip<50. refers (inode_of s ip) dev inum \<and> locked (i_lock (inode_of s ip))) = locked (i_lock (inode_of s ip))"
    using icache_okD(2) [OF assms(1) _ _ _ ip(2)] ip by blast
  let ?f = "\<lambda>x. x\<lparr>i_lock := (i_lock x)\<lparr>locked := False, lk_pid := 0\<rparr>\<rparr>"
  have "andthen (iget s dev inum) (\<lambda>(ip, s). iput s ip) = (if locked (i_lock (inode_of s ip)) then Blocked else Ok (set_inode s ip ?f))"
    using Some ip(2) by (auto simp: iget_def iget_loop_eq iput_def sleeplock_defs refers_def set_inode_def Let_def)
  then show ?thesis using only released [of "andthen (iget s dev inum) (\<lambda>(ip, s). iput s ip)" s ip ?f] by simp
next
  case None
  then have none: "\<And>i. i < 50 \<Longrightarrow> \<not> refers (inode_of s i) dev inum" by (auto simp: find_None_iff)
  show ?thesis
  proof (cases "find (\<lambda>i. i_ref (inode_of s i) = 0) [0..<50]")
    case n: None
    then have "0 < i_ref (inode_of s i)" if "i < 50" for i
      using that assms(1) by (auto simp: find_None_iff icache_ok_def order_le_less)
    then show ?thesis using None n none by (auto simp: iget_def iget_loop_eq)
  next
    case (Some ip)
    then have ip: "ip < 50" "i_ref (inode_of s ip) = 0" by (auto simp: find_Some_iff)
    let ?f = "\<lambda>x. x\<lparr>i_dev := dev, i_inum := inum, i_valid := False, i_lock := (i_lock x)\<lparr>locked := False, lk_pid := 0\<rparr>, i_ref := 0\<rparr>"
    have "andthen (iget s dev inum) (\<lambda>(ip, s). iput s ip) = Ok (set_inode s ip ?f)"
      using None Some assms(2) ip by (simp add: iget_def iget_loop_eq iput_def sleeplock_defs set_inode_def Let_def)
    then show ?thesis using none released [of "andthen (iget s dev inum) (\<lambda>(ip, s). iput s ip)" s ip ?f] by auto
  qed
qed

section \<open>Correctness\<close>

text \<open>C6: \<^verbatim>\<open>dirlookup\<close> finds exactly what the map of the directory has: it returns no inode when the name is not
  there, and otherwise a reference to the inode of the entry together with the offset at which the entry
  stands; only a full inode cache makes it panic. It changes no block.\<close>

theorem dirlookup_correct:
  assumes "txn k {} s" "dir_ok s dp" "icache_ok s"
  shows "case dir_map s dp (cstrn name DIRSIZ) of
      None \<Rightarrow> \<exists>s'. dirlookup dv s dp name = Ok (None, s') \<and> view s' = view s \<and> rest s' = rest s
    | Some inum \<Rightarrow>
        (\<exists>ip j s'. dirlookup dv s dp name = Ok (Some (ip, of_nat (16 * j)), s') \<and> view s' = view s \<and> icache_ok s' \<and>
           refers (inode_of s' ip) ROOTDEV (ucast inum) \<and> j < dir_len (inode_of s dp) \<and>
           entry_for (view s) (inode_of s dp) (cstrn name DIRSIZ) j) \<or>
        dirlookup dv s dp name = Panic ''iget: no inodes'' \<and> (\<forall>i<NINODE. 0 < i_ref (inode_of s i))"
proof -
  obtain s1 where s1: "txn k {} s1" "view s1 = view s" "rest s1 = rest s" "dirlookup dv s dp name =
      (case find (entry_for (view s) (inode_of s dp) (cstrn name DIRSIZ)) [0..<dir_len (inode_of s dp)] of
         None \<Rightarrow> Ok (None, s1)
       | Some j \<Rightarrow> andthen (iget s1 1 (ucast (de_inum (dent (view s) (inode_of s dp) j))))
           (\<lambda>(ip, s). Ok (Some (ip, of_nat (16 * j)), s)))"
    using dirlookup_spec [OF assms(1,2), of dv name] by auto
  note r = restD [OF s1(3)]
  have ok: "icache_ok s1" using assms(3) r by (simp add: icache_ok_def)
  show ?thesis
  proof (cases "find (entry_for (view s) (inode_of s dp) (cstrn name DIRSIZ)) [0..<dir_len (inode_of s dp)]")
    case None
    then show ?thesis using s1 by (auto simp: dir_map_def)
  next
    case (Some j)
    then have j: "j < dir_len (inode_of s dp)" "entry_for (view s) (inode_of s dp) (cstrn name DIRSIZ) j"
      by (auto simp: find_Some_iff)
    let ?n = "ucast (de_inum (dent (view s) (inode_of s dp) j)) :: uint"
    from iget_spec [OF ok, of 1 ?n] consider
      ip s' where "iget s1 1 ?n = Ok (ip, s')" "icache_ok s'" "refers (inode_of s' ip) 1 ?n" "view s' = view s"
      | "iget s1 1 ?n = Panic ''iget: no inodes''" "\<forall>i<50. 0 < i_ref (inode_of s i)"
      unfolding r s1(2) by blast
    then show ?thesis using Some j s1(4) by cases (auto simp: dir_map_def)
  qed
qed

text \<open>\<^verbatim>\<open>dirlink\<close> of a name that is not there reuses an unused entry or appends one.\<close>

lemma dirlink_absent:
  assumes "txn (7 + k) {} s" "dir_ok s dp" "dir_map s dp (cstrn name DIRSIZ) = None" "(ucast inum :: ushort) \<noteq> 0"
    "unat (i_size (inode_of s dp)) + 16 \<le> MAXFILE * BSIZE" "2 \<le> free_blocks s"
  shows "\<exists>s'. dirlink dv s dp name inum = Ok (0, s') \<and> txn k {} s' \<and> dir_ok s' dp \<and>
    dir_map s' dp = (dir_map s dp)(cstrn name DIRSIZ \<mapsto> ucast inum)"
proof -
  let ?n = "dir_len (inode_of s dp)" and ?D = "dent (view s) (inode_of s dp)"
  let ?de = "\<lparr>de_inum = ucast inum, de_name = copy_name name\<rparr>"
  note d = dir_okD [OF assms(2)]
  obtain s1 where s1: "txn (7 + k) {} s1" "view s1 = view s" "rest s1 = rest s" "dirlookup dv s dp name = Ok (None, s1)"
    using dirlookup_spec [OF assms(1,2), of dv name] assms(3) by (auto simp: dir_map_def)
  note ok1 = assms(2) [folded dir_ok_cong [OF s1(2,3)]] and r1 = restD [OF s1(3)]
  define e where "e = (case find (\<lambda>j. de_inum (?D j) = 0) [0..<?n] of None \<Rightarrow> ?n | Some j \<Rightarrow> j)"
  have e: "e \<le> ?n \<and> (e < ?n \<longrightarrow> de_inum (?D e) = 0)"
  proof (cases "find (\<lambda>j. de_inum (?D j) = 0) [0..<?n]")
    case (Some j)
    then have "j < ?n" "de_inum (?D j) = 0" by (auto simp: find_Some_iff)
    then show ?thesis using Some by (simp add: e_def)
  qed (simp add: e_def)
  obtain s2 where s2: "txn (7 + k) {} s2" "view s2 = view s" "rest s2 = rest s"
    "dirlink_slot (dir_offs (i_size (inode_of s dp))) (16 * length (dir_offs (i_size (inode_of s dp)))) dv s1 dp = Ok (16 * e, s2)"
    using dirlink_slot_spec [OF s1(1) ok1, of "[0..<?n]" "16 * ?n" dv] dir_offs_eq [OF assms(2)] s1(2,3) r1
    by (auto simp: e_def lessThan_atLeast0 split: option.splits)
  note ok2 = assms(2) [folded dir_ok_cong [OF s2(2,3)]] and r2 = restD [OF s2(3)]
  have le: "16 * e + 16 \<le> MAXFILE * BSIZE" using e d(4) assms(5) by simp
  have o: "unat (of_nat (16 * e) :: uint) = 16 * e" using le by (intro unat_of_nat_small) simp
  have "nblk (16 * e) 16 = 1"
  proof -
    have "16 * e mod 512 = 16 * (e mod 32)" by (simp add: mult_mod_right)
    moreover have "e mod 32 < 32" by simp
    ultimately show ?thesis by (simp add: nblk_def div_nat_eqI)
  qed
  then have "txn (6 * nblk (unat (of_nat (16 * e) :: uint)) (length (put_dirent ?de)) + 1 + k) {} s2"
    "\<not> free_blocks s2 < 2 * nblk (unat (of_nat (16 * e) :: uint)) (length (put_dirent ?de))"
    using s2 o assms(6) free_blocks_cong [OF s2(2) r2(1)] by simp_all
  moreover have "of_nat (16 * e) \<le> i_size (inode_of s2 dp)" using o e d(4) r2 by (simp add: word_le_nat_alt)
  ultimately obtain s' where s': "writei dv s2 dp (put_dirent ?de) (of_nat (16 * e)) = Ok (16, s')" "txn k {} s'"
    "file_written s2 dp (16 * e) (put_dirent ?de) s'"
    using writei_spec [of "of_nat (16 * e)" "put_dirent ?de" k s2 dp dv] dir_okD(1,3) [OF ok2] le o by auto
  have "dirlink dv s dp name inum = Ok (0, s')"
    using s1(4) s2(4) s'(1) r1 by (simp add: dirlink_def Let_def)
  moreover have "dir_map s' dp = (dir_map s dp)(cstrn name DIRSIZ \<mapsto> ucast inum)"
    using dir_map_written [OF ok2 s'(3) _ le] e r2 s2(2) assms(3,4) dir_map_cong [OF s2(2,3)] by (simp add: cstrn_copy_name)
  moreover have "dir_ok s' dp" using dir_written(1) [OF ok2 s'(3) _ le] e r2 by simp
  ultimately show ?thesis using s'(2) by blast
qed

lemma dirlink_present:
  assumes "txn k {} s" "dir_ok s dp" "dir_map s dp (cstrn name DIRSIZ) = Some n" "icache_ok s"
    "\<forall>i<NINODE. i_ref (inode_of s i) = 0 \<longrightarrow> \<not> locked (i_lock (inode_of s i))"
  shows "if \<exists>ip<NINODE. refers (inode_of s ip) ROOTDEV (ucast n) \<and> locked (i_lock (inode_of s ip))
    then dirlink dv s dp name inum = Blocked
    else (\<exists>s'. dirlink dv s dp name inum = Ok (-1, s') \<and> txn k {} s' \<and> view s' = view s \<and> dir_map s' dp = dir_map s dp) \<or>
      dirlink dv s dp name inum = Panic ''iget: no inodes'' \<and> (\<forall>i<NINODE. 0 < i_ref (inode_of s i))"
proof -
  obtain j s1 where s1: "txn k {} s1" "view s1 = view s" "rest s1 = rest s" and
    l: "dirlookup dv s dp name = andthen (iget s1 1 (ucast n)) (\<lambda>(ip, s). Ok (Some (ip, of_nat (16 * j)), s))"
    using dirlookup_spec [OF assms(1,2), of dv name] assms(3) by (auto simp: dir_map_def)
  note r = restD [OF s1(3)]
  let ?r = "andthen (iget s1 1 (ucast n)) (\<lambda>(ip, s). iput s ip)"
  have d: "dirlink dv s dp name inum = andthen ?r (\<lambda>s. Ok (-1, s))"
    unfolding dirlink_def l by (cases "iget s1 1 (ucast n)") auto
  have m: "dir_map (set_inode s1 ip f) dp = dir_map s dp" if "\<forall>x. i_size (f x) = i_size x \<and> i_addrs (f x) = i_addrs x" for ip f
    using that s1(2) r by (intro dir_map_eq) auto
  have "icache_ok s1" "\<forall>i<NINODE. i_ref (inode_of s1 i) = 0 \<longrightarrow> \<not> locked (i_lock (inode_of s1 i))"
    using assms(4,5) r by (simp_all add: icache_ok_def)
  note g = iget_iput [OF this, of 1 "ucast n", unfolded r]
  show ?thesis
  proof (cases "\<exists>ip<NINODE. refers (inode_of s ip) ROOTDEV (ucast n) \<and> locked (i_lock (inode_of s ip))")
    case True
    then show ?thesis using g d by simp
  next
    case False
    with g consider ip f where "?r = Ok (set_inode s1 ip f)" "\<forall>x. i_size (f x) = i_size x \<and> i_addrs (f x) = i_addrs x"
      | "?r = Panic ''iget: no inodes''" "\<forall>i<NINODE. 0 < i_ref (inode_of s i)" by (simp only: if_False) blast
    then show ?thesis
    proof cases
      case 1
      then have "dirlink dv s dp name inum = Ok (-1, set_inode s1 ip f)" using d by simp
      then show ?thesis using False s1 m [OF 1(2)] by auto
    qed (use False d in simp)
  qed
qed

text \<open>C5: \<^verbatim>\<open>dirlink\<close> in a transaction with room for seven more blocks. When the name is not in the directory, it adds
  exactly this entry to the map of the directory; with at least two free blocks and room in the file
  this cannot fail. When the name is there, the answer is -1 and no block and no entry changes, unless
  the inode cache is full (a panic) or the inode the name stands for is locked. Then \<^verbatim>\<open>dirlink\<close>
  sleeps in \<^verbatim>\<open>iput\<close> until it is unlocked, also when it is the directory itself that the caller has locked.\<close>

theorem dirlink_correct:
  assumes "txn (7 + k) {} s" "dir_ok s dp"
  shows "case dir_map s dp (cstrn name DIRSIZ) of
      None \<Rightarrow> (ucast inum :: ushort) \<noteq> 0 \<and> unat (i_size (inode_of s dp)) + 16 \<le> MAXFILE * BSIZE \<and> 2 \<le> free_blocks s \<longrightarrow>
        (\<exists>s'. dirlink dv s dp name inum = Ok (0, s') \<and> txn k {} s' \<and> dir_ok s' dp \<and>
           dir_map s' dp = (dir_map s dp)(cstrn name DIRSIZ \<mapsto> ucast inum))
    | Some n \<Rightarrow> icache_ok s \<and> (\<forall>i<NINODE. i_ref (inode_of s i) = 0 \<longrightarrow> \<not> locked (i_lock (inode_of s i))) \<longrightarrow>
        (if \<exists>ip<NINODE. refers (inode_of s ip) ROOTDEV (ucast n) \<and> locked (i_lock (inode_of s ip))
         then dirlink dv s dp name inum = Blocked
         else (\<exists>s'. dirlink dv s dp name inum = Ok (-1, s') \<and> txn (7 + k) {} s' \<and> view s' = view s \<and>
             dir_map s' dp = dir_map s dp) \<or>
           dirlink dv s dp name inum = Panic ''iget: no inodes'' \<and> (\<forall>i<NINODE. 0 < i_ref (inode_of s i)))"
proof (cases "dir_map s dp (cstrn name DIRSIZ)")
  case None
  then show ?thesis using dirlink_absent [OF assms None, of inum dv] by simp
next
  case (Some n)
  then show ?thesis using dirlink_present [OF assms Some, of dv inum] by (simp only: option.case) blast
qed

text \<open>\<^verbatim>\<open>iget\<close> keeps at most one entry per inode: it returns the entry the inode has, with one more reference, or
  else takes an unused entry for it, with one reference and no contents; it panics exactly when the
  inode has no entry and all entries are in use. No other entry changes.\<close>

theorem iget_correct:
  assumes "icache_ok s"
  shows "(\<exists>ip s'. iget s dev inum = Ok (ip, s') \<and> ip < NINODE \<and> icache_ok s' \<and> refers (inode_of s' ip) dev inum \<and>
      (\<forall>i. i \<noteq> ip \<longrightarrow> inode_of s' i = inode_of s i) \<and> view s' = view s \<and>
      (if refers (inode_of s ip) dev inum
       then inode_of s' ip = (inode_of s ip)\<lparr>i_ref := i_ref (inode_of s ip) + 1\<rparr>
       else i_ref (inode_of s ip) = 0 \<and> i_ref (inode_of s' ip) = 1 \<and> \<not> i_valid (inode_of s' ip) \<and>
         (\<forall>i<NINODE. \<not> refers (inode_of s i) dev inum))) \<or>
    iget s dev inum = Panic ''iget: no inodes'' \<and>
      (\<forall>i<NINODE. 0 < i_ref (inode_of s i) \<and> \<not> refers (inode_of s i) dev inum)"
  using assms by (rule iget_spec)

theorem iget_correct_witness:
  "\<exists>ip s'. iget demo_fs 1 5 = Ok (ip, s') \<and> refers (inode_of s' ip) 1 5 \<and> i_ref (inode_of s' ip) = 1"
proof -
  have z: "inode_of demo_fs i = zero_inode" for i by (simp add: demo_fs_def)
  then have ok: "icache_ok demo_fs" by (simp add: icache_ok_def refers_def zero_inode_def)
  have n: "\<not> refers (inode_of demo_fs i) 1 5" "\<not> 0 < i_ref (inode_of demo_fs 0)" for i
    using z by (simp_all add: refers_def zero_inode_def)
  from iget_correct [OF ok, of 1 5] show ?thesis
  proof (elim disjE exE)
    fix ip s' assume "iget demo_fs 1 5 = Ok (ip, s') \<and> ip < NINODE \<and> icache_ok s' \<and> refers (inode_of s' ip) 1 5 \<and>
      (\<forall>i. i \<noteq> ip \<longrightarrow> inode_of s' i = inode_of demo_fs i) \<and> view s' = view demo_fs \<and>
      (if refers (inode_of demo_fs ip) 1 5
       then inode_of s' ip = (inode_of demo_fs ip)\<lparr>i_ref := i_ref (inode_of demo_fs ip) + 1\<rparr>
       else i_ref (inode_of demo_fs ip) = 0 \<and> i_ref (inode_of s' ip) = 1 \<and> \<not> i_valid (inode_of s' ip) \<and>
         (\<forall>i<NINODE. \<not> refers (inode_of demo_fs i) 1 5))"
    then show ?thesis using n(1) [of ip] by (intro exI [of _ ip] exI [of _ s']) simp
  qed (use n(2) in simp)
qed

definition sample_dir :: inode where
  "sample_dir = zero_inode\<lparr>i_dev := 1, i_inum := 1, i_ref := 1, i_valid := True, i_type := T_DIR, i_nlink := 1\<rparr>"

definition dir_fs :: "unit fs" where
  "dir_fs = sample_fs sample_bits ((\<lambda>_. zero_inode)(0 := sample_dir))"

definition sample_name :: name where
  "sample_name i = (if i = 0 then 97 else 0)"

lemma dir_fs_facts:
  "dir_ok dir_fs 0" "txn (7 + 0) {} dir_fs" "2 \<le> free_blocks dir_fs" "i_size (inode_of dir_fs 0) = 0" "dir_map dir_fs 0 nm = None"
  "icache_ok dir_fs"
proof -
  show z: "i_size (inode_of dir_fs 0) = 0" by (simp add: dir_fs_def sample_dir_def zero_inode_def)
  then show "dir_map dir_fs 0 nm = None" by (simp add: dir_map_def dir_len_def)
  have "i = 0" if "refers (inode_of dir_fs i) d n" for i d n
    using that by (cases "i = 0") (simp_all add: refers_def dir_fs_def zero_inode_def)
  moreover have "0 \<le> i_ref (inode_of dir_fs i)" for i
    by (simp add: dir_fs_def zero_inode_def sample_dir_def)
  ultimately show "icache_ok dir_fs" unfolding icache_ok_def by blast
  have "slot V sample_dir j = 0" for V j by (simp add: slot_def sample_dir_def zero_inode_def)
  moreover have "IBLOCK 1 sample_sb = 32" by (simp add: IBLOCK_def sample_sb_def)
  moreover have "good sample_sb 1000 sample_bits 32"
    using sample_bit [of 32] by (auto simp: good_def sample_sb_def BBLOCK_def)
  ultimately have "inode_ok dir_fs 0" using sample_map_ok
    by (simp add: inode_ok_def fs_file_ok_def file_ok_def own_block_def dir_fs_def sample_dir_def)
  then show "dir_ok dir_fs 0" using z by (simp add: dir_ok_def dir_fs_def sample_dir_def)
  show "txn (7 + 0) {} dir_fs" by (simp add: dir_fs_def sample_txn)
  show "2 \<le> free_blocks dir_fs" using file_fs_facts(6) by (simp add: free_blocks_def dir_fs_def file_fs_def)
qed

theorem dirlookup_correct_witness: "\<exists>s'. dirlookup no_devices dir_fs 0 sample_name = Ok (None, s') \<and> view s' = view dir_fs"
  using dirlookup_correct [OF dir_fs_facts(2,1,6), of no_devices sample_name] dir_fs_facts(5) by auto

theorem dirlink_correct_witness:
  "\<exists>s'. dirlink no_devices dir_fs 0 sample_name 5 = Ok (0, s') \<and> dir_map s' 0 [97] = Some 5 \<and> dir_map s' 0 [98] = None"
proof -
  have "cstrn sample_name 14 = [97]" by (simp add: cstrn_def sample_name_def upt_rec)
  then show ?thesis using dirlink_correct [where name = sample_name and inum = 5 and dv = no_devices, OF dir_fs_facts(2,1)] dir_fs_facts(3-5) by auto
qed

end
