(* ===== verification/Kheap.thy ===== *)
theory Kheap
  imports Uvm
begin

text \<open>
  The page source of the kernel heap, \<^verbatim>\<open>vm/kheap.c\<close>: the free part of the kernel heap's address range as a
  linked list of regions, sorted by address. The region descriptors are slots of metadata pages, which
  come from \<^verbatim>\<open>kalloc\<close>; both kinds of descriptor are objects of a store indexed by their addresses. A list that
  runs into a cycle makes the loops over it run forever, so they are partial functions; the outcome of a
  routine that does not return is \<open>Blocked\<close>.
\<close>

section \<open>Definitions\<close>

abbreviation (input) KHEAP_START :: uint where "KHEAP_START \<equiv> 0x8E000000"
abbreviation (input) KHEAP_END :: uint where "KHEAP_END \<equiv> 0xFE000000"
abbreviation (input) REGIONS_PER_PAGE :: uint where "REGIONS_PER_PAGE \<equiv> 255"

record vmem_region =
  base_vaddr :: uint
  num_pages :: uint
  r_next :: uint
  metadata_page :: uint

record kheap_metadata_page =
  m_next :: uint
  num_regions :: uint

record kheap =
  kh_mem :: kmem
  kpgdir :: uint
  mpages :: "uint \<Rightarrow> kheap_metadata_page"
  vregions :: "uint \<Rightarrow> vmem_region"
  metadata_pages :: uint
  vmem_free_list_head :: uint

text \<open>The address of \<^verbatim>\<open>regions[i]\<close> of a metadata page.\<close>

definition region_at :: "uint \<Rightarrow> uint \<Rightarrow> uint" where
  "region_at page i = page + 8 + 16 * i"

definition set_region :: "kheap \<Rightarrow> uint \<Rightarrow> (vmem_region \<Rightarrow> vmem_region) \<Rightarrow> kheap" where
  "set_region k r f = k\<lparr>vregions := (vregions k)(r := f (vregions k r))\<rparr>"

definition set_mpage :: "kheap \<Rightarrow> uint \<Rightarrow> (kheap_metadata_page \<Rightarrow> kheap_metadata_page) \<Rightarrow> kheap" where
  "set_mpage k p f = k\<lparr>mpages := (mpages k)(p := f (mpages k p))\<rparr>"

abbreviation (input) returns :: "'a option \<Rightarrow> 'a res" where
  "returns x \<equiv> (case x of None \<Rightarrow> Blocked | Some y \<Rightarrow> Ok y)"

partial_function (option) find_page :: "(uint \<Rightarrow> kheap_metadata_page) \<Rightarrow> uint \<Rightarrow> uint option" where
  "find_page mp cur =
     (if cur = 0 then Some 0
      else if num_regions (mp cur) < REGIONS_PER_PAGE then Some cur
      else find_page mp (m_next (mp cur)))"

text \<open>The slot after those in use becomes the new region's; the value is the null pointer without memory.\<close>

definition take_slot :: "kheap \<Rightarrow> uint \<Rightarrow> uint \<times> kheap" where
  "take_slot k page =
     (let region = region_at page (num_regions (mpages k page));
          k = set_mpage k page (\<lambda>m. m\<lparr>num_regions := num_regions m + 1\<rparr>)
      in (region, set_region k region (\<lambda>r. r\<lparr>metadata_page := page\<rparr>)))"

definition get_new_vmem_region :: "kheap \<Rightarrow> (uint \<times> kheap) res" where
  "get_new_vmem_region k = andthen (returns (find_page (mpages k) (metadata_pages k))) (\<lambda>page.
     if page \<noteq> 0 then Ok (take_slot k page)
     else let (new_page, km) = kalloc (kh_mem k); k = k\<lparr>kh_mem := km\<rparr> in
       if new_page = 0 then Ok (0, k)
       else let k = set_mpage k new_page (\<lambda>m. m\<lparr>num_regions := 0, m_next := metadata_pages k\<rparr>)
            in Ok (take_slot (k\<lparr>metadata_pages := new_page\<rparr>) new_page))"

text \<open>The page before \<open>page\<close> in the list of metadata pages, or null; and \<open>page\<close> itself or, if it is not there, null.\<close>

partial_function (option) page_before :: "(uint \<Rightarrow> kheap_metadata_page) \<Rightarrow> uint \<Rightarrow> uint \<Rightarrow> uint \<Rightarrow> (uint \<times> uint) option" where
  "page_before mp page prev cur =
     (if cur \<noteq> page \<and> cur \<noteq> 0 then page_before mp page cur (m_next (mp cur)) else Some (prev, cur))"

definition recycle_vmem_region :: "kheap \<Rightarrow> uint \<Rightarrow> kheap res" where
  "recycle_vmem_region k region =
     (if region = 0 \<or> metadata_page (vregions k region) = 0 then Ok k
      else let page = metadata_page (vregions k region);
               k = set_mpage k page (\<lambda>m. m\<lparr>num_regions := num_regions m - 1\<rparr>)
           in if num_regions (mpages k page) \<noteq> 0 then Ok k
           else andthen (returns (page_before (mpages k) page 0 (metadata_pages k))) (\<lambda>(prev, cur).
             if cur = 0 then Ok k
             else let k = (if prev \<noteq> 0 then set_mpage k prev (\<lambda>m. m\<lparr>m_next := m_next (mpages k cur)\<rparr>)
                           else k\<lparr>metadata_pages := m_next (mpages k cur)\<rparr>)
                  in andthen (kfree (kh_mem k) page) (\<lambda>km. Ok (k\<lparr>kh_mem := km\<rparr>))))"

text \<open>The first region with enough pages, or null, and the one before it.\<close>

partial_function (option) find_region :: "(uint \<Rightarrow> vmem_region) \<Rightarrow> uint \<Rightarrow> uint \<Rightarrow> uint \<Rightarrow> (uint \<times> uint) option" where
  "find_region rs n prev cur =
     (if cur = 0 \<or> num_pages (rs cur) \<ge> n then Some (prev, cur) else find_region rs n cur (r_next (rs cur)))"

primrec back_pages :: "nat list \<Rightarrow> kmem \<Rightarrow> uint \<Rightarrow> uint \<Rightarrow> kmem res" where
  "back_pages [] s pgdir va = Ok s"
| "back_pages (i # is) s pgdir va =
     (let (p, s) = kalloc s in
      if p = 0 then Panic ''kheap_alloc_pages: out of physical memory''
      else let (_, s) = map_kernel_page s pgdir (va + of_nat i * PGSIZE) (V2P p) (PTE_W OR PTE_P)
           in back_pages is s pgdir va)"

definition set_link :: "kheap \<Rightarrow> uint \<Rightarrow> uint \<Rightarrow> kheap" where
  "set_link k prev nxt =
     (if prev \<noteq> 0 then set_region k prev (\<lambda>r. r\<lparr>r_next := nxt\<rparr>) else k\<lparr>vmem_free_list_head := nxt\<rparr>)"

definition liballoc_alloc :: "kheap \<Rightarrow> uint \<Rightarrow> (uint \<times> kheap) res" where
  "liballoc_alloc k n =
     (if n = 0 then Ok (0, k)
      else andthen (returns (find_region (vregions k) n 0 (vmem_free_list_head k))) (\<lambda>(prev, cur).
        if cur = 0 then Ok (0, k)
        else let va = base_vaddr (vregions k cur) in
          andthen (if num_pages (vregions k cur) = n
                   then recycle_vmem_region (set_link k prev (r_next (vregions k cur))) cur
                   else Ok (set_region k cur (\<lambda>r. r\<lparr>base_vaddr := base_vaddr r + n * PGSIZE, num_pages := num_pages r - n\<rparr>)))
            (\<lambda>k. andthen (back_pages [0..<unat n] (kh_mem k) (kpgdir k) va) (\<lambda>km. Ok (va, k\<lparr>kh_mem := km\<rparr>)))))"

primrec drop_pages :: "nat list \<Rightarrow> kmem \<Rightarrow> uint \<Rightarrow> uint \<Rightarrow> kmem res" where
  "drop_pages [] s pgdir va = Ok s"
| "drop_pages (i # is) s pgdir va =
     andthen (kfree_and_unmap_page s pgdir (va + of_nat i * PGSIZE)) (\<lambda>s. drop_pages is s pgdir va)"

text \<open>The first region that does not start below \<open>va\<close>, or null, and the one before it.\<close>

partial_function (option) free_position :: "(uint \<Rightarrow> vmem_region) \<Rightarrow> uint \<Rightarrow> uint \<Rightarrow> uint \<Rightarrow> (uint \<times> uint) option" where
  "free_position rs va prev cur =
     (if cur \<noteq> 0 \<and> base_vaddr (rs cur) < va then free_position rs va cur (r_next (rs cur)) else Some (prev, cur))"

definition region_end :: "kheap \<Rightarrow> uint \<Rightarrow> uint" where
  "region_end k r = base_vaddr (vregions k r) + num_pages (vregions k r) * PGSIZE"

definition add_region :: "kheap \<Rightarrow> uint \<Rightarrow> uint \<Rightarrow> uint \<Rightarrow> uint \<Rightarrow> (uint \<times> kheap) res" where
  "add_region k va n prev cur =
     (if prev \<noteq> 0 \<and> region_end k prev = va
      then Ok (prev, set_region k prev (\<lambda>r. r\<lparr>num_pages := num_pages r + n\<rparr>))
      else andthen (get_new_vmem_region k) (\<lambda>(new, k).
        if new = 0 then Panic ''kheap_free_pages: out of metadata''
        else let k = set_region k new (\<lambda>r. r\<lparr>base_vaddr := va, num_pages := n, r_next := cur\<rparr>)
             in Ok (new, set_link k prev new)))"

definition merge_next :: "kheap \<Rightarrow> uint \<Rightarrow> uint \<Rightarrow> kheap res" where
  "merge_next k node cur =
     (if cur \<noteq> 0 \<and> region_end k node = base_vaddr (vregions k cur)
      then let c = vregions k cur;
               k = set_region k node (\<lambda>r. r\<lparr>num_pages := num_pages r + num_pages c, r_next := r_next c\<rparr>)
           in recycle_vmem_region k cur
      else Ok k)"

definition liballoc_free :: "kheap \<Rightarrow> uint \<Rightarrow> uint \<Rightarrow> (int \<times> kheap) res" where
  "liballoc_free k va n =
     (if va = 0 \<or> n = 0 then Ok (-1, k)
      else andthen (drop_pages [0..<unat n] (kh_mem k) (kpgdir k) va) (\<lambda>km.
        let k = k\<lparr>kh_mem := km\<rparr> in
        andthen (returns (free_position (vregions k) va 0 (vmem_free_list_head k))) (\<lambda>(prev, cur).
        andthen (add_region k va n prev cur) (\<lambda>(node, k).
        andthen (merge_next k node cur) (\<lambda>k. Ok (0, k))))))"

text \<open>The heap's lock is not implemented: both hooks only return \<open>0\<close>.\<close>

definition liballoc_lock :: int where "liballoc_lock = 0"

definition liballoc_unlock :: int where "liballoc_unlock = 0"

definition kheap_init :: "kheap \<Rightarrow> kheap res" where
  "kheap_init k = andthen (get_new_vmem_region k) (\<lambda>(r, k).
     if r = 0 then Panic ''kheap_init: failed to allocate initial metadata page''
     else let k = set_region k r (\<lambda>x. x\<lparr>base_vaddr := KHEAP_START, num_pages := (KHEAP_END - KHEAP_START) div PGSIZE, r_next := 0\<rparr>)
          in Ok (k\<lparr>vmem_free_list_head := r\<rparr>))"


section \<open>Linked lists\<close>

text \<open>\<open>seg nxt x xs z\<close>: following \<open>nxt\<close> from \<open>x\<close> leads through the nodes \<open>xs\<close> to \<open>z\<close>.\<close>

primrec seg :: "(uint \<Rightarrow> uint) \<Rightarrow> uint \<Rightarrow> uint list \<Rightarrow> uint \<Rightarrow> bool" where
  "seg nxt x [] z \<longleftrightarrow> x = z"
| "seg nxt x (y # ys) z \<longleftrightarrow> x = y \<and> y \<noteq> 0 \<and> seg nxt (nxt y) ys z"

definition head_or :: "uint list \<Rightarrow> uint \<Rightarrow> uint" where
  "head_or xs z = (if xs = [] then z else hd xs)"

definition last_or :: "uint \<Rightarrow> uint list \<Rightarrow> uint" where
  "last_or p xs = (if xs = [] then p else last xs)"

lemma head_or_simps [simp]: "head_or [] z = z" "head_or (x # xs) z = x"
  by (simp_all add: head_or_def)

lemma last_or_simps [simp]: "last_or p [] = p" "last_or p (xs @ [x]) = x" "last_or p (x # xs) = last_or x xs"
  by (simp_all add: last_or_def)

lemma seg_head: "seg nxt x xs z \<Longrightarrow> x = head_or xs z"
  by (cases xs) auto

lemma seg_append: "seg nxt x (xs @ ys) z \<longleftrightarrow> seg nxt x xs (head_or ys z) \<and> seg nxt (head_or ys z) ys z"
  by (induction xs arbitrary: x) (auto dest: seg_head)

lemma seg_cong: "(\<And>y. y \<in> set xs \<Longrightarrow> nxt' y = nxt y) \<Longrightarrow> seg nxt' x xs z = seg nxt x xs z"
  by (induction xs arbitrary: x) auto

lemma seg_nonzero: "seg nxt x xs z \<Longrightarrow> y \<in> set xs \<Longrightarrow> y \<noteq> 0"
  by (induction xs arbitrary: x) auto

text \<open>Redirecting the link of the last node.\<close>

lemma seg_retarget: "seg nxt x xs z \<Longrightarrow> distinct xs \<Longrightarrow> xs \<noteq> [] \<Longrightarrow> seg (nxt(last xs := z')) x xs z'"
  by (induction xs arbitrary: x) (auto simp: seg_append)

lemma seg_prefix: "seg nxt x (pre @ y # post) z \<Longrightarrow> seg nxt x pre y"
  by (simp add: seg_append)

section \<open>Invariant\<close>

text \<open>The regions are sorted by address, do not touch and lie in the range of the heap.\<close>

primrec spaced :: "nat \<Rightarrow> (nat \<times> nat) list \<Rightarrow> bool" where
  "spaced lo [] \<longleftrightarrow> True"
| "spaced lo (bn # as) \<longleftrightarrow> lo \<le> fst bn \<and> 0 < snd bn \<and> 4096 dvd fst bn \<and> fst bn + 4096 * snd bn \<le> 0xFE000000 \<and>
     spaced (fst bn + 4096 * snd bn + 1) as"

definition extent :: "vmem_region \<Rightarrow> nat \<times> nat" where
  "extent r = (unat (base_vaddr r), unat (num_pages r))"

definition area :: "nat \<times> nat \<Rightarrow> nat set" where
  "area bn = {fst bn..<fst bn + 4096 * snd bn}"

definition regions_ok :: "kheap \<Rightarrow> uint list \<Rightarrow> bool" where
  "regions_ok k ns \<longleftrightarrow> distinct ns \<and> seg (\<lambda>r. r_next (vregions k r)) (vmem_free_list_head k) ns 0 \<and>
     spaced 0x8E000000 (map (\<lambda>r. extent (vregions k r)) ns)"

text \<open>The metadata pages form a list, and each counts the regions in use among its slots.\<close>

definition meta_ok :: "kheap \<Rightarrow> uint list \<Rightarrow> uint list \<Rightarrow> bool" where
  "meta_ok k ns ps \<longleftrightarrow> distinct ps \<and> seg (\<lambda>p. m_next (mpages k p)) (metadata_pages k) ps 0 \<and>
     (\<forall>r \<in> set ns. metadata_page (vregions k r) \<in> set ps) \<and>
     (\<forall>p \<in> set ps. free_page (kend (kh_mem k)) p \<and>
       unat (num_regions (mpages k p)) = card {r \<in> set ns. metadata_page (vregions k r) = p})"

lemma returns_Some [simp]: "(case Some y of None \<Rightarrow> Blocked | Some y \<Rightarrow> Ok y) = Ok y"
  by simp

lemma find_region_spec:
  assumes "seg (\<lambda>r. r_next (rs r)) cur ns 0"
  shows "\<exists>pre post. ns = pre @ post \<and> (\<forall>r \<in> set pre. num_pages (rs r) < n) \<and> (post \<noteq> [] \<longrightarrow> n \<le> num_pages (rs (hd post))) \<and>
    find_region rs n prev cur = Some (last_or prev pre, head_or post 0)"
  using assms
proof (induction ns arbitrary: cur prev)
  case Nil
  then show ?case by (simp add: find_region.simps [of _ _ _ 0])
next
  case (Cons r ns)
  show ?case
  proof (cases "n \<le> num_pages (rs r)")
    case True
    then show ?thesis using Cons.prems by (rule_tac x = "[]" in exI, rule_tac x = "r # ns" in exI) (simp add: find_region.simps [of _ _ _ r])
  next
    case False
    obtain pre post where IH: "ns = pre @ post" "\<forall>r \<in> set pre. num_pages (rs r) < n" "post \<noteq> [] \<longrightarrow> n \<le> num_pages (rs (hd post))"
      "find_region rs n r (r_next (rs r)) = Some (last_or r pre, head_or post 0)"
      using Cons.IH [of "r_next (rs r)" r] Cons.prems by auto
    show ?thesis using IH False Cons.prems
      by (rule_tac x = "r # pre" in exI, rule_tac x = post in exI) (auto simp: find_region.simps [of _ _ _ r] not_le)
  qed
qed

lemma page_before_spec:
  assumes "seg (\<lambda>p. m_next (mp p)) cur (pre @ page # post) 0" "page \<notin> set pre"
  shows "page_before mp page prev cur = Some (last_or prev pre, page)"
  using assms
proof (induction pre arbitrary: cur prev)
  case Nil
  then show ?case by (simp add: page_before.simps)
next
  case (Cons p pre)
  then show ?case by (subst page_before.simps) auto
qed

lemma set_region_frame [simp]:
  "vregions (set_region k r f) = (vregions k)(r := f (vregions k r))" "mpages (set_region k r f) = mpages k"
  "kh_mem (set_region k r f) = kh_mem k" "kpgdir (set_region k r f) = kpgdir k"
  "metadata_pages (set_region k r f) = metadata_pages k" "vmem_free_list_head (set_region k r f) = vmem_free_list_head k"
  by (simp_all add: set_region_def)

lemma set_mpage_frame [simp]:
  "mpages (set_mpage k p g) = (mpages k)(p := g (mpages k p))" "vregions (set_mpage k p g) = vregions k"
  "kh_mem (set_mpage k p g) = kh_mem k" "kpgdir (set_mpage k p g) = kpgdir k"
  "metadata_pages (set_mpage k p g) = metadata_pages k" "vmem_free_list_head (set_mpage k p g) = vmem_free_list_head k"
  by (simp_all add: set_mpage_def)

lemma set_link_frame [simp]:
  "mpages (set_link k prev x) = mpages k" "kh_mem (set_link k prev x) = kh_mem k" "kpgdir (set_link k prev x) = kpgdir k"
  "metadata_pages (set_link k prev x) = metadata_pages k"
  "extent (vregions (set_link k prev x) r) = extent (vregions k r)"
  "metadata_page (vregions (set_link k prev x) r) = metadata_page (vregions k r)"
  by (simp_all add: set_link_def extent_def)

text \<open>Dropping one region from the account of its page.\<close>

lemma card_drop:
  assumes "r \<in> A" "finite A" "mp r = p"
  shows "card {x \<in> A. mp x = p} = Suc (card {x \<in> A - {r}. mp x = p})"
proof -
  have "{x \<in> A. mp x = p} = insert r {x \<in> A - {r}. mp x = p}" using assms by auto
  then show ?thesis using assms(2) by simp
qed

lemma meta_unlink:
  assumes "seg (\<lambda>p. m_next (mpages k p)) (metadata_pages k) (pre @ page # post) 0" "distinct (pre @ page # post)"
  defines "k' \<equiv> (if last_or 0 pre \<noteq> 0 then set_mpage k (last_or 0 pre) (\<lambda>m. m\<lparr>m_next := m_next (mpages k page)\<rparr>)
    else k\<lparr>metadata_pages := m_next (mpages k page)\<rparr>)"
  shows "seg (\<lambda>p. m_next (mpages k' p)) (metadata_pages k') (pre @ post) 0"
    "num_regions (mpages k' q) = num_regions (mpages k q)" "vregions k' = vregions k" "kh_mem k' = kh_mem k" "kpgdir k' = kpgdir k"
    "vmem_free_list_head k' = vmem_free_list_head k"
proof -
  let ?n = "\<lambda>p. m_next (mpages k p)"
  have s: "seg ?n (metadata_pages k) pre page" "seg ?n (?n page) post 0"
    using assms(1) by (auto simp: seg_append dest: seg_head)
  note h = seg_head [OF s(2)]
  show "seg (\<lambda>p. m_next (mpages k' p)) (metadata_pages k') (pre @ post) 0"
  proof (cases "pre = []")
    case True
    then show ?thesis using s h by (simp add: k'_def)
  next
    case False
    then have l: "last_or 0 pre = last pre" "last pre \<noteq> 0" "last pre \<notin> set post"
      using seg_nonzero [OF s(1)] assms(2) last_in_set [OF False] by (auto simp: last_or_def disjoint_iff)
    have n: "(\<lambda>p. m_next (mpages k' p)) = ?n(last pre := ?n page)" using l by (auto simp: k'_def)
    have "seg (?n(last pre := ?n page)) (metadata_pages k) pre (?n page)" using seg_retarget [OF s(1)] assms(2) False by simp
    moreover have "seg (?n(last pre := ?n page)) (?n page) post 0" using s(2) l(3) by (subst seg_cong [of _ _ ?n]) auto
    ultimately show ?thesis using l h unfolding n by (simp add: seg_append k'_def)
  qed
qed (auto simp: k'_def)

lemma kfree_kend: "kfree s p = Ok s' \<Longrightarrow> kend s' = kend s"
  by (auto simp: kfree_def Let_def split: if_splits)

lemma recycle_spec:
  assumes "meta_ok k ns ps" "r \<in> set ns" "distinct ns" "r \<noteq> 0"
  shows "\<exists>k' ps'. recycle_vmem_region k r = Ok k' \<and> meta_ok k' (remove1 r ns) ps' \<and> vregions k' = vregions k \<and>
    vmem_free_list_head k' = vmem_free_list_head k \<and> kpgdir k' = kpgdir k \<and> kend (kh_mem k') = kend (kh_mem k)"
proof -
  let ?p = "metadata_page (vregions k r)"
  let ?C = "\<lambda>q. {x \<in> set ns. metadata_page (vregions k x) = q}" and ?D = "\<lambda>q. {x \<in> set ns - {r}. metadata_page (vregions k x) = q}"
  define k1 where "k1 = set_mpage k ?p (\<lambda>m. m\<lparr>num_regions := num_regions m - 1\<rparr>)"
  note m = assms(1) [unfolded meta_ok_def]
  have p: "?p \<in> set ps" "free_page (kend (kh_mem k)) ?p" "?p \<noteq> 0" using m assms(2) free_page_nonnull by auto
  have s: "set (remove1 r ns) = set ns - {r}" using assms(3) by simp
  have c: "card (?C ?p) = Suc (card (?D ?p))" using assms(2) by (intro card_drop) auto
  have "unat (num_regions (mpages k ?p)) = Suc (card (?D ?p))" using m p(1) c by simp
  then have n: "unat (num_regions (mpages k ?p) - 1) = card (?D ?p)"
    using unat_pred [of "num_regions (mpages k ?p)"] by (cases "num_regions (mpages k ?p) = 0") auto
  have cnt: "unat (num_regions (mpages k1 q)) = card (?D q)" if "q \<in> set ps" for q
  proof (cases "q = ?p")
    case False
    then have "?C q = ?D q" by auto
    then show ?thesis using m that False by (simp add: k1_def)
  qed (simp add: k1_def n)
  have sg: "seg (\<lambda>p. m_next (mpages k1 p)) (metadata_pages k1) ps 0"
    using m by (subst seg_cong [of _ _ "\<lambda>p. m_next (mpages k p)"]) (auto simp: k1_def)
  have k1: "vregions k1 = vregions k" "kh_mem k1 = kh_mem k" "kpgdir k1 = kpgdir k" "vmem_free_list_head k1 = vmem_free_list_head k"
    by (simp_all add: k1_def)
  show ?thesis
  proof (cases "num_regions (mpages k1 ?p) = 0")
    case False
    then have "recycle_vmem_region k r = Ok k1" using p(3) assms(4) by (simp add: recycle_vmem_region_def Let_def k1_def)
    moreover have "meta_ok k1 (remove1 r ns) ps" using m sg cnt k1 unfolding meta_ok_def s by simp
    ultimately show ?thesis using k1 by auto
  next
    case True
    obtain pre post where ps: "ps = pre @ ?p # post" "?p \<notin> set pre" using split_list_first [OF p(1)] by blast
    define k2 where "k2 = (if last_or 0 pre \<noteq> 0 then set_mpage k1 (last_or 0 pre) (\<lambda>m. m\<lparr>m_next := m_next (mpages k1 ?p)\<rparr>)
      else k1\<lparr>metadata_pages := m_next (mpages k1 ?p)\<rparr>)"
    note u = meta_unlink [of k1 pre ?p post, folded k2_def]
    have u: "seg (\<lambda>p. m_next (mpages k2 p)) (metadata_pages k2) (pre @ post) 0"
      "\<And>q. num_regions (mpages k2 q) = num_regions (mpages k1 q)" "vregions k2 = vregions k" "kh_mem k2 = kh_mem k"
      "kpgdir k2 = kpgdir k" "vmem_free_list_head k2 = vmem_free_list_head k"
      using u sg ps(1) m k1 by auto
    obtain km where km: "kfree (kh_mem k) ?p = Ok km" using p(2) kfree_Ok_iff by blast
    have "page_before (mpages k1) ?p 0 (metadata_pages k1) = Some (last_or 0 pre, ?p)"
      using page_before_spec sg ps by simp
    then have r: "recycle_vmem_region k r = Ok (k2\<lparr>kh_mem := km\<rparr>)"
      using True p(3) assms(4) km u(4) unfolding recycle_vmem_region_def Let_def k1_def [symmetric]
      by (simp add: k2_def [symmetric])
    have "?D ?p = {}" using cnt [OF p(1)] True by simp
    then have "\<forall>x \<in> set ns - {r}. metadata_page (vregions k x) \<in> set (pre @ post)" using m ps(1) by auto
    then have "meta_ok (k2\<lparr>kh_mem := km\<rparr>) (remove1 r ns) (pre @ post)"
      using m u(1-3) cnt ps(1) kfree_kend [OF km] unfolding meta_ok_def s by simp
    then show ?thesis using r u kfree_kend [OF km] by auto
  qed
qed

text \<open>Sorted regions.\<close>

definition spaced_end :: "nat \<Rightarrow> (nat \<times> nat) list \<Rightarrow> nat" where
  "spaced_end lo xs = (if xs = [] then lo else fst (last xs) + 4096 * snd (last xs) + 1)"

lemma spaced_append: "spaced lo (xs @ ys) \<longleftrightarrow> spaced lo xs \<and> spaced (spaced_end lo xs) ys"
  by (induction xs arbitrary: lo) (auto simp: spaced_end_def)

lemma spaced_mono: "spaced lo xs \<Longrightarrow> lo' \<le> lo \<Longrightarrow> spaced lo' xs"
  by (cases xs) auto

lemma spaced_end_le: "spaced lo xs \<Longrightarrow> lo \<le> spaced_end lo xs"
  by (induction xs arbitrary: lo) (fastforce simp: spaced_end_def split: if_splits)+

lemma spaced_above: "spaced lo xs \<Longrightarrow> x \<in> set xs \<Longrightarrow> lo \<le> fst x \<and> 0 < snd x \<and> 4096 dvd fst x \<and> fst x + 4096 * snd x \<le> 0xFE000000"
  by (induction xs arbitrary: lo) fastforce+

lemma spaced_below: "spaced lo xs \<Longrightarrow> x \<in> set xs \<Longrightarrow> fst x + 4096 * snd x < spaced_end lo xs"
proof (induction xs arbitrary: lo)
  case (Cons y ys)
  show ?case
  proof (cases "ys = []")
    case False
    then have e: "spaced_end lo (y # ys) = spaced_end (fst y + 4096 * snd y + 1) ys" by (simp add: spaced_end_def)
    show ?thesis
    proof (cases "x = y")
      case True
      then show ?thesis using spaced_end_le [of "fst y + 4096 * snd y + 1" ys] Cons.prems(1) e by simp
    qed (use Cons e in auto)
  qed (use Cons.prems in \<open>simp add: spaced_end_def\<close>)
qed simp

definition areas :: "(nat \<times> nat) list \<Rightarrow> nat set" where
  "areas xs = (\<Union>x \<in> set xs. area x)"

lemma areas_simps [simp]: "areas [] = {}" "areas (x # xs) = area x \<union> areas xs" "areas (xs @ ys) = areas xs \<union> areas ys"
  by (auto simp: areas_def)

lemma area_split: "n \<le> m \<Longrightarrow> area (b, m) = area (b, n) \<union> area (b + 4096 * n, m - n)" "area (b, n) \<inter> area (b + 4096 * n, m) = {}"
  by (auto simp: area_def algebra_simps)

lemma areas_disjoint:
  assumes "spaced lo (xs @ x # ys)"
  shows "area x \<inter> areas xs = {}" "area x \<inter> areas ys = {}"
proof -
  have s: "spaced lo xs" "spaced_end lo xs \<le> fst x" "spaced (fst x + 4096 * snd x + 1) ys"
    using assms by (auto simp: spaced_append)
  show "area x \<inter> areas xs = {}" using spaced_below [OF s(1)] s(2) by (fastforce simp: areas_def area_def)
  show "area x \<inter> areas ys = {}" using spaced_above [OF s(3)] by (fastforce simp: areas_def area_def)
qed

text \<open>Taking pages from the front of one region.\<close>

lemma spaced_take:
  assumes "spaced lo (xs @ (b, m) # ys)" "n \<le> m"
  shows "n < m \<Longrightarrow> spaced lo (xs @ (b + 4096 * n, m - n) # ys)" "spaced lo (xs @ ys)"
    "n < m \<Longrightarrow> areas (xs @ (b + 4096 * n, m - n) # ys) = areas (xs @ (b, m) # ys) - area (b, n)"
    "n = m \<Longrightarrow> areas (xs @ ys) = areas (xs @ (b, m) # ys) - area (b, n)"
proof -
  have s: "spaced lo xs" "spaced_end lo xs \<le> b" "4096 dvd b" "b + 4096 * m \<le> 0xFE000000" "spaced (b + 4096 * m + 1) ys"
    using assms(1) by (auto simp: spaced_append)
  show "spaced lo (xs @ ys)" using s spaced_mono [OF s(5)] by (simp add: spaced_append)
  show "spaced lo (xs @ (b + 4096 * n, m - n) # ys)" if "n < m"
    using s that by (simp add: spaced_append algebra_simps)
  have d: "area (b, m) \<inter> areas xs = {}" "area (b, m) \<inter> areas ys = {}" using areas_disjoint [OF assms(1)] by auto
  show "areas (xs @ (b + 4096 * n, m - n) # ys) = areas (xs @ (b, m) # ys) - area (b, n)" if "n < m"
    using d area_split(1) [of n m b] area_split(2) [of b n "m - n"] that by auto
  show "areas (xs @ ys) = areas (xs @ (b, m) # ys) - area (b, n)" if "n = m" using d that by auto
qed

section \<open>Allocation\<close>

definition free_area :: "kheap \<Rightarrow> uint list \<Rightarrow> nat set" where
  "free_area k ns = areas (map (\<lambda>r. extent (vregions k r)) ns)"

lemma back_pages_cases:
  "(\<exists>s'. back_pages is s pd va = Ok s' \<and> kend s' = kend s) \<or>
   back_pages is s pd va = Panic ''kheap_alloc_pages: out of physical memory''"
proof (induction "is" arbitrary: s)
  case (Cons i js)
  obtain p s1 where k: "kalloc s = (p, s1)" by fastforce
  obtain r s2 where m: "map_kernel_page s1 pd (va + of_nat i * 4096) (V2P p) (2 OR 1) = (r, s2)" by fastforce
  have "kend s1 = kend s" using k by (auto simp: kalloc_def Let_def split: if_splits)
  moreover have "kend s2 = kend s1" using m
    by (auto simp: map_kernel_page_def walkpgdir_def set_pte_def kalloc_def Let_def split: if_splits prod.splits)
  ultimately show ?case using Cons.IH [of s2] k m by auto
qed simp

lemma set_link_seg:
  assumes "seg (\<lambda>r. r_next (vregions k r)) (vmem_free_list_head k) (pre @ post) 0" "distinct (pre @ post)"
    "seg (\<lambda>r. r_next (vregions k r)) x post' 0" "last_or 0 pre \<notin> set post' \<or> pre = []"
  shows "seg (\<lambda>r. r_next (vregions (set_link k (last_or 0 pre) x) r)) (vmem_free_list_head (set_link k (last_or 0 pre) x)) (pre @ post') 0"
proof (cases "pre = []")
  case True
  then show ?thesis using assms by (simp add: set_link_def)
next
  case False
  let ?n = "\<lambda>r. r_next (vregions k r)"
  have s: "seg ?n (vmem_free_list_head k) pre (head_or post 0)" using assms(1) by (simp add: seg_append)
  have l: "last_or 0 pre = last pre" "last pre \<noteq> 0" using seg_nonzero [OF s] False by (auto simp: last_or_def)
  have n: "(\<lambda>r. r_next (vregions (set_link k (last_or 0 pre) x) r)) = ?n(last pre := x)" using l by (auto simp: set_link_def)
  have "seg (?n(last pre := x)) (vmem_free_list_head k) pre x" using seg_retarget [OF s] assms(2) False by simp
  moreover have "seg (?n(last pre := x)) x post' 0" using assms(3,4) l False by (subst seg_cong [of _ _ ?n]) auto
  ultimately show ?thesis using l seg_head [OF assms(3)] unfolding n by (simp add: seg_append set_link_def)
qed

definition kheap_ok :: "kheap \<Rightarrow> uint list \<Rightarrow> uint list \<Rightarrow> bool" where
  "kheap_ok k ns ps \<longleftrightarrow> regions_ok k ns \<and> meta_ok k ns ps"

lemma meta_ok_cong:
  assumes "mpages k' = mpages k" "metadata_pages k' = metadata_pages k" "kend (kh_mem k') = kend (kh_mem k)"
    "\<And>r. r \<in> set ns \<Longrightarrow> metadata_page (vregions k' r) = metadata_page (vregions k r)"
  shows "meta_ok k' ns ps = meta_ok k ns ps"
proof -
  have "{r \<in> set ns. metadata_page (vregions k' r) = p} = {r \<in> set ns. metadata_page (vregions k r) = p}" for p
    using assms(4) by auto
  then show ?thesis using assms by (simp add: meta_ok_def)
qed

text \<open>The state after the pages have been taken from the region, before they are backed.\<close>

lemma carve_spec:
  fixes n :: uint
  assumes "kheap_ok k (pre @ cur # post) ps" "n \<le> num_pages (vregions k cur)" "n \<noteq> 0"
  defines "va \<equiv> base_vaddr (vregions k cur)"
  defines "res \<equiv> (if num_pages (vregions k cur) = n
      then recycle_vmem_region (set_link k (last_or 0 pre) (r_next (vregions k cur))) cur
      else Ok (set_region k cur (\<lambda>r. r\<lparr>base_vaddr := base_vaddr r + n * 4096, num_pages := num_pages r - n\<rparr>)))"
  shows "\<exists>k' ns' ps'. res = Ok k' \<and> kheap_ok k' ns' ps' \<and>
    free_area k' ns' = free_area k (pre @ cur # post) - area (unat va, unat n)"
proof -
  let ?E = "\<lambda>r. extent (vregions k r)" and ?ns = "pre @ cur # post"
  note ok = assms(1) [unfolded kheap_ok_def regions_ok_def]
  have sp: "spaced 0x8E000000 (map ?E pre @ (unat va, unat (num_pages (vregions k cur))) # map ?E post)"
    using ok by (simp add: extent_def va_def)
  have le: "unat n \<le> unat (num_pages (vregions k cur))" using assms(2) by (simp add: word_le_nat_alt)
  note t = spaced_take [OF sp le]
  have fa: "free_area k ?ns = areas (map ?E pre @ (unat va, unat (num_pages (vregions k cur))) # map ?E post)"
    by (simp add: free_area_def extent_def va_def)
  have cz: "cur \<noteq> 0" "cur \<notin> set pre" "cur \<notin> set post" using ok by (auto simp: seg_append)
  show ?thesis
  proof (cases "num_pages (vregions k cur) = n")
    case True
    define k1 where "k1 = set_link k (last_or 0 pre) (r_next (vregions k cur))"
    have sg: "seg (\<lambda>r. r_next (vregions k r)) (r_next (vregions k cur)) post 0" using ok by (simp add: seg_append)
    have s1: "seg (\<lambda>r. r_next (vregions k1 r)) (vmem_free_list_head k1) (pre @ post) 0"
      unfolding k1_def using ok last_in_set [of pre]
      by (intro set_link_seg [OF _ _ sg, of pre "cur # post"]) (auto simp: last_or_def disjoint_iff)
    have "meta_ok k1 ?ns ps" using ok meta_ok_cong [of k1 k ?ns ps] by (simp add: k1_def)
    then obtain k' ps' where k': "recycle_vmem_region k1 cur = Ok k'" "meta_ok k' (remove1 cur ?ns) ps'" "vregions k' = vregions k1"
      "vmem_free_list_head k' = vmem_free_list_head k1" using recycle_spec [of k1 ?ns ps cur] ok cz(1) by auto
    have e: "extent (vregions k' r) = ?E r" for r using k'(3) by (simp add: k1_def)
    have "kheap_ok k' (pre @ post) ps'"
      using s1 k' t(2) cz ok unfolding kheap_ok_def regions_ok_def e by (simp add: remove1_append)
    moreover have "free_area k' (pre @ post) = free_area k ?ns - area (unat va, unat n)"
      using t(4) True unfolding free_area_def e fa [unfolded free_area_def] by simp
    ultimately show ?thesis using k'(1) True unfolding res_def k1_def by auto
  next
    case False
    define k1 where "k1 = set_region k cur (\<lambda>r. r\<lparr>base_vaddr := base_vaddr r + n * 4096, num_pages := num_pages r - n\<rparr>)"
    have lt: "unat n < unat (num_pages (vregions k cur))" using False le by (metis le_neq_implies_less word_unat_eq_iff)
    have "unat va + 4096 * unat (num_pages (vregions k cur)) \<le> 0xFE000000" using sp by (simp add: spaced_append)
    then have "unat (n * 4096) = 4096 * unat n" "unat (va + n * 4096) = unat va + 4096 * unat n"
      using lt by (simp_all add: unat_word_ariths)
    then have e: "extent (vregions k1 cur) = (unat va + 4096 * unat n, unat (num_pages (vregions k cur)) - unat n)"
      using assms(2) by (simp add: k1_def extent_def va_def unat_sub)
    have e': "extent (vregions k1 r) = ?E r" if "r \<noteq> cur" for r using that by (simp add: k1_def)
    have m: "map (\<lambda>r. extent (vregions k1 r)) ?ns =
        map ?E pre @ (unat va + 4096 * unat n, unat (num_pages (vregions k cur)) - unat n) # map ?E post"
      using e cz by (auto intro!: e')
    have "meta_ok k1 ?ns ps" using ok meta_ok_cong [of k1 k ?ns ps] by (simp add: k1_def)
    moreover have "seg (\<lambda>r. r_next (vregions k1 r)) (vmem_free_list_head k1) ?ns 0"
      using ok by (subst seg_cong [of _ _ "\<lambda>r. r_next (vregions k r)"]) (auto simp: k1_def)
    ultimately have "kheap_ok k1 ?ns ps" using t(1) lt ok unfolding kheap_ok_def regions_ok_def m by simp
    moreover have "free_area k1 ?ns = free_area k ?ns - area (unat va, unat n)"
      using t(3) lt unfolding fa unfolding free_area_def m by simp
    ultimately show ?thesis using False unfolding res_def k1_def by auto
  qed
qed

lemma liballoc_alloc_spec:
  assumes "kheap_ok k ns ps" "n \<noteq> 0"
  shows "if \<forall>r \<in> set ns. num_pages (vregions k r) < n then liballoc_alloc k n = Ok (0, k)
    else \<exists>va k' ns' ps'. 0x8E000000 \<le> unat va \<and> 4096 dvd unat va \<and> area (unat va, unat n) \<subseteq> free_area k ns \<and>
      kheap_ok k' ns' ps' \<and> free_area k' ns' = free_area k ns - area (unat va, unat n) \<and>
      (liballoc_alloc k n = Ok (va, k') \<or> liballoc_alloc k n = Panic ''kheap_alloc_pages: out of physical memory'')"
proof -
  let ?E = "\<lambda>r. extent (vregions k r)"
  note ok = assms(1) [unfolded kheap_ok_def regions_ok_def]
  obtain pre post where f: "ns = pre @ post" "\<forall>r \<in> set pre. num_pages (vregions k r) < n"
    "post \<noteq> [] \<longrightarrow> n \<le> num_pages (vregions k (hd post))"
    "find_region (vregions k) n 0 (vmem_free_list_head k) = Some (last_or 0 pre, head_or post 0)"
    using find_region_spec [of "vregions k" "vmem_free_list_head k" ns n 0] ok by blast
  show ?thesis
  proof (cases post)
    case Nil
    then show ?thesis using f assms(2) by (simp add: liballoc_alloc_def)
  next
    case (Cons cur post')
    let ?va = "base_vaddr (vregions k cur)"
    have cz: "cur \<noteq> 0" using ok f(1) Cons by (simp add: seg_append)
    have "?E cur \<in> set (map ?E ns)" using f(1) Cons by simp
    then have b: "0x8E000000 \<le> unat ?va" "4096 dvd unat ?va" using ok spaced_above by (fastforce simp: extent_def)+
    have n: "n \<le> num_pages (vregions k cur)" using f(3) Cons by simp
    then have big: "\<not> (\<forall>r \<in> set ns. num_pages (vregions k r) < n)" using f(1) Cons by auto
    obtain k1 ns' ps' where k1: "(if num_pages (vregions k cur) = n
        then recycle_vmem_region (set_link k (last_or 0 pre) (r_next (vregions k cur))) cur
        else Ok (set_region k cur (\<lambda>r. r\<lparr>base_vaddr := base_vaddr r + n * 4096, num_pages := num_pages r - n\<rparr>))) = Ok k1"
      "kheap_ok k1 ns' ps'" "free_area k1 ns' = free_area k ns - area (unat ?va, unat n)"
      using carve_spec [of k pre cur post' ps n] assms f(1) Cons n by auto
    have a: "area (unat ?va, unat n) \<subseteq> free_area k ns"
      using n f(1) Cons by (auto simp: free_area_def area_def extent_def word_le_nat_alt)
    have eq: "liballoc_alloc k n = andthen (back_pages [0..<unat n] (kh_mem k1) (kpgdir k1) ?va) (\<lambda>km. Ok (?va, k1\<lparr>kh_mem := km\<rparr>))"
      using assms(2) f(4) Cons cz k1(1) by (simp add: liballoc_alloc_def Let_def)
    from back_pages_cases [of "[0..<unat n]" "kh_mem k1" "kpgdir k1" ?va] show ?thesis
    proof (elim disjE exE conjE)
      fix km assume "back_pages [0..<unat n] (kh_mem k1) (kpgdir k1) ?va = Ok km" "kend km = kend (kh_mem k1)"
      moreover from this have "kheap_ok (k1\<lparr>kh_mem := km\<rparr>) ns' ps'"
        using k1(2) meta_ok_cong [of "k1\<lparr>kh_mem := km\<rparr>" k1 ns' ps'] by (simp add: kheap_ok_def regions_ok_def)
      ultimately show ?thesis unfolding if_not_P [OF big] using eq b a k1(3)
        by (intro exI [of _ ?va] exI [of _ "k1\<lparr>kh_mem := km\<rparr>"]) (auto simp: free_area_def)
    next
      assume "back_pages [0..<unat n] (kh_mem k1) (kpgdir k1) ?va = Panic ''kheap_alloc_pages: out of physical memory''"
      then show ?thesis unfolding if_not_P [OF big] using eq b a k1(2,3) by auto
    qed
  qed
qed

section \<open>The contract of the page source\<close>

text \<open>
  What the allocator on top relies on: the free part of the range is a set of addresses, and a run of pages that
  is handed out was free and is free no longer.
\<close>

locale page_source =
  fixes alloc :: "'k \<Rightarrow> uint \<Rightarrow> (uint \<times> 'k) res" and ok :: "'k \<Rightarrow> nat set \<Rightarrow> bool"
  assumes alloc_run: "ok k F \<Longrightarrow> n \<noteq> 0 \<Longrightarrow> alloc k n = Ok (0, k) \<or>
      (\<exists>va k'. 0x8E000000 \<le> unat va \<and> 4096 dvd unat va \<and> area (unat va, unat n) \<subseteq> F \<and> ok k' (F - area (unat va, unat n)) \<and>
        (alloc k n = Ok (va, k') \<or> alloc k n = Panic ''kheap_alloc_pages: out of physical memory''))"
    and in_range: "ok k F \<Longrightarrow> F \<subseteq> {0x8E000000..<0xFE000000}"
begin

lemma alloc_Ok:
  assumes "ok k F" "n \<noteq> 0" "alloc k n = Ok (va, k')" "va \<noteq> 0"
  shows "area (unat va, unat n) \<subseteq> F" "ok k' (F - area (unat va, unat n))" "0x8E000000 \<le> unat va" "unat va + 4096 * unat n \<le> 0xFE000000"
    "4096 dvd unat va"
proof -
  have r: "0x8E000000 \<le> unat va \<and> 4096 dvd unat va \<and> area (unat va, unat n) \<subseteq> F \<and> ok k' (F - area (unat va, unat n))"
    using alloc_run [OF assms(1,2)] assms(3,4) by auto
  then show "area (unat va, unat n) \<subseteq> F" "ok k' (F - area (unat va, unat n))" "0x8E000000 \<le> unat va" "4096 dvd unat va" by blast+
  have "unat va + 4096 * unat n - 1 \<in> area (unat va, unat n)" using unat_gt_0 [of n] assms(2) by (simp add: area_def)
  then have "unat va + 4096 * unat n - 1 < 0xFE000000" using r in_range [OF assms(1)] by auto
  then show "unat va + 4096 * unat n \<le> 0xFE000000" by simp
qed

lemma runs_apart:
  assumes "ok k F" "n \<noteq> 0" "alloc k n = Ok (va, k')" "va \<noteq> 0" "m \<noteq> 0" "alloc k' m = Ok (vb, k'')" "vb \<noteq> 0"
  shows "area (unat va, unat n) \<inter> area (unat vb, unat m) = {}"
  using alloc_Ok(1) [OF alloc_Ok(2) [OF assms(1-4)] assms(5-7)] by blast

end

definition source_ok :: "kheap \<Rightarrow> nat set \<Rightarrow> bool" where
  "source_ok k F \<longleftrightarrow> (\<exists>ns ps. kheap_ok k ns ps \<and> F = free_area k ns)"

interpretation source: page_source liballoc_alloc source_ok
proof
  fix k F and n :: uint
  assume "source_ok k F"
  then obtain ns ps where ok: "kheap_ok k ns ps" and F: "F = free_area k ns" by (auto simp: source_ok_def)
  show "liballoc_alloc k n = Ok (0, k) \<or>
      (\<exists>va k'. 0x8E000000 \<le> unat va \<and> 4096 dvd unat va \<and> area (unat va, unat n) \<subseteq> F \<and> source_ok k' (F - area (unat va, unat n)) \<and>
        (liballoc_alloc k n = Ok (va, k') \<or> liballoc_alloc k n = Panic ''kheap_alloc_pages: out of physical memory''))" if "n \<noteq> 0"
  proof (cases "\<forall>r \<in> set ns. num_pages (vregions k r) < n")
    case True
    then show ?thesis using liballoc_alloc_spec [OF ok that] by simp
  next
    case False
    from liballoc_alloc_spec [OF ok that, unfolded if_not_P [OF False]] obtain va k' ns' ps' where
      "0x8E000000 \<le> unat va" "4096 dvd unat va" "area (unat va, unat n) \<subseteq> F" "kheap_ok k' ns' ps'" "free_area k' ns' = F - area (unat va, unat n)"
      "liballoc_alloc k n = Ok (va, k') \<or> liballoc_alloc k n = Panic ''kheap_alloc_pages: out of physical memory''"
      unfolding F by blast
    moreover from this have "source_ok k' (F - area (unat va, unat n))" unfolding source_ok_def by metis
    ultimately show ?thesis by blast
  qed
  have "spaced 0x8E000000 (map (\<lambda>r. extent (vregions k r)) ns)" using ok by (simp add: kheap_ok_def regions_ok_def)
  from spaced_above [OF this] show "F \<subseteq> {0x8E000000..<0xFE000000}" unfolding F free_area_def areas_def area_def by fastforce
qed

section \<open>Release\<close>

lemma free_position_spec:
  assumes "seg (\<lambda>r. r_next (rs r)) cur ns 0"
  shows "\<exists>pre post. ns = pre @ post \<and> (\<forall>r \<in> set pre. base_vaddr (rs r) < va) \<and> (post \<noteq> [] \<longrightarrow> va \<le> base_vaddr (rs (hd post))) \<and>
    free_position rs va prev cur = Some (last_or prev pre, head_or post 0)"
  using assms
proof (induction ns arbitrary: cur prev)
  case Nil
  then show ?case by (simp add: free_position.simps [of _ _ _ 0])
next
  case (Cons r ns)
  show ?case
  proof (cases "va \<le> base_vaddr (rs r)")
    case True
    then have "\<not> base_vaddr (rs r) < va" by simp
    then show ?thesis using Cons.prems True
      by (rule_tac x = "[]" in exI, rule_tac x = "r # ns" in exI) (simp add: free_position.simps [of _ _ _ r])
  next
    case False
    obtain pre post where IH: "ns = pre @ post" "\<forall>r \<in> set pre. base_vaddr (rs r) < va" "post \<noteq> [] \<longrightarrow> va \<le> base_vaddr (rs (hd post))"
      "free_position rs va r (r_next (rs r)) = Some (last_or r pre, head_or post 0)"
      using Cons.IH [of "r_next (rs r)" r] Cons.prems by auto
    show ?thesis using IH False Cons.prems
      by (rule_tac x = "r # pre" in exI, rule_tac x = post in exI) (auto simp: free_position.simps [of _ _ _ r] not_le)
  qed
qed

text \<open>A new descriptor.\<close>

lemma find_page_spec:
  assumes "seg (\<lambda>p. m_next (mp p)) cur ps 0"
  shows "\<exists>p. find_page mp cur = Some p \<and> (p = 0 \<or> p \<in> set ps \<and> num_regions (mp p) < 255)"
  using assms
proof (induction ps arbitrary: cur)
  case Nil
  then show ?case by (simp add: find_page.simps [of _ 0])
next
  case (Cons p ps)
  then show ?case by (cases "num_regions (mp p) < 255") (auto simp: find_page.simps [of _ p])
qed

lemma region_at_nonzero:
  assumes "free_page e p" "i < 255"
  shows "region_at p i \<noteq> 0"
proof -
  have "unat p < 0x8E000000" using assms(1) kfree_Ok_iff [of "\<lparr>kmem_mem = \<lambda>_. 0, kmem_use_lock = False, kmem_freelist = 0, kend = e\<rparr>" p]
    by (auto dest: kfree_bound)
  then have "unat p + 8 + 16 * unat i < 2 ^ 32" using assms(2) by (simp add: word_less_nat_alt)
  then have "unat (region_at p i) = unat p + 8 + 16 * unat i" by (simp add: region_at_def unat_word_ariths)
  then show ?thesis by auto
qed

lemma take_slot_spec:
  assumes "meta_ok k ns ps" "p \<in> set ps" "num_regions (mpages k p) < 255" "take_slot k p = (r, k')" "r \<notin> set ns"
  shows "r \<noteq> 0" "set ns' = insert r (set ns) \<Longrightarrow> meta_ok k' ns' ps"
    "vregions k' = (vregions k)(r := (vregions k r)\<lparr>metadata_page := p\<rparr>)" "vmem_free_list_head k' = vmem_free_list_head k"
proof -
  note m = assms(1) [unfolded meta_ok_def]
  have r: "r = region_at p (num_regions (mpages k p))"
    and k': "k' = set_region (set_mpage k p (\<lambda>m. m\<lparr>num_regions := num_regions m + 1\<rparr>)) r (\<lambda>x. x\<lparr>metadata_page := p\<rparr>)"
    using assms(4) by (auto simp: take_slot_def Let_def)
  have n: "unat (num_regions (mpages k p) + 1) = Suc (unat (num_regions (mpages k p)))"
    using assms(3) by (simp add: word_less_nat_alt unat_word_ariths)
  show "meta_ok k' ns' ps" if ns': "set ns' = insert r (set ns)"
  proof -
    have "unat (num_regions (mpages k' q)) = card {x \<in> set ns'. metadata_page (vregions k' x) = q}" if "q \<in> set ps" for q
    proof (cases "q = p")
      case True
      have "{x \<in> set ns'. metadata_page (vregions k' x) = p} = insert r {x \<in> set ns. metadata_page (vregions k x) = p}"
        using assms(5) ns' by (auto simp: k')
      then show ?thesis using True m assms(2,5) n by (simp add: k')
    next
      case False
      have "{x \<in> set ns'. metadata_page (vregions k' x) = q} = {x \<in> set ns. metadata_page (vregions k x) = q}"
        using False assms(5) ns' by (auto simp: k')
      then show ?thesis using False m that by (simp add: k')
    qed
    moreover have "seg (\<lambda>p. m_next (mpages k' p)) (metadata_pages k') ps 0"
      using m by (subst seg_cong [of _ _ "\<lambda>p. m_next (mpages k p)"]) (auto simp: k')
    ultimately show ?thesis using m assms(2,5) ns' unfolding meta_ok_def by (auto simp: k')
  qed
  have "free_page (kend (kh_mem k)) p" using m assms(2) by simp
  from region_at_nonzero [OF this assms(3)] show "r \<noteq> 0" using r by simp
qed (use assms(4) in \<open>auto simp: take_slot_def Let_def\<close>)

text \<open>The slot taken must not be one that is in use; nothing in the code makes sure of it.\<close>

definition slot_free :: "kheap \<Rightarrow> uint list \<Rightarrow> bool" where
  "slot_free k ns \<longleftrightarrow> (case get_new_vmem_region k of Ok (r, _) \<Rightarrow> r \<notin> set ns | _ \<Rightarrow> True)"

lemma get_new_spec:
  assumes "meta_ok k ns ps" "kmem_inv (kh_mem k) xs" "set xs \<inter> set ps = {}" "slot_free k ns"
  shows "\<exists>r k'. get_new_vmem_region k = Ok (r, k') \<and>
    (r \<noteq> 0 \<longrightarrow> r \<notin> set ns \<and> (\<exists>p. vregions k' = (vregions k)(r := (vregions k r)\<lparr>metadata_page := p\<rparr>)) \<and>
      vmem_free_list_head k' = vmem_free_list_head k \<and>
      (\<forall>ns'. set ns' = insert r (set ns) \<longrightarrow> (\<exists>ps'. meta_ok k' ns' ps')))"
proof -
  note m = assms(1) [unfolded meta_ok_def]
  obtain p where p: "find_page (mpages k) (metadata_pages k) = Some p" "p = 0 \<or> p \<in> set ps \<and> num_regions (mpages k p) < 255"
    using find_page_spec m by blast
  show ?thesis
  proof (cases "p = 0")
    case False
    obtain r k' where t: "take_slot k p = (r, k')" by fastforce
    then have g: "get_new_vmem_region k = Ok (r, k')" using p False by (simp add: get_new_vmem_region_def)
    then have "r \<notin> set ns" using assms(4) by (simp add: slot_free_def)
    then have f: "set ns' = insert r (set ns) \<Longrightarrow> meta_ok k' ns' ps"
      "vregions k' = (vregions k)(r := (vregions k r)\<lparr>metadata_page := p\<rparr>)" "vmem_free_list_head k' = vmem_free_list_head k" for ns'
      using take_slot_spec [OF assms(1) _ _ t] p(2) False by blast+
    show ?thesis using g \<open>r \<notin> set ns\<close> f(2,3) by (intro exI conjI impI allI) (assumption | rule f)+
  next
    case True
    show ?thesis
    proof (cases xs)
      case Nil
      then have "kalloc (kh_mem k) = (0, kh_mem k)" using kalloc_empty assms(2) by simp
      then have "get_new_vmem_region k = Ok (0, k)" using p(1) True by (simp add: get_new_vmem_region_def)
      then show ?thesis by simp
    next
      case (Cons np ys)
      obtain km where ka: "kalloc (kh_mem k) = (np, km)" "kend km = kend (kh_mem k)" "free_page (kend (kh_mem k)) np"
        using assms(2) Cons kalloc_cons [of "kh_mem k" np ys] by (auto simp: kmem_inv_def kalloc_def Let_def)
      define k1 where "k1 = (set_mpage (k\<lparr>kh_mem := km\<rparr>) np (\<lambda>m. m\<lparr>num_regions := 0, m_next := metadata_pages k\<rparr>))\<lparr>metadata_pages := np\<rparr>"
      have np: "np \<noteq> 0" "np \<notin> set ps" using ka(3) free_page_nonnull assms(3) Cons by auto
      have e: "{r \<in> set ns. metadata_page (vregions k r) = np} = {}" using m np(2) by auto
      have "seg (\<lambda>p. m_next (mpages k1 p)) (metadata_pages k) ps 0"
        using m np(2) by (subst seg_cong [of _ _ "\<lambda>p. m_next (mpages k p)"]) (auto simp: k1_def)
      then have m1: "meta_ok k1 ns (np # ps)" using m np ka e unfolding meta_ok_def by (auto simp: k1_def)
      obtain r k' where t: "take_slot k1 np = (r, k')" by fastforce
      then have g: "get_new_vmem_region k = Ok (r, k')" using p True ka(1) np(1) by (simp add: get_new_vmem_region_def k1_def)
      then have "r \<notin> set ns" using assms(4) by (simp add: slot_free_def)
      have l: "num_regions (mpages k1 np) < 255" "np \<in> set (np # ps)" by (simp_all add: k1_def)
      have f: "set ns' = insert r (set ns) \<Longrightarrow> meta_ok k' ns' (np # ps)"
        "vregions k' = (vregions k)(r := (vregions k r)\<lparr>metadata_page := np\<rparr>)" "vmem_free_list_head k' = vmem_free_list_head k" for ns'
        using take_slot_spec [OF m1 l(2,1) t \<open>r \<notin> set ns\<close>] by (simp_all add: k1_def)
      show ?thesis using g \<open>r \<notin> set ns\<close> f(2,3) by (intro exI conjI impI allI) (assumption | rule f)+
    qed
  qed
qed

text \<open>Putting pages back between two regions, with or without merging.\<close>

lemma spaced_snoc: "spaced lo (xs @ [x]) \<longleftrightarrow> spaced lo xs \<and> spaced (spaced_end lo xs) [x]"
  by (simp add: spaced_append)

lemma spaced_extend:
  "spaced lo (xs @ [(b, m)]) \<Longrightarrow> b + 4096 * (m + n) \<le> 0xFE000000 \<Longrightarrow> spaced lo (xs @ [(b, m + n)])"
  by (auto simp: spaced_append)

lemma spaced_add:
  "spaced lo xs \<Longrightarrow> spaced_end lo xs \<le> va \<Longrightarrow> 4096 dvd va \<Longrightarrow> 0 < n \<Longrightarrow> va + 4096 * n \<le> 0xFE000000 \<Longrightarrow> spaced lo (xs @ [(va, n)])"
  by (auto simp: spaced_append)

lemma spaced_after: "spaced lo ys \<Longrightarrow> (ys \<noteq> [] \<Longrightarrow> e \<le> fst (hd ys)) \<Longrightarrow> spaced e ys"
  by (cases ys) auto

lemma spaced_join:
  assumes "spaced lo (xs @ [(b, m)])" "spaced (b + 4096 * m) ys"
  shows "ys = (b + 4096 * m, q) # ys' \<Longrightarrow> spaced lo (xs @ (b, m + q) # ys')"
    "(ys \<noteq> [] \<Longrightarrow> fst (hd ys) \<noteq> b + 4096 * m) \<Longrightarrow> spaced lo (xs @ (b, m) # ys)"
proof -
  show "spaced lo (xs @ (b, m + q) # ys')" if "ys = (b + 4096 * m, q) # ys'"
    using assms that by (auto simp: spaced_append algebra_simps)
  show "spaced lo (xs @ (b, m) # ys)" if "ys \<noteq> [] \<Longrightarrow> fst (hd ys) \<noteq> b + 4096 * m"
    using assms that by (cases ys) (auto simp: spaced_append)
qed

lemma area_join: "area (b, m + n) = area (b, m) \<union> area (b + 4096 * m, n)"
  by (auto simp: area_def algebra_simps)

lemma region_end_unat:
  "fst (extent (vregions k r)) + 4096 * snd (extent (vregions k r)) < 2 ^ 32 \<Longrightarrow>
    unat (region_end k r) = fst (extent (vregions k r)) + 4096 * snd (extent (vregions k r))"
  by (simp add: region_end_def extent_def unat_word_ariths)

text \<open>Where freed pages lie between the regions around them.\<close>

lemma freed_between:
  assumes "spaced lo (map E pre @ map E post)" "area (va, n) \<inter> areas (map E pre @ map E post) = {}" "0 < n" "lo \<le> va"
    "\<And>r. r \<in> set pre \<Longrightarrow> fst (E r) < va" "post \<noteq> [] \<Longrightarrow> va \<le> fst (E (hd post))"
  shows "pre \<noteq> [] \<Longrightarrow> fst (E (last pre)) + 4096 * snd (E (last pre)) \<le> va" "post \<noteq> [] \<Longrightarrow> va + 4096 * n \<le> fst (E (hd post))"
    "spaced_end lo (map E pre) \<le> va + 1" "spaced (va + 4096 * n) (map E post)"
proof -
  show 1: "fst (E (last pre)) + 4096 * snd (E (last pre)) \<le> va" if "pre \<noteq> []"
  proof (rule ccontr)
    assume "\<not> fst (E (last pre)) + 4096 * snd (E (last pre)) \<le> va"
    then have "va \<in> area (E (last pre))" using assms(5) that by (simp add: area_def less_imp_le)
    moreover have "area (E (last pre)) \<subseteq> areas (map E pre @ map E post)" using that by (auto simp: areas_def)
    moreover have "va \<in> area (va, n)" using assms(3) by (simp add: area_def)
    ultimately show False using assms(2) by blast
  qed
  show 2: "va + 4096 * n \<le> fst (E (hd post))" if "post \<noteq> []"
  proof (rule ccontr)
    let ?b = "fst (E (hd post))"
    assume "\<not> va + 4096 * n \<le> ?b"
    then have "?b \<in> area (va, n)" using assms(6) that by (simp add: area_def)
    moreover have "E (hd post) \<in> set (map E pre @ map E post)" using that by simp
    then have "0 < snd (E (hd post))" using spaced_above [OF assms(1)] by blast
    then have "?b \<in> area (E (hd post))" by (simp add: area_def)
    moreover have "area (E (hd post)) \<subseteq> areas (map E pre @ map E post)" using that by (auto simp: areas_def)
    ultimately show False using assms(2) by blast
  qed
  show "spaced_end lo (map E pre) \<le> va + 1" using 1 assms(4) by (simp add: spaced_end_def last_map)
  have "spaced (spaced_end lo (map E pre)) (map E post)" using assms(1) by (simp add: spaced_append)
  then show "spaced (va + 4096 * n) (map E post)" by (rule spaced_after) (use 2 in \<open>simp add: hd_map\<close>)
qed

text \<open>The outcome of the first half of \<^verbatim>\<open>liballoc_free\<close>: the region \<open>node\<close> ends at \<open>e\<close> with the freed pages and may touch
  the next; the regions up to it make up \<open>A\<close>.\<close>

definition joined :: "kheap \<Rightarrow> uint list \<Rightarrow> uint \<Rightarrow> uint list \<Rightarrow> nat \<Rightarrow> nat set \<Rightarrow> (nat \<times> nat) list \<Rightarrow> bool" where
  "joined k pre node post e A xs \<longleftrightarrow> distinct (pre @ node # post) \<and>
     seg (\<lambda>r. r_next (vregions k r)) (vmem_free_list_head k) (pre @ node # post) 0 \<and>
     (\<exists>ps. meta_ok k (pre @ node # post) ps) \<and>
     spaced 0x8E000000 (map (\<lambda>r. extent (vregions k r)) (pre @ [node])) \<and>
     fst (extent (vregions k node)) + 4096 * snd (extent (vregions k node)) = e \<and>
     areas (map (\<lambda>r. extent (vregions k r)) (pre @ [node])) = A \<and>
     map (\<lambda>r. extent (vregions k r)) post = xs"

lemma extend_region:
  fixes n :: uint
  assumes "kheap_ok k (pre @ q # post) ps" "fst (extent (vregions k q)) + 4096 * (snd (extent (vregions k q)) + unat n) \<le> 0xFE000000"
  defines "E \<equiv> \<lambda>r. extent (vregions k r)"
  shows "joined (set_region k q (\<lambda>r. r\<lparr>num_pages := num_pages r + n\<rparr>)) pre q post (fst (E q) + 4096 * (snd (E q) + unat n))
    (areas (map E (pre @ [q])) \<union> area (fst (E q) + 4096 * snd (E q), unat n)) (map E post)"
proof -
  let ?k = "set_region k q (\<lambda>r. r\<lparr>num_pages := num_pages r + n\<rparr>)" and ?ns = "pre @ q # post"
  note ok = assms(1) [unfolded kheap_ok_def regions_ok_def]
  have q: "q \<notin> set pre" "q \<notin> set post" using ok by auto
  have "unat (num_pages (vregions k q)) + unat n < 2 ^ 32" using assms(2) by (simp add: extent_def)
  then have e: "extent (vregions ?k q) = (fst (E q), snd (E q) + unat n)"
    by (simp add: extent_def E_def unat_plus_small)
  have e': "extent (vregions ?k r) = E r" if "r \<noteq> q" for r using that by (simp add: E_def)
  have m: "map (\<lambda>r. extent (vregions ?k r)) pre = map E pre" "map (\<lambda>r. extent (vregions ?k r)) post = map E post"
    using q by (auto intro!: e' [unfolded E_def] simp: E_def)
  have "seg (\<lambda>r. r_next (vregions ?k r)) (vmem_free_list_head ?k) ?ns 0"
    using ok by (subst seg_cong [of _ _ "\<lambda>r. r_next (vregions k r)"]) auto
  moreover have "meta_ok ?k ?ns ps" using ok meta_ok_cong [of ?k k ?ns ps] by simp
  moreover have "spaced 0x8E000000 (map E pre @ [(fst (E q), snd (E q) + unat n)])"
    using ok assms(2) by (intro spaced_extend) (auto simp: spaced_append E_def)
  ultimately show ?thesis using ok area_join [of "fst (E q)" "snd (E q)" "unat n"]
    unfolding joined_def map_append list.map m e by auto
qed

lemma link_region:
  assumes "regions_ok k (pre @ post)" "r \<noteq> 0" "r \<notin> set (pre @ post)" "va < 0xFE000000" "0x8E000000 \<le> va" "4096 dvd unat va" "n \<noteq> 0"
    "unat va + 4096 * unat n \<le> 0xFE000000" "spaced_end 0x8E000000 (map (\<lambda>r. extent (vregions k r)) pre) \<le> unat va"
  defines "k1 \<equiv> set_region k r (\<lambda>x. x\<lparr>base_vaddr := va, num_pages := n, r_next := head_or post 0\<rparr>)"
  defines "k2 \<equiv> set_link k1 (last_or 0 pre) r"
  assumes "meta_ok k2 (pre @ r # post) ps"
  shows "joined k2 pre r post (unat va + 4096 * unat n) (areas (map (\<lambda>r. extent (vregions k r)) pre) \<union> area (unat va, unat n))
    (map (\<lambda>r. extent (vregions k r)) post)"
proof -
  let ?E = "\<lambda>r. extent (vregions k r)" and ?n = "\<lambda>r. r_next (vregions k r)"
  note ok = assms(1) [unfolded regions_ok_def]
  have "seg ?n (head_or post 0) post 0" using ok by (simp add: seg_append)
  then have "seg (\<lambda>r. r_next (vregions k1 r)) (head_or post 0) post 0"
    using assms(3) by (subst seg_cong [of _ _ ?n]) (auto simp: k1_def)
  then have s: "seg (\<lambda>r. r_next (vregions k1 r)) r (r # post) 0" using assms(2) by (simp add: k1_def)
  have p: "seg (\<lambda>r. r_next (vregions k1 r)) (vmem_free_list_head k1) (pre @ post) 0"
    using ok assms(3) by (subst seg_cong [of _ _ ?n]) (auto simp: k1_def)
  have "last_or 0 pre \<notin> set (r # post) \<or> pre = []"
    using ok assms(3) last_in_set [of pre] by (auto simp: last_or_def disjoint_iff)
  then have "seg (\<lambda>r. r_next (vregions k2 r)) (vmem_free_list_head k2) (pre @ r # post) 0"
    unfolding k2_def using set_link_seg [OF p _ s] ok by simp
  moreover have e: "extent (vregions k2 r) = (unat va, unat n)" "x \<noteq> r \<Longrightarrow> extent (vregions k2 x) = ?E x" for x
    unfolding k2_def set_link_frame by (simp_all add: k1_def extent_def)
  have m: "map (\<lambda>r. extent (vregions k2 r)) pre = map ?E pre" "map (\<lambda>r. extent (vregions k2 r)) post = map ?E post"
    using assms(3) by (auto intro!: e(2))
  moreover have "spaced 0x8E000000 (map ?E pre @ [(unat va, unat n)])"
    using ok assms(6-9) by (intro spaced_add) (auto simp: spaced_append unat_gt_0)
  ultimately show ?thesis using ok assms(3,12) unfolding joined_def map_append list.map e(1) m by auto
qed

lemma merge_next_spec:
  assumes "joined k pre node post e A xs" "spaced e xs"
  shows "\<exists>k' ns ps. merge_next k node (head_or post 0) = Ok k' \<and> kheap_ok k' ns ps \<and> free_area k' ns = A \<union> areas xs"
proof -
  let ?X = "\<lambda>r. extent (vregions k r)" and ?n = "\<lambda>r. r_next (vregions k r)"
  note j = assms(1) [unfolded joined_def]
  have xs: "xs = map ?X post" using j by simp
  obtain ps where ps: "meta_ok k (pre @ node # post) ps" using j by blast
  obtain b m where bm: "?X node = (b, m)" by fastforce
  have be: "e = b + 4096 * m" using j bm by simp
  have sp: "spaced 0x8E000000 (map ?X pre @ [(b, m)])" using j bm by simp
  then have lim: "b + 4096 * m \<le> 0xFE000000" by (simp add: spaced_append)
  have re: "unat (region_end k node) = e" using region_end_unat [of k node] lim bm be by simp
  show ?thesis
  proof (cases "post \<noteq> [] \<and> region_end k node = base_vaddr (vregions k (hd post))")
    case False
    have "merge_next k node (head_or post 0) = Ok k" using False by (cases post) (auto simp: merge_next_def)
    moreover have "spaced 0x8E000000 (map ?X pre @ (b, m) # map ?X post)"
    proof (rule spaced_join(2) [OF sp])
      show "spaced (b + 4096 * m) (map ?X post)" using assms(2) xs be by simp
      show "fst (hd (map ?X post)) \<noteq> b + 4096 * m" if "map ?X post \<noteq> []"
        using False that re be by (auto simp: hd_map extent_def word_unat_eq_iff)
    qed
    then have "kheap_ok k (pre @ node # post) ps" using j ps bm by (simp add: kheap_ok_def regions_ok_def)
    moreover have "free_area k (pre @ node # post) = A \<union> areas xs" using j xs by (auto simp: free_area_def)
    ultimately show ?thesis by blast
  next
    case True
    then obtain cur post' where post: "post = cur # post'" by (cases post) auto
    obtain c q where cq: "?X cur = (c, q)" by fastforce
    have c: "c = b + 4096 * m" using True post cq re be by (simp add: extent_def)
    define k1 where "k1 = set_region k node (\<lambda>r. r\<lparr>num_pages := num_pages r + num_pages (vregions k cur), r_next := r_next (vregions k cur)\<rparr>)"
    have ne: "node \<noteq> cur" "cur \<noteq> 0" "node \<notin> set post'" "cur \<notin> set post'" "node \<notin> set pre" "cur \<notin> set pre" "distinct (pre @ node # post')"
      using j post by (auto simp: seg_append)
    have xs': "xs = (b + 4096 * m, q) # map ?X post'" using xs post cq c by simp
    have sp': "spaced (b + 4096 * m) ((b + 4096 * m, q) # map ?X post')" using assms(2) be xs' by simp
    then have "m + q < 2 ^ 32" using lim by simp
    then have e1: "extent (vregions k1 node) = (b, m + q)" using bm cq ne(1)
      by (auto simp: k1_def extent_def unat_plus_small)
    have e1': "extent (vregions k1 r) = ?X r" if "r \<noteq> node" for r using that by (simp add: k1_def)
    have meta1: "meta_ok k1 (pre @ node # post) ps"
      using ps meta_ok_cong [of k1 k "pre @ node # post" ps] by (simp add: k1_def)
    then obtain k' ps' where k': "recycle_vmem_region k1 cur = Ok k'" "meta_ok k' (remove1 cur (pre @ node # post)) ps'"
      "vregions k' = vregions k1" "vmem_free_list_head k' = vmem_free_list_head k1"
      using recycle_spec [of k1 "pre @ node # post" ps cur] j post ne by auto
    have m1: "map (\<lambda>r. extent (vregions k' r)) (pre @ node # post') = map ?X pre @ (b, m + q) # map ?X post'"
      using ne e1 k'(3) by (auto intro!: e1')
    have s: "seg ?n (vmem_free_list_head k) pre node" "seg ?n (?n cur) post' 0" using j post by (auto simp: seg_append)
    have "seg (\<lambda>r. r_next (vregions k1 r)) (vmem_free_list_head k1) pre node" "seg (\<lambda>r. r_next (vregions k1 r)) (?n cur) post' 0"
      using s ne by (subst seg_cong [of _ _ ?n]; auto simp: k1_def)+
    then have "seg (\<lambda>r. r_next (vregions k' r)) (vmem_free_list_head k') (pre @ node # post') 0"
      using k'(3,4) j by (simp add: seg_append k1_def)
    moreover have "spaced 0x8E000000 (map ?X pre @ (b, m + q) # map ?X post')"
      using spaced_join(1) [OF sp sp'] by simp
    moreover have "remove1 cur (pre @ node # post) = pre @ node # post'" using ne post by (simp add: remove1_append)
    ultimately have "kheap_ok k' (pre @ node # post') ps'" using k'(2) ne unfolding kheap_ok_def regions_ok_def m1 by simp
    moreover have "merge_next k node (head_or post 0) = Ok k'"
      using True post k'(1) ne(2) by (simp add: merge_next_def k1_def Let_def)
    moreover have "free_area k' (pre @ node # post') = A \<union> areas xs"
      using j bm area_join [of b m q] unfolding free_area_def m1 xs' by auto
    ultimately show ?thesis by blast
  qed
qed

lemma drop_pages_kend: "drop_pages is s pd va = Ok s' \<Longrightarrow> kend s' = kend s"
proof (induction "is" arbitrary: s)
  case (Cons i js)
  obtain s1 where s1: "kfree_and_unmap_page s pd (va + of_nat i * 4096) = Ok s1" "drop_pages js s1 pd va = Ok s'"
    using Cons.prems by (auto simp: andthen_Ok_iff)
  have "kend s1 = kend s" using s1(1)
    by (auto simp: kfree_and_unmap_page_def walkpgdir_def set_pte_def Let_def andthen_Ok_iff split: if_splits dest!: kfree_kend)
  then show ?case using Cons.IH s1(2) by simp
qed simp

lemma add_region_spec:
  fixes k :: kheap
  defines "E \<equiv> \<lambda>r. extent (vregions k r)"
  assumes ok: "kheap_ok k (pre @ post) ps" and mem: "kmem_inv (kh_mem k) xs" "set xs \<inter> set ps = {}" "slot_free k (pre @ post)"
    and va: "0x8E000000 \<le> va" "4096 dvd unat va" "n \<noteq> 0" "unat va + 4096 * unat n \<le> 0xFE000000"
    and gap: "pre \<noteq> [] \<Longrightarrow> fst (E (last pre)) + 4096 * snd (E (last pre)) \<le> unat va" "spaced_end 0x8E000000 (map E pre) \<le> unat va + 1"
  shows "add_region k va n (last_or 0 pre) (head_or post 0) = Panic ''kheap_free_pages: out of metadata'' \<or>
    (\<exists>node k' pre'. add_region k va n (last_or 0 pre) (head_or post 0) = Ok (node, k') \<and>
      joined k' pre' node post (unat va + 4096 * unat n) (areas (map E pre) \<union> area (unat va, unat n)) (map E post))"
proof (cases "pre \<noteq> [] \<and> region_end k (last pre) = va")
  case True
  then obtain pre' q where pre: "pre = pre' @ [q]" by (cases pre rule: rev_cases) auto
  have q: "q \<noteq> 0" "fst (E q) + 4096 * snd (E q) < 2 ^ 32" using ok va(4) gap(1) pre
    by (auto simp: kheap_ok_def regions_ok_def seg_append)
  then have e: "unat va = fst (E q) + 4096 * snd (E q)" using True pre region_end_unat [of k q] by (simp add: E_def)
  have "add_region k va n (last_or 0 pre) (head_or post 0) = Ok (q, set_region k q (\<lambda>r. r\<lparr>num_pages := num_pages r + n\<rparr>))"
    using True pre q(1) by (simp add: add_region_def)
  then show ?thesis using extend_region [of k pre' q post ps n] ok pre va(4) e by (auto simp: E_def algebra_simps)
next
  case False
  have nm: "\<not> (last_or 0 pre \<noteq> 0 \<and> region_end k (last_or 0 pre) = va)" using False by (auto simp: last_or_def)
  have se: "spaced_end 0x8E000000 (map E pre) \<le> unat va"
  proof (cases "pre = []")
    case False
    have lt: "fst (E (last pre)) + 4096 * snd (E (last pre)) < 2 ^ 32" using gap(1) False va(4) by fastforce
    then have "fst (E (last pre)) + 4096 * snd (E (last pre)) \<noteq> unat va"
      using region_end_unat [of k "last pre"] False \<open>\<not> (pre \<noteq> [] \<and> _)\<close> by (auto simp: E_def word_unat_eq_iff)
    then show ?thesis using gap(1) False by (simp add: spaced_end_def last_map)
  qed (use va(1) in \<open>simp add: spaced_end_def word_le_nat_alt\<close>)
  obtain r k1 where g: "get_new_vmem_region k = Ok (r, k1)" and
    r: "r \<noteq> 0 \<longrightarrow> r \<notin> set (pre @ post) \<and> (\<exists>p. vregions k1 = (vregions k)(r := (vregions k r)\<lparr>metadata_page := p\<rparr>)) \<and>
      vmem_free_list_head k1 = vmem_free_list_head k \<and>
      (\<forall>ns'. set ns' = insert r (set (pre @ post)) \<longrightarrow> (\<exists>ps'. meta_ok k1 ns' ps'))"
    using get_new_spec [OF _ mem(1,2,3)] ok by (auto simp: kheap_ok_def)
  show ?thesis
  proof (cases "r = 0")
    case True
    then show ?thesis using g nm by (auto simp: add_region_def)
  next
    case rz: False
    let ?k2 = "set_region k1 r (\<lambda>x. x\<lparr>base_vaddr := va, num_pages := n, r_next := head_or post 0\<rparr>)"
    obtain p where vr: "vregions k1 = (vregions k)(r := (vregions k r)\<lparr>metadata_page := p\<rparr>)" using r rz by blast
    have rn: "r \<notin> set (pre @ post)" using r rz by blast
    have "set (pre @ r # post) = insert r (set (pre @ post))" by auto
    then obtain ps' where m: "meta_ok k1 (pre @ r # post) ps'" using r rz by blast
    then have m': "meta_ok (set_link ?k2 (last_or 0 pre) r) (pre @ r # post) ps'"
      using meta_ok_cong [of "set_link ?k2 (last_or 0 pre) r" k1 "pre @ r # post" ps'] by simp
    have X: "extent (vregions k1 x) = E x" "r_next (vregions k1 x) = r_next (vregions k x)" for x by (simp_all add: vr E_def extent_def)
    have ok1: "regions_ok k1 (pre @ post)" using ok r rz unfolding kheap_ok_def regions_ok_def X by (simp add: E_def)
    have "va < 0xFE000000" using va(3,4) unat_gt_0 [of n] by (simp add: word_less_nat_alt)
    from link_region [OF ok1 rz rn this va _ m', unfolded X] se
    have "joined (set_link ?k2 (last_or 0 pre) r) pre r post (unat va + 4096 * unat n) (areas (map E pre) \<union> area (unat va, unat n)) (map E post)"
      by simp
    moreover have "add_region k va n (last_or 0 pre) (head_or post 0) = Ok (r, set_link ?k2 (last_or 0 pre) r)"
      using g nm rz by (auto simp: add_region_def Let_def)
    ultimately show ?thesis by blast
  qed
qed

lemma liballoc_free_spec:
  assumes "kheap_ok k ns ps" "0x8E000000 \<le> va" "4096 dvd unat va" "n \<noteq> 0" "unat va + 4096 * unat n \<le> 0xFE000000"
    "area (unat va, unat n) \<inter> free_area k ns = {}"
    "drop_pages [0..<unat n] (kh_mem k) (kpgdir k) va = Ok km" "kmem_inv km xs" "set xs \<inter> set ps = {}"
    "slot_free (k\<lparr>kh_mem := km\<rparr>) ns"
  shows "liballoc_free k va n = Panic ''kheap_free_pages: out of metadata'' \<or>
    (\<exists>k' ns' ps'. liballoc_free k va n = Ok (0, k') \<and> kheap_ok k' ns' ps' \<and>
      free_area k' ns' = free_area k ns \<union> area (unat va, unat n))"
proof -
  let ?k = "k\<lparr>kh_mem := km\<rparr>" and ?E = "\<lambda>r. extent (vregions k r)"
  have ok: "kheap_ok ?k ns ps" using assms(1) meta_ok_cong [of ?k k ns ps] drop_pages_kend [OF assms(7)]
    by (simp add: kheap_ok_def regions_ok_def)
  obtain pre post where f: "ns = pre @ post" "\<forall>r \<in> set pre. base_vaddr (vregions k r) < va"
    "post \<noteq> [] \<longrightarrow> va \<le> base_vaddr (vregions k (hd post))"
    "free_position (vregions k) va 0 (vmem_free_list_head k) = Some (last_or 0 pre, head_or post 0)"
    using free_position_spec [of "vregions k" "vmem_free_list_head k" ns va 0] assms(1) by (auto simp: kheap_ok_def regions_ok_def)
  have sp: "spaced 0x8E000000 (map ?E pre @ map ?E post)" using assms(1) f(1) by (simp add: kheap_ok_def regions_ok_def)
  have b: "pre \<noteq> [] \<Longrightarrow> fst (?E (last pre)) + 4096 * snd (?E (last pre)) \<le> unat va"
    "spaced_end 0x8E000000 (map ?E pre) \<le> unat va + 1" "spaced (unat va + 4096 * unat n) (map ?E post)"
    using freed_between [OF sp, of "unat va" "unat n"] assms(2,4,6) f(1-3) unat_gt_0 [of n]
    by (auto simp: free_area_def extent_def word_less_nat_alt word_le_nat_alt)
  have vz: "va \<noteq> 0" using assms(2) by auto
  have eq: "liballoc_free k va n = andthen (add_region ?k va n (last_or 0 pre) (head_or post 0)) (\<lambda>(node, k).
      andthen (merge_next k node (head_or post 0)) (\<lambda>k. Ok (0, k)))"
    using assms(4,7) vz f(4) by (simp add: liballoc_free_def Let_def)
  from add_region_spec [of ?k pre post ps xs va n] ok assms(2-5,8-10) b(1,2) f(1)
  consider "add_region ?k va n (last_or 0 pre) (head_or post 0) = Panic ''kheap_free_pages: out of metadata''"
    | node k1 pre' where "add_region ?k va n (last_or 0 pre) (head_or post 0) = Ok (node, k1)"
        "joined k1 pre' node post (unat va + 4096 * unat n) (areas (map ?E pre) \<union> area (unat va, unat n)) (map ?E post)"
    by auto
  then show ?thesis
  proof cases
    case 2
    from merge_next_spec [OF 2(2) b(3)] obtain k' ns' ps' where "merge_next k1 node (head_or post 0) = Ok k'" "kheap_ok k' ns' ps'"
      "free_area k' ns' = areas (map ?E pre) \<union> area (unat va, unat n) \<union> areas (map ?E post)" by blast
    then show ?thesis using eq 2(1) f(1) by (auto simp: free_area_def)
  qed (use eq in simp)
qed

section \<open>The contract of the page source with release\<close>

lemma seg_unique: "seg nxt x xs 0 \<Longrightarrow> seg nxt x ys 0 \<Longrightarrow> xs = ys"
proof (induction xs arbitrary: x ys)
  case Nil
  then show ?case by (cases ys) auto
next
  case (Cons y xs)
  then show ?case by (cases ys) auto
qed

lemma source_ok_unique: "source_ok k F \<Longrightarrow> kheap_ok k ns ps \<Longrightarrow> F = free_area k ns"
  using seg_unique by (auto simp: source_ok_def kheap_ok_def regions_ok_def)

text \<open>
  The pages at the addresses \<open>as\<close> that are mapped have frames of their own: pages of the allocator that are neither free nor
  part of the page directory, and no two of them the same.
\<close>

definition backed :: "kmem \<Rightarrow> uint list \<Rightarrow> uint \<Rightarrow> uint list \<Rightarrow> bool" where
  "backed s xs pd as \<longleftrightarrow> pt_inv s xs pd \<and>
     (\<forall>a \<in> set as. mapped (kmem_mem s) pd a \<longrightarrow> free_page (kend s) (frame (kmem_mem s) pd a) \<and>
        frame (kmem_mem s) pd a \<notin> set xs \<and> frame (kmem_mem s) pd a \<notin> pt_pages (kmem_mem s) pd) \<and>
     (\<forall>a \<in> set as. \<forall>b \<in> set as. mapped (kmem_mem s) pd a \<and> mapped (kmem_mem s) pd b \<and>
        frame (kmem_mem s) pd a = frame (kmem_mem s) pd b \<longrightarrow> PGROUNDDOWN a = PGROUNDDOWN b)"

definition frames_at :: "mem \<Rightarrow> uint \<Rightarrow> uint list \<Rightarrow> uint set" where
  "frames_at m pd as = frame m pd ` {a \<in> set as. mapped m pd a}"

lemma backedD:
  assumes "backed s xs pd as"
  shows "pt_inv s xs pd"
    "a \<in> set as \<Longrightarrow> mapped (kmem_mem s) pd a \<Longrightarrow> free_page (kend s) (frame (kmem_mem s) pd a) \<and>
      frame (kmem_mem s) pd a \<notin> set xs \<and> frame (kmem_mem s) pd a \<notin> pt_pages (kmem_mem s) pd"
    "a \<in> set as \<Longrightarrow> b \<in> set as \<Longrightarrow> mapped (kmem_mem s) pd a \<Longrightarrow> mapped (kmem_mem s) pd b \<Longrightarrow>
      frame (kmem_mem s) pd a = frame (kmem_mem s) pd b \<Longrightarrow> PGROUNDDOWN a = PGROUNDDOWN b"
  using assms unfolding backed_def by blast+

lemma backedI:
  assumes "pt_inv s xs pd"
    "\<And>a. a \<in> set as \<Longrightarrow> mapped (kmem_mem s) pd a \<Longrightarrow> free_page (kend s) (frame (kmem_mem s) pd a) \<and>
      frame (kmem_mem s) pd a \<notin> set xs \<and> frame (kmem_mem s) pd a \<notin> pt_pages (kmem_mem s) pd"
    "\<And>a b. a \<in> set as \<Longrightarrow> b \<in> set as \<Longrightarrow> mapped (kmem_mem s) pd a \<Longrightarrow> mapped (kmem_mem s) pd b \<Longrightarrow>
      frame (kmem_mem s) pd a = frame (kmem_mem s) pd b \<Longrightarrow> PGROUNDDOWN a = PGROUNDDOWN b"
  shows "backed s xs pd as"
  using assms unfolding backed_def by blast

lemma kfree_and_unmap_page_spec:
  assumes "backed s xs pd (a # as)"
  shows "\<exists>s' ys. kfree_and_unmap_page s pd a = Ok s' \<and> backed s' ys pd as \<and>
    set ys \<union> frames_at (kmem_mem s') pd as = set xs \<union> frames_at (kmem_mem s) pd (a # as)"
proof (cases "mapped (kmem_mem s) pd a")
  case False
  have "kfree_and_unmap_page s pd a = Ok s"
  proof (cases "present (pde (kmem_mem s) pd (PDX a))")
    case True
    from walk_mapped_table [OF backedD(1) [OF assms] True] show ?thesis using False
      by (simp add: kfree_and_unmap_page_def mapped_def present_def)
  next
    case False
    then show ?thesis by (simp add: kfree_and_unmap_page_def walkpgdir_def pde_def pde_addr_def present_def Let_def)
  qed
  moreover have "backed s xs pd as"
    by (rule backedI [OF backedD(1) [OF assms] backedD(2) [OF assms] backedD(3) [OF assms]]) (simp_all only: list.set_intros)
  moreover have "frames_at (kmem_mem s) pd (a # as) = frames_at (kmem_mem s) pd as" using False by (auto simp: frames_at_def)
  ultimately show ?thesis by auto
next
  case True
  let ?m = "kmem_mem s" and ?f = "frame (kmem_mem s) pd a" and ?p = "pte_addr (kmem_mem s) pd a"
  note inv = backedD(1) [OF assms]
  have f: "free_page (kend s) ?f" "?f \<notin> set xs" "?f \<notin> pt_pages ?m pd" using backedD(2) [OF assms _ True] by simp_all
  obtain s1 where s1: "kfree s ?f = Ok s1" "pt_inv s1 (?f # xs) pd" "kend s1 = kend s" "pt_pages (kmem_mem s1) pd = pt_pages ?m pd"
    "\<And>va. pte_of (kmem_mem s1) pd va = pte_of ?m pd va" "\<And>i. unat i < 1024 \<Longrightarrow> pde (kmem_mem s1) pd i = pde ?m pd i"
    using kfree_pt [OF inv f] by blast
  have pr: "present (pde (kmem_mem s1) pd (PDX a))" using s1(6) [OF PDX_bound] mapped_pde [OF True] by simp
  have p: "?p = pte_addr (kmem_mem s1) pd a" using s1(6) [OF PDX_bound] by (simp add: pte_addr_def table_def)
  let ?s = "set_pte s1 ?p 0"
  note sp = set_pte_spec [OF s1(2) pr, where w = 0, folded p]
  note w = walk_mapped_table [OF inv mapped_pde [OF True]]
  have "kfree_and_unmap_page s pd a = Ok ?s"
    using w True s1(1) by (simp add: kfree_and_unmap_page_def frame_def mapped_def present_def)
  moreover have m: "mapped (kmem_mem ?s) pd b \<longleftrightarrow> mapped ?m pd b \<and> PGROUNDDOWN b \<noteq> PGROUNDDOWN a" for b
    using sp(4) [of b] s1(5) by (simp add: mapped_def)
  have fr: "frame (kmem_mem ?s) pd b = frame ?m pd b" if "mapped (kmem_mem ?s) pd b" for b
    using sp(4) [of b] s1(5) that m [of b] by (simp add: frame_def)
  have ne: "frame ?m pd b \<noteq> ?f" if "b \<in> set as" "mapped (kmem_mem ?s) pd b" for b
    using backedD(3) [OF assms _ _ _ True, of b] that m [of b] by auto
  have "backed ?s (?f # xs) pd as"
  proof (rule backedI)
    fix b assume b: "b \<in> set as" "mapped (kmem_mem ?s) pd b"
    then show "free_page (kend ?s) (frame (kmem_mem ?s) pd b) \<and> frame (kmem_mem ?s) pd b \<notin> set (?f # xs) \<and>
        frame (kmem_mem ?s) pd b \<notin> pt_pages (kmem_mem ?s) pd"
      using backedD(2) [OF assms, of b] m [of b] fr [OF b(2)] ne [OF b] sp(2) s1(3,4) by (simp add: set_pte_def)
  next
    fix b c assume b: "b \<in> set as" "c \<in> set as" "mapped (kmem_mem ?s) pd b" "mapped (kmem_mem ?s) pd c"
      and e: "frame (kmem_mem ?s) pd b = frame (kmem_mem ?s) pd c"
    show "PGROUNDDOWN b = PGROUNDDOWN c"
      by (rule backedD(3) [OF assms]) (use b m [of b] m [of c] fr [OF b(3)] fr [OF b(4)] e in simp_all)
  qed (rule sp(1))
  moreover have "frames_at (kmem_mem ?s) pd as = frame ?m pd ` {b \<in> set as. mapped ?m pd b \<and> PGROUNDDOWN b \<noteq> PGROUNDDOWN a}" (is "_ = ?F")
    unfolding frames_at_def using m fr by (intro image_cong) auto
  moreover have "frames_at ?m pd (a # as) = insert ?f ?F"
  proof (intro equalityI subsetI)
    fix x assume "x \<in> frames_at ?m pd (a # as)"
    then obtain b where b: "b \<in> set (a # as)" "mapped ?m pd b" "x = frame ?m pd b" unfolding frames_at_def by blast
    show "x \<in> insert ?f ?F"
    proof (cases "PGROUNDDOWN b = PGROUNDDOWN a")
      case True
      then show ?thesis using b(3) pte_of_page [OF True, of ?m pd] by (simp only: frame_def) simp
    next
      case False
      then have "b \<in> set as" using b(1) by auto
      then show ?thesis using False b(2,3) by blast
    qed
  qed (use True in \<open>auto simp: frames_at_def\<close>)
  ultimately show ?thesis by (intro exI [of _ ?s] exI [of _ "?f # xs"]) simp
qed

lemma drop_pages_spec:
  assumes "backed s xs pd (map (\<lambda>i. va + of_nat i * PGSIZE) js)"
  shows "\<exists>s' ys. drop_pages js s pd va = Ok s' \<and> kmem_inv s' ys \<and>
    set ys = set xs \<union> frames_at (kmem_mem s) pd (map (\<lambda>i. va + of_nat i * PGSIZE) js)"
  using assms
proof (induction js arbitrary: s xs)
  case Nil
  then show ?case using backedD(1) [OF Nil] by (simp add: pt_inv_def frames_at_def) blast
next
  case (Cons i js)
  obtain s1 ys where s1: "kfree_and_unmap_page s pd (va + of_nat i * PGSIZE) = Ok s1"
    "backed s1 ys pd (map (\<lambda>i. va + of_nat i * PGSIZE) js)"
    "set ys \<union> frames_at (kmem_mem s1) pd (map (\<lambda>i. va + of_nat i * PGSIZE) js) =
      set xs \<union> frames_at (kmem_mem s) pd (map (\<lambda>i. va + of_nat i * PGSIZE) (i # js))"
    using kfree_and_unmap_page_spec Cons.prems unfolding list.map by blast
  then show ?case using Cons.IH [OF s1(2)] by simp
qed

text \<open>
  A run of pages can be released when its pages are backed in this way, none of the free pages or of the frames is a metadata
  page, and the slot for a new region descriptor is not one in use.
\<close>

definition releasable :: "kheap \<Rightarrow> uint \<Rightarrow> uint \<Rightarrow> bool" where
  "releasable k va n \<longleftrightarrow> (\<exists>ns ps xs. kheap_ok k ns ps \<and>
     backed (kh_mem k) xs (kpgdir k) (map (\<lambda>i. va + of_nat i * PGSIZE) [0..<unat n]) \<and>
     (set xs \<union> frames_at (kmem_mem (kh_mem k)) (kpgdir k) (map (\<lambda>i. va + of_nat i * PGSIZE) [0..<unat n])) \<inter> set ps = {} \<and>
     (\<forall>km. drop_pages [0..<unat n] (kh_mem k) (kpgdir k) va = Ok km \<longrightarrow> slot_free (k\<lparr>kh_mem := km\<rparr>) ns))"

locale page_pool = page_source +
  fixes free :: "'k \<Rightarrow> uint \<Rightarrow> uint \<Rightarrow> (int \<times> 'k) res" and can_free :: "'k \<Rightarrow> uint \<Rightarrow> uint \<Rightarrow> bool"
  assumes free_run: "ok k F \<Longrightarrow> can_free k va n \<Longrightarrow> 0x8E000000 \<le> unat va \<Longrightarrow> 4096 dvd unat va \<Longrightarrow> n \<noteq> 0 \<Longrightarrow>
    unat va + 4096 * unat n \<le> 0xFE000000 \<Longrightarrow> area (unat va, unat n) \<inter> F = {} \<Longrightarrow>
    free k va n = Panic ''kheap_free_pages: out of metadata'' \<or> (\<exists>k'. free k va n = Ok (0, k') \<and> ok k' (F \<union> area (unat va, unat n)))"
begin

text \<open>Releasing the run just handed out gives the free part back as it was.\<close>

lemma free_after_alloc:
  assumes "ok k F" "n \<noteq> 0" "alloc k n = Ok (va, k')" "va \<noteq> 0" "can_free k' va n"
  shows "free k' va n = Panic ''kheap_free_pages: out of metadata'' \<or> (\<exists>k''. free k' va n = Ok (0, k'') \<and> ok k'' F)"
proof -
  note a = alloc_Ok [OF assms(1-4)]
  have "F - area (unat va, unat n) \<union> area (unat va, unat n) = F" using a(1) by blast
  then show ?thesis using free_run [OF a(2) assms(5) a(3,5) assms(2) a(4)] by auto
qed

end

interpretation pool: page_pool liballoc_alloc source_ok liballoc_free releasable
proof
  fix k F and va n :: uint
  assume F: "source_ok k F" and r: "releasable k va n" and va: "0x8E000000 \<le> unat va" "4096 dvd unat va" "n \<noteq> 0"
    "unat va + 4096 * unat n \<le> 0xFE000000" "area (unat va, unat n) \<inter> F = {}"
  let ?as = "map (\<lambda>i. va + of_nat i * PGSIZE) [0..<unat n]"
  obtain ns ps xs where k: "kheap_ok k ns ps" "backed (kh_mem k) xs (kpgdir k) ?as"
    "(set xs \<union> frames_at (kmem_mem (kh_mem k)) (kpgdir k) ?as) \<inter> set ps = {}"
    "\<forall>km. drop_pages [0..<unat n] (kh_mem k) (kpgdir k) va = Ok km \<longrightarrow> slot_free (k\<lparr>kh_mem := km\<rparr>) ns"
    using r unfolding releasable_def by blast
  obtain km ys where d: "drop_pages [0..<unat n] (kh_mem k) (kpgdir k) va = Ok km" "kmem_inv km ys"
    "set ys = set xs \<union> frames_at (kmem_mem (kh_mem k)) (kpgdir k) ?as" using drop_pages_spec [OF k(2)] by blast
  have ps: "set ys \<inter> set ps = {}" "slot_free (k\<lparr>kh_mem := km\<rparr>) ns" using k(3,4) d by auto
  have F': "F = free_area k ns" by (rule source_ok_unique [OF F k(1)])
  have "0x8E000000 \<le> va" using va(1) by (simp add: word_le_nat_alt)
  from liballoc_free_spec [OF k(1) this va(2-4) _ d(1,2) ps] va(5)
  show "liballoc_free k va n = Panic ''kheap_free_pages: out of metadata'' \<or>
    (\<exists>k'. liballoc_free k va n = Ok (0, k') \<and> source_ok k' (F \<union> area (unat va, unat n)))"
    unfolding F' source_ok_def by metis
qed

section \<open>Correctness\<close>

text \<open>C18: \<^verbatim>\<open>liballoc_alloc\<close> takes a run of pages out of the free part of the heap's address range: on success it returns the
  page-aligned start of a run that was free, exactly this run leaves the free part, and the list of regions stays
  sorted, with gaps between its regions, and in agreement with its metadata. It returns null, changing nothing,
  exactly when no region is large enough, and otherwise fails only by the panic for want of physical memory.\<close>

theorem liballoc_alloc_correct:
  assumes "kheap_ok k ns ps" "n \<noteq> 0"
  shows "if \<forall>r \<in> set ns. num_pages (vregions k r) < n then liballoc_alloc k n = Ok (0, k)
    else \<exists>va k' ns' ps'. 0x8E000000 \<le> unat va \<and> 4096 dvd unat va \<and> area (unat va, unat n) \<subseteq> free_area k ns \<and>
      kheap_ok k' ns' ps' \<and> free_area k' ns' = free_area k ns - area (unat va, unat n) \<and>
      (liballoc_alloc k n = Ok (va, k') \<or> liballoc_alloc k n = Panic ''kheap_alloc_pages: out of physical memory'')"
  using assms by (rule liballoc_alloc_spec)

text \<open>C19: \<^verbatim>\<open>liballoc_free\<close> of a run of pages that is not free puts exactly this run back into the free part, merging it with
  the regions on either side that it touches, provided the pages can be released and the slot for a new
  region descriptor is not one in use; for want of memory for descriptors it panics.\<close>

theorem liballoc_free_correct:
  assumes "kheap_ok k ns ps" "0x8E000000 \<le> va" "4096 dvd unat va" "n \<noteq> 0" "unat va + 4096 * unat n \<le> 0xFE000000"
    "area (unat va, unat n) \<inter> free_area k ns = {}"
    "drop_pages [0..<unat n] (kh_mem k) (kpgdir k) va = Ok km" "kmem_inv km xs" "set xs \<inter> set ps = {}"
    "slot_free (k\<lparr>kh_mem := km\<rparr>) ns"
  shows "liballoc_free k va n = Panic ''kheap_free_pages: out of metadata'' \<or>
    (\<exists>k' ns' ps'. liballoc_free k va n = Ok (0, k') \<and> kheap_ok k' ns' ps' \<and>
      free_area k' ns' = free_area k ns \<union> area (unat va, unat n))"
  using assms by (rule liballoc_free_spec)

section \<open>Examples\<close>

abbreviation (input) sample_page :: uint where "sample_page \<equiv> 0x80400000"

text \<open>One free region of ten pages, in the first slot of the only metadata page.\<close>

definition sample_kheap :: kheap where
  "sample_kheap = \<lparr>kh_mem = demo_kmem, kpgdir = demo_pd, mpages = (\<lambda>_. \<lparr>m_next = 0, num_regions = 1\<rparr>),
     vregions = (\<lambda>_. \<lparr>base_vaddr = 0x8E001000, num_pages = 10, r_next = 0, metadata_page = sample_page\<rparr>),
     metadata_pages = sample_page, vmem_free_list_head = 0x80400008\<rparr>"

lemma sample_page_free: "free_page (kend demo_kmem) sample_page"
  by (simp add: demo_kmem_def free_page_def page_aligned_def V2P_def)

lemma sample_kheap_ok: "kheap_ok sample_kheap [0x80400008] [sample_page]"
  using sample_page_free by (simp add: kheap_ok_def regions_ok_def meta_ok_def sample_kheap_def extent_def)

theorem liballoc_alloc_correct_witness:
  "\<exists>va k' ns' ps'. area (unat va, 1) \<subseteq> free_area sample_kheap [0x80400008] \<and> kheap_ok k' ns' ps' \<and>
     (liballoc_alloc sample_kheap 1 = Ok (va, k') \<or>
      liballoc_alloc sample_kheap 1 = Panic ''kheap_alloc_pages: out of physical memory'')"
proof -
  have "\<not> (\<forall>r \<in> set [0x80400008 :: uint]. num_pages (vregions sample_kheap r) < 1)" by (simp add: sample_kheap_def)
  then show ?thesis using liballoc_alloc_correct [OF sample_kheap_ok, of 1] by auto
qed

lemma demo_unmapped: "walkpgdir demo_kmem demo_pd va False = (0, demo_kmem)"
  by (simp add: walkpgdir_def demo_kmem_def)

theorem liballoc_free_correct_witness:
  "\<exists>k' ns' ps'. liballoc_free sample_kheap 0x8E000000 1 = Ok (0, k') \<and> kheap_ok k' ns' ps' \<and>
     free_area k' ns' = {0x8E000000..<0x8E000000 + 11 * 4096}"
proof -
  have d: "drop_pages [0..<unat (1 :: uint)] (kh_mem sample_kheap) (kpgdir sample_kheap) 0x8E000000 = Ok demo_kmem"
    using demo_unmapped by (simp add: kfree_and_unmap_page_def sample_kheap_def)
  have s: "slot_free (sample_kheap\<lparr>kh_mem := demo_kmem\<rparr>) [0x80400008]"
    by (simp add: slot_free_def get_new_vmem_region_def find_page.simps [of _ sample_page] take_slot_def Let_def region_at_def sample_kheap_def)
  have k: "kmem_inv demo_kmem [0x80200000]" using demo_inv(1) by (simp add: pt_inv_def)
  have f: "free_area sample_kheap [0x80400008] = {0x8E001000..<0x8E001000 + 10 * 4096}"
    by (simp add: free_area_def areas_def area_def extent_def sample_kheap_def)
  have np: "liballoc_free sample_kheap 0x8E000000 1 \<noteq> Panic e" for e
    using d by (simp add: liballoc_free_def add_region_def get_new_vmem_region_def find_page.simps [of _ sample_page]
      free_position.simps [of _ _ _ "0x80400008"] take_slot_def Let_def region_at_def set_link_def
      merge_next_def recycle_vmem_region_def region_end_def set_region_def set_mpage_def sample_kheap_def)
  have "area (unat (0x8E000000 :: uint), unat (1 :: uint)) \<inter> free_area sample_kheap [0x80400008] = {}"
    unfolding f by (auto simp: area_def)
  then have "\<exists>k' ns' ps'. liballoc_free sample_kheap 0x8E000000 1 = Ok (0, k') \<and> kheap_ok k' ns' ps' \<and>
      free_area k' ns' = free_area sample_kheap [0x80400008] \<union> area (unat (0x8E000000 :: uint), unat (1 :: uint))"
    using liballoc_free_correct [OF sample_kheap_ok _ _ _ _ _ d k _ s] np by simp
  moreover have "free_area sample_kheap [0x80400008] \<union> area (unat (0x8E000000 :: uint), unat (1 :: uint)) = {0x8E000000..<0x8E000000 + 11 * 4096}"
    unfolding f by (auto simp: area_def)
  ultimately show ?thesis by simp
qed

text \<open>The page at the start of the heap's range mapped, to a frame that is in use.\<close>

lemma demo_mapped:
  "\<exists>s xs. pt_inv s xs demo_pd \<and> kend s = kend demo_kmem \<and> set xs \<union> pt_pages (kmem_mem s) demo_pd \<subseteq> {demo_pd, 0x80200000} \<and>
     pte_of (kmem_mem s) demo_pd 0x8E000000 = 0x600003"
proof -
  obtain s xs where s: "pt_step demo_pd demo_kmem [0x80200000] s xs" "present (pde (kmem_mem s) demo_pd (PDX 0x8E000000))"
    using walk_alloc [OF demo_inv(1), of "0x8E000000"] by auto
  have pg: "pt_pages (kmem_mem demo_kmem) demo_pd = {demo_pd}" using empty_directory(1) [of "\<lambda>_. 0" demo_pd] by (simp add: demo_kmem_def)
  obtain zs where zs: "[0x80200000] = zs @ xs" "pt_pages (kmem_mem s) demo_pd = {demo_pd} \<union> set zs"
    using s(1) unfolding pt_step_def pg by blast
  have "set zs \<union> set xs = {0x80200000}" using arg_cong [OF zs(1), of set] by simp
  then have st: "pt_inv s xs demo_pd" "kend s = kend demo_kmem" "set xs \<union> pt_pages (kmem_mem s) demo_pd \<subseteq> {demo_pd, 0x80200000}"
    using s(1) zs(2) unfolding pt_step_def by blast+
  let ?t = "set_pte s (pte_addr (kmem_mem s) demo_pd 0x8E000000) 0x600003"
  note t = set_pte_spec [OF st(1) s(2), where w = "0x600003"]
  have "kend ?t = kend demo_kmem" using st(2) by (simp add: set_pte_def)
  moreover have "set xs \<union> pt_pages (kmem_mem ?t) demo_pd \<subseteq> {demo_pd, 0x80200000}" using t(2) st(3) by simp
  moreover have "pte_of (kmem_mem ?t) demo_pd 0x8E000000 = 0x600003" using t(4) by simp
  ultimately show ?thesis using t(1) by blast
qed

lemma sample_release:
  "\<exists>s. kheap_ok (sample_kheap\<lparr>kh_mem := s\<rparr>) [0x80400008] [sample_page] \<and> mapped (kmem_mem s) demo_pd 0x8E000000 \<and>
     releasable (sample_kheap\<lparr>kh_mem := s\<rparr>) 0x8E000000 1 \<and> (\<forall>e. liballoc_free (sample_kheap\<lparr>kh_mem := s\<rparr>) 0x8E000000 1 \<noteq> Panic e)"
proof -
  obtain s xs where s: "pt_inv s xs demo_pd" "kend s = kend demo_kmem" "set xs \<union> pt_pages (kmem_mem s) demo_pd \<subseteq> {demo_pd, 0x80200000}"
    "pte_of (kmem_mem s) demo_pd 0x8E000000 = 0x600003" using demo_mapped by blast
  let ?k = "sample_kheap\<lparr>kh_mem := s\<rparr>"
  have ok: "kheap_ok ?k [0x80400008] [sample_page]"
    using sample_kheap_ok s(2) by (simp add: kheap_ok_def regions_ok_def meta_ok_def sample_kheap_def)
  have m: "mapped (kmem_mem s) demo_pd 0x8E000000" "frame (kmem_mem s) demo_pd 0x8E000000 = 0x80600000"
    using s(4) by (simp_all add: mapped_def frame_def present_def P2V_def PTE_ADDR_def)
  have fp: "free_page (kend s) 0x80600000" using s(2) by (simp add: demo_kmem_def free_page_def page_aligned_def V2P_def)
  have b: "backed s xs demo_pd [0x8E000000]"
    by (rule backedI [OF s(1)]) (use m fp s(3) in auto)
  have fa: "frames_at (kmem_mem s) demo_pd [0x8E000000] = {0x80600000}" using m by (auto simp: frames_at_def)
  have fl: "slot_free (?k\<lparr>kh_mem := km\<rparr>) [0x80400008]" for km
    by (simp add: slot_free_def get_new_vmem_region_def find_page.simps [of _ sample_page] take_slot_def Let_def region_at_def sample_kheap_def)
  have as: "map (\<lambda>i. 0x8E000000 + of_nat i * 4096) [0..<unat (1 :: uint)] = [0x8E000000 :: uint]" by simp
  have r: "releasable ?k 0x8E000000 1"
    unfolding releasable_def as using ok b fa fl s(3)
    by (intro exI [of _ "[0x80400008]"] exI [of _ "[sample_page]"] exI [of _ xs]) (auto simp: sample_kheap_def)
  obtain km where d: "drop_pages [0..<unat (1 :: uint)] s demo_pd 0x8E000000 = Ok km"
    using drop_pages_spec [of s xs demo_pd "0x8E000000" "[0..<unat (1 :: uint)]"] b as by auto
  have "liballoc_free ?k 0x8E000000 1 \<noteq> Panic e" for e
    using d by (simp add: liballoc_free_def add_region_def get_new_vmem_region_def find_page.simps [of _ sample_page]
      free_position.simps [of _ _ _ "0x80400008"] take_slot_def Let_def region_at_def set_link_def
      merge_next_def recycle_vmem_region_def region_end_def set_region_def set_mpage_def sample_kheap_def)
  then show ?thesis using ok m(1) r by blast
qed

text \<open>Two of the slots of a metadata page are in use, but not the first two: the state after, say, the heap's
  first region has been merged into a later one, which gives back the first slot by lowering the count.\<close>

definition clash_kheap :: kheap where
  "clash_kheap = \<lparr>kh_mem = demo_kmem, kpgdir = demo_pd, mpages = (\<lambda>_. \<lparr>m_next = 0, num_regions = 2\<rparr>),
     vregions = (\<lambda>_. \<lparr>base_vaddr = 0, num_pages = 0, r_next = 0, metadata_page = 0\<rparr>)
       (0x80400018 := \<lparr>base_vaddr = 0x8E000000, num_pages = 1, r_next = 0x80400028, metadata_page = sample_page\<rparr>,
        0x80400028 := \<lparr>base_vaddr = 0x8E008000, num_pages = 100, r_next = 0, metadata_page = sample_page\<rparr>),
     metadata_pages = sample_page, vmem_free_list_head = 0x80400018\<rparr>"

lemma find_region_cycle:
  "find_region rs n prev cur = Some y \<Longrightarrow> \<not> (cur \<noteq> 0 \<and> num_pages (rs cur) < n \<and> r_next (rs cur) = cur)"
proof (erule find_region.raw_induct [rotated])
  fix f rs n prev cur y
  assume IH: "\<And>rs n prev cur y. f rs n prev cur = Some y \<Longrightarrow> \<not> (cur \<noteq> 0 \<and> num_pages (rs cur) < n \<and> r_next (rs cur) = cur)"
    and eq: "(if cur = 0 \<or> n \<le> num_pages (rs cur) then Some (prev, cur) else f rs n cur (r_next (rs cur))) = Some y"
  show "\<not> (cur \<noteq> 0 \<and> num_pages (rs cur) < n \<and> r_next (rs cur) = cur)"
    using IH [of rs n cur cur y] eq by (auto simp: not_le [symmetric])
qed

text \<open>C38: The slot for a new region can be one in use. From a heap whose list and metadata are in order, freeing two pages
  overwrites the descriptor of a free region with that of the freed pages and links it to itself, after which
  an allocation that no earlier region can serve never returns.\<close>

theorem region_slot_reused:
  "kheap_ok clash_kheap [0x80400018, 0x80400028] [sample_page] \<and>
   (\<exists>k'. liballoc_free clash_kheap 0x8E004000 2 = Ok (0, k') \<and> liballoc_alloc k' 50 = Blocked)"
proof
  have c: "{r. (r = 0x80400018 \<or> r = 0x80400028) \<and> metadata_page (vregions clash_kheap r) = 0x80400000} = {0x80400018, 0x80400028 :: uint}"
    by (auto simp: clash_kheap_def)
  then show "kheap_ok clash_kheap [0x80400018, 0x80400028] [sample_page]"
    using sample_page_free by (simp add: kheap_ok_def regions_ok_def meta_ok_def extent_def) (simp add: clash_kheap_def)
  have d: "drop_pages [0..<unat (2 :: uint)] demo_kmem demo_pd 0x8E004000 = Ok demo_kmem"
    using demo_unmapped by (simp add: kfree_and_unmap_page_def upt_rec)
  let ?b = "0x80400028 :: uint"
  have "\<exists>k'. liballoc_free clash_kheap 0x8E004000 2 = Ok (0, k') \<and> vmem_free_list_head k' = 0x80400018 \<and>
      num_pages (vregions k' 0x80400018) = 1 \<and> r_next (vregions k' 0x80400018) = ?b \<and>
      num_pages (vregions k' ?b) = 2 \<and> r_next (vregions k' ?b) = ?b"
    using d by (simp add: liballoc_free_def add_region_def get_new_vmem_region_def find_page.simps [of _ sample_page]
      free_position.simps [of _ _ _ "0x80400018"] free_position.simps [of _ _ _ ?b] take_slot_def Let_def region_at_def set_link_def
      merge_next_def region_end_def set_region_def set_mpage_def clash_kheap_def)
  then obtain k' where k': "liballoc_free clash_kheap 0x8E004000 2 = Ok (0, k')" "vmem_free_list_head k' = 0x80400018"
    "num_pages (vregions k' 0x80400018) = 1" "r_next (vregions k' 0x80400018) = ?b"
    "num_pages (vregions k' ?b) = 2" "r_next (vregions k' ?b) = ?b" by blast
  have "find_region (vregions k') 50 0x80400018 ?b = None"
    using find_region_cycle [of "vregions k'" 50 "0x80400018" ?b] k'(5,6) by (cases "find_region (vregions k') 50 0x80400018 ?b") auto
  then have "liballoc_alloc k' 50 = Blocked"
    using k' by (simp add: liballoc_alloc_def find_region.simps [of _ _ _ "0x80400018"] word_le_nat_alt)
  then show "\<exists>k'. liballoc_free clash_kheap 0x8E004000 2 = Ok (0, k') \<and> liballoc_alloc k' 50 = Blocked" using k'(1) by blast
qed

end
