(* ===== verification/Liballoc.thy ===== *)
theory Liballoc
  imports Kheap
begin

text \<open>
  The allocator of the kernel heap, \<^verbatim>\<open>vm/liballoc.c\<close>, compiled without \<^verbatim>\<open>DEBUG\<close> and \<^verbatim>\<open>INFO\<close>. Major blocks hold runs of
  pages from \<^verbatim>\<open>kheap.c\<close>, and minor blocks inside them the memory handed out. The headers of both are objects
  of a store indexed by their addresses; all other bytes of the heap, the alignment information in front
  of the pointers handed out among them, are in \<open>h_bytes\<close>.
\<close>

section \<open>State\<close>

abbreviation (input) LIBALLOC_MAGIC :: uint where "LIBALLOC_MAGIC \<equiv> 0xc001c0de"
abbreviation (input) LIBALLOC_DEAD :: uint where "LIBALLOC_DEAD \<equiv> 0xdeaddead"
abbreviation (input) MAJOR :: uint where "MAJOR \<equiv> 24"
abbreviation (input) MINOR :: uint where "MINOR \<equiv> 24"
abbreviation (input) ALIGNMENT :: uint where "ALIGNMENT \<equiv> 16"
abbreviation (input) ALIGN_INFO :: uint where "ALIGN_INFO \<equiv> 16"
abbreviation (input) l_pageSize :: uint where "l_pageSize \<equiv> 4096"
abbreviation (input) l_pageCount :: uint where "l_pageCount \<equiv> 16"

type_synonym ull = "64 word"

record liballoc_major =
  maj_prev :: uint
  maj_next :: uint
  maj_pages :: uint
  maj_size :: uint
  maj_usage :: uint
  maj_first :: uint

record liballoc_minor =
  min_prev :: uint
  min_next :: uint
  min_block :: uint
  min_magic :: uint
  min_size :: uint
  min_req_size :: uint

record heap =
  h_kheap :: kheap
  majors :: "uint \<Rightarrow> liballoc_major"
  minors :: "uint \<Rightarrow> liballoc_minor"
  h_bytes :: mem
  l_memRoot :: uint
  l_bestBet :: uint
  l_allocated :: ull
  l_inuse :: ull
  l_warningCount :: ull
  l_errorCount :: ull
  l_possibleOverruns :: ull

definition set_major :: "heap \<Rightarrow> uint \<Rightarrow> (liballoc_major \<Rightarrow> liballoc_major) \<Rightarrow> heap" where
  "set_major h a f = h\<lparr>majors := (majors h)(a := f (majors h a))\<rparr>"

definition set_minor :: "heap \<Rightarrow> uint \<Rightarrow> (liballoc_minor \<Rightarrow> liballoc_minor) \<Rightarrow> heap" where
  "set_minor h a f = h\<lparr>minors := (minors h)(a := f (minors h a))\<rparr>"

section \<open>Alignment and copying\<close>

text \<open>The macros \<^verbatim>\<open>ALIGN\<close> and \<^verbatim>\<open>UNALIGN\<close>; the byte in front of the pointer is read as a signed \<^verbatim>\<open>char\<close>.\<close>

definition ALIGN :: "mem \<Rightarrow> uint \<Rightarrow> uint \<times> mem" where
  "ALIGN m p =
     (let p = p + ALIGN_INFO; diff = p AND (ALIGNMENT - 1);
          (diff, p) = (if diff \<noteq> 0 then (ALIGNMENT - diff, p + (ALIGNMENT - diff)) else (diff, p))
      in (p, m(p - ALIGN_INFO := ucast (diff + ALIGN_INFO))))"

definition UNALIGN :: "mem \<Rightarrow> uint \<Rightarrow> uint" where
  "UNALIGN m p =
     (let diff = scast (m (p - ALIGN_INFO)) :: uint
      in if diff < ALIGNMENT + ALIGN_INFO then p - diff else p)"

primrec liballoc_memset_loop :: "nat \<Rightarrow> mem \<Rightarrow> uint \<Rightarrow> uchar \<Rightarrow> mem" where
  "liballoc_memset_loop 0 m s c = m"
| "liballoc_memset_loop (Suc n) m s c = liballoc_memset_loop n (m(s := c)) (s + 1) c"

definition liballoc_memset :: "mem \<Rightarrow> uint \<Rightarrow> uchar \<Rightarrow> uint \<Rightarrow> mem" where
  "liballoc_memset m s c n = liballoc_memset_loop (unat n) m s c"

fun liballoc_memcpy_loop :: "nat \<Rightarrow> mem \<Rightarrow> uint \<Rightarrow> uint \<Rightarrow> mem" where
  "liballoc_memcpy_loop n m s1 s2 =
     (if n \<ge> 4 then liballoc_memcpy_loop (n - 4) (store32 m s1 (load32 m s2)) (s1 + 4) (s2 + 4)
      else if n > 0 then liballoc_memcpy_loop (n - 1) (m(s1 := m s2)) (s1 + 1) (s2 + 1)
      else m)"

declare liballoc_memcpy_loop.simps [simp del]

definition liballoc_memcpy :: "mem \<Rightarrow> uint \<Rightarrow> uint \<Rightarrow> uint \<Rightarrow> mem" where
  "liballoc_memcpy m s1 s2 n = liballoc_memcpy_loop (unat n) m s1 s2"

section \<open>Allocation\<close>

definition allocate_new_page :: "heap \<Rightarrow> uint \<Rightarrow> (uint \<times> heap) res" where
  "allocate_new_page h sz =
     (let st = sz + MAJOR + MINOR;
          st = (if st mod l_pageSize = 0 then st div l_pageSize else st div l_pageSize + 1);
          st = (if st < l_pageCount then l_pageCount else st)
      in andthen (liballoc_alloc (h_kheap h) st) (\<lambda>(maj, k).
        let h = h\<lparr>h_kheap := k\<rparr> in
        if maj = 0 then Ok (0, h\<lparr>l_warningCount := l_warningCount h + 1\<rparr>)
        else Ok (maj, (set_major h maj (\<lambda>_. \<lparr>maj_prev = 0, maj_next = 0, maj_pages = st, maj_size = st * l_pageSize,
               maj_usage = MAJOR, maj_first = 0\<rparr>))
             \<lparr>l_allocated := l_allocated h + ucast (st * l_pageSize)\<rparr>)))"

text \<open>The part the cases that succeed share: the usage counts, the pointer and its alignment.\<close>

definition hand_out :: "heap \<Rightarrow> uint \<Rightarrow> uint \<Rightarrow> uint \<Rightarrow> uint \<times> heap" where
  "hand_out h maj mn sz =
     (let h = (set_major h maj (\<lambda>x. x\<lparr>maj_usage := maj_usage x + (sz + MINOR)\<rparr>))\<lparr>l_inuse := l_inuse h + ucast sz\<rparr>;
          (p, m) = ALIGN (h_bytes h) (mn + MINOR)
      in (p, h\<lparr>h_bytes := m\<rparr>))"

text \<open>CASE 2: a brand new block.\<close>

definition malloc_case2 :: "heap \<Rightarrow> uint \<Rightarrow> uint \<Rightarrow> uint \<Rightarrow> uint \<times> heap" where
  "malloc_case2 h maj sz req_size =
     (let mn = maj + MAJOR;
          h = set_major h maj (\<lambda>x. x\<lparr>maj_first := mn\<rparr>);
          h = set_minor h mn (\<lambda>_. \<lparr>min_prev = 0, min_next = 0, min_block = maj, min_magic = LIBALLOC_MAGIC,
                min_size = sz, min_req_size = req_size\<rparr>)
      in hand_out h maj mn sz)"

text \<open>CASE 3: space at the start of the block.\<close>

definition malloc_case3 :: "heap \<Rightarrow> uint \<Rightarrow> uint \<Rightarrow> uint \<Rightarrow> uint \<times> heap" where
  "malloc_case3 h maj sz req_size =
     (let mn = maj + MAJOR; first = maj_first (majors h maj);
          h = set_minor h first (\<lambda>x. x\<lparr>min_prev := mn\<rparr>);
          h = set_major h maj (\<lambda>x. x\<lparr>maj_first := mn\<rparr>);
          h = set_minor h mn (\<lambda>_. \<lparr>min_prev = 0, min_next = first, min_block = maj, min_magic = LIBALLOC_MAGIC,
                min_size = sz, min_req_size = req_size\<rparr>)
      in hand_out h maj mn sz)"

text \<open>CASE 4: the first minor block with enough space after it, or null.\<close>

definition gap_after :: "heap \<Rightarrow> uint \<Rightarrow> uint \<Rightarrow> uint" where
  "gap_after h maj mn =
     (let nxt = min_next (minors h mn);
          diff = (if nxt = 0 then maj + maj_size (majors h maj) else nxt)
      in diff - mn - MINOR - min_size (minors h mn))"

partial_function (option) find_gap :: "heap \<Rightarrow> uint \<Rightarrow> uint \<Rightarrow> uint \<Rightarrow> uint option" where
  "find_gap h maj sz mn =
     (if mn = 0 \<or> gap_after h maj mn \<ge> sz + MINOR then Some mn
      else find_gap h maj sz (min_next (minors h mn)))"

definition malloc_case4 :: "heap \<Rightarrow> uint \<Rightarrow> uint \<Rightarrow> uint \<Rightarrow> uint \<Rightarrow> uint \<times> heap" where
  "malloc_case4 h maj mn sz req_size =
     (let new_min = mn + MINOR + min_size (minors h mn); nxt = min_next (minors h mn);
          h = set_minor h new_min (\<lambda>_. \<lparr>min_prev = mn, min_next = nxt, min_block = maj, min_magic = LIBALLOC_MAGIC,
                min_size = sz, min_req_size = req_size\<rparr>);
          h = (if nxt = 0 then h else set_minor h nxt (\<lambda>x. x\<lparr>min_prev := new_min\<rparr>));
          h = set_minor h mn (\<lambda>x. x\<lparr>min_next := new_min\<rparr>)
      in hand_out h maj new_min sz)"

text \<open>Cases 2 to 4 on one block: the pointer handed out, if the block has a suitable gap.\<close>

definition use_block :: "heap \<Rightarrow> uint \<Rightarrow> uint \<Rightarrow> uint \<Rightarrow> (uint \<times> heap) option option" where
  "use_block h maj sz req_size =
     (let first = maj_first (majors h maj) in
      if first = 0 then Some (Some (malloc_case2 h maj sz req_size))
      else if first - maj - MAJOR \<ge> sz + MINOR then Some (Some (malloc_case3 h maj sz req_size))
      else case find_gap h maj sz first of
             None \<Rightarrow> None
           | Some mn \<Rightarrow> Some (if mn = 0 then None else Some (malloc_case4 h maj mn sz req_size)))"

text \<open>Where the search goes on: at another major block, at none if it is null, or in this block.\<close>

datatype hop = Retry uint bool | Block uint

definition add_major :: "heap \<Rightarrow> uint \<Rightarrow> uint \<Rightarrow> (uint \<times> heap) res" where
  "add_major h maj sz = andthen (allocate_new_page h sz) (\<lambda>(new, h).
     let h = set_major h maj (\<lambda>x. x\<lparr>maj_next := new\<rparr>) in
     Ok (new, if new = 0 then h else set_major h new (\<lambda>x. x\<lparr>maj_prev := maj\<rparr>)))"

text \<open>CASE 1: not enough space in this major block. Without it the block is searched.\<close>

definition malloc_case1 :: "heap \<Rightarrow> uint \<Rightarrow> uint \<Rightarrow> bool \<Rightarrow> (hop \<times> heap) res" where
  "malloc_case1 h maj sz startedBet =
     (if maj_size (majors h maj) - maj_usage (majors h maj) < sz + MINOR
      then if maj_next (majors h maj) \<noteq> 0 then Ok (Retry (maj_next (majors h maj)) startedBet, h)
        else if startedBet then Ok (Retry (l_memRoot h) False, h)
        else andthen (add_major h maj sz) (\<lambda>(new, h). Ok (if new = 0 then Retry 0 False else Block new, h))
      else Ok (Block maj, h))"

text \<open>CASE 5: no gap is large enough.\<close>

definition malloc_case5 :: "heap \<Rightarrow> uint \<Rightarrow> uint \<Rightarrow> bool \<Rightarrow> ((uint \<times> bool) \<times> heap) res" where
  "malloc_case5 h maj sz startedBet =
     (if maj_next (majors h maj) \<noteq> 0 then Ok ((maj_next (majors h maj), startedBet), h)
      else if startedBet then Ok ((l_memRoot h, False), h)
      else andthen (add_major h maj sz) (\<lambda>(new, h). Ok ((new, startedBet), h)))"

definition note_best :: "heap \<Rightarrow> uint \<Rightarrow> ull \<Rightarrow> heap \<times> ull" where
  "note_best h maj bestSize =
     (let diff = ucast (maj_size (majors h maj) - maj_usage (majors h maj))
      in if bestSize < diff then (h\<lparr>l_bestBet := maj\<rparr>, diff) else (h, bestSize))"

partial_function (option) malloc_loop :: "heap \<Rightarrow> uint \<Rightarrow> uint \<Rightarrow> uint \<Rightarrow> bool \<Rightarrow> ull \<Rightarrow> (uint \<times> heap) res option" where
  "malloc_loop h maj sz req_size startedBet bestSize =
     (if maj = 0 then Some (Ok (0, h))
      else let (h, bestSize) = note_best h maj bestSize in
        case malloc_case1 h maj sz startedBet of
          Ok (hp, h) \<Rightarrow>
            (case hp of
               Retry maj startedBet \<Rightarrow> malloc_loop h maj sz req_size startedBet bestSize
             | Block maj \<Rightarrow>
                 (case use_block h maj sz req_size of
                    None \<Rightarrow> None
                  | Some r \<Rightarrow>
                      (case r of
                         Some pv \<Rightarrow> Some (Ok pv)
                       | None \<Rightarrow>
                           (case malloc_case5 h maj sz startedBet of
                              Ok ((maj, startedBet), h) \<Rightarrow> malloc_loop h maj sz req_size startedBet bestSize
                            | Panic e \<Rightarrow> Some (Panic e)
                            | Fault \<Rightarrow> Some Fault
                            | Blocked \<Rightarrow> None))))
        | Panic e \<Rightarrow> Some (Panic e)
        | Fault \<Rightarrow> Some Fault
        | Blocked \<Rightarrow> None)"

definition malloc_sized :: "heap \<Rightarrow> uint \<Rightarrow> uint \<Rightarrow> (uint \<times> heap) res" where
  "malloc_sized h sz req_size =
     andthen (if l_memRoot h = 0
              then andthen (allocate_new_page h sz) (\<lambda>(maj, h). Ok (maj, h\<lparr>l_memRoot := maj\<rparr>))
              else Ok (l_memRoot h, h))
       (\<lambda>(maj, h).
         if maj = 0 then Ok (0, h)
         else let bet = l_bestBet h; bestSize = (if bet = 0 then 0 else ucast (maj_size (majors h bet) - maj_usage (majors h bet)))
              in andthen (returns (if bet \<noteq> 0 \<and> bestSize > ucast (sz + MINOR)
                                   then malloc_loop h bet sz req_size True bestSize
                                   else malloc_loop h maj sz req_size False bestSize)) (\<lambda>r. r))"

text \<open>The size asked for leaves room for the alignment; the sum wraps, and the sum \<open>0\<close> is a call with size \<open>1\<close>.\<close>

definition kheap_malloc :: "heap \<Rightarrow> uint \<Rightarrow> (uint \<times> heap) res" where
  "kheap_malloc h req_size =
     (let sz = req_size + (ALIGNMENT + ALIGN_INFO) in
      if sz = 0 then malloc_sized (h\<lparr>l_warningCount := l_warningCount h + 1\<rparr>) (1 + (ALIGNMENT + ALIGN_INFO)) 1
      else malloc_sized h sz req_size)"

section \<open>Release\<close>

text \<open>A header without the magic number: the error counts, after a look for a magic number partly overwritten.\<close>

definition bad_magic :: "heap \<Rightarrow> uint \<Rightarrow> heap" where
  "bad_magic h magic =
     (let h = h\<lparr>l_errorCount := l_errorCount h + 1\<rparr>
      in if magic AND 0xFFFFFF = LIBALLOC_MAGIC AND 0xFFFFFF \<or> magic AND 0xFFFF = LIBALLOC_MAGIC AND 0xFFFF \<or>
            magic AND 0xFF = LIBALLOC_MAGIC AND 0xFF
         then h\<lparr>l_possibleOverruns := l_possibleOverruns h + 1\<rparr> else h)"

definition unlink_minor :: "heap \<Rightarrow> uint \<Rightarrow> heap" where
  "unlink_minor h mn =
     (let maj = min_block (minors h mn);
          h = h\<lparr>l_inuse := l_inuse h - ucast (min_size (minors h mn))\<rparr>;
          h = set_major h maj (\<lambda>x. x\<lparr>maj_usage := maj_usage x - (min_size (minors h mn) + MINOR)\<rparr>);
          h = set_minor h mn (\<lambda>x. x\<lparr>min_magic := LIBALLOC_DEAD\<rparr>);
          h = (if min_next (minors h mn) \<noteq> 0
               then set_minor h (min_next (minors h mn)) (\<lambda>x. x\<lparr>min_prev := min_prev (minors h mn)\<rparr>) else h);
          h = (if min_prev (minors h mn) \<noteq> 0
               then set_minor h (min_prev (minors h mn)) (\<lambda>x. x\<lparr>min_next := min_next (minors h mn)\<rparr>) else h)
      in if min_prev (minors h mn) = 0 then set_major h maj (\<lambda>x. x\<lparr>maj_first := min_next (minors h mn)\<rparr>) else h)"

definition drop_major :: "heap \<Rightarrow> uint \<Rightarrow> heap res" where
  "drop_major h maj =
     (let x = majors h maj;
          h = (if l_memRoot h = maj then h\<lparr>l_memRoot := maj_next x\<rparr> else h);
          h = (if l_bestBet h = maj then h\<lparr>l_bestBet := 0\<rparr> else h);
          h = (if maj_prev x \<noteq> 0 then set_major h (maj_prev x) (\<lambda>y. y\<lparr>maj_next := maj_next x\<rparr>) else h);
          h = (if maj_next x \<noteq> 0 then set_major h (maj_next x) (\<lambda>y. y\<lparr>maj_prev := maj_prev x\<rparr>) else h);
          h = h\<lparr>l_allocated := l_allocated h - ucast (maj_size x)\<rparr>
      in andthen (liballoc_free (h_kheap h) maj (maj_pages x)) (\<lambda>(_, k). Ok (h\<lparr>h_kheap := k\<rparr>)))"

definition better_bet :: "heap \<Rightarrow> uint \<Rightarrow> heap" where
  "better_bet h maj =
     (if l_bestBet h \<noteq> 0 \<and>
         sint (maj_size (majors h maj) - maj_usage (majors h maj)) >
         sint (maj_size (majors h (l_bestBet h)) - maj_usage (majors h (l_bestBet h)))
      then h\<lparr>l_bestBet := maj\<rparr> else h)"

definition kheap_free :: "heap \<Rightarrow> uint \<Rightarrow> heap res" where
  "kheap_free h ptr =
     (if ptr = 0 then Ok (h\<lparr>l_warningCount := l_warningCount h + 1\<rparr>)
      else let mn = UNALIGN (h_bytes h) ptr - MINOR in
        if min_magic (minors h mn) \<noteq> LIBALLOC_MAGIC then Ok (bad_magic h (min_magic (minors h mn)))
        else let maj = min_block (minors h mn); h = unlink_minor h mn in
          if maj_first (majors h maj) = 0 then drop_major h maj else Ok (better_bet h maj))"

text \<open>The results of \<^verbatim>\<open>kheap_malloc\<close> are written to without a test for the null pointer.\<close>

definition kheap_calloc :: "heap \<Rightarrow> uint \<Rightarrow> uint \<Rightarrow> (uint \<times> heap) res" where
  "kheap_calloc h nobj sz =
     (let real_size = nobj * sz in
      andthen (kheap_malloc h real_size) (\<lambda>(p, h).
        if p = 0 \<and> real_size \<noteq> 0 then Fault
        else Ok (p, h\<lparr>h_bytes := liballoc_memset (h_bytes h) p 0 real_size\<rparr>)))"

definition kheap_realloc :: "heap \<Rightarrow> uint \<Rightarrow> uint \<Rightarrow> (uint \<times> heap) res" where
  "kheap_realloc h p sz =
     (if sz = 0 then andthen (kheap_free h p) (\<lambda>h. Ok (0, h))
      else if p = 0 then kheap_malloc h sz
      else let mn = UNALIGN (h_bytes h) p - MINOR in
        if min_magic (minors h mn) \<noteq> LIBALLOC_MAGIC then Ok (0, bad_magic h (min_magic (minors h mn)))
        else let real_size = min_req_size (minors h mn) in
          if real_size \<ge> sz then Ok (p, set_minor h mn (\<lambda>x. x\<lparr>min_req_size := sz\<rparr>))
          else andthen (kheap_malloc h sz) (\<lambda>(ptr, h).
            if ptr = 0 \<and> real_size \<noteq> 0 then Fault
            else let h = h\<lparr>h_bytes := liballoc_memcpy (h_bytes h) ptr p real_size\<rparr>
                 in andthen (kheap_free h p) (\<lambda>h. Ok (ptr, h))))"

end
