(* ===== verification/Kmalloc.thy ===== *)
theory Kmalloc
  imports Liballoc
begin

text \<open>
  Correctness of the kernel heap allocator: the headers of theory Liballoc describe a list of major blocks, each
  holding a list of minor blocks that do not overlap, and \<^verbatim>\<open>kheap_malloc\<close> and \<^verbatim>\<open>kheap_free\<close> add to and remove from these lists.
\<close>

section \<open>Alignment\<close>

text \<open>The pointer handed out for the minor block at \<open>y\<close>.\<close>

definition user_ptr :: "uint \<Rightarrow> uint" where
  "user_ptr y = (let p = y + 24 + 16; diff = p AND 15 in if diff \<noteq> 0 then p + (16 - diff) else p)"

lemma unat_and_15: "unat (p AND 15 :: uint) = unat p mod 16"
proof -
  have "p AND 15 = take_bit 4 p" by (simp add: take_bit_eq_mask mask_eq_decr_exp)
  then show ?thesis by (simp add: take_bit_eq_mod unat_mod)
qed

lemma ALIGN_eq: "ALIGN m (y + 24) = (user_ptr y, m(user_ptr y - 16 := ucast (user_ptr y - (y + 24))))"
proof -
  have "q + 16 + e - q = e + 16" for q e :: uint by simp
  from this [of "y + 24"] show ?thesis by (auto simp: user_ptr_def ALIGN_def Let_def)
qed

lemma user_ptr_bounds:
  assumes "unat y + 56 < 2 ^ 32"
  shows "unat y + 40 \<le> unat (user_ptr y)" "unat (user_ptr y) < unat y + 56" "16 dvd unat (user_ptr y)"
    "unat (user_ptr y - (y + 24)) = unat (user_ptr y) - (unat y + 24)" "unat (user_ptr y - 16) = unat (user_ptr y) - 16"
proof -
  let ?p = "y + 40" and ?d = "(unat y + 40) mod 16"
  have p: "unat ?p = unat y + 40" using assms by (subst unat_plus_small) simp_all
  then have d: "unat (?p AND 15) = ?d" by (simp add: unat_and_15)
  have u: "unat (user_ptr y) = (if ?d = 0 then unat y + 40 else unat y + 40 + (16 - ?d))"
  proof (cases "?p AND 15 = 0")
    case True
    then show ?thesis using p d by (simp add: user_ptr_def Let_def add.assoc)
  next
    case False
    then have nz: "?d \<noteq> 0" using d by (metis unat_eq_zero)
    have "unat (16 - (?p AND 15)) = 16 - ?d" using d by (subst unat_sub) (simp_all add: word_le_nat_alt)
    then have "unat (?p + (16 - (?p AND 15))) = unat y + 40 + (16 - ?d)" using p assms by (subst unat_plus_small) simp_all
    then show ?thesis using False nz by (simp add: user_ptr_def Let_def add.assoc)
  qed
  show b: "unat y + 40 \<le> unat (user_ptr y)" "unat (user_ptr y) < unat y + 56" using u by auto
  show "16 dvd unat (user_ptr y)" 
  proof -
    have "16 dvd n + (16 - n mod 16)" for n :: nat by presburger
    from this [of "unat y + 40"] show ?thesis unfolding u by (cases "?d = 0") (simp_all only: if_True if_False simp_thms mod_0_imp_dvd)
  qed
  have "unat (y + 24) = unat y + 24" using assms by (subst unat_plus_small) simp_all
  then show "unat (user_ptr y - (y + 24)) = unat (user_ptr y) - (unat y + 24)" using b(1) by (simp add: unat_sub word_le_nat_alt)
  show "unat (user_ptr y - 16) = unat (user_ptr y) - 16" using b(1) by (simp add: unat_sub word_le_nat_alt)
qed

lemma small_char:
  assumes "unat (d :: uint) < 32"
  shows "scast (ucast d :: uchar) = d"
proof -
  have "uint d = int (unat d)" by simp
  then have d: "0 \<le> uint d" "uint d < 32" using assms by linarith+
  have u: "uint (ucast d :: uchar) = uint d" using d by (simp add: unsigned_ucast_eq take_bit_int_eq_self)
  have "sint (ucast d :: uchar) = signed_take_bit 7 (uint (ucast d :: uchar))" by (simp add: sint_uint)
  also have "\<dots> = uint (ucast d :: uchar)" unfolding u 
    by (rule signed_take_bit_int_eq_self) (rule order_trans [OF _ d(1)], simp, use d(2) in simp)
  finally have "sint (ucast d :: uchar) = uint (ucast d :: uchar)" .
  then show ?thesis using u by (simp add: scast_eq)
qed

text \<open>The byte in front of a pointer leads back to the start of its block.\<close>

lemma UNALIGN_user_ptr:
  assumes "unat y + 56 < 2 ^ 32" "m (user_ptr y - 16) = ucast (user_ptr y - (y + 24))"
  shows "UNALIGN m (user_ptr y) = y + 24"
proof -
  let ?d = "user_ptr y - (y + 24)"
  have d: "unat ?d < 32" using user_ptr_bounds [OF assms(1)] by simp
  then have "scast (ucast ?d :: uchar) = ?d" by (rule small_char)
  then show ?thesis using assms(2) d by (simp add: UNALIGN_def Let_def word_less_nat_alt)
qed

section \<open>Lists of blocks\<close>

primrec prevs :: "(uint \<Rightarrow> uint) \<Rightarrow> uint \<Rightarrow> uint list \<Rightarrow> bool" where
  "prevs prv p [] \<longleftrightarrow> True"
| "prevs prv p (y # ys) \<longleftrightarrow> prv y = p \<and> prevs prv y ys"

lemma prevs_append: "prevs prv p (xs @ ys) \<longleftrightarrow> prevs prv p xs \<and> prevs prv (last_or p xs) ys"
  by (induction xs arbitrary: p) auto

lemma prevs_cong: "(\<And>y. y \<in> set ys \<Longrightarrow> prv' y = prv y) \<Longrightarrow> prevs prv' p ys = prevs prv p ys"
  by (induction ys arbitrary: p) auto

text \<open>The blocks, each with a header of 24 bytes, lie one after the other between \<open>lo\<close> and \<open>hi\<close>.\<close>

primrec packed :: "(uint \<Rightarrow> nat) \<Rightarrow> nat \<Rightarrow> uint list \<Rightarrow> nat \<Rightarrow> bool" where
  "packed sz lo [] hi \<longleftrightarrow> lo \<le> hi"
| "packed sz lo (y # ys) hi \<longleftrightarrow> lo \<le> unat y \<and> packed sz (unat y + 24 + sz y) ys hi"

definition pack_end :: "(uint \<Rightarrow> nat) \<Rightarrow> nat \<Rightarrow> uint list \<Rightarrow> nat" where
  "pack_end sz lo xs = (if xs = [] then lo else unat (last xs) + 24 + sz (last xs))"

definition pack_limit :: "uint list \<Rightarrow> nat \<Rightarrow> nat" where
  "pack_limit ys hi = (if ys = [] then hi else unat (hd ys))"

lemma pack_simps [simp]: "pack_end sz lo [] = lo" "pack_end sz lo (xs @ [x]) = unat x + 24 + sz x" "pack_limit [] hi = hi" "pack_limit (y # ys) hi = unat y"
  by (simp_all add: pack_end_def pack_limit_def)

lemma pack_end_Cons: "pack_end sz lo (x # xs) = pack_end sz (unat x + 24 + sz x) xs"
  by (simp add: pack_end_def)

lemma packed_append: "packed sz lo (xs @ ys) hi \<longleftrightarrow> packed sz lo xs (pack_end sz lo xs) \<and> packed sz (pack_end sz lo xs) ys hi"
  by (induction xs arbitrary: lo) (auto simp: pack_end_Cons)

lemma packed_cong: "(\<And>y. y \<in> set ys \<Longrightarrow> sz' y = sz y) \<Longrightarrow> packed sz' lo ys hi = packed sz lo ys hi"
  by (induction ys arbitrary: lo) auto

lemma packed_le: "packed sz lo ys hi \<Longrightarrow> lo \<le> hi"
  by (induction ys arbitrary: lo) fastforce+

lemma packed_in: "packed sz lo ys hi \<Longrightarrow> y \<in> set ys \<Longrightarrow> lo \<le> unat y \<and> unat y + 24 + sz y \<le> hi"
  by (induction ys arbitrary: lo) (auto dest: packed_le, fastforce+)

lemma packed_relimit: "packed sz lo ys hi \<Longrightarrow> pack_end sz lo ys \<le> hi"
  by (induction ys arbitrary: lo) (auto simp: pack_end_Cons)

lemma packed_widen: "packed sz lo ys hi \<Longrightarrow> packed sz lo ys (pack_end sz lo ys)"
  by (induction ys arbitrary: lo) (auto simp: pack_end_Cons)

lemma packed_sum: "packed sz lo ys hi \<Longrightarrow> lo + (\<Sum>y\<leftarrow>ys. 24 + sz y) \<le> hi"
proof (induction ys arbitrary: lo)
  case (Cons y ys)
  from Cons.IH [of "unat y + 24 + sz y"] Cons.prems show ?case by simp
qed simp

lemma packed_first: "packed sz lo ys hi \<Longrightarrow> lo \<le> pack_limit ys hi"
  by (cases ys) auto

lemma packed_insert:
  assumes "packed sz lo (pre @ post) hi" "pack_end sz lo pre \<le> unat y" "unat y + 24 + sz y \<le> pack_limit post hi"
  shows "packed sz lo (pre @ y # post) hi"
  using assms packed_widen [of sz lo pre] by (cases post) (auto simp: packed_append)

lemma packed_apart:
  "packed sz lo ys hi \<Longrightarrow> distinct ys \<and>
    (\<forall>y \<in> set ys. \<forall>z \<in> set ys. y \<noteq> z \<longrightarrow> unat y + 24 + sz y \<le> unat z \<or> unat z + 24 + sz z \<le> unat y)"
proof (induction ys arbitrary: lo)
  case (Cons y ys)
  have "unat y + 24 + sz y \<le> unat z" if "z \<in> set ys" for z using packed_in [of sz _ ys hi z] Cons.prems that by auto
  then show ?case using Cons.IH [of "unat y + 24 + sz y"] Cons.prems by fastforce
qed simp


section \<open>Invariant\<close>

definition minor_ok :: "heap \<Rightarrow> uint \<Rightarrow> uint \<Rightarrow> bool" where
  "minor_ok h a y \<longleftrightarrow> min_block (minors h y) = a \<and> min_magic (minors h y) = LIBALLOC_MAGIC \<and>
     unat (min_req_size (minors h y)) + 32 \<le> unat (min_size (minors h y)) \<and>
     h_bytes h (user_ptr y - 16) = ucast (user_ptr y - (y + 24))"

abbreviation (input) minsz :: "heap \<Rightarrow> uint \<Rightarrow> nat" where
  "minsz h y \<equiv> unat (min_size (minors h y))"

definition span :: "heap \<Rightarrow> uint \<Rightarrow> nat set" where
  "span h a = {unat a..<unat a + unat (maj_size (majors h a))}"

text \<open>The major block at \<open>a\<close> with the minor blocks \<open>ys\<close>.\<close>

definition block_ok :: "heap \<Rightarrow> uint \<Rightarrow> uint list \<Rightarrow> bool" where
  "block_ok h a ys \<longleftrightarrow>
     seg (\<lambda>y. min_next (minors h y)) (maj_first (majors h a)) ys 0 \<and> prevs (\<lambda>y. min_prev (minors h y)) 0 ys \<and>
     packed (minsz h) (unat a + 24) ys (unat a + unat (maj_size (majors h a))) \<and>
     4096 * unat (maj_pages (majors h a)) = unat (maj_size (majors h a)) \<and>
     0x8E000000 \<le> unat a \<and> 4096 dvd unat a \<and> unat a + unat (maj_size (majors h a)) \<le> 0xFE000000 \<and>
     unat (maj_usage (majors h a)) = 24 + (\<Sum>y\<leftarrow>ys. 24 + minsz h y) \<and>
     (\<forall>y \<in> set ys. minor_ok h a y)"

lemma block_in_span:
  assumes "block_ok h a ys" "y \<in> set ys"
  shows "unat y \<in> span h a" "unat (user_ptr y - 16) \<in> span h a" "unat y + 24 + minsz h y \<le> 0xFE000000" "unat y + 56 < 2 ^ 32"
    "unat y + 24 \<le> unat (user_ptr y - 16)" "unat (user_ptr y - 16) < unat y + 24 + minsz h y" "y \<noteq> 0"
proof -
  have p: "unat a + 24 \<le> unat y" "unat y + 24 + minsz h y \<le> unat a + unat (maj_size (majors h a))" "32 \<le> minsz h y"
    "unat a + unat (maj_size (majors h a)) \<le> 0xFE000000" "y \<noteq> 0"
    using assms packed_in seg_nonzero by (fastforce simp: block_ok_def minor_ok_def)+
  then show b: "unat y + 24 + minsz h y \<le> 0xFE000000" "unat y + 56 < 2 ^ 32" "y \<noteq> 0" by simp_all
  note u = user_ptr_bounds [OF b(2)]
  show "unat y \<in> span h a" "unat (user_ptr y - 16) \<in> span h a" "unat y + 24 \<le> unat (user_ptr y - 16)"
    "unat (user_ptr y - 16) < unat y + 24 + minsz h y" using p u by (auto simp: span_def)
qed

lemma block_ok_cong:
  assumes "majors h' a = majors h a" "\<And>y. unat y \<in> span h a \<Longrightarrow> minors h' y = minors h y"
    "\<And>x. unat x \<in> span h a \<Longrightarrow> h_bytes h' x = h_bytes h x"
    "block_ok h a ys"
  shows "block_ok h' a ys"
proof -
  have m: "minors h' y = minors h y" "minor_ok h' a y = minor_ok h a y" if "y \<in> set ys" for y
    using block_in_span [OF assms(4) that] assms(2,3) by (simp_all add: minor_ok_def)
  have "seg (\<lambda>y. min_next (minors h' y)) x ys 0 = seg (\<lambda>y. min_next (minors h y)) x ys 0" for x
    by (rule seg_cong) (simp add: m)
  moreover have "prevs (\<lambda>y. min_prev (minors h' y)) 0 ys = prevs (\<lambda>y. min_prev (minors h y)) 0 ys"
    by (rule prevs_cong) (simp add: m)
  moreover have "packed (minsz h') lo ys hi = packed (minsz h) lo ys hi" for lo hi by (rule packed_cong) (simp add: m)
  moreover have "map (\<lambda>y. 24 + minsz h' y) ys = map (\<lambda>y. 24 + minsz h y) ys" using m by simp
  moreover have "(\<forall>y \<in> set ys. minor_ok h' a y) = (\<forall>y \<in> set ys. minor_ok h a y)" using m by simp
  ultimately show ?thesis using assms(4) unfolding block_ok_def assms(1) by (simp del: map_eq_conv)
qed

definition addrs :: "(uint \<times> uint list) list \<Rightarrow> uint set" where
  "addrs L = fst ` set L"

lemma addrs_simps [simp]: "addrs [] = {}" "addrs (x # L) = insert (fst x) (addrs L)" "addrs (L @ M) = addrs L \<union> addrs M"
  by (auto simp: addrs_def)

lemma addrs_iff: "a \<in> addrs L \<longleftrightarrow> (\<exists>ys. (a, ys) \<in> set L)"
  by (force simp: addrs_def)

lemma set_addrs: "set (map fst L) = addrs L"
  by (simp add: addrs_def)

text \<open>The list of major blocks, apart from each other and from the free pages of the heap's range.\<close>

definition heap_ok :: "heap \<Rightarrow> (uint \<times> uint list) list \<Rightarrow> bool" where
  "heap_ok h L \<longleftrightarrow> distinct (map fst L) \<and>
     seg (\<lambda>a. maj_next (majors h a)) (l_memRoot h) (map fst L) 0 \<and> prevs (\<lambda>a. maj_prev (majors h a)) 0 (map fst L) \<and>
     (\<forall>(a, ys) \<in> set L. block_ok h a ys) \<and>
     (\<forall>a \<in> addrs L. \<forall>b \<in> addrs L. a \<noteq> b \<longrightarrow> span h a \<inter> span h b = {}) \<and>
     (l_bestBet h = 0 \<or> l_bestBet h \<in> addrs L) \<and>
     (\<exists>F. source_ok (h_kheap h) F \<and> (\<forall>a \<in> addrs L. span h a \<inter> F = {}))"

lemma heap_okD:
  assumes "heap_ok h L" "(a, ys) \<in> set L"
  shows "block_ok h a ys" "(b, zs) \<in> set L \<Longrightarrow> b \<noteq> a \<Longrightarrow> span h b \<inter> span h a = {}" "a \<noteq> 0"
proof -
  have "\<forall>(a, ys) \<in> set L. block_ok h a ys"
    and sp: "\<forall>a \<in> addrs L. \<forall>b \<in> addrs L. a \<noteq> b \<longrightarrow> span h a \<inter> span h b = {}" using assms(1) by (simp_all add: heap_ok_def)
  then show "block_ok h a ys" using assms(2) by blast
  then show "a \<noteq> 0" by (auto simp: block_ok_def)
  have "a \<in> addrs L" using assms(2) addrs_iff by blast
  moreover have "b \<in> addrs L" if "(b, zs) \<in> set L" using that addrs_iff by blast
  ultimately show "span h b \<inter> span h a = {}" if "(b, zs) \<in> set L" "b \<noteq> a" using sp that by blast
qed

text \<open>A change confined to one major block.\<close>

definition changed_in :: "heap \<Rightarrow> uint \<Rightarrow> heap \<Rightarrow> bool" where
  "changed_in h a h' \<longleftrightarrow> (\<forall>b. b \<noteq> a \<longrightarrow> majors h' b = majors h b) \<and>
     maj_prev (majors h' a) = maj_prev (majors h a) \<and> maj_next (majors h' a) = maj_next (majors h a) \<and>
     maj_pages (majors h' a) = maj_pages (majors h a) \<and> maj_size (majors h' a) = maj_size (majors h a) \<and>
     (\<forall>y. unat y \<notin> span h a \<longrightarrow> minors h' y = minors h y) \<and> (\<forall>x. unat x \<notin> span h a \<longrightarrow> h_bytes h' x = h_bytes h x) \<and>
     h_kheap h' = h_kheap h \<and> l_memRoot h' = l_memRoot h \<and> l_bestBet h' = l_bestBet h"

lemma heap_ok_block:
  assumes "heap_ok h (L1 @ (a, ys) # L2)" "changed_in h a h'" "block_ok h' a ys'"
  shows "heap_ok h' (L1 @ (a, ys') # L2)"
proof -
  let ?L = "L1 @ (a, ys) # L2" and ?L' = "L1 @ (a, ys') # L2"
  note ok = assms(1) [unfolded heap_ok_def] and c = assms(2) [unfolded changed_in_def]
  have f: "map fst ?L' = map fst ?L" "addrs ?L' = addrs ?L" by simp_all
  have pn: "maj_next (majors h' b) = maj_next (majors h b)" "maj_prev (majors h' b) = maj_prev (majors h b)"
    "maj_size (majors h' b) = maj_size (majors h b)" for b using c by (cases "b = a"; simp)+
  then have sp: "span h' b = span h b" for b by (simp add: span_def)
  have "block_ok h' b zs" if "(b, zs) \<in> set ?L'" for b zs
  proof (cases "(b, zs) = (a, ys')")
    case False
    then have in': "(b, zs) \<in> set ?L" using that by auto
    have "a \<notin> addrs L1" "a \<notin> addrs L2" using ok by (simp_all add: addrs_def)
    then have ne: "b \<noteq> a" using that False addrs_iff by auto
    have ap: "span h b \<inter> span h a = {}" by (rule heap_okD(2) [OF assms(1) _ in' ne, of ys]) simp
    show ?thesis
    proof (rule block_ok_cong [OF _ _ _ heap_okD(1) [OF assms(1) in']])
      show "majors h' b = majors h b" using c ne by simp
      show "minors h' y = minors h y" if "unat y \<in> span h b" for y using c ap that by blast
      show "h_bytes h' x = h_bytes h x" if "unat x \<in> span h b" for x using c ap that by blast
    qed
  qed (use assms(3) in simp)
  then show ?thesis using ok c unfolding heap_ok_def f pn sp by auto
qed

text \<open>Linking a new minor block between \<open>pre\<close> and \<open>post\<close>.\<close>

lemma block_insert:
  fixes sz :: uint
  assumes ok: "block_ok h a (pre @ post)"
    and place: "pack_end (minsz h) (unat a + 24) pre \<le> unat y" "unat y + 24 + unat sz \<le> pack_limit post (unat a + unat (maj_size (majors h a)))"
    and sz: "unat sz = unat req + 32"
    and maj: "majors h' a = (majors h a)\<lparr>maj_first := if pre = [] then y else maj_first (majors h a), maj_usage := maj_usage (majors h a) + (sz + 24)\<rparr>"
    and new: "minors h' y = \<lparr>min_prev = last_or 0 pre, min_next = head_or post 0, min_block = a, min_magic = LIBALLOC_MAGIC,
      min_size = sz, min_req_size = req\<rparr>"
    and old: "\<And>z. z \<in> set (pre @ post) \<Longrightarrow> minors h' z = (minors h z)\<lparr>min_next := if z = last_or 0 pre then y else min_next (minors h z),
      min_prev := if z = head_or post 0 then y else min_prev (minors h z)\<rparr>"
    and byt: "h_bytes h' = (h_bytes h)(user_ptr y - 16 := ucast (user_ptr y - (y + 24)))"
  shows "block_ok h' a (pre @ y # post)"
proof -
  let ?ys = "pre @ post" and ?hi = "unat a + unat (maj_size (majors h a))" and ?n = "\<lambda>y. min_next (minors h y)" and ?p = "\<lambda>y. min_prev (minors h y)"
  note b = ok [unfolded block_ok_def]
  have pk: "packed (minsz h) (unat a + 24) ?ys ?hi" using b by blast
  have dist: "distinct ?ys" using packed_apart [OF pk] by blast
  have mz: "minsz h' z = minsz h z" if "z \<in> set ?ys" for z using old [OF that] by simp
  have ny: "y \<notin> set ?ys"
  proof
    assume "y \<in> set ?ys"
    then consider "y \<in> set pre" | "y \<in> set post" by auto
    then show False
    proof cases
      case 1
      then have "unat y + 24 \<le> pack_end (minsz h) (unat a + 24) pre"
        using packed_in [of "minsz h" "unat a + 24" pre "pack_end (minsz h) (unat a + 24) pre" y] pk by (simp add: packed_append)
      then show False using place(1) by simp
    next
      case 2
      have "pack_limit post ?hi \<le> unat z" if "z \<in> set post" for z
        using that pk packed_in [of "minsz h" "unat (hd post)" post ?hi z] by (cases post) (auto simp: packed_append pack_limit_def)
      then show False using 2 place(2) by fastforce
    qed
  qed
  have "packed (minsz h') (unat a + 24) ?ys ?hi" using pk by (subst packed_cong [of _ _ "minsz h"]) (use mz in auto)
  moreover have "pack_end (minsz h') (unat a + 24) pre = pack_end (minsz h) (unat a + 24) pre"
    using mz by (simp add: pack_end_def)
  ultimately have pk': "packed (minsz h') (unat a + 24) (pre @ y # post) ?hi"
    using place new by (intro packed_insert) simp_all
  have nz: "z \<noteq> 0" if "z \<in> set ?ys" for z using b seg_nonzero that by blast
  have l: "z \<noteq> last_or 0 pre" if "z \<in> set post" for z
    using that dist nz [of z] last_in_set [of pre] by (auto simp: last_or_def disjoint_iff)
  have hd: "z \<noteq> head_or post 0" if "z \<in> set pre" for z
    using that dist nz [of z] hd_in_set [of post] by (auto simp: head_or_def disjoint_iff)
  have "seg (\<lambda>y. min_next (minors h' y)) (maj_first (majors h' a)) (pre @ y # post) 0"
  proof -
    have s: "seg ?n (maj_first (majors h a)) pre (head_or post 0)" "seg ?n (head_or post 0) post 0" using b by (simp_all add: seg_append)
    have "seg (\<lambda>y. min_next (minors h' y)) (head_or post 0) post 0"
      using s(2) old l by (subst seg_cong [of _ _ ?n]) auto
    moreover have "seg (\<lambda>y. min_next (minors h' y)) (maj_first (majors h' a)) pre y"
    proof (cases "pre = []")
      case False
      then have "seg (?n(last pre := y)) (maj_first (majors h a)) pre y" using seg_retarget [OF s(1)] dist by simp
      moreover have "seg (\<lambda>y. min_next (minors h' y)) x pre y = seg (?n(last pre := y)) x pre y" for x
        using old False by (intro seg_cong) (auto simp: last_or_def)
      ultimately show ?thesis using False maj by simp
    qed (simp add: maj)
    moreover have "y \<noteq> 0" using packed_in [OF pk', of y] by auto
    ultimately show ?thesis using new by (simp add: seg_append)
  qed
  moreover have "prevs (\<lambda>y. min_prev (minors h' y)) 0 (pre @ y # post)"
  proof -
    have p: "prevs ?p 0 pre" "prevs ?p (last_or 0 pre) post" using b by (simp_all add: prevs_append)
    have "prevs (\<lambda>y. min_prev (minors h' y)) 0 pre" using p(1) old hd by (subst prevs_cong [of _ _ ?p]) auto
    moreover have "prevs (\<lambda>y. min_prev (minors h' y)) y post"
    proof (cases post)
      case (Cons z zs)
      have "prevs (\<lambda>y. min_prev (minors h' y)) z zs = prevs ?p z zs"
        using old Cons dist by (intro prevs_cong) auto
      then show ?thesis using p(2) Cons old [of z] by simp
    qed simp
    ultimately show ?thesis using new by (simp add: prevs_append)
  qed
  moreover have sum: "(\<Sum>y\<leftarrow>pre @ y # post. 24 + minsz h' y) = (\<Sum>y\<leftarrow>?ys. 24 + minsz h y) + (24 + unat sz)"
  proof -
    have "map (\<lambda>y. 24 + minsz h' y) ?ys = map (\<lambda>y. 24 + minsz h y) ?ys" using mz by simp
    then have "(\<Sum>y\<leftarrow>?ys. 24 + minsz h' y) = (\<Sum>y\<leftarrow>?ys. 24 + minsz h y)" by (simp only:)
    then show ?thesis using new by simp
  qed
  moreover have "unat (maj_usage (majors h' a)) = 24 + (\<Sum>y\<leftarrow>pre @ y # post. 24 + minsz h' y)"
  proof -
    have "24 + ((\<Sum>y\<leftarrow>?ys. 24 + minsz h y) + (24 + unat sz)) < 2 ^ 32" using packed_sum [OF pk'] sum b by simp
    then show ?thesis using b sum maj by (simp add: unat_word_ariths)
  qed
  moreover have "minor_ok h' a z" if z: "z \<in> set (pre @ y # post)" for z
  proof (cases "z = y")
    case True
    then show ?thesis using new sz byt by (simp add: minor_ok_def)
  next
    case False
    then have zo: "z \<in> set ?ys" using z by auto
    have "unat y + 56 < 2 ^ 32" using packed_in [OF pk', of y] new sz b by simp
    then have "unat y + 24 \<le> unat (user_ptr y - 16)" "unat (user_ptr y - 16) < unat y + 24 + unat sz"
      using user_ptr_bounds [of y] sz by simp_all
    moreover have "unat y + 24 + unat sz \<le> unat z \<or> unat z + 24 + minsz h z \<le> unat y"
      using packed_apart [OF pk'] zo False mz [OF zo] new by auto
    ultimately have "user_ptr z - 16 \<noteq> user_ptr y - 16" using block_in_span(5,6) [OF ok zo] by auto
    then show ?thesis using b zo old [OF zo] byt by (simp add: minor_ok_def)
  qed
  ultimately show ?thesis using pk' b maj unfolding block_ok_def by simp
qed

text \<open>The effect the cases of \<^verbatim>\<open>kheap_malloc\<close> have on the headers.\<close>

definition inserted :: "heap \<Rightarrow> uint \<Rightarrow> uint list \<Rightarrow> uint list \<Rightarrow> uint \<Rightarrow> uint \<Rightarrow> uint \<Rightarrow> heap \<Rightarrow> bool" where
  "inserted h a pre post y sz req h' \<longleftrightarrow>
     majors h' = (majors h)(a := (majors h a)\<lparr>maj_first := if pre = [] then y else maj_first (majors h a),
       maj_usage := maj_usage (majors h a) + (sz + 24)\<rparr>) \<and>
     minors h' y = \<lparr>min_prev = last_or 0 pre, min_next = head_or post 0, min_block = a, min_magic = LIBALLOC_MAGIC,
       min_size = sz, min_req_size = req\<rparr> \<and>
     (\<forall>z \<in> set (pre @ post). minors h' z = (minors h z)\<lparr>min_next := if z = last_or 0 pre then y else min_next (minors h z),
       min_prev := if z = head_or post 0 then y else min_prev (minors h z)\<rparr>) \<and>
     (\<forall>z. z \<notin> set (pre @ y # post) \<longrightarrow> minors h' z = minors h z) \<and>
     h_bytes h' = (h_bytes h)(user_ptr y - 16 := ucast (user_ptr y - (y + 24))) \<and>
     h_kheap h' = h_kheap h \<and> l_memRoot h' = l_memRoot h \<and> l_bestBet h' = l_bestBet h"

lemma inserted_ok:
  assumes "block_ok h a (pre @ post)" "pack_end (minsz h) (unat a + 24) pre \<le> unat y"
    "unat y + 24 + unat sz \<le> pack_limit post (unat a + unat (maj_size (majors h a)))" "unat sz = unat req + 32"
    "inserted h a pre post y sz req h'"
  shows "block_ok h' a (pre @ y # post)" "changed_in h a h'" "y \<notin> set (pre @ post)"
proof -
  note i = assms(5) [unfolded inserted_def]
  show ok: "block_ok h' a (pre @ y # post)"
    by (rule block_insert [OF assms(1-4)]) (use i in auto)
  have sp: "span h' a = span h a" using i by (simp add: span_def)
  note in' = block_in_span(1,2) [OF ok, unfolded sp]
  then have "minors h' z = minors h z" if "unat z \<notin> span h a" for z using i that by blast
  moreover have "h_bytes h' x = h_bytes h x" if "unat x \<notin> span h a" for x using i that in'(2) [of y] by auto
  ultimately show "changed_in h a h'" using i by (simp add: changed_in_def)
  have "packed (minsz h') (unat a + 24) (pre @ y # post) (unat a + unat (maj_size (majors h' a)))" using ok by (simp add: block_ok_def)
  then have "distinct (pre @ y # post)" using packed_apart by blast
  then show "y \<notin> set (pre @ post)" by auto
qed

lemma hand_out_eq:
  "hand_out h a y sz = (user_ptr y, h\<lparr>majors := (majors h)(a := (majors h a)\<lparr>maj_usage := maj_usage (majors h a) + (sz + 24)\<rparr>),
     l_inuse := l_inuse h + ucast sz, h_bytes := (h_bytes h)(user_ptr y - 16 := ucast (user_ptr y - (y + 24)))\<rparr>)"
  by (simp add: hand_out_def Let_def set_major_def ALIGN_eq)

lemma case2_inserted: "\<exists>h'. malloc_case2 h a sz req = (user_ptr (a + 24), h') \<and> inserted h a [] [] (a + 24) sz req h'"
  by (simp add: malloc_case2_def Let_def hand_out_eq inserted_def set_major_def set_minor_def)

lemma block_okD:
  assumes "block_ok h a ys"
  shows "seg (\<lambda>y. min_next (minors h y)) (maj_first (majors h a)) ys 0" "distinct ys" "0 \<notin> set ys" "maj_first (majors h a) = head_or ys 0"
    "packed (minsz h) (unat a + 24) ys (unat a + unat (maj_size (majors h a)))"
    "unat a + unat (maj_size (majors h a)) \<le> 0xFE000000" "0x8E000000 \<le> unat a" "24 \<le> unat (maj_size (majors h a))"
    "unat (maj_usage (majors h a)) = 24 + (\<Sum>y\<leftarrow>ys. 24 + minsz h y)"
proof -
  show s: "seg (\<lambda>y. min_next (minors h y)) (maj_first (majors h a)) ys 0" and
    p: "packed (minsz h) (unat a + 24) ys (unat a + unat (maj_size (majors h a)))"
    and "unat a + unat (maj_size (majors h a)) \<le> 0xFE000000" "0x8E000000 \<le> unat a"
    "unat (maj_usage (majors h a)) = 24 + (\<Sum>y\<leftarrow>ys. 24 + minsz h y)"
    using assms by (simp_all add: block_ok_def)
  show "distinct ys" using packed_apart [OF p] by blast
  show "0 \<notin> set ys" using seg_nonzero [OF s] by blast
  show "maj_first (majors h a) = head_or ys 0" using seg_head [OF s] .
  show "24 \<le> unat (maj_size (majors h a))" using packed_le [OF p] by simp
qed

lemma case3_inserted:
  assumes "block_ok h a (z # ys)" "a + 24 \<notin> set (z # ys)"
  shows "\<exists>h'. malloc_case3 h a sz req = (user_ptr (a + 24), h') \<and> inserted h a [] (z # ys) (a + 24) sz req h'"
proof -
  have "maj_first (majors h a) = z" "z \<noteq> 0" "0 \<notin> set ys" "z \<notin> set ys"
    using block_okD(2-4) [OF assms(1)] by auto
  then show ?thesis using assms(2)
    by (auto simp: malloc_case3_def Let_def hand_out_eq inserted_def set_major_def set_minor_def)
qed

lemma case4_inserted:
  assumes "block_ok h a (pre @ m # post)" "m + 24 + min_size (minors h m) \<notin> set (pre @ m # post)"
  shows "\<exists>h'. malloc_case4 h a m sz req = (user_ptr (m + 24 + min_size (minors h m)), h') \<and>
    inserted h a (pre @ [m]) post (m + 24 + min_size (minors h m)) sz req h'"
proof -
  note s = block_okD(1) [OF assms(1)] and d = block_okD(2) [OF assms(1)] and z = block_okD(3) [OF assms(1)]
  have n: "min_next (minors h m) = head_or post 0" using s by (auto simp: seg_append dest: seg_head)
  show ?thesis
  proof (cases post)
    case Nil
    then show ?thesis using assms(2) n d z
      by (auto simp: malloc_case4_def Let_def hand_out_eq inserted_def set_major_def set_minor_def)
  next
    case (Cons q qs)
    then show ?thesis using assms(2) n d z
      by (auto simp: malloc_case4_def Let_def hand_out_eq inserted_def set_major_def set_minor_def)
  qed
qed

lemma unat_diff4:
  "unat y + 24 + unat s \<le> unat x \<Longrightarrow> unat (x - y - 24 - s) = unat x - (unat y + 24 + unat (s :: uint))"
  by (subst unat_sub; (subst unat_sub)?; (subst unat_sub)?; simp add: word_le_nat_alt unat_sub)

lemma gap_after_eq:
  assumes "block_ok h a (pre @ m # post)"
  shows "unat (gap_after h a m) = pack_limit post (unat a + unat (maj_size (majors h a))) - (unat m + 24 + minsz h m)"
    "unat m + 24 + minsz h m \<le> pack_limit post (unat a + unat (maj_size (majors h a)))"
proof -
  let ?hi = "unat a + unat (maj_size (majors h a))"
  note b = block_okD [OF assms]
  have n: "min_next (minors h m) = head_or post 0" using b(1) by (auto simp: seg_append dest: seg_head)
  have "packed (minsz h) (unat m + 24 + minsz h m) post ?hi" using b(5) by (simp add: packed_append)
  from packed_first [OF this] show le: "unat m + 24 + minsz h m \<le> pack_limit post ?hi" .
  have "unat (a + maj_size (majors h a)) = ?hi" using b(6) by (subst unat_plus_small) simp_all
  then have "unat (if head_or post 0 = 0 then a + maj_size (majors h a) else head_or post 0) = pack_limit post ?hi"
    using b(3) by (cases post) auto
  then show "unat (gap_after h a m) = pack_limit post ?hi - (unat m + 24 + minsz h m)"
    using le unat_diff4 [of m "min_size (minors h m)"] n by (simp add: gap_after_def Let_def)
qed

lemma find_gap_spec:
  assumes "block_ok h a (pre @ ys)"
  shows "\<exists>m. find_gap h a sz (head_or ys 0) = Some m \<and>
    (m = 0 \<or> (\<exists>pre' post. pre @ ys = pre' @ m # post \<and> sz + 24 \<le> gap_after h a m))"
  using assms
proof (induction ys arbitrary: pre)
  case Nil
  then show ?case by (simp add: find_gap.simps)
next
  case (Cons y ys)
  note b = block_okD [OF Cons.prems]
  have n: "min_next (minors h y) = head_or ys 0" using b(1) by (auto simp: seg_append dest: seg_head)
  show ?case
  proof (cases "sz + 24 \<le> gap_after h a y")
    case True
    then show ?thesis by (auto simp: find_gap.simps [of _ _ _ y])
  next
    case False
    then have "find_gap h a sz y = find_gap h a sz (head_or ys 0)" using b(3) n by (auto simp: find_gap.simps [of _ _ _ y])
    then show ?thesis using Cons.IH [of "pre @ [y]"] Cons.prems by simp
  qed
qed

lemma use_block_spec:
  assumes ok: "block_ok h a ys" and sz: "unat sz = unat req + 32" "unat sz + 24 < 2 ^ 32"
    and room: "ys = [] \<Longrightarrow> unat sz + 48 \<le> unat (maj_size (majors h a))"
  shows "use_block h a sz req = Some None \<and> ys \<noteq> [] \<or>
    (\<exists>pre post y h'. ys = pre @ post \<and> use_block h a sz req = Some (Some (user_ptr y, h')) \<and>
      block_ok h' a (pre @ y # post) \<and> changed_in h a h' \<and> y \<notin> set ys \<and> inserted h a pre post y sz req h')"
proof -
  let ?hi = "unat a + unat (maj_size (majors h a))"
  note b = block_okD [OF ok]
  have s24: "unat (sz + 24) = unat sz + 24" using sz(2) by (subst unat_plus_small) simp_all
  have a24: "unat (a + 24) = unat a + 24" using b(6,8) by (subst unat_plus_small) simp_all
  show ?thesis
  proof (cases ys)
    case Nil
    obtain h' where h': "malloc_case2 h a sz req = (user_ptr (a + 24), h')" "inserted h a [] [] (a + 24) sz req h'"
      using case2_inserted by blast
    have "unat (a + 24) + 24 + unat sz \<le> pack_limit [] ?hi" using room Nil a24 by simp
    from inserted_ok [of h a "[]" "[]", OF _ _ this sz(1) h'(2)] ok Nil a24 have
      "block_ok h' a [a + 24]" "changed_in h a h'" by simp_all
    moreover have "use_block h a sz req = Some (Some (user_ptr (a + 24), h'))" using h'(1) b(4) Nil by (simp add: use_block_def)
    ultimately show ?thesis using Nil h'(2) by auto
  next
    case (Cons z zs)
    have f: "maj_first (majors h a) = z" "z \<noteq> 0" using b(3,4) Cons by auto
    have za: "unat a + 24 \<le> unat z" using b(5) Cons by simp
    show ?thesis
    proof (cases "z - a - 24 \<ge> sz + 24")
      case True
      have "unat (z - a - 24) = unat z - (unat a + 24)" using za by (simp add: unat_sub word_le_nat_alt)
      then have gap: "unat a + 24 + 24 + unat sz \<le> unat z" using True s24 za by (simp add: word_le_nat_alt)
      have "unat z \<le> unat w" if "w \<in> set ys" for w
        using packed_in [of "minsz h" "unat z" ys ?hi w] that b(5) Cons by auto
      then have "a + 24 \<notin> set (z # zs)" using gap a24 Cons by fastforce
      then obtain h' where h': "malloc_case3 h a sz req = (user_ptr (a + 24), h')" "inserted h a [] (z # zs) (a + 24) sz req h'"
        using case3_inserted ok Cons by blast
      have "unat (a + 24) + 24 + unat sz \<le> pack_limit (z # zs) ?hi" using gap a24 by simp
      from inserted_ok [of h a "[]" "z # zs", OF _ _ this sz(1) h'(2)] ok Cons a24 have
        "block_ok h' a ((a + 24) # z # zs)" "changed_in h a h'" "a + 24 \<notin> set (z # zs)" by simp_all
      moreover have "use_block h a sz req = Some (Some (user_ptr (a + 24), h'))" using h'(1) f True by (simp add: use_block_def)
      ultimately show ?thesis using Cons h'(2)
        by (intro disjI2, rule_tac x = "[]" in exI, rule_tac x = "z # zs" in exI, rule_tac x = "a + 24" in exI) auto
    next
      case False
      obtain m where m: "find_gap h a sz z = Some m" "m = 0 \<or> (\<exists>pre post. ys = pre @ m # post \<and> sz + 24 \<le> gap_after h a m)"
        using find_gap_spec [of h a "[]" ys sz] ok Cons by auto
      show ?thesis
      proof (cases "m = 0")
        case True
        then show ?thesis using f False m(1) Cons by (simp add: use_block_def)
      next
        case mz: False
        then obtain pre post where ys: "ys = pre @ m # post" "sz + 24 \<le> gap_after h a m" using m(2) by blast
        let ?y = "m + 24 + min_size (minors h m)"
        note g = gap_after_eq [OF ok [unfolded ys(1)]]
        have lim: "pack_limit post ?hi \<le> 0xFE000000" using packed_in [OF b(5)] b(6) ys(1) by (cases post) fastforce+
        have y: "unat ?y = unat m + 24 + minsz h m" using g(2) lim by (simp add: unat_word_ariths)
        have fit: "unat ?y + 24 + unat sz \<le> pack_limit post ?hi" using ys(2) g s24 y by (simp add: word_le_nat_alt)
        have pp: "packed (minsz h) (unat a + 24) pre (pack_end (minsz h) (unat a + 24) pre)" "pack_end (minsz h) (unat a + 24) pre \<le> unat m"
          "packed (minsz h) (unat m + 24 + minsz h m) post ?hi" using b(5) ys(1) by (simp_all add: packed_append)
        have "pack_limit post ?hi \<le> unat w" if "w \<in> set post" for w
          using that packed_in [of "minsz h" "unat (hd post)" post ?hi w] pp(3) by (cases post) auto
        then have "?y \<notin> set post" using fit by fastforce
        moreover have "?y \<notin> set pre" using packed_in [OF pp(1), of ?y] pp(2) y by auto
        moreover have "unat ?y \<noteq> unat m" using y by simp
        then have "?y \<noteq> m" by metis
        ultimately have "?y \<notin> set (pre @ m # post)" by simp
        then obtain h' where h': "malloc_case4 h a m sz req = (user_ptr ?y, h')" "inserted h a (pre @ [m]) post ?y sz req h'"
          using case4_inserted ok ys(1) by blast
        have "block_ok h' a ((pre @ [m]) @ ?y # post)" "changed_in h a h'" "?y \<notin> set ((pre @ [m]) @ post)"
          using inserted_ok [OF _ _ fit sz(1) h'(2)] ok ys(1) y by simp_all
        moreover have "use_block h a sz req = Some (Some (user_ptr ?y, h'))"
          using h'(1) f False m(1) mz by (simp add: use_block_def)
        ultimately show ?thesis using ys(1) h'(2)
          by (intro disjI2, rule_tac x = "pre @ [m]" in exI, rule_tac x = post in exI, rule_tac x = ?y in exI) auto
      qed
    qed
  qed
qed

section \<open>New major blocks\<close>

text \<open>A block fresh from the page source: it is apart from all others and large enough.\<close>

definition fresh_block :: "heap \<Rightarrow> (uint \<times> uint list) list \<Rightarrow> uint \<Rightarrow> uint \<Rightarrow> heap \<Rightarrow> bool" where
  "fresh_block h L sz a h' \<longleftrightarrow> a \<noteq> 0 \<and> block_ok h' a [] \<and> unat sz + 48 \<le> unat (maj_size (majors h' a)) \<and>
     maj_prev (majors h' a) = 0 \<and> maj_next (majors h' a) = 0 \<and> a \<notin> addrs L \<and>
     (\<forall>b \<in> addrs L. span h b \<inter> span h' a = {}) \<and> (\<forall>b. b \<noteq> a \<longrightarrow> majors h' b = majors h b) \<and>
     minors h' = minors h \<and> h_bytes h' = h_bytes h \<and> l_memRoot h' = l_memRoot h \<and> l_bestBet h' = l_bestBet h \<and>
     (\<exists>F. source_ok (h_kheap h') F \<and> (\<forall>b \<in> addrs L. span h b \<inter> F = {}) \<and> span h' a \<inter> F = {})"

lemma pages_needed:
  fixes sz :: uint
  assumes "unat sz + 48 + 4096 < 2 ^ 32"
  defines "st0 \<equiv> sz + 24 + 24"
  defines "st1 \<equiv> (if st0 mod 4096 = 0 then st0 div 4096 else st0 div 4096 + 1)"
  defines "st \<equiv> (if st1 < 16 then 16 else st1)"
  shows "unat sz + 48 \<le> 4096 * unat st" "st \<noteq> 0"
proof -
  have s0: "unat st0 = unat sz + 48" using assms(1) by (simp add: st0_def unat_word_ariths)
  have m: "st0 mod 4096 = 0 \<longleftrightarrow> (unat sz + 48) mod 4096 = 0" by (simp add: word_unat_eq_iff unat_mod s0)
  have d: "unat (st0 div 4096) = (unat sz + 48) div 4096" by (simp add: unat_div s0)
  then have "unat (st0 div 4096 + 1) = (unat sz + 48) div 4096 + 1" using assms(1) by (subst unat_plus_small) simp_all
  then have "unat sz + 48 \<le> 4096 * unat st1" using m d unfolding st1_def by auto
  moreover have "unat st1 \<le> unat st" "st1 < 16 \<or> st1 \<noteq> 0" by (auto simp: st_def word_less_nat_alt)
  ultimately show "unat sz + 48 \<le> 4096 * unat st" by simp
  show "st \<noteq> 0" by (auto simp: st_def)
qed

lemma allocate_new_page_spec:
  assumes "heap_ok h L" "unat sz + 48 + 4096 < 2 ^ 32"
  shows "allocate_new_page h sz = Panic ''kheap_alloc_pages: out of physical memory'' \<or>
    (\<exists>h'. allocate_new_page h sz = Ok (0, h') \<and> heap_ok h' L \<and> minors h' = minors h \<and> majors h' = majors h \<and> h_bytes h' = h_bytes h \<and> l_memRoot h' = l_memRoot h) \<or>
    (\<exists>a h'. allocate_new_page h sz = Ok (a, h') \<and> fresh_block h L sz a h')"
proof -
  define st0 where "st0 = sz + 24 + 24"
  define st1 where "st1 = (if st0 mod 4096 = 0 then st0 div 4096 else st0 div 4096 + 1)"
  define st where "st = (if st1 < 16 then 16 else st1)"
  note pn = pages_needed [OF assms(2), folded st0_def, folded st1_def, folded st_def]
  obtain F where F: "source_ok (h_kheap h) F" "\<forall>b \<in> addrs L. span h b \<inter> F = {}" using assms(1) by (auto simp: heap_ok_def)
  have eq: "allocate_new_page h sz = andthen (liballoc_alloc (h_kheap h) st) (\<lambda>(maj, k).
        let h = h\<lparr>h_kheap := k\<rparr> in
        if maj = 0 then Ok (0, h\<lparr>l_warningCount := l_warningCount h + 1\<rparr>)
        else Ok (maj, (set_major h maj (\<lambda>_. \<lparr>maj_prev = 0, maj_next = 0, maj_pages = st, maj_size = st * 4096,
               maj_usage = 24, maj_first = 0\<rparr>)) \<lparr>l_allocated := l_allocated h + ucast (st * 4096)\<rparr>))"
    by (simp only: allocate_new_page_def Let_def st_def st1_def st0_def)
  from source.alloc_run [OF F(1) pn(2)]
  consider "liballoc_alloc (h_kheap h) st = Ok (0, h_kheap h)" | "liballoc_alloc (h_kheap h) st = Panic ''kheap_alloc_pages: out of physical memory''"
    | a k where "liballoc_alloc (h_kheap h) st = Ok (a, k)" "a \<noteq> 0" by fastforce
  then show ?thesis
  proof cases
    case 1
    then show ?thesis using eq assms(1) by (simp add: Let_def heap_ok_def block_ok_def minor_ok_def span_def)
  next
    case 3
    let ?M = "\<lparr>maj_prev = 0, maj_next = 0, maj_pages = st, maj_size = st * 4096, maj_usage = 24, maj_first = 0\<rparr>"
    define h' where "h' = h\<lparr>h_kheap := k, majors := (majors h)(a := ?M), l_allocated := l_allocated h + ucast (st * 4096)\<rparr>"
    note al = source.alloc_Ok [OF F(1) pn(2) 3]
    have z: "unat (st * 4096) = 4096 * unat st" using al(4) by (simp add: unat_word_ariths)
    then have sp: "span h' a = area (unat a, unat st)" by (simp add: span_def area_def h'_def)
    have "allocate_new_page h sz = Ok (a, h')" using eq 3 by (simp add: h'_def Let_def set_major_def)
    moreover have "block_ok h' a []" using z al(3-5) pn(1) by (simp add: block_ok_def h'_def)
    moreover have "a \<notin> addrs L"
    proof
      assume i: "a \<in> addrs L"
      then obtain ys where "(a, ys) \<in> set L" using addrs_iff by blast
      from heap_okD(1) [OF assms(1) this] have "unat a \<in> span h a" by (auto simp: span_def dest: block_okD(8))
      moreover have "unat a \<in> area (unat a, unat st)" using pn(2) unat_gt_0 [of st] by (simp add: area_def)
      ultimately show False using F(2) i al(1) by blast
    qed
    moreover have "\<forall>b \<in> addrs L. span h b \<inter> span h' a = {}" "\<forall>b \<in> addrs L. span h b \<inter> (F - area (unat a, unat st)) = {}"
      using F(2) al(1) unfolding sp by blast+
    moreover have "span h' a \<inter> (F - area (unat a, unat st)) = {}" unfolding sp by blast
    ultimately have "fresh_block h L sz a h'" using 3(2) al(2) z pn(1) unfolding fresh_block_def by (auto simp: h'_def)
    then show ?thesis using \<open>allocate_new_page h sz = Ok (a, h')\<close> by blast
  qed (use eq in simp)
qed

text \<open>Appending it to the list of major blocks.\<close>

lemma append_block:
  assumes "heap_ok h L" "fresh_block h L sz a h1"
    "\<And>b. b \<noteq> a \<Longrightarrow> majors h2 b = (majors h1 b)\<lparr>maj_next := if L \<noteq> [] \<and> b = fst (last L) then a else maj_next (majors h1 b)\<rparr>"
    "majors h2 a = (majors h1 a)\<lparr>maj_prev := last_or 0 (map fst L)\<rparr>"
    "l_memRoot h2 = (if L = [] then a else l_memRoot h1)"
    "minors h2 = minors h1" "h_bytes h2 = h_bytes h1" "h_kheap h2 = h_kheap h1" "l_bestBet h2 = l_bestBet h1"
  shows "heap_ok h2 (L @ [(a, [])])" "unat sz + 48 \<le> unat (maj_size (majors h2 a))"
proof -
  note ok = assms(1) [unfolded heap_ok_def] and f = assms(2) [unfolded fresh_block_def]
  have sz: "maj_size (majors h2 b) = maj_size (majors h1 b)" for b using assms(3,4) by (cases "b = a") auto
  then show "unat sz + 48 \<le> unat (maj_size (majors h2 a))" using f by simp
  have spa: "span h2 a = span h1 a" by (simp add: span_def sz)
  have spb: "span h2 b = span h b" if "b \<in> addrs L" for b
  proof -
    have "b \<noteq> a" using that f by blast
    then show ?thesis using f sz by (simp add: span_def)
  qed
  have "block_ok h2 b zs" if "(b, zs) \<in> set L" for b zs
  proof -
    have ne: "b \<noteq> a" using f that addrs_iff by blast
    have "block_ok h2 b zs = block_ok h b zs"
      using assms(3) [OF ne] f ne assms(6,7) by (simp add: block_ok_def minor_ok_def)
    then show ?thesis using heap_okD(1) [OF assms(1) that] by simp
  qed
  moreover have "block_ok h2 a []" using f assms(4) by (simp add: block_ok_def)
  moreover have "seg (\<lambda>b. maj_next (majors h2 b)) (l_memRoot h2) (map fst L @ [a]) 0"
  proof -
    let ?n = "\<lambda>b. maj_next (majors h b)"
    have "maj_next (majors h2 a) = 0" using f assms(4) by simp
    moreover have "seg (\<lambda>b. maj_next (majors h2 b)) (l_memRoot h2) (map fst L) a"
    proof (cases "L = []")
      case False
      have "seg (?n(last (map fst L) := a)) (l_memRoot h) (map fst L) a" using ok False by (intro seg_retarget [of _ _ _ 0]) auto
      moreover have "seg (\<lambda>b. maj_next (majors h2 b)) x (map fst L) a = seg (?n(last (map fst L) := a)) x (map fst L) a" for x
      proof (rule seg_cong)
        fix b assume "b \<in> set (map fst L)"
        then have "b \<noteq> a" using f unfolding set_addrs by blast
        then show "maj_next (majors h2 b) = (?n(last (map fst L) := a)) b" using assms(3) f False by (simp add: last_map)
      qed
      ultimately show ?thesis using False assms(5) f by simp
    qed (use assms(5) in simp)
    ultimately show ?thesis using f by (simp add: seg_append)
  qed
  moreover have "prevs (\<lambda>b. maj_prev (majors h2 b)) 0 (map fst L @ [a])"
  proof -
    have "prevs (\<lambda>b. maj_prev (majors h2 b)) 0 (map fst L) = prevs (\<lambda>b. maj_prev (majors h b)) 0 (map fst L)"
    proof (rule prevs_cong)
      fix b assume "b \<in> set (map fst L)"
      then have "b \<noteq> a" using f unfolding set_addrs by blast
      then show "maj_prev (majors h2 b) = maj_prev (majors h b)" using assms(3) f by simp
    qed
    then show ?thesis using ok assms(4) by (simp add: prevs_append)
  qed
  moreover have "span h2 b \<inter> span h2 c = {}" if bc: "b \<in> addrs (L @ [(a, [])])" "c \<in> addrs (L @ [(a, [])])" "b \<noteq> c" for b c
  proof -
    have old: "span h b \<inter> span h1 a = {}" "c \<in> addrs L \<Longrightarrow> b \<noteq> c \<Longrightarrow> span h b \<inter> span h c = {}" if "b \<in> addrs L" for b c
      using ok f that by blast+
    consider "b = a" "c \<in> addrs L" | "c = a" "b \<in> addrs L" | "b \<in> addrs L" "c \<in> addrs L" using bc by auto
    then show ?thesis
    proof cases
      case 1
      then show ?thesis using old(1) [of c] spa spb by (simp add: Int_commute)
    next
      case 2
      then show ?thesis using old(1) [of b] spa spb by simp
    next
      case 3
      then show ?thesis using old(2) [of b c] spb bc(3) by simp
    qed
  qed
  moreover have "\<exists>F. source_ok (h_kheap h2) F \<and> (\<forall>b \<in> addrs (L @ [(a, [])]). span h2 b \<inter> F = {})"
  proof -
    obtain F where F: "source_ok (h_kheap h1) F" "\<forall>b \<in> addrs L. span h b \<inter> F = {}" "span h1 a \<inter> F = {}" using f by blast
    have "span h2 b \<inter> F = {}" if "b \<in> addrs (L @ [(a, [])])" for b
      using that F(2,3) spa spb by (cases "b \<in> addrs L") auto
    then show ?thesis using F(1) assms(8) by auto
  qed
  moreover have "distinct (map fst (L @ [(a, [])]))" "l_bestBet h2 = 0 \<or> l_bestBet h2 \<in> addrs (L @ [(a, [])])"
    using ok f assms(9) by (auto simp: addrs_def)
  ultimately show "heap_ok h2 (L @ [(a, [])])" unfolding heap_ok_def by auto
qed

section \<open>Allocation\<close>

text \<open>The minor blocks in use with the sizes asked for.\<close>

definition minor_addrs :: "(uint \<times> uint list) list \<Rightarrow> uint set" where
  "minor_addrs L = (\<Union>(a, ys) \<in> set L. set ys)"

definition live :: "heap \<Rightarrow> (uint \<times> uint list) list \<Rightarrow> (uint \<times> uint) set" where
  "live h L = (\<lambda>y. (y, min_req_size (minors h y))) ` minor_addrs L"

lemma minor_addrs_simps [simp]: "minor_addrs [] = {}" "minor_addrs ((a, ys) # L) = set ys \<union> minor_addrs L"
  "minor_addrs (L @ M) = minor_addrs L \<union> minor_addrs M"
  by (auto simp: minor_addrs_def)

lemma fst_live [simp]: "fst ` live h L = minor_addrs L"
  by (force simp: live_def)

definition malloc_result :: "heap \<Rightarrow> (uint \<times> uint list) list \<Rightarrow> uint \<Rightarrow> (uint \<times> heap) res \<Rightarrow> bool" where
  "malloc_result h L req r \<longleftrightarrow> r = Panic ''kheap_alloc_pages: out of physical memory'' \<or>
     (\<exists>h' L'. r = Ok (0, h') \<and> heap_ok h' L' \<and> live h' L' = live h L \<and> h_bytes h' = h_bytes h) \<or>
     (\<exists>y h' L'. r = Ok (user_ptr y, h') \<and> heap_ok h' L' \<and> y \<notin> minor_addrs L \<and> live h' L' = insert (y, req) (live h L) \<and>
        (\<forall>x. x \<noteq> user_ptr y - 16 \<longrightarrow> h_bytes h' x = h_bytes h x))"

lemma malloc_result_cong:
  assumes "malloc_result h1 L1 req r" "live h1 L1 = live h L" "h_bytes h1 = h_bytes h"
  shows "malloc_result h L req r"
proof -
  have "minor_addrs L1 = minor_addrs L" using arg_cong [OF assms(2), of "\<lambda>S. fst ` S"] by simp
  then show ?thesis using assms unfolding malloc_result_def by simp
qed

lemma outside_block:
  assumes "heap_ok h (L1 @ (a, ys) # L2)" "z \<in> minor_addrs (L1 @ L2)"
  shows "unat z \<notin> span h a"
proof -
  let ?L = "L1 @ (a, ys) # L2"
  obtain b zs where b: "(b, zs) \<in> set (L1 @ L2)" "z \<in> set zs" using assms(2) by (auto simp: minor_addrs_def)
  then have b': "(b, zs) \<in> set ?L" by auto
  have "distinct (map fst ?L)" using assms(1) by (simp add: heap_ok_def)
  then have "b \<noteq> a" using b(1) by force
  from heap_okD(2) [OF assms(1) _ b' this, of ys] have "span h b \<inter> span h a = {}" by simp
  then show ?thesis using block_in_span(1) [OF heap_okD(1) [OF assms(1) b'] b(2)] by blast
qed

lemma malloc_found:
  assumes "heap_ok h (L1 @ (a, pre @ post) # L2)" "block_ok h' a (pre @ y # post)" "changed_in h a h'" "y \<notin> set (pre @ post)"
    "inserted h a pre post y sz req h'"
  shows "malloc_result h (L1 @ (a, pre @ post) # L2) req (Ok (user_ptr y, h'))"
proof -
  let ?L = "L1 @ (a, pre @ post) # L2" and ?L' = "L1 @ (a, pre @ y # post) # L2"
  have ok: "heap_ok h' ?L'" by (rule heap_ok_block [OF assms(1,3,2)])
  have sp: "span h' a = span h a" using assms(3) by (simp add: span_def changed_in_def)
  note other = outside_block [OF assms(1)]
  have "unat y \<in> span h a" using block_in_span(1) [OF assms(2), of y] sp by simp
  then have y: "y \<notin> minor_addrs ?L" using other assms(4) by auto
  have req: "min_req_size (minors h' z) = min_req_size (minors h z)" if "z \<in> minor_addrs ?L" for z
  proof (cases "z \<in> set (pre @ post)")
    case True
    then show ?thesis using assms(5) by (simp add: inserted_def)
  next
    case False
    then have "z \<in> minor_addrs (L1 @ L2)" using that by auto
    then show ?thesis using other assms(3) by (simp add: changed_in_def)
  qed
  have "minor_addrs ?L' = insert y (minor_addrs ?L)" by auto
  moreover have "min_req_size (minors h' y) = req" using assms(5) by (simp add: inserted_def)
  ultimately have "live h' ?L' = insert (y, req) (live h ?L)" using req by (auto simp: live_def intro: rev_image_eqI)
  moreover have "\<forall>x. x \<noteq> user_ptr y - 16 \<longrightarrow> h_bytes h' x = h_bytes h x" using assms(5) by (simp add: inserted_def)
  ultimately show ?thesis using ok y unfolding malloc_result_def by blast
qed

lemma use_block_result:
  assumes "heap_ok h (L1 @ (a, ys) # L2)" "unat sz = unat req + 32" "unat sz + 24 < 2 ^ 32"
    "ys = [] \<Longrightarrow> unat sz + 48 \<le> unat (maj_size (majors h a))"
  shows "use_block h a sz req = Some None \<and> ys \<noteq> [] \<or>
    (\<exists>p h'. use_block h a sz req = Some (Some (p, h')) \<and> malloc_result h (L1 @ (a, ys) # L2) req (Ok (p, h')))"
proof -
  have "block_ok h a ys" using heap_okD(1) [OF assms(1), of a ys] by simp
  then have "use_block h a sz req = Some None \<and> ys \<noteq> [] \<or>
    (\<exists>pre post y h'. ys = pre @ post \<and> use_block h a sz req = Some (Some (user_ptr y, h')) \<and>
      block_ok h' a (pre @ y # post) \<and> changed_in h a h' \<and> y \<notin> set ys \<and> inserted h a pre post y sz req h')"
    by (rule use_block_spec) (use assms(2-4) in auto)
  then show ?thesis
  proof (elim disjE exE conjE)
    fix pre post y h'
    assume "ys = pre @ post" "use_block h a sz req = Some (Some (user_ptr y, h'))" "block_ok h' a (pre @ y # post)" "changed_in h a h'"
      "y \<notin> set ys" "inserted h a pre post y sz req h'"
    then show ?thesis using malloc_found [of h L1 a pre post L2 h' y sz req] assms(1) by auto
  qed simp
qed

text \<open>The search of one block leaves the lists alone.\<close>

lemma note_best_ok:
  assumes "heap_ok h L" "a \<in> addrs L" "note_best h a best = (h1, best1)"
  shows "heap_ok h1 L" "live h1 L = live h L" "h_bytes h1 = h_bytes h" "majors h1 = majors h" "minors h1 = minors h" "l_memRoot h1 = l_memRoot h"
proof -
  have "h1 = h \<or> h1 = h\<lparr>l_bestBet := a\<rparr>" using assms(3) by (auto simp: note_best_def Let_def split: if_splits)
  then show "heap_ok h1 L" "live h1 L = live h L" "h_bytes h1 = h_bytes h" "majors h1 = majors h" "minors h1 = minors h" "l_memRoot h1 = l_memRoot h"
    using assms(1,2) by (auto simp: heap_ok_def live_def block_ok_def minor_ok_def span_def)
qed

lemma block_room:
  assumes "block_ok h a ys"
  shows "unat (maj_size (majors h a) - maj_usage (majors h a)) = unat (maj_size (majors h a)) - (24 + (\<Sum>y\<leftarrow>ys. 24 + minsz h y))"
  using block_okD(9) [OF assms] packed_sum [OF block_okD(5) [OF assms]] by (subst unat_sub) (auto simp: word_le_nat_alt)

lemma add_major_result:
  assumes "heap_ok h L" "L \<noteq> []" "a = fst (last L)" "unat sz + 48 + 4096 < 2 ^ 32"
  shows "add_major h a sz = Panic ''kheap_alloc_pages: out of physical memory'' \<or>
    (\<exists>h'. add_major h a sz = Ok (0, h') \<and> heap_ok h' L \<and> live h' L = live h L \<and> h_bytes h' = h_bytes h) \<or>
    (\<exists>b h'. add_major h a sz = Ok (b, h') \<and> b \<noteq> 0 \<and> heap_ok h' (L @ [(b, [])]) \<and> unat sz + 48 \<le> unat (maj_size (majors h' b)) \<and>
      live h' (L @ [(b, [])]) = live h L \<and> h_bytes h' = h_bytes h)"
proof -
  have la: "last_or 0 (map fst L) = a" using assms(2,3) by (simp add: last_or_def last_map)
  have nx: "maj_next (majors h a) = 0"
  proof -
    have "butlast (map fst L) @ [a] = map fst L" using append_butlast_last_id [of "map fst L"] assms(2,3) by (simp add: last_map)
    then have "seg (\<lambda>a. maj_next (majors h a)) (l_memRoot h) (butlast (map fst L) @ [a]) 0" using assms(1) by (simp only: heap_ok_def)
    then show ?thesis by (simp add: seg_append)
  qed
  from allocate_new_page_spec [OF assms(1,4)] show ?thesis
  proof (elim disjE exE conjE)
    fix h' assume h': "allocate_new_page h sz = Ok (0, h')" "heap_ok h' L" "minors h' = minors h" "majors h' = majors h" "h_bytes h' = h_bytes h"
    have "(majors h' a)\<lparr>maj_next := 0\<rparr> = majors h' a" using nx h'(4) by simp
    then have "set_major h' a (\<lambda>x. x\<lparr>maj_next := 0\<rparr>) = h'" by (simp add: set_major_def)
    then show ?thesis using h' by (auto simp: add_major_def live_def)
  next
    fix b h1 assume b: "allocate_new_page h sz = Ok (b, h1)" "fresh_block h L sz b h1"
    let ?h2 = "set_major (set_major h1 a (\<lambda>x. x\<lparr>maj_next := b\<rparr>)) b (\<lambda>x. x\<lparr>maj_prev := a\<rparr>)"
    note f = b(2) [unfolded fresh_block_def]
    have "a \<in> addrs L" using assms(2,3) by (simp add: addrs_def)
    then have ne: "a \<noteq> b" using f by blast
    have "heap_ok ?h2 (L @ [(b, [])])" "unat sz + 48 \<le> unat (maj_size (majors ?h2 b))"
      by (rule append_block [OF assms(1) b(2)]; use ne la assms(2,3) in \<open>auto simp: set_major_def\<close>)+
    moreover have "add_major h a sz = Ok (b, ?h2)" using b(1) f by (simp add: add_major_def Let_def)
    moreover have "live ?h2 (L @ [(b, [])]) = live h L" "h_bytes ?h2 = h_bytes h" using f by (simp_all add: live_def set_major_def)
    ultimately show ?thesis using f by auto
  qed (simp add: add_major_def)
qed

text \<open>A block that has just been added serves the request.\<close>

lemma fresh_serves:
  assumes "heap_ok h (L @ [(b, [])])" "unat sz = unat req + 32" "unat sz + 48 + 4096 < 2 ^ 32" "unat sz + 48 \<le> unat (maj_size (majors h b))"
  shows "\<exists>p h'. use_block h b sz req = Some (Some (p, h')) \<and> malloc_result h (L @ [(b, [])]) req (Ok (p, h'))"
    "\<exists>r. malloc_loop h b sz req bet best = Some r \<and> malloc_result h (L @ [(b, [])]) req r"
proof -
  have use: "\<exists>p h'. use_block h1 b sz req = Some (Some (p, h')) \<and> malloc_result h1 (L @ [(b, [])]) req (Ok (p, h'))"
    if "heap_ok h1 (L @ [(b, [])])" "majors h1 = majors h" for h1
    using use_block_result [of h1 L b "[]" "[]", OF that(1) assms(2)] assms(3,4) that(2) by auto
  from use [OF assms(1)] show "\<exists>p h'. use_block h b sz req = Some (Some (p, h')) \<and> malloc_result h (L @ [(b, [])]) req (Ok (p, h'))"
    by simp
  obtain h1 best1 where nb: "note_best h b best = (h1, best1)" by fastforce
  note n = note_best_ok [OF assms(1) _ nb]
  have bo: "block_ok h b []" "b \<noteq> 0" using heap_okD(1,3) [OF assms(1), of b "[]"] by simp_all
  have "unat (sz + 24) = unat sz + 24" using assms(3) by (subst unat_plus_small) simp_all
  then have "\<not> maj_size (majors h b) - maj_usage (majors h b) < sz + 24"
    using block_room [OF bo(1)] assms(4) unfolding word_less_nat_alt by simp
  then have "malloc_case1 h1 b sz bet = Ok (Block b, h1)" using n(4) by (simp add: malloc_case1_def)
  moreover obtain p h' where u: "use_block h1 b sz req = Some (Some (p, h'))" "malloc_result h1 (L @ [(b, [])]) req (Ok (p, h'))"
    using use [OF n(1) n(4)] by auto
  ultimately have "malloc_loop h b sz req bet best = Some (Ok (p, h'))"
    using bo(2) nb by (simp add: malloc_loop.simps [of h])
  then show "\<exists>r. malloc_loop h b sz req bet best = Some r \<and> malloc_result h (L @ [(b, [])]) req r"
    using malloc_result_cong [OF u(2), of h "L @ [(b, [])]"] n(2,3) by auto
qed

text \<open>The search for a block with a suitable gap ends, with one of the outcomes above.\<close>

lemma malloc_loop_result:
  assumes "heap_ok h (L1 @ (a, ys) # L2)" "unat sz = unat req + 32" "unat sz + 48 + 4096 < 2 ^ 32"
  shows "\<exists>r. malloc_loop h a sz req bet best = Some r \<and> malloc_result h (L1 @ (a, ys) # L2) req r"
  using assms(1)
proof (induction "length L2 + (if bet then Suc (length (L1 @ (a, ys) # L2)) else 0)" arbitrary: h L1 a ys L2 bet best rule: less_induct)
  case less
  let ?L = "L1 @ (a, ys) # L2"
  have inL: "(a, ys) \<in> set ?L" "a \<in> addrs ?L" by simp_all
  obtain h1 best1 where nb: "note_best h a best = (h1, best1)" by fastforce
  note n = note_best_ok [OF less.prems inL(2) nb]
  have bo: "block_ok h1 a ys" "a \<noteq> 0" using heap_okD(1,3) [OF n(1) inL(1)] by simp_all
  have res: "malloc_result h ?L req r" if "malloc_result h1 ?L req r" for r using malloc_result_cong [OF that n(2,3)] .
  have sg: "seg (\<lambda>a. maj_next (majors h1 a)) (l_memRoot h1) (map fst L1 @ a # map fst L2) 0" using n(1) by (simp add: heap_ok_def)
  then have nx: "maj_next (majors h1 a) = head_or (map fst L2) 0" by (auto simp: seg_append dest: seg_head)
  have nz: "0 \<notin> set (map fst L2)" using seg_nonzero [OF sg] by auto
  text \<open>Going on to the next block, or back to the first one.\<close>
  have next': "\<exists>r. malloc_loop h1 (maj_next (majors h1 a)) sz req bet best1 = Some r \<and> malloc_result h ?L req r" if L2: "L2 \<noteq> []"
  proof -
    obtain b zs M where M: "L2 = (b, zs) # M" using L2 by (cases L2) auto
    have "\<exists>r. malloc_loop h1 b sz req bet best1 = Some r \<and> malloc_result h1 ((L1 @ [(a, ys)]) @ (b, zs) # M) req r"
      by (rule less.hyps) (use M n(1) in auto)
    then show ?thesis using res nx M by auto
  qed
  have restart: "\<exists>r. malloc_loop h1 (l_memRoot h1) sz req False best1 = Some r \<and> malloc_result h ?L req r" if bet: bet
  proof -
    obtain b zs M where M: "?L = (b, zs) # M" by (cases ?L) auto
    then have "l_memRoot h1 = b" using n(1) seg_head by (fastforce simp: heap_ok_def)
    moreover have "\<exists>r. malloc_loop h1 b sz req False best1 = Some r \<and> malloc_result h1 ([] @ (b, zs) # M) req r"
    proof (rule less.hyps)
      show "length M + (if False then Suc (length ([] @ (b, zs) # M)) else 0) < length L2 + (if bet then Suc (length ?L) else 0)"
        using bet arg_cong [OF M, of length] by simp
    qed (use M n(1) in simp)
    ultimately show ?thesis using res M by auto
  qed
  have ne: "?L \<noteq> []" by simp
  let ?out = "\<exists>r. malloc_loop h a sz req bet best = Some r \<and> malloc_result h ?L req r"
  have fail: "malloc_result h ?L req (Panic ''kheap_alloc_pages: out of physical memory'')" by (simp add: malloc_result_def)
  have none: "malloc_result h ?L req (Ok (0, h2))" if "heap_ok h2 ?L" "live h2 ?L = live h1 ?L" "h_bytes h2 = h_bytes h1" for h2
    using that n(2,3) by (auto simp: malloc_result_def)
  have grown: "malloc_result h ?L req r" if "malloc_result h2 (?L @ [(b, [])]) req r" "live h2 (?L @ [(b, [])]) = live h1 ?L" "h_bytes h2 = h_bytes h1" for h2 b r
    using malloc_result_cong [OF that(1), of h ?L] that n(2,3) by simp
  show ?out
  proof (cases "maj_size (majors h1 a) - maj_usage (majors h1 a) < sz + 24")
    case small: True
    show ?out
    proof (cases "L2 = [] \<and> \<not> bet")
      case False
      have "malloc_loop h a sz req bet best = (if L2 \<noteq> [] then malloc_loop h1 (maj_next (majors h1 a)) sz req bet best1
          else malloc_loop h1 (l_memRoot h1) sz req False best1)"
        using bo(2) nb small nx nz False by (cases L2) (auto simp: malloc_loop.simps [of h] malloc_case1_def)
      then show ?out using next' restart False by (cases "L2 = []") auto
    next
      case True
      have c1: "malloc_case1 h1 a sz bet = andthen (add_major h1 a sz) (\<lambda>(new, h). Ok (if new = 0 then Retry 0 False else Block new, h))"
        using small True nx by (simp add: malloc_case1_def)
      have "a = fst (last ?L)" using True by simp
      from add_major_result [OF n(1) ne this assms(3)] show ?out
      proof (elim disjE exE conjE)
        fix h2 assume "add_major h1 a sz = Ok (0, h2)" "heap_ok h2 ?L" "live h2 ?L = live h1 ?L" "h_bytes h2 = h_bytes h1"
        then show ?out using c1 bo(2) nb none by (simp add: malloc_loop.simps [of h] malloc_loop.simps [of _ 0])
      next
        fix b h2 assume b: "add_major h1 a sz = Ok (b, h2)" "b \<noteq> 0" "heap_ok h2 (?L @ [(b, [])])" "unat sz + 48 \<le> unat (maj_size (majors h2 b))"
          "live h2 (?L @ [(b, [])]) = live h1 ?L" "h_bytes h2 = h_bytes h1"
        obtain p h3 where "use_block h2 b sz req = Some (Some (p, h3))" "malloc_result h2 (?L @ [(b, [])]) req (Ok (p, h3))"
          using fresh_serves(1) [OF b(3) assms(2,3) b(4)] by blast
        then show ?out using c1 bo(2) nb b(1,2) grown [OF _ b(5,6)] by (simp add: malloc_loop.simps [of h])
      qed (use c1 bo(2) nb fail in \<open>simp_all add: malloc_loop.simps [of h]\<close>)
    qed
  next
    case big: False
    have c1: "malloc_case1 h1 a sz bet = Ok (Block a, h1)" using big by (simp add: malloc_case1_def)
    have "unat (sz + 24) = unat sz + 24" using assms(3) by (subst unat_plus_small) simp_all
    then have "ys = [] \<Longrightarrow> unat sz + 48 \<le> unat (maj_size (majors h1 a))"
      using big block_room [OF bo(1)] block_okD(8) [OF bo(1)] unfolding word_less_nat_alt by simp
    then consider "use_block h1 a sz req = Some None"
      | p h2 where "use_block h1 a sz req = Some (Some (p, h2))" "malloc_result h1 ?L req (Ok (p, h2))"
      using use_block_result [OF n(1) assms(2)] assms(3) by auto
    then show ?out
    proof cases
      case 2
      then show ?out using c1 bo(2) nb res by (simp add: malloc_loop.simps [of h])
    next
      case 1
      show ?out
      proof (cases "L2 = [] \<and> \<not> bet")
        case False
        have "malloc_loop h a sz req bet best = (if L2 \<noteq> [] then malloc_loop h1 (maj_next (majors h1 a)) sz req bet best1
            else malloc_loop h1 (l_memRoot h1) sz req False best1)"
          using bo(2) nb c1 1 nx nz False by (cases L2) (auto simp: malloc_loop.simps [of h] malloc_case5_def)
        then show ?out using next' restart False by (cases "L2 = []") auto
      next
        case True
        have c5: "malloc_case5 h1 a sz bet = andthen (add_major h1 a sz) (\<lambda>(new, h). Ok ((new, False), h))"
          using True nx by (simp add: malloc_case5_def)
        have "a = fst (last ?L)" using True by simp
        from add_major_result [OF n(1) ne this assms(3)] show ?out
        proof (elim disjE exE conjE)
          fix h2 assume "add_major h1 a sz = Ok (0, h2)" "heap_ok h2 ?L" "live h2 ?L = live h1 ?L" "h_bytes h2 = h_bytes h1"
          then show ?out using c1 1 c5 bo(2) nb none by (simp add: malloc_loop.simps [of h] malloc_loop.simps [of _ 0])
        next
          fix b h2 assume b: "add_major h1 a sz = Ok (b, h2)" "b \<noteq> 0" "heap_ok h2 (?L @ [(b, [])])" "unat sz + 48 \<le> unat (maj_size (majors h2 b))"
            "live h2 (?L @ [(b, [])]) = live h1 ?L" "h_bytes h2 = h_bytes h1"
          obtain r where "malloc_loop h2 b sz req False best1 = Some r" "malloc_result h2 (?L @ [(b, [])]) req r"
            using fresh_serves(2) [OF b(3) assms(2,3) b(4)] by blast
          then show ?out using c1 1 c5 bo(2) nb b(1,2) grown [OF _ b(5,6)] by (simp add: malloc_loop.simps [of h])
        qed (use c1 1 c5 bo(2) nb fail in \<open>simp_all add: malloc_loop.simps [of h]\<close>)
      qed
    qed
  qed
qed

lemma malloc_loop_in:
  assumes "heap_ok h L" "a \<in> addrs L" "unat sz = unat req + 32" "unat sz + 48 + 4096 < 2 ^ 32"
  shows "\<exists>r. malloc_loop h a sz req bet best = Some r \<and> malloc_result h L req r"
proof -
  obtain ys where "(a, ys) \<in> set L" using assms(2) addrs_iff by blast
  then obtain L1 L2 where "L = L1 @ (a, ys) # L2" by (meson split_list)
  then show ?thesis using malloc_loop_result assms by blast
qed

lemma malloc_sized_result:
  assumes "heap_ok h L" "unat sz = unat req + 32" "unat sz + 48 + 4096 < 2 ^ 32"
  shows "malloc_result h L req (malloc_sized h sz req)"
proof (cases L)
  case Nil
  have e: "l_memRoot h = 0" "l_bestBet h = 0" using assms(1) Nil by (simp_all add: heap_ok_def)
  from allocate_new_page_spec [OF assms(1,3)] show ?thesis
  proof (elim disjE exE conjE)
    fix h' assume "allocate_new_page h sz = Ok (0, h')" "heap_ok h' L" "minors h' = minors h" "majors h' = majors h" "h_bytes h' = h_bytes h" "l_memRoot h' = l_memRoot h"
    moreover from this have eq: "h'\<lparr>l_memRoot := 0\<rparr> = h'" using e by simp
    have "malloc_sized h sz req = Ok (0, h'\<lparr>l_memRoot := 0\<rparr>)" using e \<open>allocate_new_page h sz = Ok (0, h')\<close> by (simp add: malloc_sized_def)
    ultimately show ?thesis unfolding eq by (auto simp: malloc_result_def live_def)
  next
    fix b h1 assume b: "allocate_new_page h sz = Ok (b, h1)" "fresh_block h L sz b h1"
    note f = b(2) [unfolded fresh_block_def]
    let ?h = "h1\<lparr>l_memRoot := b\<rparr>"
    have "majors h1 b = (majors h1 b)\<lparr>maj_prev := 0\<rparr>" using f by simp
    then have ok: "heap_ok ?h (L @ [(b, [])])" using Nil by (intro append_block(1) [OF assms(1) b(2)]) auto
    have "\<exists>r. malloc_loop ?h b sz req False 0 = Some r \<and> malloc_result ?h (L @ [(b, [])]) req r"
      using malloc_loop_in [OF ok _ assms(2,3)] by simp
    then obtain r where r: "malloc_loop ?h b sz req False 0 = Some r" "malloc_result ?h (L @ [(b, [])]) req r" by blast
    have "malloc_sized h sz req = r" using b(1) r(1) e f by (simp add: malloc_sized_def)
    moreover have "malloc_result h L req r" using malloc_result_cong [OF r(2)] f Nil by (simp add: live_def)
    ultimately show ?thesis by simp
  qed (use e in \<open>simp add: malloc_sized_def malloc_result_def\<close>)
next
  case (Cons x M)
  have root: "l_memRoot h = fst x" "l_memRoot h \<noteq> 0" using assms(1) Cons by (auto simp: heap_ok_def)
  have bet: "l_bestBet h = 0 \<or> l_bestBet h \<in> addrs L" using assms(1) by (simp add: heap_ok_def)
  define best :: ull where "best = (if l_bestBet h = 0 then 0 else ucast (maj_size (majors h (l_bestBet h)) - maj_usage (majors h (l_bestBet h))))"
  have "\<exists>r. (if l_bestBet h \<noteq> 0 \<and> best > ucast (sz + 24) then malloc_loop h (l_bestBet h) sz req True best
      else malloc_loop h (l_memRoot h) sz req False best) = Some r \<and> malloc_result h L req r"
    using malloc_loop_in [OF assms(1) _ assms(2,3)] bet root(1) Cons by auto
  then obtain r where r: "(if l_bestBet h \<noteq> 0 \<and> best > ucast (sz + 24) then malloc_loop h (l_bestBet h) sz req True best
      else malloc_loop h (l_memRoot h) sz req False best) = Some r" "malloc_result h L req r" by blast
  have "malloc_sized h sz req = r"
    unfolding malloc_sized_def Let_def if_not_P [OF root(2)] andthen.simps prod.case best_def [symmetric] r(1) by simp
  then show ?thesis using r(2) by simp
qed

section \<open>The memory handed out\<close>

definition allocations :: "heap \<Rightarrow> (uint \<times> uint list) list \<Rightarrow> (uint \<times> nat) set" where
  "allocations h L = (\<lambda>(y, n). (user_ptr y, unat n)) ` live h L"

definition extent_of :: "uint \<times> nat \<Rightarrow> nat set" where
  "extent_of b = {unat (fst b)..<unat (fst b) + snd b}"

lemma minor_addrsE:
  assumes "heap_ok h L" "y \<in> minor_addrs L"
  obtains a ys where "(a, ys) \<in> set L" "y \<in> set ys" "block_ok h a ys"
  using assms heap_okD(1) by (auto simp: minor_addrs_def)

lemma minor_bounds:
  assumes "heap_ok h L" "y \<in> minor_addrs L"
  shows "extent_of (user_ptr y, unat (min_req_size (minors h y))) \<subseteq> {unat y + 40..<unat y + 24 + minsz h y}"
    "unat (user_ptr y - 16) \<in> {unat y + 24..<unat y + 24 + minsz h y}" "16 dvd unat (user_ptr y)" "user_ptr y \<noteq> 0"
    "unat (user_ptr y - 16) < unat (user_ptr y)" "unat y + 56 < 2 ^ 32"
proof -
  obtain a ys where ys: "(a, ys) \<in> set L" "y \<in> set ys" "block_ok h a ys" using minor_addrsE [OF assms] .
  note s = block_in_span [OF ys(3,2)]
  note u = user_ptr_bounds [OF s(4)]
  have "unat (min_req_size (minors h y)) + 32 \<le> minsz h y" using ys by (simp add: block_ok_def minor_ok_def)
  then show "extent_of (user_ptr y, unat (min_req_size (minors h y))) \<subseteq> {unat y + 40..<unat y + 24 + minsz h y}"
    using u by (auto simp: extent_of_def)
  show "unat (user_ptr y - 16) \<in> {unat y + 24..<unat y + 24 + minsz h y}" "16 dvd unat (user_ptr y)" "user_ptr y \<noteq> 0"
    "unat (user_ptr y - 16) < unat (user_ptr y)" "unat y + 56 < 2 ^ 32" using s u by auto
qed

lemma minors_apart:
  assumes "heap_ok h L" "y \<in> minor_addrs L" "z \<in> minor_addrs L" "y \<noteq> z"
  shows "{unat y..<unat y + 24 + minsz h y} \<inter> {unat z..<unat z + 24 + minsz h z} = {}"
proof -
  obtain a ys where y: "(a, ys) \<in> set L" "y \<in> set ys" "block_ok h a ys" using minor_addrsE [OF assms(1,2)] .
  obtain b zs where z: "(b, zs) \<in> set L" "z \<in> set zs" "block_ok h b zs" using minor_addrsE [OF assms(1,3)] .
  show ?thesis
  proof (cases "a = b")
    case True
    have "distinct (map fst L)" using assms(1) by (simp add: heap_ok_def)
    then have "zs = ys" using y(1) z(1) True by (meson eq_key_imp_eq_value)
    then show ?thesis using packed_apart [OF block_okD(5) [OF y(3)]] y(2) z(2) assms(4) by fastforce
  next
    case False
    have "{unat y..<unat y + 24 + minsz h y} \<subseteq> span h a" "{unat z..<unat z + 24 + minsz h z} \<subseteq> span h b"
      using packed_in [OF block_okD(5) [OF y(3)] y(2)] packed_in [OF block_okD(5) [OF z(3)] z(2)] by (auto simp: span_def)
    moreover have "span h a \<inter> span h b = {}" using heap_okD(2) [OF assms(1) z(1) y(1)] False by blast
    ultimately show ?thesis by blast
  qed
qed

text \<open>C10: For a request that is at least 4176 bytes short of four gigabytes, \<^verbatim>\<open>kheap_malloc\<close> in a heap that is in order either
  panics for want of physical memory in the page source, or returns and leaves the heap in order. A pointer it returns is aligned to 16
  bytes and stands for as many bytes as were asked for, apart from all other memory in use; the memory in use
  before still is, with its contents. If it returns null, the memory in use and its contents have not changed.
  Above the limit the size of the new major block or of the minor block wraps around 32 bits.\<close>

theorem kheap_malloc_correct:
  assumes "heap_ok h L" "unat req_size + 4176 < 2 ^ 32"
  shows "kheap_malloc h req_size = Panic ''kheap_alloc_pages: out of physical memory'' \<or>
    (\<exists>p h' L'. kheap_malloc h req_size = Ok (p, h') \<and> heap_ok h' L' \<and>
      (\<forall>b \<in> allocations h L. \<forall>x. unat x \<in> extent_of b \<longrightarrow> h_bytes h' x = h_bytes h x) \<and>
      (if p = 0 then allocations h' L' = allocations h L
       else 16 dvd unat p \<and> allocations h' L' = insert (p, unat req_size) (allocations h L) \<and>
         (\<forall>b \<in> allocations h L. extent_of (p, unat req_size) \<inter> extent_of b = {})))"
proof -
  have sz: "unat (req_size + 32) = unat req_size + 32" using assms(2) by (subst unat_plus_small) simp_all
  then have "req_size + 32 \<noteq> 0" by (metis add_eq_0_iff_both_eq_0 unat_0 zero_neq_numeral)
  then have eq: "kheap_malloc h req_size = malloc_sized h (req_size + 32) req_size" by (simp add: kheap_malloc_def)
  have "malloc_result h L req_size (kheap_malloc h req_size)"
    unfolding eq by (rule malloc_sized_result [OF assms(1) sz]) (use assms(2) sz in simp)
  then show ?thesis unfolding malloc_result_def
  proof (elim disjE exE conjE)
    fix h' L' assume "kheap_malloc h req_size = Ok (0, h')" "heap_ok h' L'" "live h' L' = live h L" "h_bytes h' = h_bytes h"
    then show ?thesis by (intro disjI2 exI [of _ 0] exI [of _ h'] exI [of _ L']) (simp add: allocations_def)
  next
    fix y h' L' assume r: "kheap_malloc h req_size = Ok (user_ptr y, h')" "heap_ok h' L'" "y \<notin> minor_addrs L"
      "live h' L' = insert (y, req_size) (live h L)" "\<forall>x. x \<noteq> user_ptr y - 16 \<longrightarrow> h_bytes h' x = h_bytes h x"
    have "minor_addrs L' = insert y (minor_addrs L)" using arg_cong [OF r(4), of "\<lambda>S. fst ` S"] by simp
    then have mem: "y \<in> minor_addrs L'" "z \<in> minor_addrs L \<Longrightarrow> z \<in> minor_addrs L' \<and> z \<noteq> y" for z using r(3) by auto
    have rq: "min_req_size (minors h' y) = req_size" "z \<in> minor_addrs L \<Longrightarrow> min_req_size (minors h' z) = min_req_size (minors h z)" for z
      using r(4) mem by (auto simp: live_def)
    note b = minor_bounds [OF r(2)]
    have apart: "extent_of (user_ptr y, unat req_size) \<inter> extent_of (user_ptr z, unat (min_req_size (minors h z))) = {}"
      "unat (user_ptr y - 16) \<notin> extent_of (user_ptr z, unat (min_req_size (minors h z)))" if z: "z \<in> minor_addrs L" for z
      using minors_apart [OF r(2) mem(1), of z] mem(2) [OF z] b(1,2) [OF mem(1)] b(1) [of z] rq(1) rq(2) [OF z] by fastforce+
    have al: "allocations h L = (\<lambda>z. (user_ptr z, unat (min_req_size (minors h z)))) ` minor_addrs L"
      by (auto simp: allocations_def live_def image_image)
    have "allocations h' L' = insert (user_ptr y, unat req_size) (allocations h L)" using r(4) by (simp add: allocations_def)
    moreover have "h_bytes h' x = h_bytes h x" if "z \<in> minor_addrs L" "unat x \<in> extent_of (user_ptr z, unat (min_req_size (minors h z)))" for z x
      using apart(2) [OF that(1)] that(2) r(5) by metis
    then have "\<forall>b \<in> allocations h L. \<forall>x. unat x \<in> extent_of b \<longrightarrow> h_bytes h' x = h_bytes h x" unfolding al by auto
    moreover have "\<forall>b \<in> allocations h L. extent_of (user_ptr y, unat req_size) \<inter> extent_of b = {}" using apart(1) unfolding al by auto
    ultimately show ?thesis using r(1,2) b(3,4) [OF mem(1)] by (intro disjI2 exI [of _ "user_ptr y"] exI [of _ h'] exI [of _ L']) simp
  qed simp
qed

section \<open>Release\<close>

text \<open>Taking an element out of a doubly linked list.\<close>

lemma unlink_ends:
  assumes "distinct (pre @ y # post)" "0 \<notin> set (pre @ y # post)"
  shows "last_or 0 pre = 0 \<longleftrightarrow> pre = []" "head_or post 0 = 0 \<longleftrightarrow> post = []" "last_or 0 pre \<noteq> y" "head_or post 0 \<noteq> y"
    "z \<in> set post \<Longrightarrow> z \<noteq> last_or 0 pre" "z \<in> set pre \<Longrightarrow> z \<noteq> head_or post 0"
    "pre \<noteq> [] \<Longrightarrow> last_or 0 pre \<in> set pre" "post \<noteq> [] \<Longrightarrow> head_or post 0 \<in> set post"
proof -
  show l: "pre \<noteq> [] \<Longrightarrow> last_or 0 pre \<in> set pre" "post \<noteq> [] \<Longrightarrow> head_or post 0 \<in> set post" by (simp_all add: last_or_def head_or_def)
  show "last_or 0 pre = 0 \<longleftrightarrow> pre = []" "last_or 0 pre \<noteq> y" "z \<in> set post \<Longrightarrow> z \<noteq> last_or 0 pre"
    using l(1) assms by (cases "pre = []"; auto)+
  show "head_or post 0 = 0 \<longleftrightarrow> post = []" "head_or post 0 \<noteq> y" "z \<in> set pre \<Longrightarrow> z \<noteq> head_or post 0"
    using l(2) assms by (cases "post = []"; auto)+
qed

lemma seg_remove:
  assumes "seg nxt x (pre @ y # post) 0" "distinct (pre @ y # post)"
    "\<And>z. z \<in> set (pre @ post) \<Longrightarrow> nxt' z = (if z = last_or 0 pre then head_or post 0 else nxt z)"
  shows "seg nxt' (if pre = [] then head_or post 0 else x) (pre @ post) 0"
proof -
  have z: "0 \<notin> set (pre @ y # post)" using seg_nonzero [OF assms(1)] by blast
  have s: "seg nxt x pre y" "seg nxt (nxt y) post 0" using assms(1) by (simp_all add: seg_append)
  have "seg nxt' (head_or post 0) post 0"
    using s(2) seg_head [OF s(2)] assms(3) unlink_ends(5) [OF assms(2) z] by (subst seg_cong [of _ _ nxt]) auto
  moreover have "seg nxt' x pre (head_or post 0)" if "pre \<noteq> []"
  proof -
    have "seg (nxt(last pre := head_or post 0)) x pre (head_or post 0)" using seg_retarget [OF s(1) _ that] assms(2) by simp
    then show ?thesis using assms(3) that by (subst seg_cong [of _ _ "nxt(last pre := head_or post 0)"]) (auto simp: last_or_def)
  qed
  ultimately show ?thesis by (simp add: seg_append)
qed

lemma prevs_remove:
  assumes "prevs prv 0 (pre @ y # post)" "distinct (pre @ y # post)" "0 \<notin> set (pre @ y # post)"
    "\<And>z. z \<in> set (pre @ post) \<Longrightarrow> prv' z = (if z = head_or post 0 then last_or 0 pre else prv z)"
  shows "prevs prv' 0 (pre @ post)"
proof -
  have p: "prevs prv 0 pre" "prevs prv y post" using assms(1) by (simp_all add: prevs_append)
  have "prevs prv' 0 pre" using p(1) assms(4) unlink_ends(6) [OF assms(2,3)] by (subst prevs_cong [of _ _ prv]) auto
  moreover have "prevs prv' (last_or 0 pre) post"
  proof (cases post)
    case (Cons w ws)
    have "prevs prv' w ws = prevs prv w ws" using assms(2,4) Cons by (intro prevs_cong) auto
    then show ?thesis using p(2) Cons assms(4) [of w] by simp
  qed simp
  ultimately show ?thesis by (simp add: prevs_append)
qed

lemma packed_remove: "packed sz lo (pre @ y # post) hi \<Longrightarrow> packed sz lo (pre @ post) hi"
proof (induction pre arbitrary: lo)
  case Nil
  then have "lo \<le> unat y + 24 + sz y" "packed sz (unat y + 24 + sz y) post hi" by simp_all
  then show ?case by (cases post) auto
qed simp

text \<open>Unlinking the minor block between \<open>pre\<close> and \<open>post\<close>.\<close>

lemma unlink_minor_fields:
  assumes "min_block (minors h y) = a" "min_next (minors h y) = N" "min_prev (minors h y) = P" "P \<noteq> y" "N \<noteq> y" "P \<noteq> 0 \<longrightarrow> P \<noteq> N"
  shows "majors (unlink_minor h y) = (majors h)(a := (majors h a)\<lparr>maj_usage := maj_usage (majors h a) - (min_size (minors h y) + 24),
      maj_first := if P = 0 then N else maj_first (majors h a)\<rparr>)"
    "z \<noteq> y \<Longrightarrow> z \<noteq> 0 \<Longrightarrow> minors (unlink_minor h y) z = (minors h z)\<lparr>min_next := if z = P then N else min_next (minors h z),
      min_prev := if z = N then P else min_prev (minors h z)\<rparr>"
    "minors (unlink_minor h y) y = (minors h y)\<lparr>min_magic := LIBALLOC_DEAD\<rparr>"
    "z \<noteq> y \<Longrightarrow> z = P \<longrightarrow> P = 0 \<Longrightarrow> z = N \<longrightarrow> N = 0 \<Longrightarrow> minors (unlink_minor h y) z = minors h z"
  using assms by (cases "P = 0"; cases "N = 0"; auto simp: unlink_minor_def Let_def set_minor_def set_major_def)+

lemma unlink_minor_effect:
  assumes "block_ok h a (pre @ y # post)"
  defines "h' \<equiv> unlink_minor h y"
  shows "majors h' = (majors h)(a := (majors h a)\<lparr>maj_usage := maj_usage (majors h a) - (min_size (minors h y) + 24),
      maj_first := if pre = [] then head_or post 0 else maj_first (majors h a)\<rparr>)"
    "\<And>z. z \<in> set (pre @ post) \<Longrightarrow> minors h' z = (minors h z)\<lparr>min_next := if z = last_or 0 pre then head_or post 0 else min_next (minors h z),
      min_prev := if z = head_or post 0 then last_or 0 pre else min_prev (minors h z)\<rparr>"
    "\<And>z. z \<notin> set (pre @ y # post) \<Longrightarrow> minors h' z = minors h z"
    "minors h' y = (minors h y)\<lparr>min_magic := LIBALLOC_DEAD\<rparr>"
    "h_bytes h' = h_bytes h" "h_kheap h' = h_kheap h" "l_memRoot h' = l_memRoot h" "l_bestBet h' = l_bestBet h"
proof -
  note b = block_okD [OF assms(1)]
  note e = unlink_ends [OF b(2,3)]
  have bl: "min_block (minors h y) = a" using assms(1) by (simp add: block_ok_def minor_ok_def)
  have n: "min_next (minors h y) = head_or post 0" using b(1) by (auto simp: seg_append dest: seg_head)
  have p: "min_prev (minors h y) = last_or 0 pre" using assms(1) by (simp add: block_ok_def prevs_append)
  have e2: "last_or 0 pre \<noteq> 0 \<longrightarrow> last_or 0 pre \<noteq> head_or post 0" using e(1,6,7) by blast
  note f = unlink_minor_fields [OF bl n p e(3,4) e2, folded h'_def]
  show "majors h' = (majors h)(a := (majors h a)\<lparr>maj_usage := maj_usage (majors h a) - (min_size (minors h y) + 24),
      maj_first := if pre = [] then head_or post 0 else maj_first (majors h a)\<rparr>)" using f(1) e(1) by simp
  show "minors h' z = minors h z" if "z \<notin> set (pre @ y # post)" for z
    by (rule f(4)) (use that e(1,2,7,8) in auto)
  show "minors h' z = (minors h z)\<lparr>min_next := if z = last_or 0 pre then head_or post 0 else min_next (minors h z),
      min_prev := if z = head_or post 0 then last_or 0 pre else min_prev (minors h z)\<rparr>" if "z \<in> set (pre @ post)" for z
    by (rule f(2)) (use that b(2,3) in auto)
  show "minors h' y = (minors h y)\<lparr>min_magic := LIBALLOC_DEAD\<rparr>" by (rule f(3))
qed (simp_all add: h'_def unlink_minor_def Let_def set_minor_def set_major_def)

lemma unlink_minor_ok:
  assumes "block_ok h a (pre @ y # post)"
  shows "block_ok (unlink_minor h y) a (pre @ post)" "changed_in h a (unlink_minor h y)"
proof -
  let ?h = "unlink_minor h y" and ?hi = "unat a + unat (maj_size (majors h a))" and ?ys = "pre @ post"
  note u = unlink_minor_effect [OF assms] and b = block_okD [OF assms]
  have mz: "minsz ?h z = minsz h z" if "z \<in> set ?ys" for z using u(2) [OF that] by simp
  have s: "maj_size (majors ?h a) = maj_size (majors h a)" "maj_pages (majors ?h a) = maj_pages (majors h a)" using u(1) by simp_all
  have first: "maj_first (majors ?h a) = (if pre = [] then head_or post 0 else maj_first (majors h a))" using u(1) by simp
  have "seg (\<lambda>y. min_next (minors ?h y)) (maj_first (majors ?h a)) ?ys 0"
    unfolding first by (rule seg_remove [OF b(1,2)]) (simp add: u(2))
  moreover have "prevs (\<lambda>y. min_prev (minors ?h y)) 0 ?ys"
    by (rule prevs_remove [OF _ b(2,3)]) (use assms u(2) in \<open>simp_all add: block_ok_def\<close>)
  moreover have "packed (minsz ?h) (unat a + 24) ?ys ?hi"
    using packed_remove [OF b(5)] by (subst packed_cong [of _ _ "minsz h"]) (use mz in auto)
  moreover have "unat (maj_usage (majors ?h a)) = 24 + (\<Sum>y\<leftarrow>?ys. 24 + minsz ?h y)"
  proof -
    have "map (\<lambda>y. 24 + minsz ?h y) ?ys = map (\<lambda>y. 24 + minsz h y) ?ys" using mz by simp
    then have eq: "(\<Sum>y\<leftarrow>?ys. 24 + minsz ?h y) = (\<Sum>y\<leftarrow>?ys. 24 + minsz h y)" by (simp only:)
    have us: "unat (maj_usage (majors h a)) = 24 + (\<Sum>y\<leftarrow>?ys. 24 + minsz h y) + (24 + minsz h y)" using b(9) by simp
    have "unat (min_size (minors h y) + 24) = minsz h y + 24"
      using block_in_span(3) [OF assms, of y] by (subst unat_plus_small) simp_all
    then show ?thesis using us eq u(1) by (simp add: unat_sub word_le_nat_alt)
  qed
  moreover have "minor_ok ?h a z" if "z \<in> set ?ys" for z
    using assms that u(2) [OF that] u(5) by (auto simp: block_ok_def minor_ok_def)
  ultimately show "block_ok ?h a ?ys" using assms unfolding block_ok_def s by simp
  have "minors ?h z = minors h z" if "unat z \<notin> span h a" for z using u(3) block_in_span(1) [OF assms] that by blast
  then show "changed_in h a ?h" using u by (simp add: changed_in_def)
qed

text \<open>Taking a major block out of the list and giving its pages back.\<close>

lemma drop_major_fields:
  assumes "liballoc_free (h_kheap h) a (maj_pages (majors h a)) = Ok (r, k')"
    "maj_next (majors h a) = N" "maj_prev (majors h a) = P" "P \<noteq> a" "N \<noteq> a"
  obtains h' where "drop_major h a = Ok h'" "h_kheap h' = k'" "minors h' = minors h" "h_bytes h' = h_bytes h"
    "l_memRoot h' = (if l_memRoot h = a then N else l_memRoot h)" "l_bestBet h' = (if l_bestBet h = a then 0 else l_bestBet h)"
    "\<forall>b. b \<noteq> 0 \<longrightarrow> majors h' b = (majors h b)\<lparr>maj_next := if b = P then N else maj_next (majors h b),
      maj_prev := if b = N then P else maj_prev (majors h b)\<rparr>"
  using assms by (cases "P = 0"; cases "N = 0"; cases "l_memRoot h = a"; cases "l_bestBet h = a")
    (auto simp: drop_major_def Let_def set_major_def)

lemma drop_major_ok:
  assumes ok: "heap_ok h (L1 @ (a, ys) # L2)"
    and free: "liballoc_free (h_kheap h) a (maj_pages (majors h a)) = Ok (r, k')" "source_ok k' F"
      "\<And>b. b \<in> addrs (L1 @ L2) \<Longrightarrow> span h b \<inter> F = {}"
  shows "\<exists>h'. drop_major h a = Ok h' \<and> heap_ok h' (L1 @ L2) \<and> minors h' = minors h \<and> h_bytes h' = h_bytes h"
proof -
  let ?L = "L1 @ (a, ys) # L2" and ?pre = "map fst L1" and ?post = "map fst L2"
  note k = ok [unfolded heap_ok_def]
  have f: "map fst ?L = ?pre @ a # ?post" by simp
  have d: "distinct (?pre @ a # ?post)" and s: "seg (\<lambda>a. maj_next (majors h a)) (l_memRoot h) (?pre @ a # ?post) 0"
    and p: "prevs (\<lambda>a. maj_prev (majors h a)) 0 (?pre @ a # ?post)" using k by simp_all
  have z: "0 \<notin> set (?pre @ a # ?post)" using seg_nonzero [OF s] by blast
  note e = unlink_ends [OF d z]
  have N: "maj_next (majors h a) = head_or ?post 0" using s by (auto simp: seg_append dest: seg_head)
  have P: "maj_prev (majors h a) = last_or 0 ?pre" using p by (simp add: prevs_append)
  obtain h' where h': "drop_major h a = Ok h'" "h_kheap h' = k'" "minors h' = minors h" "h_bytes h' = h_bytes h"
    "l_memRoot h' = (if l_memRoot h = a then head_or ?post 0 else l_memRoot h)" "l_bestBet h' = (if l_bestBet h = a then 0 else l_bestBet h)"
    "\<forall>b. b \<noteq> 0 \<longrightarrow> majors h' b = (majors h b)\<lparr>maj_next := if b = last_or 0 ?pre then head_or ?post 0 else maj_next (majors h b),
      maj_prev := if b = head_or ?post 0 then last_or 0 ?pre else maj_prev (majors h b)\<rparr>"
    by (rule drop_major_fields [OF free(1) N P e(3,4)])
  note maj = h'(7) [rule_format]
  have root: "l_memRoot h' = (if ?pre = [] then head_or ?post 0 else l_memRoot h)"
    using seg_head [OF s] d h'(5) by (cases L1) auto
  have nz: "b \<noteq> 0" if "b \<in> set (?pre @ ?post)" for b using that z by auto
  have "seg (\<lambda>a. maj_next (majors h' a)) (l_memRoot h') (?pre @ ?post) 0"
    unfolding root by (rule seg_remove [OF s d]) (simp add: maj nz)
  moreover have "prevs (\<lambda>a. maj_prev (majors h' a)) 0 (?pre @ ?post)"
    by (rule prevs_remove [OF p d z]) (simp add: maj nz)
  moreover have sp: "span h' b = span h b" if "b \<in> addrs (L1 @ L2)" for b
    using maj [OF nz, of b] that by (simp add: span_def addrs_def image_Un)
  have "block_ok h' b zs" if bz: "(b, zs) \<in> set (L1 @ L2)" for b zs
  proof -
    have "block_ok h b zs" using heap_okD(1) [OF ok, of b zs] bz by auto
    moreover have "b \<in> set (?pre @ ?post)" using bz by force
    ultimately show ?thesis using h'(3,4) maj [OF nz, of b] by (simp add: block_ok_def minor_ok_def)
  qed
  then have "\<forall>(b, zs) \<in> set (L1 @ L2). block_ok h' b zs" by blast
  moreover have "l_bestBet h' = 0 \<or> l_bestBet h' \<in> addrs (L1 @ L2)" using k h'(6) by auto
  moreover have "span h' b \<inter> span h' c = {}" if "b \<in> addrs (L1 @ L2)" "c \<in> addrs (L1 @ L2)" "b \<noteq> c" for b c
  proof -
    have "\<forall>a \<in> addrs ?L. \<forall>b \<in> addrs ?L. a \<noteq> b \<longrightarrow> span h a \<inter> span h b = {}" using k by blast
    then show ?thesis using sp that by simp
  qed
  then have "\<forall>b \<in> addrs (L1 @ L2). \<forall>c \<in> addrs (L1 @ L2). b \<noteq> c \<longrightarrow> span h' b \<inter> span h' c = {}" by blast
  moreover have "\<exists>F. source_ok (h_kheap h') F \<and> (\<forall>b \<in> addrs (L1 @ L2). span h' b \<inter> F = {})"
    using free(2,3) h'(2) sp by auto
  moreover have "distinct (?pre @ ?post)" using d by simp
  ultimately have "heap_ok h' (L1 @ L2)" unfolding heap_ok_def map_append by blast
  then show ?thesis using h'(1,3,4) by blast
qed

text \<open>\<^verbatim>\<open>kheap_free\<close> finds the header in front of the pointer.\<close>

lemma kheap_free_minor:
  assumes "heap_ok h L" "(a, ys) \<in> set L" "y \<in> set ys"
  shows "kheap_free h (user_ptr y) = (if maj_first (majors (unlink_minor h y) a) = 0 then drop_major (unlink_minor h y) a
    else Ok (better_bet (unlink_minor h y) a))"
proof -
  note b = heap_okD(1) [OF assms(1,2)]
  note s = block_in_span [OF b assms(3)]
  have m: "minor_ok h a y" using b assms(3) by (simp add: block_ok_def)
  have "UNALIGN (h_bytes h) (user_ptr y) = y + 24" using UNALIGN_user_ptr [OF s(4)] m by (simp add: minor_ok_def)
  moreover have "user_ptr y \<noteq> 0" using user_ptr_bounds(1) [OF s(4)] by (metis add_leE not_numeral_le_zero unat_0)
  ultimately show ?thesis using m by (simp add: kheap_free_def Let_def minor_ok_def)
qed

lemma better_bet_ok:
  assumes "heap_ok h L" "a \<in> addrs L"
  shows "heap_ok (better_bet h a) L" "minors (better_bet h a) = minors h" "h_bytes (better_bet h a) = h_bytes h"
proof -
  have "better_bet h a = h \<or> better_bet h a = h\<lparr>l_bestBet := a\<rparr>" by (simp add: better_bet_def)
  then show "heap_ok (better_bet h a) L" "minors (better_bet h a) = minors h" "h_bytes (better_bet h a) = h_bytes h"
    using assms by (auto simp: heap_ok_def block_ok_def minor_ok_def span_def)
qed

lemma live_without:
  assumes "heap_ok h (L1 @ (a, pre @ y # post) # L2)" "minors h' = minors (unlink_minor h y)" "minor_addrs L' = minor_addrs (L1 @ (a, pre @ post) # L2)"
  shows "live h' L' = live h (L1 @ (a, pre @ y # post) # L2) - {(y, min_req_size (minors h y))}"
proof -
  let ?L = "L1 @ (a, pre @ y # post) # L2"
  have b: "block_ok h a (pre @ y # post)" using heap_okD(1) [OF assms(1), of a] by simp
  note u = unlink_minor_effect [OF b] and i = block_in_span(1) [OF b]
  have out: "y \<notin> minor_addrs L'" using outside_block [OF assms(1), of y] i [of y] block_okD(2) [OF b] assms(3) by auto
  have "min_req_size (minors h' z) = min_req_size (minors h z)" if "z \<in> minor_addrs L'" for z
  proof (cases "z \<in> set (pre @ post)")
    case False
    then have "z \<in> minor_addrs (L1 @ L2)" using that assms(3) by auto
    then have "z \<notin> set (pre @ y # post)" using outside_block [OF assms(1)] i by blast
    then show ?thesis using u(3) assms(2) by simp
  qed (use u(2) assms(2) in simp)
  then have "live h' L' = live h L'" by (auto simp: live_def)
  moreover have "minor_addrs ?L = insert y (minor_addrs L')" using assms(3) by auto
  ultimately show ?thesis using out by (auto simp: live_def)
qed

lemma kheap_free_result:
  assumes ok: "heap_ok h (L1 @ (a, pre @ y # post) # L2)"
    and rel: "pre @ post = [] \<Longrightarrow> releasable (h_kheap h) a (maj_pages (majors h a))"
  shows "kheap_free h (user_ptr y) = Panic ''kheap_free_pages: out of metadata'' \<and> pre @ post = [] \<or>
   (\<exists>h' L'. kheap_free h (user_ptr y) = Ok h' \<and> heap_ok h' L' \<and> minor_addrs L' = minor_addrs (L1 @ (a, pre @ post) # L2) \<and>
    minors h' = minors (unlink_minor h y) \<and> h_bytes h' = h_bytes h)"
proof -
  let ?L = "L1 @ (a, pre @ y # post) # L2" and ?L' = "L1 @ (a, pre @ post) # L2" and ?u = "unlink_minor h y"
  have b: "block_ok h a (pre @ y # post)" using heap_okD(1) [OF ok, of a] by simp
  note u = unlink_minor_ok [OF b] and e = unlink_minor_effect [OF b]
  have ok': "heap_ok ?u ?L'" by (rule heap_ok_block [OF ok u(2,1)])
  have first: "maj_first (majors ?u a) = head_or (pre @ post) 0" using block_okD(4) [OF u(1)] .
  have nz: "head_or (pre @ post) 0 = 0 \<longleftrightarrow> pre @ post = []" using block_okD(3) [OF u(1)] by (cases "pre @ post") auto
  have eq: "kheap_free h (user_ptr y) = (if pre @ post = [] then drop_major ?u a else Ok (better_bet ?u a))"
    using kheap_free_minor [OF ok, of a "pre @ y # post" y] first nz by simp
  show ?thesis
  proof (cases "pre @ post = []")
    case False
    then have "kheap_free h (user_ptr y) = Ok (better_bet ?u a)" using eq by (simp only: if_False)
    then show ?thesis using better_bet_ok [OF ok', of a] e(5)
      by (intro disjI2 exI [of _ "better_bet ?u a"] exI [of _ ?L']) simp
  next
    case True
    obtain F where F: "source_ok (h_kheap h) F" "\<forall>b \<in> addrs ?L. span h b \<inter> F = {}" using ok by (auto simp: heap_ok_def)
    note B = b [unfolded block_ok_def]
    have sp: "span h a = area (unat a, unat (maj_pages (majors h a)))" using B by (auto simp: span_def area_def)
    have "0 < unat (maj_size (majors h a))" using block_in_span(1) [OF b, of y] by (auto simp: span_def)
    then have pz: "maj_pages (majors h a) \<noteq> 0" using B by auto
    have "area (unat a, unat (maj_pages (majors h a))) \<inter> F = {}" using F(2) sp by simp
    with pool.free_run [OF F(1) rel [OF True], rotated 4] B pz consider
      "liballoc_free (h_kheap h) a (maj_pages (majors h a)) = Panic ''kheap_free_pages: out of metadata''"
      | k' where "liballoc_free (h_kheap h) a (maj_pages (majors h a)) = Ok (0, k')"
        "source_ok k' (F \<union> area (unat a, unat (maj_pages (majors h a))))" by auto
    then show ?thesis
    proof cases
      case 1
      then have "drop_major ?u a = Panic ''kheap_free_pages: out of metadata''" using e(1,6)
        by (simp add: drop_major_def Let_def set_major_def)
      then show ?thesis using eq True by simp
    next
      case (2 k')
      have "span ?u b \<inter> (F \<union> area (unat a, unat (maj_pages (majors h a)))) = {}" if "b \<in> addrs (L1 @ L2)" for b
      proof -
        have "b \<noteq> a" using ok that by (auto simp: heap_ok_def addrs_def)
        moreover have "\<forall>b \<in> addrs ?L. \<forall>c \<in> addrs ?L. b \<noteq> c \<longrightarrow> span h b \<inter> span h c = {}" using ok by (simp add: heap_ok_def)
        ultimately have "span h b \<inter> span h a = {}" "span h b \<inter> F = {}" using F(2) that by simp_all
        moreover have "span ?u b = span h b" using \<open>b \<noteq> a\<close> e(1) by (simp add: span_def)
        ultimately show ?thesis unfolding sp [symmetric] by blast
      qed
      then obtain h' where "drop_major ?u a = Ok h'" "heap_ok h' (L1 @ L2)" "minors h' = minors ?u" "h_bytes h' = h_bytes ?u"
        using drop_major_ok [OF ok', of 0 k' "F \<union> area (unat a, unat (maj_pages (majors h a)))"] 2 e(1,6) by auto
      moreover have "minor_addrs (L1 @ L2) = minor_addrs ?L'" using True by simp
      ultimately show ?thesis using eq True e(5) by (intro disjI2 exI [of _ h'] exI [of _ "L1 @ L2"]) simp
    qed
  qed
qed

lemma user_ptr_inj:
  assumes "heap_ok h L" "y \<in> minor_addrs L" "z \<in> minor_addrs L" "user_ptr y = user_ptr z"
  shows "y = z"
  using minors_apart [OF assms(1-3)] minor_bounds(2) [OF assms(1,2)] minor_bounds(2) [OF assms(1,3)] assms(4) by auto

text \<open>C11: \<^verbatim>\<open>kheap_free\<close> of a pointer that stands for memory in use leaves the heap in order. That memory is in use
  no longer, all other memory in use still is, and no byte of the heap's memory changes. When the
  pointer's block is the only one of its major block, the pages of the major block go back to the page source.
  This case asks that they can be released: the frames behind them can be freed, leaving the list of free frames in order,
  and the slot for a new region descriptor is not one in use. There the call may also panic for
  want of memory for descriptors; in all other cases it returns.\<close>

theorem kheap_free_correct:
  assumes "heap_ok h L" "(p, n) \<in> allocations h L"
    "\<forall>a y. (a, [y]) \<in> set L \<and> user_ptr y = p \<longrightarrow> releasable (h_kheap h) a (maj_pages (majors h a))"
  shows "kheap_free h p = Panic ''kheap_free_pages: out of metadata'' \<and> (\<exists>a y. (a, [y]) \<in> set L \<and> user_ptr y = p) \<or>
    (\<exists>h' L'. kheap_free h p = Ok h' \<and> heap_ok h' L' \<and> allocations h' L' = allocations h L - {(p, n)} \<and> h_bytes h' = h_bytes h)"
proof -
  obtain y where y: "p = user_ptr y" "n = unat (min_req_size (minors h y))" "y \<in> minor_addrs L"
    using assms(2) by (auto simp: allocations_def live_def)
  then obtain a ys where "(a, ys) \<in> set L" "y \<in> set ys" using minor_addrsE [OF assms(1)] by blast
  then obtain L1 L2 pre post where L: "L = L1 @ (a, pre @ y # post) # L2" by (metis split_list)
  have only: "(a, [y]) \<in> set L" if "pre @ post = []" using that unfolding L by simp
  then have "releasable (h_kheap h) a (maj_pages (majors h a))" if "pre @ post = []" using assms(3) y(1) that by blast
  from kheap_free_result [OF assms(1) [unfolded L] this] consider
    "kheap_free h p = Panic ''kheap_free_pages: out of metadata''" "pre @ post = []"
    | h' L' where "kheap_free h p = Ok h'" "heap_ok h' L'" "minor_addrs L' = minor_addrs (L1 @ (a, pre @ post) # L2)"
      "minors h' = minors (unlink_minor h y)" "h_bytes h' = h_bytes h" unfolding y(1) by blast
  then show ?thesis
  proof cases
    case 1
    then show ?thesis using only y(1) by blast
  next
    case h': (2 h' L')
    have l: "live h' L' = live h L - {(y, min_req_size (minors h y))}"
      using live_without [OF _ h'(4,3)] assms(1) unfolding L by blast
    have "inj_on (\<lambda>(y, n). (user_ptr y, unat n)) (live h L)"
      using user_ptr_inj [OF assms(1)] by (auto simp: inj_on_def live_def)
    then have "allocations h' L' = allocations h L - {(p, n)}"
      unfolding allocations_def l using y by (subst inj_on_image_set_diff [of _ "live h L"]) (auto simp: live_def)
    then show ?thesis using h'(1,2,5) by blast
  qed
qed

text \<open>C35: Releasing the same pointer twice, while another minor block keeps its major block in place, changes nothing the
  second time but the count of errors: the header is marked dead. (Without another block the pages of the major block,
  and the header with them, are given back by the first release.)\<close>

theorem kheap_double_free:
  assumes "heap_ok h L" "(a, ys) \<in> set L" "y \<in> set ys" "ys \<noteq> [y]"
  shows "\<exists>h'. kheap_free h (user_ptr y) = Ok h' \<and> kheap_free h' (user_ptr y) = Ok (h'\<lparr>l_errorCount := l_errorCount h' + 1\<rparr>)"
proof -
  obtain pre post where ys: "ys = pre @ y # post" using assms(3) by (metis split_list)
  obtain L1 L2 where L: "L = L1 @ (a, pre @ y # post) # L2" using assms(2) ys by (metis split_list)
  have b: "block_ok h a (pre @ y # post)" using heap_okD(1) [OF assms(1,2)] ys by simp
  note s = block_in_span [OF b, of y]
  have "pre @ post \<noteq> []" using assms(4) ys by auto
  then obtain h' where h': "kheap_free h (user_ptr y) = Ok h'" "minors h' = minors (unlink_minor h y)" "h_bytes h' = h_bytes h"
    using kheap_free_result [of h L1 a pre y post L2] assms(1) unfolding L by blast
  have "minor_ok h a y" using b by (simp add: block_ok_def)
  then have "UNALIGN (h_bytes h') (user_ptr y) = y + 24" using UNALIGN_user_ptr s(4) h'(3) by (simp add: minor_ok_def)
  moreover have "user_ptr y \<noteq> 0" using user_ptr_bounds(1) [of y] s(4) by (metis add_leE in_set_conv_decomp not_numeral_le_zero unat_0)
  moreover have "min_magic (minors h' y) = LIBALLOC_DEAD" using unlink_minor_effect(4) [OF b] h'(2) by simp
  ultimately have "kheap_free h' (user_ptr y) = Ok (h'\<lparr>l_errorCount := l_errorCount h' + 1\<rparr>)"
    by (simp add: kheap_free_def bad_magic_def Let_def)
  then show ?thesis using h'(1) by blast
qed

section \<open>Examples\<close>

text \<open>A heap with one major block of one page that holds two minor blocks.\<close>

definition sample_heap :: heap where
  "sample_heap = \<lparr>h_kheap = sample_kheap,
     majors = (\<lambda>_. \<lparr>maj_prev = 0, maj_next = 0, maj_pages = 1, maj_size = 4096, maj_usage = 152, maj_first = 0x8E000018\<rparr>),
     minors = (\<lambda>y. \<lparr>min_prev = if y = 0x8E000018 then 0 else 0x8E000018, min_next = if y = 0x8E000018 then 0x8E000058 else 0,
       min_block = 0x8E000000, min_magic = LIBALLOC_MAGIC, min_size = 40, min_req_size = 8\<rparr>),
     h_bytes = (\<lambda>x. if x = user_ptr 0x8E000018 - 16 then ucast (user_ptr 0x8E000018 - (0x8E000018 + 24))
       else ucast (user_ptr 0x8E000058 - (0x8E000058 + 24))),
     l_memRoot = 0x8E000000, l_bestBet = 0, l_allocated = 4096, l_inuse = 80, l_warningCount = 0, l_errorCount = 0, l_possibleOverruns = 0\<rparr>"

abbreviation sample_blocks :: "(uint \<times> uint list) list" where
  "sample_blocks \<equiv> [(0x8E000000, [0x8E000018, 0x8E000058])]"

lemma sample_heap_ok: "heap_ok sample_heap sample_blocks"
proof -
  have "free_area sample_kheap [0x80400008] = {0x8E001000..<0x8E001000 + 10 * 4096}"
    by (simp add: free_area_def areas_def area_def extent_def sample_kheap_def)
  then have "source_ok sample_kheap {0x8E001000..<0x8E001000 + 10 * 4096}" using sample_kheap_ok by (auto simp: source_ok_def)
  moreover have "span sample_heap 0x8E000000 \<inter> {0x8E001000..<0x8E001000 + 10 * 4096} = {}"
    by (simp add: span_def sample_heap_def)
  ultimately have "\<exists>F. source_ok (h_kheap sample_heap) F \<and> (\<forall>a \<in> addrs sample_blocks. span sample_heap a \<inter> F = {})"
    by (intro exI [of _ "{0x8E001000..<0x8E001000 + 10 * 4096}"]) (simp add: sample_heap_def)
  then show ?thesis by (simp add: heap_ok_def block_ok_def minor_ok_def sample_heap_def user_ptr_def Let_def)
qed

lemma sample_allocations: "allocations sample_heap sample_blocks = {(0x8E000040, 8), (0x8E000080, 8)}"
  by (auto simp: allocations_def live_def sample_heap_def user_ptr_def Let_def)

text \<open>Requests that fit behind the second minor block.\<close>

lemma sample_malloc:
  assumes "sz = 16 \<or> sz = 132" "r + 32 = sz"
  shows "kheap_malloc sample_heap r = Ok (malloc_case4 (sample_heap\<lparr>l_bestBet := 0x8E000000\<rparr>) 0x8E000000 0x8E000058 sz r)"
proof -
  let ?h = "sample_heap\<lparr>l_bestBet := 0x8E000000\<rparr>"
  have w: "r + (ALIGNMENT + ALIGN_INFO) = sz" "sz \<noteq> 0" using assms by auto
  have f: "find_gap ?h 0x8E000000 sz 0x8E000018 = Some 0x8E000058" using assms(1)
    by (auto simp: find_gap.simps [of _ _ _ "0x8E000018"] find_gap.simps [of _ _ _ "0x8E000058"] gap_after_def sample_heap_def)
  have u: "use_block ?h 0x8E000000 sz r = Some (Some (malloc_case4 ?h 0x8E000000 0x8E000058 sz r))"
    using f assms(1) by (auto simp: use_block_def sample_heap_def)
  have n: "note_best sample_heap 0x8E000000 0 = (?h, 3944)" "malloc_case1 ?h 0x8E000000 sz False = Ok (Block 0x8E000000, ?h)"
    using assms(1) by (auto simp: note_best_def malloc_case1_def Let_def sample_heap_def)
  have "malloc_loop sample_heap 0x8E000000 sz r False 0 = Some (Ok (malloc_case4 ?h 0x8E000000 0x8E000058 sz r))"
    by (simp add: malloc_loop.simps [of _ "0x8E000000"] n u)
  then have "malloc_sized sample_heap sz r = Ok (malloc_case4 ?h 0x8E000000 0x8E000058 sz r)"
    by (simp add: malloc_sized_def sample_heap_def)
  then show ?thesis unfolding kheap_malloc_def Let_def w(1) using w(2) by simp
qed

theorem kheap_malloc_correct_witness:
  "\<exists>h' L'. kheap_malloc sample_heap 100 = Ok (0x8E0000C0, h') \<and> heap_ok h' L' \<and>
     allocations h' L' = {(0x8E0000C0, 100), (0x8E000040, 8), (0x8E000080, 8)}"
proof -
  obtain h' where h': "kheap_malloc sample_heap 100 = Ok (0x8E0000C0, h')"
    using sample_malloc [of 132 100] by (simp add: malloc_case4_def hand_out_eq set_major_def set_minor_def Let_def user_ptr_def sample_heap_def)
  have "unat (100 :: uint) = 100" "unat (100 :: uint) + 4176 < 2 ^ 32" by simp_all
  then show ?thesis using kheap_malloc_correct [OF sample_heap_ok, of 100] h' unfolding sample_allocations by auto
qed

text \<open>A heap whose only major block holds one minor block, with the page of the block mapped.\<close>

definition lone_heap :: "kmem \<Rightarrow> heap" where
  "lone_heap m = sample_heap\<lparr>h_kheap := sample_kheap\<lparr>kh_mem := m\<rparr>,
     majors := (\<lambda>_. \<lparr>maj_prev = 0, maj_next = 0, maj_pages = 1, maj_size = 4096, maj_usage = 88, maj_first = 0x8E000018\<rparr>),
     minors := (\<lambda>_. \<lparr>min_prev = 0, min_next = 0, min_block = 0x8E000000, min_magic = LIBALLOC_MAGIC, min_size = 40, min_req_size = 8\<rparr>)\<rparr>"

lemma lone_heap_ok:
  assumes "kheap_ok (sample_kheap\<lparr>kh_mem := m\<rparr>) [0x80400008] ps"
  shows "heap_ok (lone_heap m) [(0x8E000000, [0x8E000018])]"
proof -
  let ?F = "{0x8E001000..<0x8E001000 + 10 * 4096} :: nat set"
  have "free_area (sample_kheap\<lparr>kh_mem := m\<rparr>) [0x80400008] = ?F"
    by (simp add: free_area_def areas_def area_def extent_def sample_kheap_def)
  then have "source_ok (sample_kheap\<lparr>kh_mem := m\<rparr>) ?F" using assms by (auto simp: source_ok_def)
  moreover have "span (lone_heap m) 0x8E000000 \<inter> ?F = {}" by (simp add: span_def lone_heap_def)
  ultimately have "\<exists>F. source_ok (h_kheap (lone_heap m)) F \<and> (\<forall>a \<in> addrs [(0x8E000000, [0x8E000018])]. span (lone_heap m) a \<inter> F = {})"
    by (intro exI [of _ ?F]) (simp add: lone_heap_def)
  then show ?thesis by (simp add: heap_ok_def block_ok_def minor_ok_def lone_heap_def sample_heap_def user_ptr_def Let_def)
qed

theorem kheap_free_correct_witness:
  "(\<exists>h' L'. kheap_free sample_heap 0x8E000040 = Ok h' \<and> heap_ok h' L' \<and> allocations h' L' = {(0x8E000080, 8)}) \<and>
   (\<exists>m h' L'. mapped (kmem_mem m) demo_pd 0x8E000000 \<and> allocations (lone_heap m) [(0x8E000000, [0x8E000018])] = {(0x8E000040, 8)} \<and>
      kheap_free (lone_heap m) 0x8E000040 = Ok h' \<and> heap_ok h' L' \<and> allocations h' L' = {})"
proof
  show "\<exists>h' L'. kheap_free sample_heap 0x8E000040 = Ok h' \<and> heap_ok h' L' \<and> allocations h' L' = {(0x8E000080, 8)}"
    using kheap_free_correct [OF sample_heap_ok, of "0x8E000040" 8] unfolding sample_allocations by auto
  let ?L = "[(0x8E000000 :: uint, [0x8E000018 :: uint])]"
  obtain m where m: "kheap_ok (sample_kheap\<lparr>kh_mem := m\<rparr>) [0x80400008] [sample_page]" "mapped (kmem_mem m) demo_pd 0x8E000000"
    "releasable (sample_kheap\<lparr>kh_mem := m\<rparr>) 0x8E000000 1" "\<And>e. liballoc_free (sample_kheap\<lparr>kh_mem := m\<rparr>) 0x8E000000 1 \<noteq> Panic e"
    using sample_release by blast
  have a: "allocations (lone_heap m) ?L = {(0x8E000040, 8)}" by (simp add: allocations_def live_def lone_heap_def user_ptr_def Let_def)
  have r: "\<forall>b y. (b, [y]) \<in> set ?L \<and> user_ptr y = 0x8E000040 \<longrightarrow> releasable (h_kheap (lone_heap m)) b (maj_pages (majors (lone_heap m) b))"
    using m(3) by (simp add: lone_heap_def)
  have np: "kheap_free (lone_heap m) 0x8E000040 \<noteq> Panic e" for e
  proof -
    have "UNALIGN (h_bytes (lone_heap m)) 0x8E000040 = 0x8E000030"
      by (simp add: UNALIGN_def lone_heap_def sample_heap_def user_ptr_def Let_def)
    then show ?thesis using m(4) by (cases "liballoc_free (sample_kheap\<lparr>kh_mem := m\<rparr>) 0x8E000000 1")
      (auto simp: kheap_free_def unlink_minor_def drop_major_def Let_def lone_heap_def sample_heap_def set_major_def set_minor_def)
  qed
  have "\<exists>h' L'. kheap_free (lone_heap m) 0x8E000040 = Ok h' \<and> heap_ok h' L' \<and> allocations h' L' = {}"
    using kheap_free_correct [OF lone_heap_ok [OF m(1)] _ r, of 8, unfolded a] np by (simp only: singletonI simp_thms Diff_cancel) blast
  then show "\<exists>m h' L'. mapped (kmem_mem m) demo_pd 0x8E000000 \<and> allocations (lone_heap m) ?L = {(0x8E000040, 8)} \<and>
      kheap_free (lone_heap m) 0x8E000040 = Ok h' \<and> heap_ok h' L' \<and> allocations h' L' = {}"
    using m(2) a by blast
qed

theorem kheap_double_free_witness:
  "\<exists>h'. kheap_free sample_heap 0x8E000040 = Ok h' \<and> kheap_free h' 0x8E000040 = Ok (h'\<lparr>l_errorCount := l_errorCount h' + 1\<rparr>)"
  using kheap_double_free [OF sample_heap_ok, of "0x8E000000" "[0x8E000018, 0x8E000058]" "0x8E000018"] by (simp add: user_ptr_def)

text \<open>C39: The size that leaves room for the alignment wraps around: asked for almost four gigabytes, \<^verbatim>\<open>kheap_malloc\<close> hands out
  a pointer into a block of 16 bytes, all of which come before the pointer.\<close>

theorem malloc_size_wraps:
  "\<exists>h'. kheap_malloc sample_heap 0xFFFFFFF0 = Ok (0x8E0000C0, h') \<and> minors h' 0x8E000098 =
     \<lparr>min_prev = 0x8E000058, min_next = 0, min_block = 0x8E000000, min_magic = LIBALLOC_MAGIC, min_size = 16, min_req_size = 0xFFFFFFF0\<rparr> \<and>
     (0x8E000098 :: uint) + 24 + 16 = 0x8E0000C0"
  using sample_malloc [of 16 "0xFFFFFFF0"]
  by (simp add: malloc_case4_def hand_out_eq set_major_def set_minor_def Let_def user_ptr_def sample_heap_def)

end
