(* ===== verification/Pipe.thy ===== *)
theory Pipe
  imports Prelude
begin

text \<open>
  Pipes, \<^verbatim>\<open>pipe.c\<close>: a ring of \<^verbatim>\<open>PIPESIZE\<close> bytes with two free running 32-bit counters. Each call
  is modelled as the critical sections it runs under \<^verbatim>\<open>p->lock\<close>: \<^verbatim>\<open>sleep\<close> gives the lock up, so a
  section ends where the caller goes to sleep, and the next one starts at the head of the inner
  loop when it runs again. The sections of any number of readers and writers interleave in the
  step relation \<open>pipe_step\<close>.
\<close>

section \<open>Definitions\<close>

abbreviation (input) PIPESIZE :: nat where "PIPESIZE \<equiv> 512"

record pipe =
  data :: "uchar list"
  nread :: uint
  nwrite :: uint
  readopen :: bool
  writeopen :: bool

text \<open>The channels processes sleep on, \<^verbatim>\<open>&p->nread\<close> and \<^verbatim>\<open>&p->nwrite\<close>.\<close>

datatype chan = Nread | Nwrite

text \<open>How a critical section ends: the call returns a value, or the caller sleeps on a channel.\<close>

datatype 'r stop = Returns 'r | Sleeps chan

text \<open>The fields \<^verbatim>\<open>pipealloc\<close> sets; the data bytes are what the fresh page holds.\<close>

definition pipe_init :: "uchar list \<Rightarrow> pipe" where
  "pipe_init page = \<lparr>data = page, nread = 0, nwrite = 0, readopen = True, writeopen = True\<rparr>"

text \<open>\<^verbatim>\<open>pipeclose\<close>: the new state, the channel woken, and whether the page is freed.\<close>

definition pipeclose :: "pipe \<Rightarrow> bool \<Rightarrow> pipe \<times> chan \<times> bool" where
  "pipeclose p writable =
     (let (p, ch) = (if writable then (p\<lparr>writeopen := False\<rparr>, Nread)
                     else (p\<lparr>readopen := False\<rparr>, Nwrite))
      in (p, ch, \<not> readopen p \<and> \<not> writeopen p))"

definition pipe_full :: "pipe \<Rightarrow> bool" where
  "pipe_full p \<longleftrightarrow> nwrite p = nread p + of_nat PIPESIZE"

definition pipe_put :: "pipe \<Rightarrow> uchar \<Rightarrow> pipe" where
  "pipe_put p c = p\<lparr>data := (data p)[unat (nwrite p) mod PIPESIZE := c], nwrite := nwrite p + 1\<rparr>"

text \<open>
  The loop of \<^verbatim>\<open>pipewrite\<close> over the bytes still to be written. It stops with the bytes that are
  left, the way it ended, and the channels it woke: the return value is \<open>-1\<close> when the reader is gone
  or the caller was killed while the pipe was full.
\<close>

fun pipewrite :: "pipe \<Rightarrow> bool \<Rightarrow> uchar list \<Rightarrow> pipe \<times> uchar list \<times> bool stop \<times> chan list" where
  "pipewrite p killed [] = (p, [], Returns True, [Nread])"
| "pipewrite p killed (c # cs) =
     (if pipe_full p
      then if \<not> readopen p \<or> killed then (p, c # cs, Returns False, [])
           else (p, c # cs, Sleeps Nwrite, [Nread])
      else pipewrite (pipe_put p c) killed cs)"

text \<open>The copy loop of \<^verbatim>\<open>piperead\<close>.\<close>

fun piperead_copy :: "pipe \<Rightarrow> nat \<Rightarrow> pipe \<times> uchar list" where
  "piperead_copy p 0 = (p, [])"
| "piperead_copy p (Suc n) =
     (if nread p = nwrite p then (p, [])
      else let c = data p ! (unat (nread p) mod PIPESIZE);
               (p', cs) = piperead_copy (p\<lparr>nread := nread p + 1\<rparr>) n
           in (p', c # cs))"

text \<open>\<^verbatim>\<open>piperead\<close>: \<open>None\<close> is the return value \<open>-1\<close>, \<open>Some cs\<close> the bytes read.\<close>

definition piperead :: "pipe \<Rightarrow> bool \<Rightarrow> nat \<Rightarrow> pipe \<times> uchar list option stop \<times> chan list" where
  "piperead p killed n =
     (if nread p = nwrite p \<and> writeopen p
      then if killed then (p, Returns None, []) else (p, Sleeps Nread, [])
      else let (p, cs) = piperead_copy p n in (p, Returns (Some cs), [Nwrite]))"

section \<open>Processes sharing a pipe\<close>

text \<open>
  A process is outside the pipe code, about to run a critical section of \<^verbatim>\<open>pipewrite\<close> or
  \<^verbatim>\<open>piperead\<close>, or asleep in one of them. The ghost fields \<open>sent\<close> and \<open>got\<close> record the bytes that
  entered and left the pipe.
\<close>

datatype pstate = Outside | Writing "uchar list" | Reading nat | WSleep "uchar list" | RSleep nat

record pipe_sys =
  pp :: pipe
  procs :: "nat \<Rightarrow> pstate"
  killed :: "nat \<Rightarrow> bool"
  freed :: bool
  sent :: "uchar list"
  got :: "uchar list"

text \<open>\<^verbatim>\<open>wakeup\<close> makes the processes asleep on the channel runnable.\<close>

fun awaken :: "chan \<Rightarrow> pstate \<Rightarrow> pstate" where
  "awaken Nwrite (WSleep bs) = Writing bs"
| "awaken Nread (RSleep n) = Reading n"
| "awaken ch st = st"

definition awaken_all :: "chan list \<Rightarrow> (nat \<Rightarrow> pstate) \<Rightarrow> nat \<Rightarrow> pstate" where
  "awaken_all chs ps = (\<lambda>i. fold awaken chs (ps i))"

text \<open>
  \<^verbatim>\<open>fileclose\<close> calls \<^verbatim>\<open>pipeclose\<close> when the last reference to an end goes away, so no process is
  inside a call on that end then: a process in a call holds a descriptor for it.
\<close>

fun on_end :: "bool \<Rightarrow> pstate \<Rightarrow> bool" where
  "on_end writable Outside = False"
| "on_end writable (Writing bs) = writable"
| "on_end writable (WSleep bs) = writable"
| "on_end writable (Reading n) = (\<not> writable)"
| "on_end writable (RSleep n) = (\<not> writable)"

inductive pipe_step :: "pipe_sys \<Rightarrow> pipe_sys \<Rightarrow> bool" where
  call_write: "procs s i = Outside \<Longrightarrow> writeopen (pp s) \<Longrightarrow> \<not> freed s \<Longrightarrow>
    pipe_step s (s\<lparr>procs := (procs s)(i := Writing bs)\<rparr>)"
| call_read: "procs s i = Outside \<Longrightarrow> readopen (pp s) \<Longrightarrow> \<not> freed s \<Longrightarrow>
    pipe_step s (s\<lparr>procs := (procs s)(i := Reading n)\<rparr>)"
| run_write: "procs s i = Writing bs \<Longrightarrow> \<not> freed s \<Longrightarrow>
    pipewrite (pp s) (killed s i) bs = (p, rest, st, chs) \<Longrightarrow>
    pipe_step s (s\<lparr>pp := p,
      procs := (awaken_all chs (procs s))(i := case st of Returns _ \<Rightarrow> Outside | Sleeps _ \<Rightarrow> WSleep rest),
      sent := sent s @ take (length bs - length rest) bs\<rparr>)"
| run_read: "procs s i = Reading n \<Longrightarrow> \<not> freed s \<Longrightarrow>
    piperead (pp s) (killed s i) n = (p, st, chs) \<Longrightarrow>
    pipe_step s (s\<lparr>pp := p,
      procs := (awaken_all chs (procs s))(i := case st of Returns _ \<Rightarrow> Outside | Sleeps _ \<Rightarrow> RSleep n),
      got := got s @ (case st of Returns (Some cs) \<Rightarrow> cs | _ \<Rightarrow> [])\<rparr>)"
| close: "\<not> freed s \<Longrightarrow> (\<And>i. \<not> on_end writable (procs s i)) \<Longrightarrow> pipeclose (pp s) writable = (p, ch, fr) \<Longrightarrow>
    pipe_step s (s\<lparr>pp := p, procs := awaken_all [ch] (procs s), freed := fr\<rparr>)"
| kill: "pipe_step s (s\<lparr>killed := (killed s)(i := True),
    procs := (procs s)(i := awaken Nread (awaken Nwrite (procs s i)))\<rparr>)"

definition pipe_start :: "uchar list \<Rightarrow> pipe_sys" where
  "pipe_start page = \<lparr>pp = pipe_init page, procs = (\<lambda>_. Outside), killed = (\<lambda>_. False),
     freed = False, sent = [], got = []\<rparr>"

inductive pipe_reach :: "uchar list \<Rightarrow> pipe_sys \<Rightarrow> bool" for page where
  start: "pipe_reach page (pipe_start page)"
| step: "pipe_reach page s \<Longrightarrow> pipe_step s s' \<Longrightarrow> pipe_reach page s'"

section \<open>The ring as a queue\<close>

text \<open>The bytes between the two counters, oldest first.\<close>

definition contents :: "pipe \<Rightarrow> uchar list" where
  "contents p = map (\<lambda>i. data p ! (unat (nread p + of_nat i) mod 512)) [0..<unat (nwrite p - nread p)]"

definition pipe_wf :: "pipe \<Rightarrow> bool" where
  "pipe_wf p \<longleftrightarrow> length (data p) = 512 \<and> unat (nwrite p - nread p) \<le> 512"

lemma length_contents: "length (contents p) = unat (nwrite p - nread p)"
  by (simp add: contents_def)

lemma contents_Nil: "contents p = [] \<longleftrightarrow> nread p = nwrite p"
  by (auto simp: contents_def unat_eq_zero)

lemma pipe_full_iff: "pipe_full p \<longleftrightarrow> length (contents p) = 512"
  unfolding length_contents
proof -
  have "nwrite p = nread p + 512 \<longleftrightarrow> nwrite p - nread p = 512" by (auto simp: algebra_simps)
  also have "\<dots> \<longleftrightarrow> unat (nwrite p - nread p) = 512" by (simp add: word_unat_eq_iff)
  finally show "pipe_full p \<longleftrightarrow> unat (nwrite p - nread p) = 512" by (simp add: pipe_full_def)
qed

lemma ring_index: "unat (a + of_nat i :: uint) mod 512 = (unat a + i) mod 512"
proof -
  have "unat (a + of_nat i :: uint) = (unat a + i) mod 2 ^ 32"
    by (simp add: unat_word_ariths unsigned_of_nat take_bit_nat_def mod_add_right_eq)
  then show ?thesis by (simp add: mod_mod_cancel)
qed

lemma ring_slots_distinct:
  assumes "i < 512" "j < 512" "(a + i) mod 512 = (a + j) mod 512"
  shows "i = (j :: nat)"
proof -
  have le: "x = y" if "x \<le> y" "y < 512" "(a + x) mod 512 = (a + y) mod 512" for x y
  proof -
    have "512 dvd y - x" using that mod_eq_dvd_iff_nat [of "a + x" "a + y" 512] by simp
    then have "y - x = 0" using that(2) by (metis dvd_imp_le diff_le_self le_less_trans not_gr_zero not_le)
    then show ?thesis using that(1) by simp
  qed
  show ?thesis using le [of i j] le [of j i] assms by (cases "i \<le> j") auto
qed

lemma nwrite_conv: "nwrite p = nread p + of_nat (unat (nwrite p - nread p))"
  by simp

lemma pipe_put_wf: "pipe_wf p \<Longrightarrow> \<not> pipe_full p \<Longrightarrow> pipe_wf (pipe_put p c)"
  and contents_pipe_put:
    "pipe_wf p \<Longrightarrow> \<not> pipe_full p \<Longrightarrow> contents (pipe_put p c) = contents p @ [c]"
proof -
  assume wf: "pipe_wf p" and room: "\<not> pipe_full p"
  define n where "n = unat (nwrite p - nread p)"
  have n: "n < 512" using wf room unfolding pipe_full_iff length_contents by (simp add: pipe_wf_def n_def)
  have next_w: "nwrite p + 1 - nread p = (nwrite p - nread p) + 1" by simp
  have len: "unat (nwrite p + 1 - nread p) = Suc n"
    unfolding next_w using n unat_plus_small [of "nwrite p - nread p" 1] by (simp add: n_def)
  have slot: "unat (nwrite p) mod 512 = (unat (nread p) + n) mod 512"
    using ring_index [of "nread p" n] by (simp add: n_def)
  show "pipe_wf (pipe_put p c)" using wf len n by (simp add: pipe_wf_def pipe_put_def)
  have "(data p)[(unat (nread p) + n) mod 512 := c] ! ((unat (nread p) + i) mod 512) =
      (if i = n then c else data p ! ((unat (nread p) + i) mod 512))" if "i \<le> n" for i
    using that n wf ring_slots_distinct [of i n "unat (nread p)"]
    by (auto simp: nth_list_update pipe_wf_def)
  then show "contents (pipe_put p c) = contents p @ [c]"
    by (auto simp: contents_def pipe_put_def len slot ring_index n_def [symmetric])
qed

lemma piperead_step:
  assumes "pipe_wf p" "nread p \<noteq> nwrite p"
  shows "pipe_wf (p\<lparr>nread := nread p + 1\<rparr>)"
    "contents p = data p ! (unat (nread p) mod 512) # contents (p\<lparr>nread := nread p + 1\<rparr>)"
proof -
  have next_r: "nwrite p - (nread p + 1) = nwrite p - nread p - 1" by (simp add: algebra_simps)
  have "0 < unat (nwrite p - nread p)" using assms(2) by (auto simp: unat_gt_0)
  then have len: "Suc (unat (nwrite p - (nread p + 1))) = unat (nwrite p - nread p)"
    unfolding next_r using assms(2) unat_pred [of "nwrite p - nread p"] by auto
  show "pipe_wf (p\<lparr>nread := nread p + 1\<rparr>)" using assms(1) len by (simp add: pipe_wf_def)
  have "contents p = map (\<lambda>i. data p ! ((unat (nread p) + i) mod 512))
      [0..<Suc (unat (nwrite p - (nread p + 1)))]"
    by (simp add: contents_def len ring_index del: upt_Suc)
  also have "\<dots> = data p ! (unat (nread p) mod 512) #
      map (\<lambda>i. data p ! ((unat (nread p) + Suc i) mod 512)) [0..<unat (nwrite p - (nread p + 1))]"
    by (subst map_upt_Suc) simp
  also have "map (\<lambda>i. data p ! ((unat (nread p) + Suc i) mod 512)) [0..<unat (nwrite p - (nread p + 1))] =
      contents (p\<lparr>nread := nread p + 1\<rparr>)"
    using ring_index [of "nread p" "Suc _"] by (simp add: contents_def algebra_simps)
  finally show "contents p = data p ! (unat (nread p) mod 512) # contents (p\<lparr>nread := nread p + 1\<rparr>)" .
qed

lemma piperead_copy_queue:
  "pipe_wf p \<Longrightarrow> piperead_copy p n = (p', cs) \<Longrightarrow>
     pipe_wf p' \<and> cs = take n (contents p) \<and> contents p' = drop n (contents p) \<and>
     readopen p' = readopen p \<and> writeopen p' = writeopen p"
proof (induction p n arbitrary: p' cs rule: piperead_copy.induct)
  case (2 p n)
  show ?case
  proof (cases "nread p = nwrite p")
    case True
    then show ?thesis using 2 by (auto simp: contents_Nil [THEN iffD2])
  next
    case False
    note step = piperead_step [OF 2(2) False]
    show ?thesis using 2(1) [OF False refl step(1)] 2(3) False step(2)
      by (auto simp: Let_def split: prod.splits)
  qed
qed auto

lemma pipewrite_queue:
  "pipe_wf p \<Longrightarrow> pipewrite p k bs = (p', rest, st, ws) \<Longrightarrow>
     pipe_wf p' \<and> rest = drop (512 - length (contents p)) bs \<and>
     contents p' = contents p @ take (512 - length (contents p)) bs \<and>
     readopen p' = readopen p \<and> writeopen p' = writeopen p"
proof (induction p k bs arbitrary: p' rest st ws rule: pipewrite.induct)
  case (2 p k c cs)
  show ?case
  proof (cases "pipe_full p")
    case True
    then have "length (contents p) = 512" by (simp only: pipe_full_iff)
    then show ?thesis using 2 True by (auto split: if_splits)
  next
    case False
    have lt: "length (contents p) < 512"
      using False 2(2) unfolding pipe_full_iff length_contents by (auto simp: pipe_wf_def)
    note put = pipe_put_wf [OF 2(2) False, of c] contents_pipe_put [OF 2(2) False, of c]
    obtain r where r: "512 - length (contents p) = Suc r" "512 - length (contents (pipe_put p c)) = r"
      using lt put(2) by (cases "512 - length (contents p)") auto
    have "readopen (pipe_put p c) = readopen p" "writeopen (pipe_put p c) = writeopen p"
      by (simp_all add: pipe_put_def)
    then show ?thesis using 2(1) [OF False put(1)] 2(3) False put(2) r by auto
  qed
qed auto

section \<open>Invariants of the shared pipe\<close>

definition fifo_inv :: "pipe_sys \<Rightarrow> bool" where
  "fifo_inv s \<longleftrightarrow> pipe_wf (pp s) \<and> sent s = got s @ contents (pp s)"

definition writers_inv :: "pipe_sys \<Rightarrow> bool" where
  "writers_inv s \<longleftrightarrow> (\<forall>i bs. procs s i = WSleep bs \<longrightarrow> pipe_full (pp s) \<and> readopen (pp s))"

definition readers_inv :: "pipe_sys \<Rightarrow> bool" where
  "readers_inv s \<longleftrightarrow> (\<forall>i. \<not> killed s i) \<longrightarrow>
     (\<forall>i n. procs s i = RSleep n \<longrightarrow> contents (pp s) = [] \<and> writeopen (pp s))"

lemma awaken_WSleep: "awaken ch st = WSleep bs \<Longrightarrow> st = WSleep bs \<and> ch = Nread"
  by (cases "(ch, st)" rule: awaken.cases) auto

lemma awaken_RSleep: "awaken ch st = RSleep n \<Longrightarrow> st = RSleep n \<and> ch = Nwrite"
  by (cases "(ch, st)" rule: awaken.cases) auto

lemma pipewrite_rest: "pipe_wf p \<Longrightarrow> pipewrite p k bs = (p', rest, st, chs) \<Longrightarrow>
    contents p' = contents p @ take (length bs - length rest) bs"
proof -
  assume "pipe_wf p" "pipewrite p k bs = (p', rest, st, chs)"
  then have "rest = drop (512 - length (contents p)) bs"
    "contents p' = contents p @ take (512 - length (contents p)) bs"
    using pipewrite_queue by auto
  then show ?thesis by (cases "512 - length (contents p) \<le> length bs") auto
qed

lemma pipewrite_stop:
  "pipewrite p k bs = (p', rest, st, chs) \<Longrightarrow>
     (st = Returns True \<and> chs = [Nread]) \<or>
     (st = Sleeps Nwrite \<and> chs = [Nread] \<and> pipe_full p' \<and> readopen p') \<or>
     (st = Returns False \<and> chs = [] \<and> pipe_full p' \<and> (\<not> readopen p' \<or> k))"
  by (induction p k bs rule: pipewrite.induct) (auto split: if_splits)

lemma piperead_cases:
  assumes "piperead p k n = (p', st, chs)"
  obtains (killed) "p' = p" "st = Returns None" "chs = []" "k"
  | (sleep) "p' = p" "st = Sleeps Nread" "chs = []" "contents p = []" "writeopen p"
  | (copy) cs where "piperead_copy p n = (p', cs)" "st = Returns (Some cs)" "chs = [Nwrite]"
      "\<not> (contents p = [] \<and> writeopen p)"
  using assms by (auto simp: piperead_def contents_Nil split: if_splits prod.splits)

lemma fifo_inv_step: "pipe_step s s' \<Longrightarrow> fifo_inv s \<Longrightarrow> fifo_inv s'"
proof (induction rule: pipe_step.induct)
  case (run_write s i bs p rest st chs)
  then show ?case using pipewrite_rest pipewrite_queue by (fastforce simp: fifo_inv_def)
next
  case (run_read s i n p st chs)
  from run_read(3) show ?case
  proof (cases rule: piperead_cases)
    case (copy cs)
    then show ?thesis using run_read(4) piperead_copy_queue [OF _ copy(1)]
      by (auto simp: fifo_inv_def)
  qed (use run_read(4) in \<open>auto simp: fifo_inv_def\<close>)
next
  case (close s writable p ch fr)
  then show ?case
    by (auto simp: fifo_inv_def pipeclose_def pipe_wf_def contents_def Let_def split: if_splits)
qed (auto simp: fifo_inv_def)

lemma writers_inv_step:
  assumes "pipe_step s s'" "fifo_inv s" "writers_inv s"
  shows "writers_inv s'"
  using assms
proof (induction rule: pipe_step.induct)
  case (run_write s i bs p rest st chs)
  have wf: "pipe_wf (pp s)" using run_write(4) by (simp add: fifo_inv_def)
  have full: "pipe_full p \<and> readopen p" if "procs s j = WSleep cs" for j cs
  proof -
    have "pipe_full (pp s)" "readopen (pp s)" using run_write(5) that by (auto simp: writers_inv_def)
    then show ?thesis using pipewrite_queue [OF wf run_write(3)] by (auto simp: pipe_full_iff)
  qed
  show ?case using pipewrite_stop [OF run_write(3)] full
    by (auto simp: writers_inv_def awaken_all_def dest!: awaken_WSleep split: if_splits stop.splits)
next
  case (run_read s i n p st chs)
  from run_read(3) show ?case
    by (cases rule: piperead_cases)
      (use run_read(5) in \<open>auto simp: writers_inv_def awaken_all_def dest!: awaken_WSleep split: if_splits\<close>)
next
  case (close s writable p ch fr)
  then show ?case
    by (auto simp: writers_inv_def pipeclose_def awaken_all_def Let_def pipe_full_def
        dest!: awaken_WSleep split: if_splits)
qed (auto simp: writers_inv_def dest!: awaken_WSleep split: if_splits)

definition ends_inv :: "pipe_sys \<Rightarrow> bool" where
  "ends_inv s \<longleftrightarrow> (\<forall>i. (\<not> readopen (pp s) \<longrightarrow> \<not> on_end False (procs s i)) \<and>
     (\<not> writeopen (pp s) \<longrightarrow> \<not> on_end True (procs s i)))"

lemma on_end_awaken [simp]: "on_end w (awaken ch st) = on_end w st"
  by (cases "(ch, st)" rule: awaken.cases) auto

lemma on_end_awaken_all [simp]: "on_end w (awaken_all chs ps i) = on_end w (ps i)"
proof -
  have "on_end w (fold awaken chs st) = on_end w st" for st
    by (induction chs arbitrary: st) auto
  then show ?thesis by (simp add: awaken_all_def)
qed

lemma ends_inv_step:
  assumes "pipe_step s s'" "fifo_inv s" "ends_inv s"
  shows "ends_inv s'"
  using assms
proof (induction rule: pipe_step.induct)
  case (run_write s i bs p rest st chs)
  have "readopen p = readopen (pp s) \<and> writeopen p = writeopen (pp s)"
    using pipewrite_queue run_write(3,4) by (auto simp: fifo_inv_def)
  moreover have "writeopen (pp s)" using run_write(1,5) by (metis ends_inv_def on_end.simps(2))
  ultimately show ?case using run_write(5) by (auto simp: ends_inv_def split: stop.splits)
next
  case (run_read s i n p st chs)
  have "readopen p = readopen (pp s) \<and> writeopen p = writeopen (pp s)"
    using run_read(3)
    by (cases rule: piperead_cases) (use run_read(4) piperead_copy_queue in \<open>auto simp: fifo_inv_def\<close>)
  moreover have "readopen (pp s)" using run_read(1,5) by (metis (full_types) ends_inv_def on_end.simps(4))
  ultimately show ?case using run_read(5) by (auto simp: ends_inv_def split: stop.splits)
next
  case (close s writable p ch fr)
  then show ?case by (auto simp: ends_inv_def pipeclose_def Let_def split: if_splits)
qed (auto simp: ends_inv_def)

lemma readers_inv_step:
  assumes "pipe_step s s'" "fifo_inv s" "ends_inv s" "readers_inv s"
  shows "readers_inv s'"
  using assms
proof (induction rule: pipe_step.induct)
  case (run_write s i bs p rest st chs)
  have open_eq: "readopen p = readopen (pp s)"
    using pipewrite_queue run_write(3,4) by (auto simp: fifo_inv_def)
  consider "chs = [Nread]" | "\<not> readopen (pp s)" "st = Returns False" "chs = []" | "killed s i"
    using pipewrite_stop [OF run_write(3)] open_eq by auto
  then show ?case
  proof cases
    case 1
    then show ?thesis
      by (auto simp: readers_inv_def awaken_all_def dest!: awaken_RSleep split: if_splits stop.splits)
  next
    case 2
    then have "\<not> on_end False (procs s j)" for j using run_write(5) by (simp add: ends_inv_def)
    then have "procs s j \<noteq> RSleep n" for j n by (metis on_end.simps(5))
    then show ?thesis using 2 by (auto simp: readers_inv_def awaken_all_def split: if_splits)
  qed (auto simp: readers_inv_def)
next
  case (run_read s i n p st chs)
  have empty: "contents p = []" if "piperead_copy (pp s) n = (p, cs)" "contents (pp s) = []" for cs
    using piperead_copy_queue [OF _ that(1)] that(2) run_read(4) by (simp add: fifo_inv_def)
  have open_eq: "writeopen p = writeopen (pp s)" if "piperead_copy (pp s) n = (p, cs)" for cs
    using piperead_copy_queue [OF _ that] run_read(4) by (simp add: fifo_inv_def)
  from run_read(3) show ?case
  proof (cases rule: piperead_cases)
    case (copy cs)
    then show ?thesis using run_read(6) empty open_eq
      by (fastforce simp: readers_inv_def awaken_all_def dest!: awaken_RSleep split: if_splits)
  qed (use run_read(6) in \<open>auto simp: readers_inv_def awaken_all_def split: if_splits\<close>)
next
  case (close s writable p ch fr)
  then show ?case
    by (auto simp: readers_inv_def pipeclose_def awaken_all_def Let_def contents_def
        dest!: awaken_RSleep split: if_splits)
qed (auto simp: readers_inv_def split: if_splits)

lemma pipe_start_inv:
  "length page = 512 \<Longrightarrow> fifo_inv (pipe_start page) \<and> writers_inv (pipe_start page) \<and>
     ends_inv (pipe_start page) \<and> readers_inv (pipe_start page)"
  by (simp add: pipe_start_def pipe_init_def fifo_inv_def writers_inv_def ends_inv_def
      readers_inv_def pipe_wf_def contents_def)

lemma pipe_reach_inv:
  assumes "pipe_reach page s" "length page = 512"
  shows "fifo_inv s \<and> writers_inv s \<and> ends_inv s \<and> readers_inv s"
  using assms(1)
proof (induction rule: pipe_reach.induct)
  case start
  show ?case using pipe_start_inv [OF assms(2)] .
next
  case (step s s')
  then show ?case
    using fifo_inv_step writers_inv_step ends_inv_step readers_inv_step by blast
qed

section \<open>Properties\<close>

text \<open>C23: Whatever the interleaving of readers, writers, closes and kills, the bytes read so far
  followed by the bytes in the ring are exactly the bytes written so far, in order, and the ring
  never holds more than \<^verbatim>\<open>PIPESIZE\<close> bytes, also after the 32-bit counters have wrapped.\<close>

theorem pipe_is_fifo:
  assumes "pipe_reach page s" "length page = 512"
  shows "sent s = got s @ contents (pp s) \<and> length (contents (pp s)) \<le> 512"
  using pipe_reach_inv [OF assms] by (auto simp: fifo_inv_def pipe_wf_def length_contents)

text \<open>C24: No wakeup is lost as long as no process is killed: a writer is asleep only while the ring is
  full and the read end open, and a reader only while the ring is empty and the write end open.\<close>

theorem pipe_no_lost_wakeup:
  assumes "pipe_reach page s" "length page = 512" "\<And>i. \<not> killed s i"
  shows "(procs s i = WSleep bs \<longrightarrow> pipe_full (pp s) \<and> readopen (pp s)) \<and>
    (procs s i = RSleep n \<longrightarrow> contents (pp s) = [] \<and> writeopen (pp s))"
  using pipe_reach_inv [OF assms(1,2)] assms(3) by (auto simp: writers_inv_def readers_inv_def)

text \<open>A run in which process 0 sleeps in \<^verbatim>\<open>piperead\<close> on the empty pipe.\<close>

lemma reader_asleep_reachable:
  "pipe_reach page ((pipe_start page)\<lparr>procs := (\<lambda>_. Outside)(0 := RSleep n)\<rparr>)"
proof -
  let ?s = "(pipe_start page)\<lparr>procs := (procs (pipe_start page))(0 := Reading n)\<rparr>"
  let ?t = "?s\<lparr>pp := pp ?s, procs := (awaken_all [] (procs ?s))(0 := RSleep n), got := got ?s @ []\<rparr>"
  have "pipe_reach page ?s"
    by (rule pipe_reach.step [OF pipe_reach.start], rule pipe_step.call_read)
      (simp_all add: pipe_start_def pipe_init_def)
  moreover have "pipe_step ?s ?t"
    using pipe_step.run_read [of ?s 0 n "pp ?s" "Sleeps Nread" "[]"]
    by (simp add: pipe_start_def pipe_init_def piperead_def)
  ultimately have "pipe_reach page ?t" by (rule pipe_reach.step)
  moreover have "?t = (pipe_start page)\<lparr>procs := (\<lambda>_. Outside)(0 := RSleep n)\<rparr>"
    by (auto simp: pipe_start_def awaken_all_def fun_eq_iff)
  ultimately show ?thesis by simp
qed

theorem pipe_no_lost_wakeup_witness:
  "contents (pp ((pipe_start (replicate 512 0))\<lparr>procs := (\<lambda>_. Outside)(0 := RSleep 4)\<rparr>)) = []"
  using pipe_no_lost_wakeup [OF reader_asleep_reachable [of "replicate 512 0" 4], of 0 "[]" 4]
  by (simp add: pipe_start_def)

lemma pipewrite_killed:
  "pipewrite p True bs = (p', rest, st, chs) \<Longrightarrow> rest \<noteq> [] \<Longrightarrow> st = Returns False \<and> chs = []"
  by (induction p True bs rule: pipewrite.induct) (auto split: if_splits)

text \<open>The run goes on: process 1 calls \<^verbatim>\<open>pipewrite\<close> and is killed before its first critical section.\<close>

lemma killed_writer_reachable:
  "pipe_reach page ((pipe_start page)\<lparr>procs := (\<lambda>_. Outside)(0 := RSleep n, 1 := Writing bs), killed := (\<lambda>_. False)(1 := True)\<rparr>)"
proof -
  let ?s1 = "(pipe_start page)\<lparr>procs := (\<lambda>_. Outside)(0 := RSleep n)\<rparr>"
  let ?s2 = "?s1\<lparr>procs := (procs ?s1)(1 := Writing bs)\<rparr>"
  let ?s3 = "?s2\<lparr>killed := (killed ?s2)(1 := True),
    procs := (procs ?s2)(1 := awaken Nread (awaken Nwrite (procs ?s2 1)))\<rparr>"
  have "pipe_reach page ?s2"
    by (rule pipe_reach.step [OF reader_asleep_reachable], rule pipe_step.call_write)
      (simp_all add: pipe_start_def pipe_init_def)
  then have "pipe_reach page ?s3" by (rule pipe_reach.step) (rule pipe_step.kill)
  then show ?thesis by (simp add: pipe_start_def)
qed

text \<open>C36: A killed writer can leave a reader asleep although there is data. With process 0 asleep in \<^verbatim>\<open>piperead\<close> on
  the empty pipe, let process 1 be killed in a call of \<^verbatim>\<open>pipewrite\<close> with more bytes than fit. Its critical section
  fills the pipe and returns \<open>-1\<close> without any \<^verbatim>\<open>wakeup\<close>: the call is over, the pipe is full and open for
  writing, and the reader still sleeps.\<close>

theorem pipe_killed_writer_loses_wakeup:
  assumes "length page = 512" "512 < length bs"
  shows "\<exists>s s'. pipe_reach page s \<and> procs s 0 = RSleep n \<and> contents (pp s) = [] \<and> procs s 1 = Writing bs \<and> killed s 1 \<and>
    pipewrite (pp s) (killed s 1) bs = (pp s', drop 512 bs, Returns False, []) \<and> pipe_step s s' \<and>
    procs s' 1 = Outside \<and> procs s' 0 = RSleep n \<and> contents (pp s') = take 512 bs \<and> writeopen (pp s') \<and> sent s' = take 512 bs"
proof -
  let ?s = "(pipe_start page)\<lparr>procs := (\<lambda>_. Outside)(0 := RSleep n, 1 := Writing bs), killed := (\<lambda>_. False)(1 := True)\<rparr>"
  obtain p rest st chs where run: "pipewrite (pp ?s) True bs = (p, rest, st, chs)"
    by (cases "pipewrite (pp ?s) True bs") auto
  have wf: "pipe_wf (pp ?s)" "contents (pp ?s) = []" "writeopen (pp ?s)"
    using assms(1) by (simp_all add: pipe_start_def pipe_init_def pipe_wf_def contents_def)
  have q: "rest = drop 512 bs" "contents p = take 512 bs" "writeopen p" using pipewrite_queue [OF wf(1) run] wf(2,3) by simp_all
  then have st: "st = Returns False" "chs = []" using pipewrite_killed [OF run] assms(2) by simp_all
  let ?s' = "?s\<lparr>pp := p, procs := (awaken_all chs (procs ?s))(1 := case st of Returns _ \<Rightarrow> Outside | Sleeps _ \<Rightarrow> WSleep rest),
      sent := sent ?s @ take (length bs - length rest) bs\<rparr>"
  have "pipe_step ?s ?s'" by (rule pipe_step.run_write) (use run in \<open>simp_all add: pipe_start_def\<close>)
  moreover have "procs ?s' 1 = Outside" "procs ?s' 0 = RSleep n" "sent ?s' = take 512 bs"
    using st q(1) assms(2) by (simp_all add: awaken_all_def pipe_start_def)
  ultimately show ?thesis using killed_writer_reachable [of page n bs] run st q wf(2)
    by (intro exI [of _ ?s] exI [of _ ?s']) simp
qed

theorem pipe_killed_writer_loses_wakeup_witness:
  "\<exists>s s'. pipe_reach (replicate 512 0) s \<and> killed s 1 \<and> pipe_step s s' \<and>
     pipewrite (pp s) True (replicate 513 7) = (pp s', [7], Returns False, []) \<and>
     procs s' 0 = RSleep 4 \<and> contents (pp s') = replicate 512 7 \<and> writeopen (pp s')"
proof -
  have "512 < length (replicate 513 7 :: uchar list)" "drop 512 (replicate 513 7 :: uchar list) = [7]"
    "take 512 (replicate 513 7 :: uchar list) = replicate 512 7" "length (replicate 512 0 :: uchar list) = 512" by simp_all
  then show ?thesis using pipe_killed_writer_loses_wakeup [of "replicate 512 0" "replicate 513 7" 4] by metis
qed

text \<open>The bytes of that run.\<close>

lemma full_pipe_reachable:
  "\<exists>s. pipe_reach (replicate 512 0) s \<and> sent s = replicate 512 7 \<and> length (contents (pp s)) = 512"
proof -
  let ?s = "(pipe_start (replicate 512 0))\<lparr>procs := (\<lambda>_. Outside)(1 := Writing (replicate 512 7))\<rparr>"
  obtain p rest st chs where run: "pipewrite (pp ?s) False (replicate 512 7) = (p, rest, st, chs)"
    by (cases "pipewrite (pp ?s) False (replicate 512 7)") auto
  have wf: "pipe_wf (pp ?s)" "contents (pp ?s) = []" by (simp_all add: pipe_start_def pipe_init_def pipe_wf_def contents_def)
  have q: "rest = []" "contents p = replicate 512 7" using pipewrite_queue [OF wf(1) run] wf(2) by simp_all
  have "pipe_reach (replicate 512 0) ?s"
    using pipe_reach.step [OF pipe_reach.start pipe_step.call_write [of "pipe_start (replicate 512 0)" 1 "replicate 512 7"]]
    by (simp add: pipe_start_def pipe_init_def)
  moreover have "pipe_step ?s (?s\<lparr>pp := p, procs := (awaken_all chs (procs ?s))(1 := case st of Returns _ \<Rightarrow> Outside | Sleeps _ \<Rightarrow> WSleep rest),
      sent := sent ?s @ take (length (replicate 512 (7 :: uchar)) - length rest) (replicate 512 7)\<rparr>)" (is "pipe_step _ ?t")
    by (rule pipe_step.run_write) (use run in \<open>simp_all add: pipe_start_def\<close>)
  ultimately have "pipe_reach (replicate 512 0) ?t" by (rule pipe_reach.step)
  moreover have "sent ?t = replicate 512 7" "length (contents (pp ?t)) = 512" using q by (simp_all add: pipe_start_def)
  ultimately show ?thesis by blast
qed

theorem pipe_is_fifo_witness:
  "\<exists>s. pipe_reach (replicate 512 0) s \<and> sent s = replicate 512 7 \<and> got s @ contents (pp s) = replicate 512 7 \<and> length (contents (pp s)) = 512"
  using full_pipe_reachable pipe_is_fifo [of "replicate 512 0"] by auto

end
