(* ===== verification/Ptable.thy ===== *)
theory Ptable
  imports Prelude
begin

text \<open>
  The process table of \<^verbatim>\<open>proc.c\<close>: the critical sections of \<^verbatim>\<open>ptable.lock\<close> in which processes are created,
  scheduled, put to sleep, woken, killed, exit and are waited for, and their interleaving by the processes that the
  processors run. The parts of \<^verbatim>\<open>fork\<close>, \<^verbatim>\<open>exit\<close> and \<^verbatim>\<open>wait\<close> that work on memory and files are in theory Proc.
\<close>

section \<open>Data\<close>

abbreviation NPROC :: nat where
  "NPROC \<equiv> 64"

abbreviation NCPU :: nat where
  "NCPU \<equiv> 8"

datatype procstate = UNUSED | EMBRYO | SLEEPING | RUNNABLE | RUNNING | ZOMBIE

text \<open>A channel is an address; those of entries of the process table are kept apart from all others.\<close>

datatype wchan = ProcAddr nat | Addr uint

text \<open>
  Pointers to entries of the process table, the file table and the inode cache are indices, null pointers \<open>None\<close>;
  the page directory, the kernel stack, the trap frame and the context are addresses.
\<close>

record proc =
  p_sz :: uint
  p_pgdir :: uint
  p_kstack :: uint
  p_state :: procstate
  p_pid :: int
  p_parent :: "nat option"
  p_tf :: uint
  p_context :: uint
  p_chan :: "wchan option"
  p_killed :: bool
  p_ofile :: "nat \<Rightarrow> nat option"
  p_cwd :: "nat option"
  p_name :: "uchar list"

text \<open>The table with \<^verbatim>\<open>initproc\<close> and \<^verbatim>\<open>nextpid\<close>, and the field \<^verbatim>\<open>proc\<close> of each processor.\<close>

record ptab =
  ptable :: "nat \<Rightarrow> proc"
  initproc :: "nat option"
  nextpid :: int
  cpu_proc :: "nat \<Rightarrow> nat option"

definition set_proc :: "ptab \<Rightarrow> nat \<Rightarrow> (proc \<Rightarrow> proc) \<Rightarrow> ptab" where
  "set_proc t p f = t\<lparr>ptable := (ptable t)(p := f (ptable t p))\<rparr>"

section \<open>Critical sections\<close>

text \<open>The part of \<^verbatim>\<open>allocproc\<close> under the lock. The increment of \<^verbatim>\<open>nextpid\<close> must not overflow.\<close>

definition alloc_slot :: "ptab \<Rightarrow> (nat option \<times> ptab) res" where
  "alloc_slot t = (case find (\<lambda>p. p_state (ptable t p) = UNUSED) [0..<NPROC] of
       None \<Rightarrow> Ok (None, t)
     | Some p \<Rightarrow>
         if nextpid t + 1 < 2 ^ 31
         then Ok (Some p, (set_proc t p (\<lambda>x. x\<lparr>p_state := EMBRYO, p_pid := nextpid t\<rparr>))\<lparr>nextpid := nextpid t + 1\<rparr>)
         else Fault)"

definition wake_one :: "wchan option \<Rightarrow> nat \<Rightarrow> ptab \<Rightarrow> ptab" where
  "wake_one ch p t = (if p_state (ptable t p) = SLEEPING \<and> p_chan (ptable t p) = ch
     then set_proc t p (\<lambda>x. x\<lparr>p_state := RUNNABLE\<rparr>) else t)"

definition wakeup1 :: "ptab \<Rightarrow> wchan option \<Rightarrow> ptab" where
  "wakeup1 t ch = fold (wake_one ch) [0..<NPROC] t"

definition wakeup :: "ptab \<Rightarrow> wchan option \<Rightarrow> ptab" where
  "wakeup t ch = wakeup1 t ch"

text \<open>\<^verbatim>\<open>kill\<close> marks the first entry with the process id, whatever its state.\<close>

definition kill :: "ptab \<Rightarrow> int \<Rightarrow> int \<times> ptab" where
  "kill t pid = (case find (\<lambda>p. p_pid (ptable t p) = pid) [0..<NPROC] of
       None \<Rightarrow> (-1, t)
     | Some p \<Rightarrow>
         let t = set_proc t p (\<lambda>x. x\<lparr>p_killed := True\<rparr>)
         in (0, if p_state (ptable t p) = SLEEPING then set_proc t p (\<lambda>x. x\<lparr>p_state := RUNNABLE\<rparr>) else t))"

text \<open>
  The loop of \<^verbatim>\<open>scheduler\<close> from the table's entry \<open>i\<close> on: processor \<open>c\<close> switches to the first runnable process. At
  the end of the table the lock is released. A process switched to goes on behind the call of \<^verbatim>\<open>sched\<close>, still
  under the lock; if that was in \<^verbatim>\<open>sleep\<close> it clears its channel.
\<close>

definition sleep_leave :: "ptab \<Rightarrow> nat \<Rightarrow> ptab" where
  "sleep_leave t p = set_proc t p (\<lambda>x. x\<lparr>p_chan := None\<rparr>)"

definition scheduler_from :: "ptab \<Rightarrow> nat \<Rightarrow> nat \<Rightarrow> ptab" where
  "scheduler_from t c i = (case find (\<lambda>p. p_state (ptable t p) = RUNNABLE) [i..<NPROC] of
       None \<Rightarrow> t\<lparr>cpu_proc := (cpu_proc t)(c := None)\<rparr>
     | Some p \<Rightarrow>
         let t = t\<lparr>cpu_proc := (cpu_proc t)(c := Some p)\<rparr>;
             t = set_proc t p (\<lambda>x. x\<lparr>p_state := RUNNING\<rparr>)
         in if p_chan (ptable t p) \<noteq> None then sleep_leave t p else t)"

text \<open>\<^verbatim>\<open>sched\<close> gives the processor back to its scheduler, which goes on with the next entry. Its checks of the lock and the interrupt
  flag are about the state of theory Spinlock.\<close>

definition sched :: "ptab \<Rightarrow> nat \<Rightarrow> ptab res" where
  "sched t c = (case cpu_proc t c of
       None \<Rightarrow> Fault
     | Some p \<Rightarrow> if p_state (ptable t p) = RUNNING then Panic ''sched running'' else Ok (scheduler_from t c (Suc p)))"

definition yield :: "ptab \<Rightarrow> nat \<Rightarrow> ptab res" where
  "yield t c = (case cpu_proc t c of
       None \<Rightarrow> Fault
     | Some p \<Rightarrow> sched (set_proc t p (\<lambda>x. x\<lparr>p_state := RUNNABLE\<rparr>)) c)"

definition sleep :: "ptab \<Rightarrow> nat \<Rightarrow> wchan option \<Rightarrow> ptab res" where
  "sleep t c ch = (case cpu_proc t c of
       None \<Rightarrow> Panic ''sleep''
     | Some p \<Rightarrow> sched (set_proc t p (\<lambda>x. x\<lparr>p_chan := ch, p_state := SLEEPING\<rparr>)) c)"

text \<open>The part of \<^verbatim>\<open>exit\<close> under the lock: one entry of the loop that passes children to \<^verbatim>\<open>initproc\<close>, and the section.\<close>

definition abandon :: "nat \<Rightarrow> nat \<Rightarrow> ptab \<Rightarrow> ptab" where
  "abandon cur p t = (if p_parent (ptable t p) = Some cur
     then let t = set_proc t p (\<lambda>x. x\<lparr>p_parent := initproc t\<rparr>)
          in if p_state (ptable t p) = ZOMBIE then wakeup1 t (map_option ProcAddr (initproc t)) else t
     else t)"

definition exit_table :: "ptab \<Rightarrow> nat \<Rightarrow> ptab" where
  "exit_table t cur =
     (let t = wakeup1 t (map_option ProcAddr (p_parent (ptable t cur)));
          t = fold (abandon cur) [0..<NPROC] t
      in set_proc t cur (\<lambda>x. x\<lparr>p_state := ZOMBIE\<rparr>))"

text \<open>One scan of \<^verbatim>\<open>wait\<close>, and what it clears of the entry it reaps.\<close>

datatype scan = Reaps nat | WaitFails | WaitSleeps

fun wait_scan :: "ptab \<Rightarrow> nat \<Rightarrow> bool \<Rightarrow> nat list \<Rightarrow> scan" where
  "wait_scan t cur havekids [] = (if \<not> havekids \<or> p_killed (ptable t cur) then WaitFails else WaitSleeps)"
| "wait_scan t cur havekids (p # ps) =
     (if p_parent (ptable t p) \<noteq> Some cur then wait_scan t cur havekids ps
      else if p_state (ptable t p) = ZOMBIE then Reaps p
      else wait_scan t cur True ps)"

definition reap :: "ptab \<Rightarrow> nat \<Rightarrow> ptab" where
  "reap t p = set_proc t p (\<lambda>x. x\<lparr>p_kstack := 0, p_pid := 0, p_parent := None, p_name := (p_name x)[0 := 0],
     p_killed := False, p_state := UNUSED\<rparr>)"

section \<open>Interleaving\<close>

text \<open>
  Where a process stands in its system call: in \<^verbatim>\<open>wait\<close>, or in \<^verbatim>\<open>fork\<close> with the child's entry, filled in or not; all
  other places are \<open>Normal\<close>.
\<close>

datatype place = Normal | InWait | Forking nat bool

record psys =
  tab :: ptab
  place_of :: "nat \<Rightarrow> place"

definition at_place :: "psys \<Rightarrow> ptab \<Rightarrow> nat \<Rightarrow> place \<Rightarrow> psys" where
  "at_place s t p l = s\<lparr>place_of := (place_of s)(p := l), tab := t\<rparr>"

text \<open>What \<^verbatim>\<open>fork\<close> fills in of the child's entry, of the fields that the critical sections read.\<close>

definition fork_fill :: "ptab \<Rightarrow> nat \<Rightarrow> nat \<Rightarrow> ptab" where
  "fork_fill t np cur = set_proc t np (\<lambda>x. x\<lparr>p_sz := p_sz (ptable t cur), p_parent := Some cur\<rparr>)"

text \<open>
  The steps: an idle processor schedules; the process on a processor yields, sleeps, is killed or kills, forks in
  three steps or gives up after the first, exits, or scans the table in \<^verbatim>\<open>wait\<close>; a process or an interrupt wakes a channel.
\<close>

inductive psys_step :: "psys \<Rightarrow> psys \<Rightarrow> bool" where
  pick: "c < NCPU \<Longrightarrow> cpu_proc (tab s) c = None \<Longrightarrow> psys_step s (s\<lparr>tab := scheduler_from (tab s) c 0\<rparr>)"
| yields: "c < NCPU \<Longrightarrow> yield (tab s) c = Ok t \<Longrightarrow> psys_step s (s\<lparr>tab := t\<rparr>)"
| sleeps: "c < NCPU \<Longrightarrow> cpu_proc (tab s) c = Some p \<Longrightarrow> place_of s p = Normal \<Longrightarrow> sleep (tab s) c (Some (Addr a)) = Ok t \<Longrightarrow>
    psys_step s (s\<lparr>tab := t\<rparr>)"
| wakes: "psys_step s (s\<lparr>tab := wakeup (tab s) (Some (Addr a))\<rparr>)"
| kills: "c < NCPU \<Longrightarrow> cpu_proc (tab s) c = Some p \<Longrightarrow> kill (tab s) pid = (r, t) \<Longrightarrow> psys_step s (s\<lparr>tab := t\<rparr>)"
| fork_alloc: "c < NCPU \<Longrightarrow> cpu_proc (tab s) c = Some p \<Longrightarrow> place_of s p = Normal \<Longrightarrow> alloc_slot (tab s) = Ok (Some np, t) \<Longrightarrow>
    psys_step s (at_place s t p (Forking np False))"
| fork_fail: "c < NCPU \<Longrightarrow> cpu_proc (tab s) c = Some p \<Longrightarrow> place_of s p = Forking np False \<Longrightarrow>
    psys_step s (at_place s (set_proc (tab s) np (\<lambda>x. x\<lparr>p_kstack := 0, p_state := UNUSED\<rparr>)) p Normal)"
| fork_filled: "c < NCPU \<Longrightarrow> cpu_proc (tab s) c = Some p \<Longrightarrow> place_of s p = Forking np False \<Longrightarrow>
    psys_step s (at_place s (fork_fill (tab s) np p) p (Forking np True))"
| fork_done: "c < NCPU \<Longrightarrow> cpu_proc (tab s) c = Some p \<Longrightarrow> place_of s p = Forking np True \<Longrightarrow>
    psys_step s (at_place s (set_proc (tab s) np (\<lambda>x. x\<lparr>p_state := RUNNABLE\<rparr>)) p Normal)"
| exits: "c < NCPU \<Longrightarrow> cpu_proc (tab s) c = Some p \<Longrightarrow> place_of s p = Normal \<Longrightarrow> initproc (tab s) \<noteq> Some p \<Longrightarrow>
    sched (exit_table (tab s) p) c = Ok t \<Longrightarrow> psys_step s (s\<lparr>tab := t\<rparr>)"
| wait_reaps: "c < NCPU \<Longrightarrow> cpu_proc (tab s) c = Some p \<Longrightarrow> place_of s p \<in> {Normal, InWait} \<Longrightarrow>
    wait_scan (tab s) p False [0..<NPROC] = Reaps q \<Longrightarrow> psys_step s (at_place s (reap (tab s) q) p Normal)"
| wait_fails: "c < NCPU \<Longrightarrow> cpu_proc (tab s) c = Some p \<Longrightarrow> place_of s p \<in> {Normal, InWait} \<Longrightarrow>
    wait_scan (tab s) p False [0..<NPROC] = WaitFails \<Longrightarrow> psys_step s (at_place s (tab s) p Normal)"
| wait_sleeps: "c < NCPU \<Longrightarrow> cpu_proc (tab s) c = Some p \<Longrightarrow> place_of s p \<in> {Normal, InWait} \<Longrightarrow>
    wait_scan (tab s) p False [0..<NPROC] = WaitSleeps \<Longrightarrow> sleep (tab s) c (Some (ProcAddr p)) = Ok t \<Longrightarrow>
    psys_step s (at_place s t p InWait)"

text \<open>The table after boot, when \<^verbatim>\<open>userinit\<close> has made the first process.\<close>

definition blank_proc :: proc where
  "blank_proc = \<lparr>p_sz = 0, p_pgdir = 0, p_kstack = 0, p_state = UNUSED, p_pid = 0, p_parent = None, p_tf = 0, p_context = 0,
     p_chan = None, p_killed = False, p_ofile = (\<lambda>_. None), p_cwd = None, p_name = replicate 16 0\<rparr>"

definition boot_table :: ptab where
  "boot_table = \<lparr>ptable = (\<lambda>_. blank_proc), initproc = None, nextpid = 1, cpu_proc = (\<lambda>_. None)\<rparr>"

definition psys_start :: psys where
  "psys_start = (case alloc_slot boot_table of
       Ok (Some p, t) \<Rightarrow> \<lparr>tab = (set_proc t p (\<lambda>x. x\<lparr>p_state := RUNNABLE\<rparr>))\<lparr>initproc := Some p\<rparr>, place_of = (\<lambda>_. Normal)\<rparr>
     | _ \<Rightarrow> \<lparr>tab = boot_table, place_of = (\<lambda>_. Normal)\<rparr>)"

inductive psys_reach :: "psys \<Rightarrow> bool" where
  psys_boot: "psys_reach psys_start"
| psys_next: "psys_reach s \<Longrightarrow> psys_step s s' \<Longrightarrow> psys_reach s'"

section \<open>The critical sections entry by entry\<close>

lemma set_proc_simps [simp]:
  "ptable (set_proc t p f) q = (if q = p then f (ptable t p) else ptable t q)"
  "initproc (set_proc t p f) = initproc t" "nextpid (set_proc t p f) = nextpid t" "cpu_proc (set_proc t p f) = cpu_proc t"
  by (simp_all add: set_proc_def)

definition woken :: "wchan option \<Rightarrow> proc \<Rightarrow> proc" where
  "woken ch x = (if p_state x = SLEEPING \<and> p_chan x = ch then x\<lparr>p_state := RUNNABLE\<rparr> else x)"

lemma fold_wake_one:
  "distinct ps \<Longrightarrow> fold (wake_one ch) ps t = t\<lparr>ptable := \<lambda>p. if p \<in> set ps then woken ch (ptable t p) else ptable t p\<rparr>"
proof (induction ps arbitrary: t)
  case (Cons p ps)
  have "wake_one ch p t = t\<lparr>ptable := (ptable t)(p := woken ch (ptable t p))\<rparr>"
    by (simp add: wake_one_def woken_def set_proc_def)
  then show ?case using Cons by (auto simp: fun_eq_iff)
qed simp

lemma wakeup1_simps [simp]:
  "ptable (wakeup1 t ch) p = (if p < NPROC then woken ch (ptable t p) else ptable t p)"
  "initproc (wakeup1 t ch) = initproc t" "nextpid (wakeup1 t ch) = nextpid t" "cpu_proc (wakeup1 t ch) = cpu_proc t"
  by (simp_all add: wakeup1_def fold_wake_one)

lemma woken_simps [simp]:
  "p_parent (woken ch x) = p_parent x" "p_pid (woken ch x) = p_pid x" "p_chan (woken ch x) = p_chan x" "p_killed (woken ch x) = p_killed x"
  "p_state (woken ch x) = (if p_state x = SLEEPING \<and> p_chan x = ch then RUNNABLE else p_state x)"
  by (simp_all add: woken_def)

text \<open>The loop of \<^verbatim>\<open>exit\<close> over the children.\<close>

definition orphaned :: "ptab \<Rightarrow> nat \<Rightarrow> nat list \<Rightarrow> ptab" where
  "orphaned t cur ps = t\<lparr>ptable := \<lambda>p.
     (ptable t p)\<lparr>p_parent := if p \<in> set ps \<and> p_parent (ptable t p) = Some cur then initproc t else p_parent (ptable t p),
       p_state := if p < NPROC \<and> p_state (ptable t p) = SLEEPING \<and> p_chan (ptable t p) = map_option ProcAddr (initproc t) \<and>
           (\<exists>k \<in> set ps. p_parent (ptable t k) = Some cur \<and> p_state (ptable t k) = ZOMBIE)
         then RUNNABLE else p_state (ptable t p)\<rparr>\<rparr>"

lemma abandon_eq: "abandon cur p t = orphaned t cur [p]"
  by (rule ptab.equality) (auto simp: abandon_def orphaned_def Let_def woken_def fun_eq_iff)

lemma orphaned_Cons:
  assumes "initproc t \<noteq> Some cur" "p \<notin> set ps"
  shows "orphaned (orphaned t cur [p]) cur ps = orphaned t cur (p # ps)"
  using assms by (intro ptab.equality) (auto simp: orphaned_def fun_eq_iff)

lemma fold_abandon:
  "distinct ps \<Longrightarrow> initproc t \<noteq> Some cur \<Longrightarrow> fold (abandon cur) ps t = orphaned t cur ps"
proof (induction ps arbitrary: t)
  case Nil
  then show ?case by (intro ptab.equality) (auto simp: orphaned_def)
next
  case (Cons p ps)
  have "initproc (orphaned t cur [p]) = initproc t" by (simp add: orphaned_def)
  then show ?case using Cons by (simp add: abandon_eq orphaned_Cons)
qed

text \<open>The processor that enters the scheduler is idle while it looks for a process.\<close>

definition idle :: "ptab \<Rightarrow> nat \<Rightarrow> ptab" where
  "idle t c = t\<lparr>cpu_proc := (cpu_proc t)(c := None)\<rparr>"

lemma idle_simps [simp]:
  "ptable (idle t c) = ptable t" "initproc (idle t c) = initproc t" "nextpid (idle t c) = nextpid t"
  "cpu_proc (idle t c) d = (if d = c then None else cpu_proc t d)"
  by (simp_all add: idle_def)

lemma scheduler_from_idle: "scheduler_from t c i = scheduler_from (idle t c) c i"
  by (simp add: scheduler_from_def idle_def Let_def sleep_leave_def set_proc_def split: option.split)

lemma scheduler_from_cases:
  assumes "cpu_proc t c = None"
  obtains "scheduler_from t c i = t"
  | p where "p < NPROC" "p_state (ptable t p) = RUNNABLE" "scheduler_from t c i = t\<lparr>cpu_proc := (cpu_proc t)(c := Some p),
      ptable := (ptable t)(p := (ptable t p)\<lparr>p_state := RUNNING, p_chan := None\<rparr>)\<rparr>"
proof (cases "find (\<lambda>p. p_state (ptable t p) = RUNNABLE) [i..<NPROC]")
  case None
  have "(cpu_proc t)(c := None) = cpu_proc t" using assms by auto
  then show ?thesis using None by (intro that(1)) (simp add: scheduler_from_def)
next
  case (Some p)
  then have p: "p_state (ptable t p) = RUNNABLE" "p < NPROC" by (auto simp: find_Some_iff)
  have "scheduler_from t c i = t\<lparr>cpu_proc := (cpu_proc t)(c := Some p),
      ptable := (ptable t)(p := (ptable t p)\<lparr>p_state := RUNNING, p_chan := None\<rparr>)\<rparr>"
    by (rule ptab.equality) (simp_all add: Some scheduler_from_def sleep_leave_def Let_def fun_eq_iff)
  then show ?thesis using p by (intro that(2))
qed

lemma wait_scan_iff:
  "wait_scan t cur b ps = Reaps q \<Longrightarrow> q \<in> set ps \<and> p_parent (ptable t q) = Some cur \<and> p_state (ptable t q) = ZOMBIE"
  "wait_scan t cur b ps = WaitSleeps \<Longrightarrow> \<forall>k \<in> set ps. p_parent (ptable t k) = Some cur \<longrightarrow> p_state (ptable t k) \<noteq> ZOMBIE"
  "k \<in> set ps \<Longrightarrow> p_parent (ptable t k) = Some cur \<Longrightarrow> p_state (ptable t k) = ZOMBIE \<Longrightarrow> \<exists>q. wait_scan t cur b ps = Reaps q"
  by (induction ps arbitrary: b) (auto split: if_splits)

section \<open>Invariant\<close>

definition alive :: "proc \<Rightarrow> bool" where
  "alive x \<longleftrightarrow> p_state x \<in> {SLEEPING, RUNNABLE, RUNNING}"

text \<open>The processors run different processes, exactly those in state \<open>RUNNING\<close>.\<close>

definition run_inv :: "ptab \<Rightarrow> bool" where
  "run_inv t \<longleftrightarrow> (\<forall>c p. cpu_proc t c = Some p \<longrightarrow> c < NCPU \<and> p < NPROC \<and> p_state (ptable t p) = RUNNING) \<and>
     (\<forall>c d p. cpu_proc t c = Some p \<and> cpu_proc t d = Some p \<longrightarrow> c = d) \<and>
     (\<forall>p < NPROC. p_state (ptable t p) = RUNNING \<longrightarrow> (\<exists>c. cpu_proc t c = Some p))"

text \<open>The first process does not end; every other process has a parent, and parents do not end before their children.\<close>

definition tree_inv :: "ptab \<Rightarrow> bool" where
  "tree_inv t \<longleftrightarrow> initproc t \<noteq> None \<and> the (initproc t) < NPROC \<and> alive (ptable t (the (initproc t))) \<and>
     p_parent (ptable t (the (initproc t))) = None \<and>
     (\<forall>p < NPROC. \<forall>q. p_parent (ptable t p) = Some q \<longrightarrow> q < NPROC \<and> q \<noteq> p \<and> alive (ptable t q)) \<and>
     (\<forall>p < NPROC. initproc t \<noteq> Some p \<and> p_state (ptable t p) \<notin> {UNUSED, EMBRYO} \<longrightarrow> p_parent (ptable t p) \<noteq> None) \<and>
     (\<forall>p < NPROC. p_state (ptable t p) = UNUSED \<longrightarrow> p_parent (ptable t p) = None)"

text \<open>Only live processes are in \<^verbatim>\<open>wait\<close> or \<^verbatim>\<open>fork\<close>; those in \<^verbatim>\<open>fork\<close> have a child each that nobody else touches.\<close>

definition place_inv :: "psys \<Rightarrow> bool" where
  "place_inv s \<longleftrightarrow> (\<forall>q. place_of s q \<noteq> Normal \<longrightarrow> q < NPROC \<and> alive (ptable (tab s) q)) \<and>
     (\<forall>q np b. place_of s q = Forking np b \<longrightarrow> np < NPROC \<and> p_state (ptable (tab s) np) = EMBRYO \<and>
        p_parent (ptable (tab s) np) = (if b then Some q else None)) \<and>
     (\<forall>q r np b b'. place_of s q = Forking np b \<and> place_of s r = Forking np b' \<longrightarrow> q = r)"

text \<open>A process asleep on an entry of the table is in \<^verbatim>\<open>wait\<close>, on its own entry, and has no child to reap.\<close>

definition wait_inv :: "psys \<Rightarrow> bool" where
  "wait_inv s \<longleftrightarrow> (\<forall>p < NPROC. \<forall>q. p_state (ptable (tab s) p) = SLEEPING \<and> p_chan (ptable (tab s) p) = Some (ProcAddr q) \<longrightarrow>
     q = p \<and> (\<forall>k < NPROC. p_parent (ptable (tab s) k) = Some p \<longrightarrow> p_state (ptable (tab s) k) \<noteq> ZOMBIE)) \<and>
     (\<forall>p < NPROC. p_state (ptable (tab s) p) = SLEEPING \<and> place_of s p = InWait \<longrightarrow> p_chan (ptable (tab s) p) = Some (ProcAddr p))"

definition pid_inv :: "ptab \<Rightarrow> bool" where
  "pid_inv t \<longleftrightarrow> 0 < nextpid t \<and> (\<forall>p < NPROC. p_state (ptable t p) \<noteq> UNUSED \<longrightarrow> 0 < p_pid (ptable t p) \<and> p_pid (ptable t p) < nextpid t) \<and>
     (\<forall>p < NPROC. \<forall>q < NPROC. p_state (ptable t p) \<noteq> UNUSED \<and> p_state (ptable t q) \<noteq> UNUSED \<and> p_pid (ptable t p) = p_pid (ptable t q) \<longrightarrow> p = q)"

definition psys_inv :: "psys \<Rightarrow> bool" where
  "psys_inv s \<longleftrightarrow> run_inv (tab s) \<and> tree_inv (tab s) \<and> place_inv s \<and> wait_inv s \<and> pid_inv (tab s)"

lemma psys_start_eq: "psys_start = \<lparr>tab = boot_table\<lparr>ptable := (\<lambda>_. blank_proc)(0 := blank_proc\<lparr>p_state := RUNNABLE, p_pid := 1\<rparr>),
    initproc := Some 0, nextpid := 2\<rparr>, place_of = (\<lambda>_. Normal)\<rparr>"
proof -
  have "find (\<lambda>p. p_state (ptable boot_table p) = UNUSED) [0..<NPROC] = Some 0"
    by (subst upt_conv_Cons) (simp_all add: boot_table_def blank_proc_def)
  then show ?thesis by (simp add: psys_start_def alloc_slot_def) (auto simp: boot_table_def set_proc_def fun_eq_iff)
qed

lemma psys_inv_start: "psys_inv psys_start"
proof -
  let ?t = "tab psys_start"
  have t: "ptable ?t p = (if p = 0 then blank_proc\<lparr>p_state := RUNNABLE, p_pid := 1\<rparr> else blank_proc)" "cpu_proc ?t c = None"
    "initproc ?t = Some 0" "nextpid ?t = 2" "place_of psys_start p = Normal" for p c by (simp_all add: psys_start_eq boot_table_def)
  have b: "p_state blank_proc = UNUSED" "p_parent blank_proc = None" "p_chan blank_proc = None" by (simp_all add: blank_proc_def)
  have "run_inv ?t" unfolding run_inv_def t by (auto simp: b)
  moreover have "tree_inv ?t" unfolding tree_inv_def t alive_def by (auto simp: b)
  moreover have "place_inv psys_start" unfolding place_inv_def t by simp
  moreover have "wait_inv psys_start" unfolding wait_inv_def t by (auto simp: b)
  moreover have "pid_inv ?t" unfolding pid_inv_def t by (auto simp: b)
  ultimately show ?thesis by (simp add: psys_inv_def)
qed

text \<open>Changes among the states of live processes keep the tree of processes and their ids.\<close>

definition same_kin :: "ptab \<Rightarrow> ptab \<Rightarrow> bool" where
  "same_kin t t' \<longleftrightarrow> initproc t' = initproc t \<and> nextpid t' = nextpid t \<and>
     (\<forall>p. p_parent (ptable t' p) = p_parent (ptable t p) \<and> p_pid (ptable t' p) = p_pid (ptable t p) \<and>
       (p_state (ptable t' p) = p_state (ptable t p) \<or> alive (ptable t p) \<and> alive (ptable t' p)))"

lemma same_kin_state:
  assumes "same_kin t t'"
  shows "p_parent (ptable t' p) = p_parent (ptable t p)" "p_pid (ptable t' p) = p_pid (ptable t p)" "alive (ptable t' p) = alive (ptable t p)"
    "p_state (ptable t' p) = UNUSED \<longleftrightarrow> p_state (ptable t p) = UNUSED" "p_state (ptable t' p) = EMBRYO \<longleftrightarrow> p_state (ptable t p) = EMBRYO"
    "p_state (ptable t' p) = ZOMBIE \<longleftrightarrow> p_state (ptable t p) = ZOMBIE" "initproc t' = initproc t" "nextpid t' = nextpid t"
proof -
  have s: "p_state (ptable t' p) = p_state (ptable t p) \<or> alive (ptable t p) \<and> alive (ptable t' p)"
    and "p_parent (ptable t' p) = p_parent (ptable t p)" "p_pid (ptable t' p) = p_pid (ptable t p)" "initproc t' = initproc t" "nextpid t' = nextpid t"
    using assms unfolding same_kin_def by blast+
  then show "p_parent (ptable t' p) = p_parent (ptable t p)" "p_pid (ptable t' p) = p_pid (ptable t p)" "initproc t' = initproc t" "nextpid t' = nextpid t"
    by blast+
  show "alive (ptable t' p) = alive (ptable t p)" "p_state (ptable t' p) = UNUSED \<longleftrightarrow> p_state (ptable t p) = UNUSED"
    "p_state (ptable t' p) = EMBRYO \<longleftrightarrow> p_state (ptable t p) = EMBRYO" "p_state (ptable t' p) = ZOMBIE \<longleftrightarrow> p_state (ptable t p) = ZOMBIE"
    using s by (auto simp: alive_def)
qed

lemma same_kin_inv:
  assumes "same_kin (tab s) (tab s')" "place_of s' = place_of s"
  shows "tree_inv (tab s') = tree_inv (tab s)" "place_inv s' = place_inv s" "pid_inv (tab s') = pid_inv (tab s)"
  using same_kin_state [OF assms(1)] assms(2) by (simp_all add: tree_inv_def place_inv_def pid_inv_def)

lemma same_kin_pick:
  assumes "cpu_proc t c = None"
  shows "same_kin t (scheduler_from t c i)"
  using assms
  by (cases rule: scheduler_from_cases [where i = i]) (auto simp: same_kin_def alive_def)

lemma same_kin_set: "alive (ptable t p) \<Longrightarrow> alive (f (ptable t p)) \<Longrightarrow> p_parent (f (ptable t p)) = p_parent (ptable t p) \<Longrightarrow>
    p_pid (f (ptable t p)) = p_pid (ptable t p) \<Longrightarrow> same_kin t (set_proc t p f)"
  by (simp add: same_kin_def)

lemma same_kin_idle: "same_kin t (idle t' c) = same_kin t t'"
  by (simp add: same_kin_def)

lemma same_kin_wakeup: "same_kin t (wakeup1 t ch)"
  by (simp add: same_kin_def alive_def)

text \<open>The other two parts under a change of one process.\<close>

lemma run_invD:
  assumes "run_inv t"
  shows "cpu_proc t c = Some p \<Longrightarrow> c < NCPU" "cpu_proc t c = Some p \<Longrightarrow> p < NPROC" "cpu_proc t c = Some p \<Longrightarrow> p_state (ptable t p) = RUNNING"
    "cpu_proc t c = Some p \<Longrightarrow> cpu_proc t d = Some p \<Longrightarrow> c = d" "p < NPROC \<Longrightarrow> p_state (ptable t p) = RUNNING \<Longrightarrow> \<exists>c. cpu_proc t c = Some p"
  using assms unfolding run_inv_def by simp_all

lemma run_invI:
  assumes "\<And>c p. cpu_proc t c = Some p \<Longrightarrow> c < NCPU \<and> p < NPROC \<and> p_state (ptable t p) = RUNNING"
    "\<And>c d p. cpu_proc t c = Some p \<Longrightarrow> cpu_proc t d = Some p \<Longrightarrow> c = d"
    "\<And>p. p < NPROC \<Longrightarrow> p_state (ptable t p) = RUNNING \<Longrightarrow> \<exists>c. cpu_proc t c = Some p"
  shows "run_inv t"
  using assms unfolding run_inv_def by simp

lemma run_inv_same:
  assumes "run_inv t" "cpu_proc t' = cpu_proc t" "\<And>p. p_state (ptable t' p) = RUNNING \<longleftrightarrow> p_state (ptable t p) = RUNNING"
  shows "run_inv t'"
  using assms by (simp add: run_inv_def)

lemma run_inv_leave:
  assumes "run_inv t" "cpu_proc t c = Some p" "p_state (ptable t' p) \<noteq> RUNNING" "cpu_proc t' = cpu_proc t"
    "\<And>q. q \<noteq> p \<Longrightarrow> p_state (ptable t' q) = RUNNING \<longleftrightarrow> p_state (ptable t q) = RUNNING"
  shows "run_inv (idle t' c)"
proof (rule run_invI)
  note r = run_invD [OF assms(1)]
  have ne: "q \<noteq> p" if "cpu_proc t d = Some q" "d \<noteq> c" for d q using r(4) [OF assms(2), of d] that by auto
  fix d q assume "cpu_proc (idle t' c) d = Some q"
  then have d: "cpu_proc t d = Some q" "d \<noteq> c" using assms(4) by (simp_all split: if_splits)
  then show "d < NCPU \<and> q < NPROC \<and> p_state (ptable (idle t' c) q) = RUNNING" using r(1-3) ne assms(5) by simp
  show "d = e" if "cpu_proc (idle t' c) e = Some q" for e using r(4) [OF d(1), of e] that assms(4) by (simp split: if_splits)
next
  fix q assume q: "q < NPROC" "p_state (ptable (idle t' c) q) = RUNNING"
  then have "q \<noteq> p" using assms(3) by auto
  then obtain d where "cpu_proc t d = Some q" using run_invD(5) [OF assms(1) q(1)] q(2) assms(5) by auto
  then show "\<exists>d. cpu_proc (idle t' c) d = Some q" using assms(2,4) \<open>q \<noteq> p\<close> by (intro exI [of _ d]) auto
qed

lemma run_inv_pick:
  assumes "run_inv t" "cpu_proc t c = None" "c < NCPU"
  shows "run_inv (scheduler_from t c i)"
  using assms(2)
proof (cases rule: scheduler_from_cases [where i = i])
  case 1
  then show ?thesis using assms(1) by simp
next
  case (2 p)
  note r = run_invD [OF assms(1)]
  have np: "cpu_proc t d \<noteq> Some p" for d using r(3) [of d p] 2(2) by auto
  show ?thesis unfolding 2(3)
  proof (rule run_invI, goal_cases)
    case (1 d q)
    then show ?case using r(1-3) [of d q] np assms(3) 2(1) by (auto split: if_splits)
  next
    case (2 d e q)
    then show ?case using r(4) [of d q e] np by (auto split: if_splits)
  next
    case (3 q)
    then show ?case
    proof (cases "q = p")
      case False
      then obtain d where "cpu_proc t d = Some q" using r(5) [of q] 3 by auto
      then show ?thesis using assms(2) by (intro exI [of _ d]) auto
    qed auto
  qed
qed

lemma wait_invD:
  assumes "wait_inv s" "p < NPROC" "p_state (ptable (tab s) p) = SLEEPING"
  shows "p_chan (ptable (tab s) p) = Some (ProcAddr q) \<Longrightarrow> q = p"
    "p_chan (ptable (tab s) p) = Some (ProcAddr q) \<Longrightarrow> k < NPROC \<Longrightarrow> p_parent (ptable (tab s) k) = Some p \<Longrightarrow> p_state (ptable (tab s) k) \<noteq> ZOMBIE"
    "place_of s p = InWait \<Longrightarrow> p_chan (ptable (tab s) p) = Some (ProcAddr p)"
  using assms unfolding wait_inv_def by blast+

lemma wait_invI:
  assumes "\<And>p q. p < NPROC \<Longrightarrow> p_state (ptable (tab s) p) = SLEEPING \<Longrightarrow> p_chan (ptable (tab s) p) = Some (ProcAddr q) \<Longrightarrow> q = p"
    "\<And>p k. p < NPROC \<Longrightarrow> p_state (ptable (tab s) p) = SLEEPING \<Longrightarrow> p_chan (ptable (tab s) p) = Some (ProcAddr p) \<Longrightarrow> k < NPROC \<Longrightarrow>
      p_parent (ptable (tab s) k) = Some p \<Longrightarrow> p_state (ptable (tab s) k) \<noteq> ZOMBIE"
    "\<And>p. p < NPROC \<Longrightarrow> p_state (ptable (tab s) p) = SLEEPING \<Longrightarrow> place_of s p = InWait \<Longrightarrow> p_chan (ptable (tab s) p) = Some (ProcAddr p)"
  shows "wait_inv s"
  using assms unfolding wait_inv_def by metis

lemma wait_inv_mono:
  assumes "wait_inv s"
    "\<And>p. p_state (ptable (tab s') p) = SLEEPING \<Longrightarrow> p_state (ptable (tab s) p) = SLEEPING \<and> p_chan (ptable (tab s') p) = p_chan (ptable (tab s) p) \<and>
      (place_of s' p = InWait \<longrightarrow> place_of s p = InWait)"
    "\<And>p k. k < NPROC \<Longrightarrow> p < NPROC \<Longrightarrow> p_state (ptable (tab s') p) = SLEEPING \<Longrightarrow> p_chan (ptable (tab s') p) = Some (ProcAddr p) \<Longrightarrow>
      p_parent (ptable (tab s') k) = Some p \<Longrightarrow> p_state (ptable (tab s') k) = ZOMBIE \<Longrightarrow>
      p_parent (ptable (tab s) k) = Some p \<and> p_state (ptable (tab s) k) = ZOMBIE"
  shows "wait_inv s'"
  using assms unfolding wait_inv_def by metis

lemma psys_inv_same_kin:
  assumes "psys_inv s" "same_kin (tab s) t" "run_inv t" "wait_inv (s\<lparr>tab := t\<rparr>)"
  shows "psys_inv (s\<lparr>tab := t\<rparr>)"
  using assms(1,3,4) same_kin_inv [of s "s\<lparr>tab := t\<rparr>"] assms(2) by (simp add: psys_inv_def)

lemma psys_inv_pick:
  assumes "psys_inv s" "c < NCPU" "cpu_proc (tab s) c = None"
  shows "psys_inv (s\<lparr>tab := scheduler_from (tab s) c i\<rparr>)"
proof (rule psys_inv_same_kin [OF assms(1) same_kin_pick [OF assms(3)]])
  have i: "run_inv (tab s)" "wait_inv s" using assms(1) by (simp_all add: psys_inv_def)
  show "run_inv (scheduler_from (tab s) c i)" using run_inv_pick [OF i(1) assms(3,2)] .
  show "wait_inv (s\<lparr>tab := scheduler_from (tab s) c i\<rparr>)"
    using assms(3)
  proof (cases rule: scheduler_from_cases [where i = i])
    case 1
    then show ?thesis using i(2) by simp
  next
    case (2 p)
    show ?thesis unfolding 2(3) by (rule wait_inv_mono [OF i(2)]) (use 2(2) in \<open>auto split: if_splits\<close>)
  qed
qed

text \<open>A process that gives up its processor: what remains to show is about the table with the processor idle.\<close>

lemma psys_inv_sched:
  assumes "psys_inv (s\<lparr>tab := idle t c\<rparr>)" "c < NCPU" "sched t c = Ok t'"
  shows "psys_inv (s\<lparr>tab := t'\<rparr>)"
proof -
  obtain i where "t' = scheduler_from t c i" using assms(3) by (auto simp: sched_def split: option.splits if_splits)
  then have "t' = scheduler_from (idle t c) c i" using scheduler_from_idle by simp
  then show ?thesis using psys_inv_pick [OF assms(1,2)] by simp
qed

lemma psys_inv_running:
  assumes "psys_inv s" "cpu_proc (tab s) c = Some p"
  shows "p < NPROC" "p_state (ptable (tab s) p) = RUNNING" "alive (ptable (tab s) p)"
  using assms run_invD [of "tab s"] by (auto simp: psys_inv_def alive_def)

lemma psys_inv_yield:
  assumes "psys_inv s" "c < NCPU" "yield (tab s) c = Ok t"
  shows "psys_inv (s\<lparr>tab := t\<rparr>)"
proof -
  obtain p where p: "cpu_proc (tab s) c = Some p" "sched (set_proc (tab s) p (\<lambda>x. x\<lparr>p_state := RUNNABLE\<rparr>)) c = Ok t"
    using assms(3) by (auto simp: yield_def split: option.splits)
  let ?t = "set_proc (tab s) p (\<lambda>x. x\<lparr>p_state := RUNNABLE\<rparr>)"
  have i: "run_inv (tab s)" "wait_inv s" using assms(1) by (simp_all add: psys_inv_def)
  note r = psys_inv_running [OF assms(1) p(1)]
  have "psys_inv (s\<lparr>tab := idle ?t c\<rparr>)"
  proof (rule psys_inv_same_kin [OF assms(1)])
    show "same_kin (tab s) (idle ?t c)" using r(3) by (auto simp: same_kin_idle alive_def intro: same_kin_set)
    show "run_inv (idle ?t c)" by (rule run_inv_leave [OF i(1) p(1)]) simp_all
    show "wait_inv (s\<lparr>tab := idle ?t c\<rparr>)" by (rule wait_inv_mono [OF i(2)]) (auto split: if_splits)
  qed
  then show ?thesis using psys_inv_sched assms(2) p(2) by blast
qed

lemma sleep_kin:
  fixes ch
  assumes "psys_inv s" "cpu_proc (tab s) c = Some p"
  defines "t \<equiv> set_proc (tab s) p (\<lambda>x. x\<lparr>p_chan := ch, p_state := SLEEPING\<rparr>)"
  shows "same_kin (tab s) (idle t c)" "run_inv (idle t c)"
proof -
  note r = psys_inv_running [OF assms(1,2)]
  show "same_kin (tab s) (idle t c)" using r(3) unfolding t_def by (auto simp: same_kin_idle alive_def intro: same_kin_set)
  show "run_inv (idle t c)" unfolding t_def by (rule run_inv_leave [OF _ assms(2)]) (use assms(1) in \<open>simp_all add: psys_inv_def\<close>)
qed

lemma psys_inv_sleep:
  assumes "psys_inv s" "c < NCPU" "cpu_proc (tab s) c = Some p" "place_of s p = Normal" "sleep (tab s) c (Some (Addr a)) = Ok t"
  shows "psys_inv (s\<lparr>tab := t\<rparr>)"
proof -
  let ?t = "set_proc (tab s) p (\<lambda>x. x\<lparr>p_chan := Some (Addr a), p_state := SLEEPING\<rparr>)"
  have w: "wait_inv s" using assms(1) by (simp add: psys_inv_def)
  have "wait_inv (s\<lparr>tab := idle ?t c\<rparr>)"
    by (rule wait_invI) (use wait_invD [OF w] assms(4) in \<open>auto split: if_splits\<close>)
  then have "psys_inv (s\<lparr>tab := idle ?t c\<rparr>)" using psys_inv_same_kin [OF assms(1) sleep_kin [OF assms(1,3)]] by blast
  then show ?thesis using psys_inv_sched assms(2,3,5) by (simp add: sleep_def)
qed

lemma psys_inv_wait_sleeps:
  assumes "psys_inv s" "c < NCPU" "cpu_proc (tab s) c = Some p" "place_of s p \<in> {Normal, InWait}"
    "wait_scan (tab s) p False [0..<NPROC] = WaitSleeps" "sleep (tab s) c (Some (ProcAddr p)) = Ok t"
  shows "psys_inv (at_place s t p InWait)"
proof -
  let ?t = "set_proc (tab s) p (\<lambda>x. x\<lparr>p_chan := Some (ProcAddr p), p_state := SLEEPING\<rparr>)" and ?s = "at_place s (tab s) p InWait"
  have w: "wait_inv s" "place_inv s" using assms(1) by (simp_all add: psys_inv_def)
  note k = wait_scan_iff(2) [OF assms(5)] and r = psys_inv_running [OF assms(1,3)]
  have pl: "place_inv (s\<lparr>tab := idle ?t c\<rparr>)" using same_kin_inv(2) [of s "s\<lparr>tab := idle ?t c\<rparr>"] sleep_kin(1) [OF assms(1,3)] w(2) by simp
  have "place_inv (?s\<lparr>tab := idle ?t c\<rparr>)"
    using pl r(1) assms(4) by (auto simp: place_inv_def at_place_def alive_def split: if_splits)
  moreover have "wait_inv (?s\<lparr>tab := idle ?t c\<rparr>)"
    by (rule wait_invI) (use wait_invD [OF w(1)] k in \<open>auto simp: at_place_def split: if_splits\<close>)
  moreover have "run_inv (idle ?t c)" "tree_inv (idle ?t c)" "pid_inv (idle ?t c)"
    using same_kin_inv [of s "s\<lparr>tab := idle ?t c\<rparr>"] sleep_kin [OF assms(1,3)] assms(1) by (simp_all add: psys_inv_def)
  ultimately have "psys_inv (?s\<lparr>tab := idle ?t c\<rparr>)" by (simp add: psys_inv_def)
  moreover have "sched ?t c = Ok t" using assms(3,6) by (simp add: sleep_def)
  ultimately have "psys_inv (?s\<lparr>tab := t\<rparr>)" using psys_inv_sched assms(2) by blast
  then show ?thesis by (simp add: at_place_def)
qed

lemma psys_inv_wakeup: "psys_inv s \<Longrightarrow> psys_inv (s\<lparr>tab := wakeup (tab s) ch\<rparr>)"
  unfolding wakeup_def
proof (rule psys_inv_same_kin [OF _ same_kin_wakeup])
  assume "psys_inv s"
  then have i: "run_inv (tab s)" "wait_inv s" by (simp_all add: psys_inv_def)
  show "run_inv (wakeup1 (tab s) ch)" by (rule run_inv_same [OF i(1)]) (simp_all add: fun_eq_iff)
  show "wait_inv (s\<lparr>tab := wakeup1 (tab s) ch\<rparr>)" by (rule wait_inv_mono [OF i(2)]) (auto split: if_splits)
qed

lemma psys_inv_kill:
  assumes "psys_inv s" "kill (tab s) pid = (r, t)"
  shows "psys_inv (s\<lparr>tab := t\<rparr>)"
proof (cases "find (\<lambda>p. p_pid (ptable (tab s) p) = pid) [0..<NPROC]")
  case None
  then show ?thesis using assms by (auto simp: kill_def)
next
  case (Some p)
  then have t: "t = set_proc (tab s) p (\<lambda>x. x\<lparr>p_killed := True, p_state := if p_state x = SLEEPING then RUNNABLE else p_state x\<rparr>)"
    using assms(2) by (auto simp: kill_def Let_def set_proc_def)
  have i: "run_inv (tab s)" "wait_inv s" using assms(1) by (simp_all add: psys_inv_def)
  show ?thesis
  proof (rule psys_inv_same_kin [OF assms(1)])
    show "same_kin (tab s) t" by (simp add: t same_kin_def alive_def)
    show "run_inv t" by (rule run_inv_same [OF i(1)]) (simp_all add: t)
    show "wait_inv (s\<lparr>tab := t\<rparr>)" by (rule wait_inv_mono [OF i(2)]) (auto simp: t split: if_splits)
  qed
qed

lemma tree_invD:
  assumes "tree_inv t"
  shows "initproc t = Some (the (initproc t))" "the (initproc t) < NPROC" "alive (ptable t (the (initproc t)))"
    "p < NPROC \<Longrightarrow> p_parent (ptable t p) = Some q \<Longrightarrow> q < NPROC \<and> q \<noteq> p \<and> alive (ptable t q)"
    "p < NPROC \<Longrightarrow> initproc t \<noteq> Some p \<Longrightarrow> p_state (ptable t p) \<noteq> UNUSED \<Longrightarrow> p_state (ptable t p) \<noteq> EMBRYO \<Longrightarrow> p_parent (ptable t p) \<noteq> None"
    "p < NPROC \<Longrightarrow> p_state (ptable t p) = UNUSED \<Longrightarrow> p_parent (ptable t p) = None" "p_parent (ptable t (the (initproc t))) = None"
proof -
  note u = assms [unfolded tree_inv_def]
  show "initproc t = Some (the (initproc t))" "the (initproc t) < NPROC" "alive (ptable t (the (initproc t)))" "p_parent (ptable t (the (initproc t))) = None"
    using u by auto
  show "p < NPROC \<Longrightarrow> p_parent (ptable t p) = Some q \<Longrightarrow> q < NPROC \<and> q \<noteq> p \<and> alive (ptable t q)"
    "p < NPROC \<Longrightarrow> initproc t \<noteq> Some p \<Longrightarrow> p_state (ptable t p) \<noteq> UNUSED \<Longrightarrow> p_state (ptable t p) \<noteq> EMBRYO \<Longrightarrow> p_parent (ptable t p) \<noteq> None"
    "p < NPROC \<Longrightarrow> p_state (ptable t p) = UNUSED \<Longrightarrow> p_parent (ptable t p) = None" using u by blast+
qed

lemma tree_invI:
  assumes "initproc t = Some i" "i < NPROC" "alive (ptable t i)" "p_parent (ptable t i) = None"
    "\<And>p q. p < NPROC \<Longrightarrow> p_parent (ptable t p) = Some q \<Longrightarrow> q < NPROC \<and> q \<noteq> p \<and> alive (ptable t q)"
    "\<And>p. p < NPROC \<Longrightarrow> initproc t \<noteq> Some p \<Longrightarrow> p_state (ptable t p) \<noteq> UNUSED \<Longrightarrow> p_state (ptable t p) \<noteq> EMBRYO \<Longrightarrow> p_parent (ptable t p) \<noteq> None"
    "\<And>p. p < NPROC \<Longrightarrow> p_state (ptable t p) = UNUSED \<Longrightarrow> p_parent (ptable t p) = None"
  shows "tree_inv t"
proof -
  have "initproc t \<noteq> None" "the (initproc t) < NPROC" "alive (ptable t (the (initproc t)))" "p_parent (ptable t (the (initproc t))) = None"
    using assms(1-4) by simp_all
  then show ?thesis using assms(5-7) unfolding tree_inv_def by blast
qed

lemma tree_inv_set:
  assumes "tree_inv t" "\<And>q. q \<noteq> n \<Longrightarrow> ptable t' q = ptable t q" "initproc t' = initproc t" "alive (ptable t n) \<Longrightarrow> alive (ptable t' n)"
    "\<And>q. p_parent (ptable t' n) = Some q \<Longrightarrow> q < NPROC \<and> q \<noteq> n \<and> initproc t \<noteq> Some n \<and> alive (ptable t q)"
    "p_state (ptable t' n) \<noteq> UNUSED \<Longrightarrow> p_state (ptable t' n) \<noteq> EMBRYO \<Longrightarrow> initproc t \<noteq> Some n \<Longrightarrow> p_parent (ptable t' n) \<noteq> None"
    "p_state (ptable t' n) = UNUSED \<Longrightarrow> p_parent (ptable t' n) = None"
  shows "tree_inv t'"
proof (rule tree_invI)
  note tr = tree_invD [OF assms(1)]
  have al: "alive (ptable t q) \<Longrightarrow> alive (ptable t' q)" for q using assms(2,4) by (cases "q = n") simp_all
  show "initproc t' = Some (the (initproc t))" using tr(1) assms(3) by simp
  show "alive (ptable t' (the (initproc t)))" using al [OF tr(3)] .
  show "p_parent (ptable t' (the (initproc t))) = None"
    using tr(1,7) assms(2) [of "the (initproc t)"] assms(5) by (cases "the (initproc t) = n"; cases "p_parent (ptable t' n)") auto
  fix q assume q: "q < NPROC"
  show "p_parent (ptable t' q) = Some r \<Longrightarrow> r < NPROC \<and> r \<noteq> q \<and> alive (ptable t' r)" for r
    using tr(4) [OF q, of r] al [of r] assms(2) [of q] assms(5) [of r] by (cases "q = n") auto
  show "initproc t' \<noteq> Some q \<Longrightarrow> p_state (ptable t' q) \<noteq> UNUSED \<Longrightarrow> p_state (ptable t' q) \<noteq> EMBRYO \<Longrightarrow> p_parent (ptable t' q) \<noteq> None"
    using tr(5) [OF q] assms(2) [of q] assms(3,6) by (cases "q = n") auto
  show "p_state (ptable t' q) = UNUSED \<Longrightarrow> p_parent (ptable t' q) = None" using tr(6) [OF q] assms(2) [of q] assms(7) by (cases "q = n") auto
qed (rule tree_invD(2) [OF assms(1)])

lemma place_invD:
  assumes "place_inv s"
  shows "place_of s q \<noteq> Normal \<Longrightarrow> q < NPROC \<and> alive (ptable (tab s) q)"
    "place_of s q = Forking np b \<Longrightarrow> np < NPROC" "place_of s q = Forking np b \<Longrightarrow> p_state (ptable (tab s) np) = EMBRYO"
    "place_of s q = Forking np b \<Longrightarrow> p_parent (ptable (tab s) np) = (if b then Some q else None)"
    "place_of s q = Forking np b \<Longrightarrow> place_of s r = Forking np b' \<Longrightarrow> q = r"
  using assms unfolding place_inv_def by blast+

lemma place_invI:
  assumes "\<And>q. place_of s q \<noteq> Normal \<Longrightarrow> q < NPROC \<and> alive (ptable (tab s) q)"
    "\<And>q np b. place_of s q = Forking np b \<Longrightarrow> np < NPROC \<and> p_state (ptable (tab s) np) = EMBRYO \<and>
      p_parent (ptable (tab s) np) = (if b then Some q else None)"
    "\<And>q r np b b'. place_of s q = Forking np b \<Longrightarrow> place_of s r = Forking np b' \<Longrightarrow> q = r"
  shows "place_inv s"
  using assms unfolding place_inv_def by blast

lemma pid_invI:
  assumes "0 < nextpid t" "\<And>p. p < NPROC \<Longrightarrow> p_state (ptable t p) \<noteq> UNUSED \<Longrightarrow> 0 < p_pid (ptable t p) \<and> p_pid (ptable t p) < nextpid t"
    "\<And>p q. p < NPROC \<Longrightarrow> q < NPROC \<Longrightarrow> p_state (ptable t p) \<noteq> UNUSED \<Longrightarrow> p_state (ptable t q) \<noteq> UNUSED \<Longrightarrow>
      p_pid (ptable t p) = p_pid (ptable t q) \<Longrightarrow> p = q"
  shows "pid_inv t"
  using assms unfolding pid_inv_def by blast

lemma pid_invD:
  assumes "pid_inv t"
  shows "0 < nextpid t" "p < NPROC \<Longrightarrow> p_state (ptable t p) \<noteq> UNUSED \<Longrightarrow> 0 < p_pid (ptable t p) \<and> p_pid (ptable t p) < nextpid t"
    "p < NPROC \<Longrightarrow> q < NPROC \<Longrightarrow> p_state (ptable t p) \<noteq> UNUSED \<Longrightarrow> p_state (ptable t q) \<noteq> UNUSED \<Longrightarrow>
      p_pid (ptable t p) = p_pid (ptable t q) \<Longrightarrow> p = q"
  using assms unfolding pid_inv_def by blast+

lemma psys_inv_fork_alloc:
  assumes "psys_inv s" "cpu_proc (tab s) c = Some p" "place_of s p = Normal" "alloc_slot (tab s) = Ok (Some np, t)"
  shows "psys_inv (at_place s t p (Forking np False))"
proof -
  let ?s = "at_place s t p (Forking np False)" and ?T = "ptable (tab s)"
  have np: "np < NPROC" "p_state (?T np) = UNUSED" and t: "t = (set_proc (tab s) np (\<lambda>x. x\<lparr>p_state := EMBRYO, p_pid := nextpid (tab s)\<rparr>))\<lparr>nextpid := nextpid (tab s) + 1\<rparr>"
    using assms(4) by (auto simp: alloc_slot_def find_Some_iff split: option.splits if_splits)
  have i: "run_inv (tab s)" "tree_inv (tab s)" "place_inv s" "wait_inv s" "pid_inv (tab s)" using assms(1) by (simp_all add: psys_inv_def)
  note r = psys_inv_running [OF assms(1,2)]
  have ne: "p \<noteq> np" using r np by auto
  have "run_inv t" by (rule run_inv_same [OF i(1)]) (use np in \<open>auto simp: t\<close>)
  moreover note tr = tree_invD [OF i(2)]
  have na: "\<not> alive (?T np)" "p_parent (?T np) = None" using np tr(6) by (simp_all add: alive_def)
  have "tree_inv t" by (rule tree_inv_set [OF i(2), of np]) (use np na in \<open>simp_all add: t alive_def\<close>)
  moreover have nf: "place_of s q \<noteq> Forking np b" for q b using place_invD(3) [OF i(3), of q np b] np by auto
  have "place_inv ?s"
  proof (rule place_invI)
    fix q assume "place_of ?s q \<noteq> Normal"
    then show "q < NPROC \<and> alive (ptable (tab ?s) q)" using place_invD(1) [OF i(3), of q] r na by (auto simp: at_place_def t split: if_splits)
  next
    fix q n b assume "place_of ?s q = Forking n b"
    then show "n < NPROC \<and> p_state (ptable (tab ?s) n) = EMBRYO \<and> p_parent (ptable (tab ?s) n) = (if b then Some q else None)"
      using place_invD(2-4) [OF i(3), of q n b] np na nf by (auto simp: at_place_def t split: if_splits)
  next
    fix q r n b b' assume "place_of ?s q = Forking n b" "place_of ?s r = Forking n b'"
    then show "q = r" using place_invD(5) [OF i(3), of q n b r b'] nf by (auto simp: at_place_def split: if_splits)
  qed
  moreover have "wait_inv ?s" by (rule wait_inv_mono [OF i(4)]) (auto simp: at_place_def t split: if_splits)
  moreover note pd = pid_invD [OF i(5)]
  have "pid_inv t"
  proof (rule pid_invI)
    fix q r assume a: "q < NPROC" "r < NPROC" "p_state (ptable t q) \<noteq> UNUSED" "p_state (ptable t r) \<noteq> UNUSED" "p_pid (ptable t q) = p_pid (ptable t r)"
    show "q = r"
      using a pd(2) [of q] pd(2) [of r] pd(3) [of q r] by (simp add: t split: if_splits)
  next
    fix q assume "q < NPROC" "p_state (ptable t q) \<noteq> UNUSED"
    then show "0 < p_pid (ptable t q) \<and> p_pid (ptable t q) < nextpid t" using pd(1) pd(2) [of q] by (auto simp: t split: if_splits)
  qed (use pd(1) in \<open>simp add: t\<close>)
  ultimately show ?thesis by (simp add: psys_inv_def at_place_def)
qed

text \<open>The other steps of \<^verbatim>\<open>fork\<close>, and of \<^verbatim>\<open>wait\<close>, change one entry that is not live and not that of a processor's process.\<close>

lemma psys_inv_entry:
  assumes "psys_inv s" "\<And>q. q \<noteq> n \<Longrightarrow> ptable t q = ptable (tab s) q" "initproc t = initproc (tab s)" "nextpid t = nextpid (tab s)"
    "cpu_proc t = cpu_proc (tab s)" "\<not> alive (ptable (tab s) n)" "p_state (ptable t n) \<noteq> RUNNING" "p_state (ptable t n) \<noteq> SLEEPING"
    "p_state (ptable t n) \<noteq> ZOMBIE" "p_state (ptable t n) \<noteq> UNUSED \<Longrightarrow> p_state (ptable (tab s) n) \<noteq> UNUSED \<and> p_pid (ptable t n) = p_pid (ptable (tab s) n)"
    "l \<noteq> InWait" "tree_inv t" "place_inv (at_place s t p l)"
  shows "psys_inv (at_place s t p l)"
proof -
  have i: "run_inv (tab s)" "wait_inv s" "pid_inv (tab s)" using assms(1) by (simp_all add: psys_inv_def)
  have same: "p_state (ptable t q) = st \<Longrightarrow> st \<in> {RUNNING, SLEEPING, ZOMBIE} \<Longrightarrow> ptable t q = ptable (tab s) q" for q st
    using assms(2) [of q] assms(7-9) by (cases "q = n") auto
  have "run_inv t"
  proof (rule run_inv_same [OF i(1) assms(5)])
    show "p_state (ptable t q) = RUNNING \<longleftrightarrow> p_state (ptable (tab s) q) = RUNNING" for q
      using assms(2) [of q] assms(6,7) by (cases "q = n") (auto simp: alive_def)
  qed
  moreover have "wait_inv (at_place s t p l)"
  proof (rule wait_inv_mono [OF i(2)])
    fix q assume "p_state (ptable (tab (at_place s t p l)) q) = SLEEPING"
    then show "p_state (ptable (tab s) q) = SLEEPING \<and> p_chan (ptable (tab (at_place s t p l)) q) = p_chan (ptable (tab s) q) \<and>
        (place_of (at_place s t p l) q = InWait \<longrightarrow> place_of s q = InWait)"
      using same [of q SLEEPING] assms(11) by (simp add: at_place_def)
  next
    fix q k assume "p_parent (ptable (tab (at_place s t p l)) k) = Some q" "p_state (ptable (tab (at_place s t p l)) k) = ZOMBIE"
    then show "p_parent (ptable (tab s) k) = Some q \<and> p_state (ptable (tab s) k) = ZOMBIE"
      using same [of k ZOMBIE] by (simp add: at_place_def)
  qed
  moreover note pd = pid_invD [OF i(3)]
  have "pid_inv t"
  proof (rule pid_invI)
    fix q r assume a: "q < NPROC" "r < NPROC" "p_state (ptable t q) \<noteq> UNUSED" "p_state (ptable t r) \<noteq> UNUSED" "p_pid (ptable t q) = p_pid (ptable t r)"
    have "p_state (ptable (tab s) k) \<noteq> UNUSED \<and> p_pid (ptable t k) = p_pid (ptable (tab s) k)" if "p_state (ptable t k) \<noteq> UNUSED" for k
      using that assms(2,10) by (cases "k = n") auto
    then show "q = r" using pd(3) [OF a(1,2)] a(3-5) by metis
  next
    fix q assume q: "q < NPROC" "p_state (ptable t q) \<noteq> UNUSED"
    then show "0 < p_pid (ptable t q) \<and> p_pid (ptable t q) < nextpid t" using pd(2) [of q] assms(2,4,10) by (cases "q = n") auto
  qed (use pd(1) assms(4) in simp)
  ultimately show ?thesis using assms(12,13) by (simp add: psys_inv_def at_place_def)
qed

lemma place_inv_entry:
  assumes "place_inv s" "\<And>q. q \<noteq> n \<Longrightarrow> ptable t q = ptable (tab s) q" "alive (ptable (tab s) n) \<Longrightarrow> alive (ptable t n)"
    "\<And>q b. q \<noteq> p \<Longrightarrow> place_of s q \<noteq> Forking n b"
    "l \<noteq> Normal \<Longrightarrow> p < NPROC \<and> alive (ptable t p)"
    "\<And>m b. l = Forking m b \<Longrightarrow> m = n \<and> n < NPROC \<and> p_state (ptable t n) = EMBRYO \<and> p_parent (ptable t n) = (if b then Some p else None)"
  shows "place_inv (at_place s t p l)"
proof (rule place_invI)
  note pl = place_invD [OF assms(1)]
  have al: "alive (ptable (tab s) q) \<Longrightarrow> alive (ptable t q)" for q using assms(2,3) by (cases "q = n") simp_all
  show "q < NPROC \<and> alive (ptable (tab (at_place s t p l)) q)" if "place_of (at_place s t p l) q \<noteq> Normal" for q
    using that pl(1) [of q] al [of q] assms(5) by (cases "q = p") (simp_all add: at_place_def)
  show "m < NPROC \<and> p_state (ptable (tab (at_place s t p l)) m) = EMBRYO \<and> p_parent (ptable (tab (at_place s t p l)) m) = (if b then Some q else None)"
    if "place_of (at_place s t p l) q = Forking m b" for q m b
  proof (cases "q = p")
    case True
    then show ?thesis using that assms(6) [of m b] by (simp add: at_place_def)
  next
    case False
    then have f: "place_of s q = Forking m b" using that by (simp add: at_place_def)
    then have "m \<noteq> n" using assms(4) [OF False] by auto
    then show ?thesis using pl(2-4) [OF f] assms(2) by (simp add: at_place_def)
  qed
  show "q = r" if "place_of (at_place s t p l) q = Forking m b" "place_of (at_place s t p l) r = Forking m b'" for q r m b b'
    using that pl(5) [of q m b r b'] assms(4) [of q] assms(4) [of r] assms(6) by (cases "q = p"; cases "r = p") (auto simp: at_place_def)
qed

lemma psys_inv_fork:
  assumes "psys_inv s" "cpu_proc (tab s) c = Some p" "place_of s p = Forking np b"
  shows "b \<Longrightarrow> psys_inv (at_place s (set_proc (tab s) np (\<lambda>x. x\<lparr>p_state := RUNNABLE\<rparr>)) p Normal)"
    "\<not> b \<Longrightarrow> psys_inv (at_place s (set_proc (tab s) np (\<lambda>x. x\<lparr>p_kstack := 0, p_state := UNUSED\<rparr>)) p Normal)"
    "\<not> b \<Longrightarrow> psys_inv (at_place s (fork_fill (tab s) np p) p (Forking np True))"
proof -
  have i: "tree_inv (tab s)" "place_inv s" using assms(1) by (simp_all add: psys_inv_def)
  note r = psys_inv_running [OF assms(1,2)] and e = place_invD(2-4) [OF i(2) assms(3)]
  have ne: "p \<noteq> np" using r e by auto
  have na: "\<not> alive (ptable (tab s) np)" using e(2) by (simp add: alive_def)
  have ni: "initproc (tab s) \<noteq> Some np" using tree_invD(3) [OF i(1)] na by auto
  have only: "place_of s q \<noteq> Forking np b'" if "q \<noteq> p" for q b' using place_invD(5) [OF i(2) assms(3), of q b'] that by auto
  show "psys_inv (at_place s (set_proc (tab s) np (\<lambda>x. x\<lparr>p_state := RUNNABLE\<rparr>)) p Normal)" if b
  proof -
    let ?t = "set_proc (tab s) np (\<lambda>x. x\<lparr>p_state := RUNNABLE\<rparr>)"
    have "tree_inv ?t" by (rule tree_inv_set [OF i(1), of np]) (use that e r ne ni in \<open>auto simp: alive_def\<close>)
    moreover have "place_inv (at_place s ?t p Normal)" by (rule place_inv_entry [OF i(2), of np]) (use only na in auto)
    ultimately show ?thesis by (intro psys_inv_entry [OF assms(1), of np]) (use na e(2) in \<open>simp_all add: fork_fill_def\<close>)
  qed
  show "psys_inv (at_place s (set_proc (tab s) np (\<lambda>x. x\<lparr>p_kstack := 0, p_state := UNUSED\<rparr>)) p Normal)" if "\<not> b"
  proof -
    let ?t = "set_proc (tab s) np (\<lambda>x. x\<lparr>p_kstack := 0, p_state := UNUSED\<rparr>)"
    have "tree_inv ?t" by (rule tree_inv_set [OF i(1), of np]) (use that e na in auto)
    moreover have "place_inv (at_place s ?t p Normal)" by (rule place_inv_entry [OF i(2), of np]) (use only na in auto)
    ultimately show ?thesis by (intro psys_inv_entry [OF assms(1), of np]) (use na e(2) in \<open>simp_all add: fork_fill_def\<close>)
  qed
  show "psys_inv (at_place s (fork_fill (tab s) np p) p (Forking np True))" if "\<not> b"
  proof -
    let ?t = "fork_fill (tab s) np p"
    have "tree_inv ?t" by (rule tree_inv_set [OF i(1), of np]) (use e r na ne ni in \<open>auto simp: fork_fill_def\<close>)
    moreover have "place_inv (at_place s ?t p (Forking np True))"
      by (rule place_inv_entry [OF i(2), of np]) (use only na e r ne in \<open>auto simp: fork_fill_def\<close>)
    ultimately show ?thesis by (intro psys_inv_entry [OF assms(1), of np]) (use na e(2) in \<open>simp_all add: fork_fill_def\<close>)
  qed
qed

lemma psys_inv_reap:
  assumes "psys_inv s" "cpu_proc (tab s) c = Some p" "place_of s p \<in> {Normal, InWait}" "wait_scan (tab s) p False [0..<NPROC] = Reaps q"
  shows "psys_inv (at_place s (reap (tab s) q) p Normal)"
proof -
  have i: "tree_inv (tab s)" "place_inv s" using assms(1) by (simp_all add: psys_inv_def)
  have q: "q < NPROC" "p_state (ptable (tab s) q) = ZOMBIE" using wait_scan_iff(1) [OF assms(4)] by auto
  then have na: "\<not> alive (ptable (tab s) q)" by (simp add: alive_def)
  have only: "place_of s r \<noteq> Forking q b" for r b using place_invD(3) [OF i(2), of r q b] q by auto
  have "tree_inv (reap (tab s) q)" by (rule tree_inv_set [OF i(1), of q]) (use na in \<open>auto simp: reap_def\<close>)
  moreover have "place_inv (at_place s (reap (tab s) q) p Normal)" by (rule place_inv_entry [OF i(2), of q]) (use only na in \<open>auto simp: reap_def\<close>)
  ultimately show ?thesis by (intro psys_inv_entry [OF assms(1), of q]) (use na in \<open>simp_all add: reap_def\<close>)
qed

lemma psys_inv_normal:
  assumes "psys_inv s" "place_of s p \<in> {Normal, InWait}"
  shows "psys_inv (at_place s (tab s) p Normal)"
proof -
  have i: "place_inv s" "wait_inv s" using assms(1) by (simp_all add: psys_inv_def)
  have "place_inv (at_place s (tab s) p Normal)"
    by (rule place_invI) (use place_invD [OF i(1)] in \<open>auto simp: at_place_def split: if_splits\<close>)
  moreover have "wait_inv (at_place s (tab s) p Normal)" by (rule wait_inv_mono [OF i(2)]) (auto simp: at_place_def split: if_splits)
  ultimately show ?thesis using assms(1) by (simp add: psys_inv_def at_place_def)
qed

text \<open>The section of \<^verbatim>\<open>exit\<close>: who is woken, and whose parent changes.\<close>

lemma exit_table_entry:
  assumes "initproc t \<noteq> Some p"
  shows "p_parent (ptable (exit_table t p) q) = (if q < NPROC \<and> p_parent (ptable t q) = Some p then initproc t else p_parent (ptable t q))"
    "p_pid (ptable (exit_table t p) q) = p_pid (ptable t q)" "p_chan (ptable (exit_table t p) q) = p_chan (ptable t q)"
    "p_state (ptable (exit_table t p) q) = (if q = p then ZOMBIE
       else if q < NPROC \<and> p_state (ptable t q) = SLEEPING \<and> (p_chan (ptable t q) = map_option ProcAddr (p_parent (ptable t p)) \<or>
         p_chan (ptable t q) = map_option ProcAddr (initproc t) \<and> (\<exists>k < NPROC. p_parent (ptable t k) = Some p \<and> p_state (ptable t k) = ZOMBIE))
       then RUNNABLE else p_state (ptable t q))"
    "initproc (exit_table t p) = initproc t" "nextpid (exit_table t p) = nextpid t" "cpu_proc (exit_table t p) = cpu_proc t"
proof -
  let ?w = "wakeup1 t (map_option ProcAddr (p_parent (ptable t p)))"
  have e: "exit_table t p = set_proc (orphaned ?w p [0..<NPROC]) p (\<lambda>x. x\<lparr>p_state := ZOMBIE\<rparr>)"
    using fold_abandon [of "[0..<NPROC]" ?w p] assms by (simp add: exit_table_def)
  have up: "(\<exists>k \<in> set [0..<NPROC]. P k) \<longleftrightarrow> (\<exists>k < NPROC. P k)" for P by auto
  have zk: "p_state (ptable ?w k) = ZOMBIE \<longleftrightarrow> p_state (ptable t k) = ZOMBIE" "p_parent (ptable ?w k) = p_parent (ptable t k)" for k by simp_all
  have z: "(\<exists>k \<in> set [0..<NPROC]. p_parent (ptable ?w k) = Some p \<and> p_state (ptable ?w k) = ZOMBIE) \<longleftrightarrow>
      (\<exists>k < NPROC. p_parent (ptable t k) = Some p \<and> p_state (ptable t k) = ZOMBIE)" unfolding up zk ..
  show "p_parent (ptable (exit_table t p) q) = (if q < NPROC \<and> p_parent (ptable t q) = Some p then initproc t else p_parent (ptable t q))"
    "p_pid (ptable (exit_table t p) q) = p_pid (ptable t q)" "p_chan (ptable (exit_table t p) q) = p_chan (ptable t q)"
    "initproc (exit_table t p) = initproc t" "nextpid (exit_table t p) = nextpid t" "cpu_proc (exit_table t p) = cpu_proc t"
    by (simp_all add: e orphaned_def)
  show "p_state (ptable (exit_table t p) q) = (if q = p then ZOMBIE
       else if q < NPROC \<and> p_state (ptable t q) = SLEEPING \<and> (p_chan (ptable t q) = map_option ProcAddr (p_parent (ptable t p)) \<or>
         p_chan (ptable t q) = map_option ProcAddr (initproc t) \<and> (\<exists>k < NPROC. p_parent (ptable t k) = Some p \<and> p_state (ptable t k) = ZOMBIE))
       then RUNNABLE else p_state (ptable t q))"
    unfolding e orphaned_def z by (cases "q = p"; cases "q < NPROC"; cases "p_state (ptable t q) = SLEEPING") (auto simp: woken_def)
qed

lemma psys_inv_exit:
  assumes "psys_inv s" "c < NCPU" "cpu_proc (tab s) c = Some p" "place_of s p = Normal" "initproc (tab s) \<noteq> Some p"
    "sched (exit_table (tab s) p) c = Ok t"
  shows "psys_inv (s\<lparr>tab := t\<rparr>)"
proof -
  let ?t = "exit_table (tab s) p" and ?T = "ptable (tab s)"
  have i: "run_inv (tab s)" "tree_inv (tab s)" "place_inv s" "wait_inv s" "pid_inv (tab s)" using assms(1) by (simp_all add: psys_inv_def)
  note e = exit_table_entry [OF assms(5)] and r = psys_inv_running [OF assms(1,3)]
  note tr = tree_invD [OF i(2)] and pl = place_invD [OF i(3)] and pd = pid_invD [OF i(5)] and w = wait_invD [OF i(4)]
  have al: "alive (ptable ?t q) = alive (?T q)" if "q \<noteq> p" for q using that by (auto simp: e(4) alive_def)
  have un: "p_state (ptable ?t q) = UNUSED \<longleftrightarrow> p_state (?T q) = UNUSED" "p_state (ptable ?t q) = EMBRYO \<longleftrightarrow> p_state (?T q) = EMBRYO" for q
    using r(2) by (auto simp: e(4))
  have init: "the (initproc (tab s)) \<noteq> p" using tr(1) assms(5) by auto
  have "run_inv (idle ?t c)" by (rule run_inv_leave [OF i(1) assms(3)]) (auto simp: e)
  moreover have "tree_inv (idle ?t c)"
  proof (rule tree_invI)
    show "initproc (idle ?t c) = Some (the (initproc (tab s)))" using tr(1) by (simp add: e)
    show "the (initproc (tab s)) < NPROC" by (rule tr(2))
    show "alive (ptable (idle ?t c) (the (initproc (tab s))))" using al [OF init] tr(3) by simp
    show "p_parent (ptable (idle ?t c) (the (initproc (tab s)))) = None" using tr(7) by (simp add: e(1))
    fix q assume q: "q < NPROC"
    show "n < NPROC \<and> n \<noteq> q \<and> alive (ptable (idle ?t c) n)" if "p_parent (ptable (idle ?t c) q) = Some n" for n
    proof (cases "p_parent (?T q) = Some p")
      case True
      then have "n = the (initproc (tab s))" using that q by (simp add: e(1))
      moreover have "q \<noteq> the (initproc (tab s))" using True tr(7) by auto
      ultimately show ?thesis using tr(2,3) al [OF init] by simp
    next
      case False
      then have "p_parent (?T q) = Some n" "n \<noteq> p" using that by (auto simp: e(1))
      then show ?thesis using tr(4) [OF q, of n] al [of n] by simp
    qed
    show "p_parent (ptable (idle ?t c) q) \<noteq> None" if "initproc (idle ?t c) \<noteq> Some q" "p_state (ptable (idle ?t c) q) \<noteq> UNUSED" "p_state (ptable (idle ?t c) q) \<noteq> EMBRYO"
      using tr(5) [OF q] tr(1) un [of q] that by (auto simp: e(1,5))
    show "p_state (ptable (idle ?t c) q) = UNUSED \<Longrightarrow> p_parent (ptable (idle ?t c) q) = None" using tr(6) [OF q] un(1) [of q] by (simp add: e(1))
  qed
  moreover have "place_inv (s\<lparr>tab := idle ?t c\<rparr>)"
  proof (rule place_invI)
    fix q assume "place_of (s\<lparr>tab := idle ?t c\<rparr>) q \<noteq> Normal"
    then show "q < NPROC \<and> alive (ptable (tab (s\<lparr>tab := idle ?t c\<rparr>)) q)" using pl(1) [of q] al [of q] assms(4) by auto
  next
    fix q n b assume "place_of (s\<lparr>tab := idle ?t c\<rparr>) q = Forking n b"
    then have f: "place_of s q = Forking n b" by simp
    then have "q \<noteq> p" using assms(4) by auto
    then show "n < NPROC \<and> p_state (ptable (tab (s\<lparr>tab := idle ?t c\<rparr>)) n) = EMBRYO \<and>
        p_parent (ptable (tab (s\<lparr>tab := idle ?t c\<rparr>)) n) = (if b then Some q else None)"
      using pl(2-4) [OF f] un(2) [of n] by (simp add: e(1))
  qed (use pl(5) in simp)
  moreover have "wait_inv (s\<lparr>tab := idle ?t c\<rparr>)"
  proof (rule wait_inv_mono [OF i(4)])
    show "p_state (ptable (tab s) q) = SLEEPING \<and> p_chan (ptable (tab (s\<lparr>tab := idle ?t c\<rparr>)) q) = p_chan (ptable (tab s) q) \<and>
      (place_of (s\<lparr>tab := idle ?t c\<rparr>) q = InWait \<longrightarrow> place_of s q = InWait)"
      if "p_state (ptable (tab (s\<lparr>tab := idle ?t c\<rparr>)) q) = SLEEPING" for q using that by (auto simp: e(3,4) split: if_splits)
  next
    fix q k assume k: "k < NPROC" "q < NPROC" and q: "p_state (ptable (tab (s\<lparr>tab := idle ?t c\<rparr>)) q) = SLEEPING"
      "p_chan (ptable (tab (s\<lparr>tab := idle ?t c\<rparr>)) q) = Some (ProcAddr q)"
      and ch: "p_parent (ptable (tab (s\<lparr>tab := idle ?t c\<rparr>)) k) = Some q" "p_state (ptable (tab (s\<lparr>tab := idle ?t c\<rparr>)) k) = ZOMBIE"
    show "p_parent (?T k) = Some q \<and> p_state (?T k) = ZOMBIE"
    proof (cases "k = p \<or> p_parent (?T k) = Some p")
      case False
      then show ?thesis using ch by (auto simp: e(1,4) split: if_splits)
    next
      case True
      then show ?thesis using q ch k tr(1) tr(4) [OF r(1), of p] by (auto simp: e(1,3,4) split: if_splits)
    qed
  qed
  moreover have "pid_inv (idle ?t c)" by (rule pid_invI) (use pd un in \<open>simp_all add: e\<close>)
  ultimately have "psys_inv (s\<lparr>tab := idle ?t c\<rparr>)" by (simp add: psys_inv_def)
  then show ?thesis using psys_inv_sched assms(2,6) by blast
qed

lemma psys_inv_step: "psys_step s s' \<Longrightarrow> psys_inv s \<Longrightarrow> psys_inv s'"
proof (induction rule: psys_step.induct)
  case (pick c s)
  show ?case by (rule psys_inv_pick [OF pick(3,1,2)])
next
  case (yields c s t)
  show ?case by (rule psys_inv_yield [OF yields(3,1,2)])
next
  case (sleeps c s p a t)
  show ?case by (rule psys_inv_sleep [OF sleeps(5,1-4)])
next
  case (wakes s a)
  then show ?case by (rule psys_inv_wakeup)
next
  case (kills c s p pid r t)
  show ?case by (rule psys_inv_kill [OF kills(4,3)])
next
  case (fork_alloc c s p np t)
  show ?case by (rule psys_inv_fork_alloc [OF fork_alloc(5,2-4)])
next
  case (fork_fail c s p np)
  show ?case by (rule psys_inv_fork(2) [OF fork_fail(4,2,3)]) simp
next
  case (fork_filled c s p np)
  show ?case by (rule psys_inv_fork(3) [OF fork_filled(4,2,3)]) simp
next
  case (fork_done c s p np)
  show ?case by (rule psys_inv_fork(1) [OF fork_done(4,2,3)]) simp
next
  case (exits c s p t)
  show ?case by (rule psys_inv_exit [OF exits(6,1-5)])
next
  case (wait_reaps c s p q)
  show ?case by (rule psys_inv_reap [OF wait_reaps(5,2-4)])
next
  case (wait_fails c s p)
  show ?case by (rule psys_inv_normal [OF wait_fails(5,3)])
next
  case (wait_sleeps c s p t)
  show ?case by (rule psys_inv_wait_sleeps [OF wait_sleeps(6,1-5)])
qed

lemma psys_inv_reach: "psys_reach s \<Longrightarrow> psys_inv s"
  by (induction rule: psys_reach.induct) (auto intro: psys_inv_start psys_inv_step)

section \<open>Properties\<close>

text \<open>C8: In every reachable state of the process table the processors run different processes, exactly those in state
  \<open>RUNNING\<close>; every process but the first has a parent that has not exited; and no two entries in use have the
  same process id.\<close>

theorem ptable_invariant:
  assumes "psys_reach s"
  shows "(\<forall>c d p. cpu_proc (tab s) c = Some p \<and> cpu_proc (tab s) d = Some p \<longrightarrow> c = d) \<and>
    (\<forall>p < NPROC. p_state (ptable (tab s) p) = RUNNING \<longleftrightarrow> (\<exists>c < NCPU. cpu_proc (tab s) c = Some p)) \<and>
    (\<forall>p < NPROC. p_state (ptable (tab s) p) \<in> {SLEEPING, RUNNABLE, RUNNING, ZOMBIE} \<and> initproc (tab s) \<noteq> Some p \<longrightarrow>
      (\<exists>q < NPROC. q \<noteq> p \<and> p_parent (ptable (tab s) p) = Some q \<and> p_state (ptable (tab s) q) \<in> {SLEEPING, RUNNABLE, RUNNING})) \<and>
    (\<forall>p < NPROC. \<forall>q < NPROC. p_state (ptable (tab s) p) \<noteq> UNUSED \<and> p_state (ptable (tab s) q) \<noteq> UNUSED \<and> p \<noteq> q \<longrightarrow>
      p_pid (ptable (tab s) p) \<noteq> p_pid (ptable (tab s) q))"
proof -
  have i: "run_inv (tab s)" "tree_inv (tab s)" "pid_inv (tab s)" using psys_inv_reach [OF assms] by (simp_all add: psys_inv_def)
  note r = run_invD [OF i(1)] and t = tree_invD [OF i(2)] and pd = pid_invD [OF i(3)]
  have "\<exists>q < NPROC. q \<noteq> p \<and> p_parent (ptable (tab s) p) = Some q \<and> p_state (ptable (tab s) q) \<in> {SLEEPING, RUNNABLE, RUNNING}"
    if "p < NPROC" "p_state (ptable (tab s) p) \<in> {SLEEPING, RUNNABLE, RUNNING, ZOMBIE}" "initproc (tab s) \<noteq> Some p" for p
  proof -
    have "p_parent (ptable (tab s) p) \<noteq> None" using t(5) [OF that(1,3)] that(2) by fastforce
    then obtain q where q: "p_parent (ptable (tab s) p) = Some q" by blast
    show ?thesis using t(4) [OF that(1) q] q unfolding alive_def by blast
  qed
  moreover have "p_state (ptable (tab s) p) = RUNNING \<longleftrightarrow> (\<exists>c < NCPU. cpu_proc (tab s) c = Some p)" if "p < NPROC" for p
    using r(1) r(3) r(5) [OF that] by blast
  moreover have "c = d" if "cpu_proc (tab s) c = Some p" "cpu_proc (tab s) d = Some p" for c d p using r(4) [OF that] .
  moreover have "p_pid (ptable (tab s) p) \<noteq> p_pid (ptable (tab s) q)"
    if "p < NPROC" "q < NPROC" "p_state (ptable (tab s) p) \<noteq> UNUSED" "p_state (ptable (tab s) q) \<noteq> UNUSED" "p \<noteq> q" for p q
    using pd(3) [OF that(1-4)] that(5) by blast
  ultimately show ?thesis by blast
qed

text \<open>C9: A process in \<^verbatim>\<open>wait\<close> does not sleep while it has a child to reap: it is on a processor, where its next scan reaps a
  child, or it is runnable, and then a processor that looks for work finds some.\<close>

theorem wait_not_lost:
  assumes "psys_reach s" "p < NPROC" "place_of s p = InWait" "k < NPROC" "p_parent (ptable (tab s) k) = Some p"
    "p_state (ptable (tab s) k) = ZOMBIE"
  shows "(\<exists>c < NCPU. \<exists>q. cpu_proc (tab s) c = Some p \<and> wait_scan (tab s) p False [0..<NPROC] = Reaps q \<and>
      p_parent (ptable (tab s) q) = Some p \<and> p_state (ptable (tab s) q) = ZOMBIE \<and> psys_step s (at_place s (reap (tab s) q) p Normal)) \<or>
    p_state (ptable (tab s) p) = RUNNABLE \<and> (\<forall>c < NCPU. \<exists>q. cpu_proc (scheduler_from (tab s) c 0) c = Some q)"
proof -
  have i: "run_inv (tab s)" "place_inv s" "wait_inv s" using psys_inv_reach [OF assms(1)] by (simp_all add: psys_inv_def)
  have "alive (ptable (tab s) p)" using place_invD(1) [OF i(2), of p] assms(3) by simp
  moreover have "p_state (ptable (tab s) p) \<noteq> SLEEPING" using wait_invD(2,3) [OF i(3) assms(2)] assms(3-6) by blast
  ultimately consider "p_state (ptable (tab s) p) = RUNNING" | "p_state (ptable (tab s) p) = RUNNABLE" by (auto simp: alive_def)
  then show ?thesis
  proof cases
    case 1
    then obtain c where c: "cpu_proc (tab s) c = Some p" using run_invD(5) [OF i(1) assms(2)] by blast
    obtain q where q: "wait_scan (tab s) p False [0..<NPROC] = Reaps q" using wait_scan_iff(3) [of k "[0..<NPROC]" "tab s" p False] assms(4-6) by auto
    have "psys_step s (at_place s (reap (tab s) q) p Normal)" using wait_reaps [OF run_invD(1) [OF i(1) c] c _ q] assms(3) by simp
    then show ?thesis using c q run_invD(1) [OF i(1) c] wait_scan_iff(1) [OF q] by blast
  next
    case 2
    then have "find (\<lambda>p. p_state (ptable (tab s) p) = RUNNABLE) [0..<NPROC] \<noteq> None" using assms(2) by (auto simp: find_None_iff)
    then have "\<exists>q. cpu_proc (scheduler_from (tab s) c 0) c = Some q" for c
      by (auto simp: scheduler_from_def Let_def sleep_leave_def)
    then show ?thesis using 2 by blast
  qed
qed

text \<open>The states a process may have after one step.\<close>

primrec next_states :: "procstate \<Rightarrow> procstate set" where
  "next_states UNUSED = {UNUSED, EMBRYO}"
| "next_states EMBRYO = {EMBRYO, UNUSED, RUNNABLE}"
| "next_states SLEEPING = {SLEEPING, RUNNABLE, RUNNING}"
| "next_states RUNNABLE = {RUNNABLE, RUNNING}"
| "next_states RUNNING = {RUNNING, RUNNABLE, SLEEPING, ZOMBIE}"
| "next_states ZOMBIE = {ZOMBIE, UNUSED}"

lemma next_states_refl [simp]: "st \<in> next_states st"
  by (cases st) auto

lemma next_states_pick:
  assumes "p_state (ptable t p) \<in> next_states st" "st \<in> {RUNNING, EMBRYO} \<Longrightarrow> p_state (ptable t p) \<noteq> RUNNABLE \<or> p < i"
  shows "p_state (ptable (scheduler_from t c i) p) \<in> next_states st"
proof (cases "find (\<lambda>p. p_state (ptable t p) = RUNNABLE) [i..<NPROC]")
  case None
  then show ?thesis using assms(1) by (simp add: scheduler_from_def)
next
  case (Some q)
  then have q: "p_state (ptable t q) = RUNNABLE" "i \<le> q" by (auto simp: find_Some_iff)
  have "p_state (ptable (scheduler_from t c i) p) = (if p = q then RUNNING else p_state (ptable t p))"
    by (simp add: scheduler_from_def Some Let_def sleep_leave_def)
  then show ?thesis using assms q by (cases st) auto
qed

lemma next_states_sched:
  assumes "sched t c = Ok t'" "cpu_proc t c = Some q" "p_state (ptable t p) \<in> next_states st" "st = EMBRYO \<Longrightarrow> p_state (ptable t p) \<noteq> RUNNABLE"
    "st = RUNNING \<Longrightarrow> p \<noteq> q \<Longrightarrow> p_state (ptable t p) \<noteq> RUNNABLE"
  shows "p_state (ptable t' p) \<in> next_states st"
proof -
  have "t' = scheduler_from t c (Suc q)" using assms(1,2) by (auto simp: sched_def split: if_splits)
  then show ?thesis using assms(3-5) by (auto intro!: next_states_pick)
qed

text \<open>C26: A step takes each process only from its state to one that may follow it: entries in use are set up before they run, only
  a process on a processor goes to sleep or exits, and only exited processes are cleared by \<^verbatim>\<open>wait\<close>.\<close>

theorem proc_state_typed:
  assumes "psys_reach s" "psys_step s s'"
  shows "p_state (ptable (tab s') p) \<in> next_states (p_state (ptable (tab s) p))"
proof -
  have inv: "psys_inv s" using psys_inv_reach [OF assms(1)] .
  note run = psys_inv_running [OF inv] 
  have emb: "p_state (ptable (tab s) np) = EMBRYO" if "place_of s q = Forking np b" for q np b
    using inv place_invD(3) [OF _ that] by (simp add: psys_inv_def)
  show ?thesis using assms(2)
  proof cases
    case (pick c)
    then show ?thesis by (auto intro!: next_states_pick)
  next
    case (yields c t)
    then obtain q where q: "cpu_proc (tab s) c = Some q" "sched (set_proc (tab s) q (\<lambda>x. x\<lparr>p_state := RUNNABLE\<rparr>)) c = Ok t"
      by (auto simp: yield_def split: option.splits)
    have "p_state (ptable t p) \<in> next_states (p_state (ptable (tab s) p))"
      by (rule next_states_sched [OF q(2)]) (use q(1) run(2) [OF q(1)] in auto)
    then show ?thesis unfolding yields(1) by simp
  next
    case (sleeps c q a t)
    then have "sched (set_proc (tab s) q (\<lambda>x. x\<lparr>p_chan := Some (Addr a), p_state := SLEEPING\<rparr>)) c = Ok t" by (simp add: sleep_def)
    then show ?thesis unfolding sleeps(1) using next_states_sched sleeps(3) run(2) [OF sleeps(3)] by simp
  next
    case (wakes a)
    then show ?thesis by (cases "p_state (ptable (tab s) p)") (auto simp: wakeup_def)
  next
    case (kills c q pid r t)
    then show ?thesis by (cases "p_state (ptable (tab s) p)") (auto simp: kill_def Let_def split: option.splits if_splits)
  next
    case (fork_alloc c q np t)
    then show ?thesis by (auto simp: at_place_def alloc_slot_def find_Some_iff split: option.splits if_splits)
  next
    case (fork_fail c q np)
    then show ?thesis using emb by (simp add: at_place_def)
  next
    case (fork_filled c q np)
    then show ?thesis by (simp add: at_place_def fork_fill_def)
  next
    case (fork_done c q np)
    then show ?thesis using emb by (simp add: at_place_def)
  next
    case (exits c q t)
    note e = exit_table_entry(4) [OF exits(5), of p]
    have "p_state (ptable (exit_table (tab s) q) p) \<in> next_states (p_state (ptable (tab s) p))" using run(2) [OF exits(3)] unfolding e by simp
    then show ?thesis unfolding exits(1) using next_states_sched [OF exits(6)] exits(3,5) e by (simp add: exit_table_entry(7))
  next
    case (wait_reaps c q r)
    then show ?thesis using wait_scan_iff(1) [OF wait_reaps(5)] by (simp add: at_place_def reap_def)
  next
    case (wait_fails c q)
    then show ?thesis by (simp add: at_place_def)
  next
    case (wait_sleeps c q t)
    then have "sched (set_proc (tab s) q (\<lambda>x. x\<lparr>p_chan := Some (ProcAddr q), p_state := SLEEPING\<rparr>)) c = Ok t" by (simp add: sleep_def)
    then show ?thesis unfolding wait_sleeps(1) using next_states_sched wait_sleeps(3) run(2) [OF wait_sleeps(3)] by (simp add: at_place_def)
  qed
qed

text \<open>C40: \<^verbatim>\<open>kill\<close> with process id 0 finds an unused entry and marks it killed; \<^verbatim>\<open>allocproc\<close> does not clear the mark, so the next
  process made in that entry is killed from the start.\<close>

theorem kill_zero_marks_unused:
  assumes "p < NPROC" "p_state (ptable t p) = UNUSED" "p_pid (ptable t p) = 0" "\<forall>q < p. p_state (ptable t q) \<noteq> UNUSED \<and> p_pid (ptable t q) \<noteq> 0"
    "nextpid t + 1 < 2 ^ 31"
  shows "\<exists>t1 t2. kill t 0 = (0, t1) \<and> alloc_slot t1 = Ok (Some p, t2) \<and> p_state (ptable t2 p) = EMBRYO \<and> p_killed (ptable t2 p)"
proof -
  have f: "find P [0..<NPROC] = Some p" if "P p" "\<forall>q < p. \<not> P q" for P
    unfolding find_Some_iff using that assms(1) by (intro exI [of _ p]) simp
  let ?t = "set_proc t p (\<lambda>x. x\<lparr>p_killed := True\<rparr>)"
  have "find (\<lambda>q. p_pid (ptable t q) = 0) [0..<NPROC] = Some p" using assms(3,4) by (intro f) auto
  then have "kill t 0 = (0, ?t)" using assms(2) by (simp add: kill_def)
  moreover have "find (\<lambda>q. p_state (ptable ?t q) = UNUSED) [0..<NPROC] = Some p" using assms(2,4) by (intro f) auto
  ultimately show ?thesis using assms(5) by (simp add: alloc_slot_def)
qed

section \<open>Examples\<close>

text \<open>The first process forks and waits; the child exits, and the first process is runnable again.\<close>

lemma find_none: "(\<And>p. i \<le> p \<Longrightarrow> p < NPROC \<Longrightarrow> \<not> P p) \<Longrightarrow> find P [i..<NPROC] = None"
  by (simp add: find_None_iff)

lemma find_first: "p < NPROC \<Longrightarrow> i \<le> p \<Longrightarrow> P p \<Longrightarrow> (\<And>q. i \<le> q \<Longrightarrow> q < p \<Longrightarrow> \<not> P q) \<Longrightarrow> find P [i..<NPROC] = Some p"
  by (auto simp: find_Some_iff intro!: exI [of _ "p - i"])

lemma wait_scan_sleeps:
  assumes "\<And>k. k \<in> set ps \<Longrightarrow> p_parent (ptable t k) = Some p \<Longrightarrow> p_state (ptable t k) \<noteq> ZOMBIE" "\<not> p_killed (ptable t p)"
    "b \<or> (\<exists>k \<in> set ps. p_parent (ptable t k) = Some p)"
  shows "wait_scan t p b ps = WaitSleeps"
  using assms by (induction ps arbitrary: b) auto

definition two_procs :: "proc \<Rightarrow> proc \<Rightarrow> nat option \<Rightarrow> int \<Rightarrow> place \<Rightarrow> psys" where
  "two_procs x y c n l = \<lparr>tab = \<lparr>ptable = (\<lambda>p. if p = 0 then x else if p = 1 then y else blank_proc), initproc = Some 0, nextpid = n,
     cpu_proc = (\<lambda>d. if d = 0 then c else None)\<rparr>, place_of = (\<lambda>p. if p = 0 then l else Normal)\<rparr>"

lemma two_procs_eqI:
  assumes "\<And>p. ptable (tab s) p = (if p = 0 then x else if p = 1 then y else blank_proc)" "initproc (tab s) = Some 0" "nextpid (tab s) = n"
    "\<And>d. cpu_proc (tab s) d = (if d = 0 then c else None)" "\<And>p. place_of s p = (if p = 0 then l else Normal)"
  shows "s = two_procs x y c n l"
  using assms by (intro psys.equality ptab.equality) (auto simp: two_procs_def fun_eq_iff)

definition proc_first :: proc where
  "proc_first = blank_proc\<lparr>p_pid := 1\<rparr>"

definition proc_child :: proc where
  "proc_child = blank_proc\<lparr>p_pid := 2\<rparr>"

lemma proc_first_simps [simp]: "p_pid proc_first = 1" "p_parent proc_first = None" "p_chan proc_first = None" "p_sz proc_first = 0" "\<not> p_killed proc_first"
  "p_pid proc_child = 2" "p_parent proc_child = None" "p_chan proc_child = None" "p_sz proc_child = 0"
  "p_state blank_proc = UNUSED" "p_parent blank_proc = None"
  by (simp_all add: proc_first_def proc_child_def blank_proc_def)

lemma demo_start: "psys_start = two_procs (proc_first\<lparr>p_state := RUNNABLE\<rparr>) blank_proc None 2 Normal"
  by (rule two_procs_eqI) (simp_all add: psys_start_eq boot_table_def proc_first_def)

lemma demo_running: "psys_reach (two_procs (proc_first\<lparr>p_state := RUNNING\<rparr>) blank_proc (Some 0) 2 Normal)"
proof -
  have f: "find (\<lambda>p. p_state (ptable (tab psys_start) p) = RUNNABLE) [0..<NPROC] = Some 0"
    by (rule find_first) (simp_all add: demo_start two_procs_def)
  have "psys_step psys_start (psys_start\<lparr>tab := scheduler_from (tab psys_start) 0 0\<rparr>)"
    by (rule pick) (simp_all add: demo_start two_procs_def)
  moreover have "psys_start\<lparr>tab := scheduler_from (tab psys_start) 0 0\<rparr> = two_procs (proc_first\<lparr>p_state := RUNNING\<rparr>) blank_proc (Some 0) 2 Normal"
    by (rule two_procs_eqI) (use f in \<open>simp_all add: scheduler_from_def demo_start two_procs_def\<close>)
  ultimately show ?thesis using psys_next [OF psys_boot] by simp
qed

lemma demo_forked:
  "psys_reach (two_procs (proc_first\<lparr>p_state := RUNNING\<rparr>) (proc_child\<lparr>p_parent := Some 0, p_state := RUNNABLE\<rparr>) (Some 0) 3 Normal)"
proof -
  let ?x = "proc_first\<lparr>p_state := RUNNING\<rparr>"
  let ?s1 = "two_procs ?x blank_proc (Some 0) 2 Normal" and ?s2 = "two_procs ?x (proc_child\<lparr>p_state := EMBRYO\<rparr>) (Some 0) 3 (Forking 1 False)"
    and ?s3 = "two_procs ?x (proc_child\<lparr>p_state := EMBRYO, p_parent := Some 0\<rparr>) (Some 0) 3 (Forking 1 True)"
  have "find (\<lambda>p. p_state (ptable (tab ?s1) p) = UNUSED) [0..<NPROC] = Some 1" by (rule find_first) (simp_all add: two_procs_def)
  then have a: "alloc_slot (tab ?s1) = Ok (Some 1, tab ?s2)"
    by (simp add: alloc_slot_def) (auto simp: two_procs_def set_proc_def proc_child_def fun_eq_iff)
  have "psys_step ?s1 (at_place ?s1 (tab ?s2) 0 (Forking 1 False))" by (rule fork_alloc [OF _ _ _ a, of 0]) (simp_all add: two_procs_def)
  moreover have "at_place ?s1 (tab ?s2) 0 (Forking 1 False) = ?s2" by (rule two_procs_eqI) (simp_all add: at_place_def two_procs_def)
  ultimately have r2: "psys_reach ?s2" using psys_next [OF demo_running] by simp
  have "psys_step ?s2 (at_place ?s2 (fork_fill (tab ?s2) 1 0) 0 (Forking 1 True))" by (rule fork_filled [of 0]) (simp_all add: two_procs_def)
  moreover have "at_place ?s2 (fork_fill (tab ?s2) 1 0) 0 (Forking 1 True) = ?s3"
    by (rule two_procs_eqI) (simp_all add: at_place_def two_procs_def fork_fill_def proc_first_def proc_child_def blank_proc_def)
  ultimately have r3: "psys_reach ?s3" using psys_next [OF r2] by simp
  have "psys_step ?s3 (at_place ?s3 (set_proc (tab ?s3) 1 (\<lambda>x. x\<lparr>p_state := RUNNABLE\<rparr>)) 0 Normal)" by (rule fork_done [of 0]) (simp_all add: two_procs_def)
  moreover have "at_place ?s3 (set_proc (tab ?s3) 1 (\<lambda>x. x\<lparr>p_state := RUNNABLE\<rparr>)) 0 Normal =
      two_procs ?x (proc_child\<lparr>p_parent := Some 0, p_state := RUNNABLE\<rparr>) (Some 0) 3 Normal"
    by (rule two_procs_eqI) (simp_all add: at_place_def two_procs_def)
  ultimately show ?thesis using psys_next [OF r3] by simp
qed

lemma demo_waiting:
  "psys_reach (two_procs (proc_first\<lparr>p_chan := Some (ProcAddr 0), p_state := SLEEPING\<rparr>) (proc_child\<lparr>p_parent := Some 0, p_state := RUNNING\<rparr>) (Some 1) 3 InWait)"
proof -
  let ?s = "two_procs (proc_first\<lparr>p_state := RUNNING\<rparr>) (proc_child\<lparr>p_parent := Some 0, p_state := RUNNABLE\<rparr>) (Some 0) 3 Normal"
  let ?t = "set_proc (tab ?s) 0 (\<lambda>x. x\<lparr>p_chan := Some (ProcAddr 0), p_state := SLEEPING\<rparr>)"
  let ?s' = "two_procs (proc_first\<lparr>p_chan := Some (ProcAddr 0), p_state := SLEEPING\<rparr>) (proc_child\<lparr>p_parent := Some 0, p_state := RUNNING\<rparr>) (Some 1) 3 InWait"
  have w: "wait_scan (tab ?s) 0 False [0..<NPROC] = WaitSleeps"
    by (rule wait_scan_sleeps) (auto simp: two_procs_def intro!: bexI [of _ 1] split: if_splits)
  have "find (\<lambda>p. p_state (ptable ?t p) = RUNNABLE) [Suc 0..<NPROC] = Some 1" by (rule find_first) (simp_all add: two_procs_def)
  then have "scheduler_from ?t 0 (Suc 0) = tab ?s'"
    by (intro ptab.equality) (auto simp: scheduler_from_def two_procs_def fun_eq_iff)
  then have sl: "sleep (tab ?s) 0 (Some (ProcAddr 0)) = Ok (tab ?s')" by (simp add: sleep_def sched_def two_procs_def)
  have "psys_step ?s (at_place ?s (tab ?s') 0 InWait)" by (rule wait_sleeps [OF _ _ _ w sl]) (simp_all add: two_procs_def)
  moreover have "at_place ?s (tab ?s') 0 InWait = ?s'" by (rule two_procs_eqI) (simp_all add: at_place_def two_procs_def)
  ultimately show ?thesis using psys_next [OF demo_forked] by simp
qed

definition demo_exited :: psys where
  "demo_exited = two_procs (proc_first\<lparr>p_chan := Some (ProcAddr 0), p_state := RUNNABLE\<rparr>) (proc_child\<lparr>p_parent := Some 0, p_state := ZOMBIE\<rparr>) None 3 InWait"

lemma demo_exited_step:
  "psys_step (two_procs (proc_first\<lparr>p_chan := Some (ProcAddr 0), p_state := SLEEPING\<rparr>) (proc_child\<lparr>p_parent := Some 0, p_state := RUNNING\<rparr>) (Some 1) 3 InWait)
     demo_exited"
proof -
  let ?s = "two_procs (proc_first\<lparr>p_chan := Some (ProcAddr 0), p_state := SLEEPING\<rparr>) (proc_child\<lparr>p_parent := Some 0, p_state := RUNNING\<rparr>) (Some 1) 3 InWait"
  let ?e = "two_procs (proc_first\<lparr>p_chan := Some (ProcAddr 0), p_state := RUNNABLE\<rparr>) (proc_child\<lparr>p_parent := Some 0, p_state := ZOMBIE\<rparr>) (Some 1) 3 InWait"
  have "orphaned t cur ps = t" if "\<And>p. p_parent (ptable t p) \<noteq> Some cur" for t ps cur
    by (rule ptab.equality) (simp_all add: orphaned_def that)
  then have kids: "fold (abandon cur) [0..<NPROC] t = t" if "\<And>p. p_parent (ptable t p) \<noteq> Some cur" "initproc t \<noteq> Some cur" for t cur
    using fold_abandon [of "[0..<NPROC]" t cur] that by simp
  let ?w = "wakeup1 (tab ?s) (Some (ProcAddr 0))"
  have "fold (abandon 1) [0..<NPROC] ?w = ?w" by (rule kids) (simp_all add: two_procs_def)
  moreover have "p_parent (ptable (tab ?s) 1) = Some 0" by (simp add: two_procs_def)
  ultimately have "exit_table (tab ?s) 1 = set_proc ?w 1 (\<lambda>x. x\<lparr>p_state := ZOMBIE\<rparr>)" by (simp add: exit_table_def)
  also have "\<dots> = tab ?e"
    by (rule ptab.equality) (simp_all add: two_procs_def woken_def fun_eq_iff)
  finally have e: "exit_table (tab ?s) 1 = tab ?e" .
  have "find (\<lambda>p. p_state (ptable (tab ?e) p) = RUNNABLE) [Suc 1..<NPROC] = None" by (rule find_none) (simp add: two_procs_def)
  then have "scheduler_from (tab ?e) 0 (Suc 1) = tab demo_exited"
    unfolding scheduler_from_def by (simp add: demo_exited_def two_procs_def fun_eq_iff)
  moreover have "cpu_proc (tab ?e) 0 = Some 1" "p_state (ptable (tab ?e) 1) \<noteq> RUNNING" by (simp_all add: two_procs_def)
  ultimately have "sched (exit_table (tab ?s) 1) 0 = Ok (tab demo_exited)" unfolding e by (simp add: sched_def)
  then have "psys_step ?s (?s\<lparr>tab := tab demo_exited\<rparr>)" by (intro exits [of 0 _ 1]) (simp_all add: two_procs_def)
  moreover have "?s\<lparr>tab := tab demo_exited\<rparr> = demo_exited" by (simp add: demo_exited_def two_procs_def)
  ultimately show ?thesis by simp
qed

lemma demo_exited_reach: "psys_reach demo_exited"
  by (rule psys_next [OF demo_waiting demo_exited_step])

theorem ptable_invariant_witness:
  "psys_reach demo_exited \<and> p_pid (ptable (tab demo_exited) 0) \<noteq> p_pid (ptable (tab demo_exited) 1) \<and>
   (\<exists>q < NPROC. q \<noteq> 1 \<and> p_parent (ptable (tab demo_exited) 1) = Some q \<and> p_state (ptable (tab demo_exited) q) \<in> {SLEEPING, RUNNABLE, RUNNING})"
proof -
  have "1 < NPROC" "0 < NPROC" "initproc (tab demo_exited) \<noteq> Some 1" "p_state (ptable (tab demo_exited) 1) = ZOMBIE"
    "p_state (ptable (tab demo_exited) 0) = RUNNABLE" by (simp_all add: demo_exited_def two_procs_def)
  then show ?thesis using ptable_invariant [OF demo_exited_reach] demo_exited_reach by (metis insertCI procstate.distinct(5) procstate.distinct(9) zero_neq_one)
qed

theorem wait_not_lost_witness:
  "psys_reach demo_exited \<and> p_state (ptable (tab demo_exited) 0) = RUNNABLE \<and> (\<exists>q. cpu_proc (scheduler_from (tab demo_exited) 0 0) 0 = Some q)"
proof -
  have "cpu_proc (tab demo_exited) c \<noteq> Some 0" for c by (simp add: demo_exited_def two_procs_def)
  moreover have "0 < NPROC" "1 < NPROC" "place_of demo_exited 0 = InWait" "p_parent (ptable (tab demo_exited) 1) = Some 0"
    "p_state (ptable (tab demo_exited) 1) = ZOMBIE" "0 < NCPU" by (simp_all add: demo_exited_def two_procs_def)
  ultimately show ?thesis using wait_not_lost [OF demo_exited_reach, of 0 1] demo_exited_reach by metis
qed

theorem proc_state_typed_witness:
  "p_state (ptable (tab demo_exited) 1) \<in> next_states RUNNING"
  using proc_state_typed [OF demo_waiting demo_exited_step, of 1] by (simp add: two_procs_def)

theorem kill_zero_marks_unused_witness:
  "\<exists>t1 t2. kill (tab demo_exited) 0 = (0, t1) \<and> alloc_slot t1 = Ok (Some 2, t2) \<and> p_state (ptable t2 2) = EMBRYO \<and> p_killed (ptable t2 2)"
proof (rule kill_zero_marks_unused)
  show "\<forall>q < 2. p_state (ptable (tab demo_exited) q) \<noteq> UNUSED \<and> p_pid (ptable (tab demo_exited) q) \<noteq> 0"
    by (auto simp: demo_exited_def two_procs_def)
qed (simp_all add: demo_exited_def two_procs_def blank_proc_def)

end
