(* ===== verification/File.thy ===== *)
theory File
  imports Dir Pipe Vm Ptable
begin

text \<open>
  The open files of \<^verbatim>\<open>file.c\<close> and the creation of pipes in \<^verbatim>\<open>pipe.c\<close>, on the state of the whole kernel: the file system,
  the memory with its page allocator, the file table, the pipes, and the process table. A call that sleeps is
  \<open>Blocked\<close>. A call that fills a buffer of its caller returns the bytes it has put there.
\<close>

section \<open>State\<close>

abbreviation NFILE :: nat where
  "NFILE \<equiv> 100"

abbreviation NOFILE :: nat where
  "NOFILE \<equiv> 16"

datatype ftype = FD_NONE | FD_PIPE | FD_INODE

record open_file =
  f_type :: ftype
  f_ref :: int
  f_readable :: bool
  f_writable :: bool
  f_pipe :: uint
  f_ip :: nat
  f_off :: uint

text \<open>A pipe is known by the address of its page; \<open>kcur\<close> is the process that runs, \<^verbatim>\<open>myproc()\<close>.\<close>

record 'd kern =
  kfs :: "'d fs"
  kmemory :: kmem
  ftable :: "nat \<Rightarrow> open_file"
  pipes :: "uint \<Rightarrow> pipe"
  ktab :: ptab
  kcur :: nat

definition set_file :: "'d kern \<Rightarrow> nat \<Rightarrow> (open_file \<Rightarrow> open_file) \<Rightarrow> 'd kern" where
  "set_file s f g = s\<lparr>ftable := (ftable s)(f := g (ftable s f))\<rparr>"

definition set_cur :: "'d kern \<Rightarrow> (proc \<Rightarrow> proc) \<Rightarrow> 'd kern" where
  "set_cur s g = s\<lparr>ktab := set_proc (ktab s) (kcur s) g\<rparr>"

abbreviation myproc :: "'d kern \<Rightarrow> proc" where
  "myproc s \<equiv> ptable (ktab s) (kcur s)"

text \<open>The routines of the file system on the larger state.\<close>

definition on_fs :: "'d kern \<Rightarrow> ('d fs \<Rightarrow> 'd fs res) \<Rightarrow> 'd kern res" where
  "on_fs s m = andthen (m (kfs s)) (\<lambda>x. Ok (s\<lparr>kfs := x\<rparr>))"

definition of_fs :: "'d kern \<Rightarrow> ('d fs \<Rightarrow> ('a \<times> 'd fs) res) \<Rightarrow> ('a \<times> 'd kern) res" where
  "of_fs s m = andthen (m (kfs s)) (\<lambda>(r, x). Ok (r, s\<lparr>kfs := x\<rparr>))"

definition fs_begin :: "'d fs \<Rightarrow> 'd fs res" where
  "fs_begin x = andthen (begin_op (fs_log x)) (\<lambda>lg. Ok (x\<lparr>fs_log := lg\<rparr>))"

definition fs_end :: "'d fs \<Rightarrow> 'd fs res" where
  "fs_end x = andthen (end_op (fs_log x) (fs_bc x)) (\<lambda>(lg, c). Ok (x\<lparr>fs_log := lg, fs_bc := c\<rparr>))"

section \<open>The file table\<close>

definition filealloc :: "'d kern \<Rightarrow> nat option \<times> 'd kern" where
  "filealloc s = (case find (\<lambda>f. f_ref (ftable s f) = 0) [0..<NFILE] of
       None \<Rightarrow> (None, s)
     | Some f \<Rightarrow> (Some f, set_file s f (\<lambda>x. x\<lparr>f_ref := 1\<rparr>)))"

definition filedup :: "'d kern \<Rightarrow> nat \<Rightarrow> 'd kern res" where
  "filedup s f = (if f_ref (ftable s f) < 1 then Panic ''filedup''
     else Ok (set_file s f (\<lambda>x. x\<lparr>f_ref := f_ref x + 1\<rparr>)))"

text \<open>The channels of a pipe are the addresses of its fields \<^verbatim>\<open>nread\<close> and \<^verbatim>\<open>nwrite\<close>.\<close>

primrec chan_addr :: "uint \<Rightarrow> chan \<Rightarrow> wchan" where
  "chan_addr p Nread = Addr (p + 564)"
| "chan_addr p Nwrite = Addr (p + 568)"

definition wake_chans :: "'d kern \<Rightarrow> uint \<Rightarrow> chan list \<Rightarrow> 'd kern" where
  "wake_chans s p chs = s\<lparr>ktab := fold (\<lambda>ch t. wakeup t (Some (chan_addr p ch))) chs (ktab s)\<rparr>"

definition close_pipe :: "'d kern \<Rightarrow> uint \<Rightarrow> bool \<Rightarrow> 'd kern res" where
  "close_pipe s p writable =
     (let (x, ch, freed) = pipeclose (pipes s p) writable;
          s = wake_chans (s\<lparr>pipes := (pipes s)(p := x)\<rparr>) p [ch]
      in if freed then andthen (kfree (kmemory s) p) (\<lambda>m. Ok (s\<lparr>kmemory := m\<rparr>)) else Ok s)"

definition fileclose :: "'d kern \<Rightarrow> nat \<Rightarrow> 'd kern res" where
  "fileclose s f =
     (if f_ref (ftable s f) < 1 then Panic ''fileclose''
      else let s = set_file s f (\<lambda>x. x\<lparr>f_ref := f_ref x - 1\<rparr>) in
        if f_ref (ftable s f) > 0 then Ok s
        else let ff = ftable s f; s = set_file s f (\<lambda>x. x\<lparr>f_ref := 0, f_type := FD_NONE\<rparr>) in
          case f_type ff of
            FD_PIPE \<Rightarrow> close_pipe s (f_pipe ff) (f_writable ff)
          | FD_INODE \<Rightarrow> andthen (on_fs s fs_begin) (\<lambda>s. andthen (on_fs s (\<lambda>x. iput x (f_ip ff))) (\<lambda>s. on_fs s fs_end))
          | FD_NONE \<Rightarrow> Ok s)"

text \<open>The value is \<open>-1\<close> or \<open>0\<close> with the \<^verbatim>\<open>struct stat\<close> written.\<close>

definition filestat :: "'d kern \<Rightarrow> nat \<Rightarrow> (stat option \<times> 'd kern) res" where
  "filestat s f = (let ip = f_ip (ftable s f) in
     if f_type (ftable s f) = FD_INODE
     then andthen (on_fs s (\<lambda>x. ilock x ip)) (\<lambda>s.
       let st = stati (kfs s) ip in
       andthen (on_fs s (\<lambda>x. iunlock x ip)) (\<lambda>s. Ok (Some st, s)))
     else Ok (None, s))"

definition read_pipe :: "'d kern \<Rightarrow> uint \<Rightarrow> int \<Rightarrow> ((int \<times> uchar list) \<times> 'd kern) res" where
  "read_pipe s p n = (case piperead (pipes s p) (p_killed (myproc s)) (nat n) of
     (x, r, chs) \<Rightarrow>
       let s = wake_chans (s\<lparr>pipes := (pipes s)(p := x)\<rparr>) p chs in
       (case r of
          Sleeps _ \<Rightarrow> Blocked
        | Returns None \<Rightarrow> Ok ((-1, []), s)
        | Returns (Some cs) \<Rightarrow> Ok ((int (length cs), cs), s)))"

definition fileread :: "'d devsw \<Rightarrow> 'd kern \<Rightarrow> nat \<Rightarrow> int \<Rightarrow> ((int \<times> uchar list) \<times> 'd kern) res" where
  "fileread dv s f n =
     (if \<not> f_readable (ftable s f) then Ok ((-1, []), s)
      else case f_type (ftable s f) of
        FD_PIPE \<Rightarrow> read_pipe s (f_pipe (ftable s f)) n
      | FD_INODE \<Rightarrow>
          let ip = f_ip (ftable s f) in
          andthen (on_fs s (\<lambda>x. ilock x ip)) (\<lambda>s.
          andthen (of_fs s (\<lambda>x. readi dv x ip (f_off (ftable s f)) (of_int n))) (\<lambda>((r, bs), s).
          let s = (if r > 0 then set_file s f (\<lambda>y. y\<lparr>f_off := f_off y + of_int r\<rparr>) else s) in
          andthen (on_fs s (\<lambda>x. iunlock x ip)) (\<lambda>s. Ok ((r, bs), s))))
      | FD_NONE \<Rightarrow> Panic ''fileread'')"

definition write_pipe :: "'d kern \<Rightarrow> uint \<Rightarrow> uchar list \<Rightarrow> (int \<times> 'd kern) res" where
  "write_pipe s p bs = (case pipewrite (pipes s p) (p_killed (myproc s)) bs of
     (x, left, r, chs) \<Rightarrow>
       let s = wake_chans (s\<lparr>pipes := (pipes s)(p := x)\<rparr>) p chs in
       (case r of
          Sleeps _ \<Rightarrow> Blocked
        | Returns ok \<Rightarrow> Ok (if ok then int (length bs) else -1, s)))"

text \<open>
  The loop of \<^verbatim>\<open>filewrite\<close> over the bytes still to write, in transactions of at most \<^verbatim>\<open>max\<close> bytes; the value tells
  whether all were written.
\<close>

abbreviation WRITE_MAX :: nat where
  "WRITE_MAX \<equiv> ((10 - 1 - 1 - 2) div 2) * 512"

definition write_chunk :: "'d devsw \<Rightarrow> 'd kern \<Rightarrow> nat \<Rightarrow> uchar list \<Rightarrow> (int \<times> 'd kern) res" where
  "write_chunk dv s f bs = (let ip = f_ip (ftable s f) in
     andthen (on_fs s fs_begin) (\<lambda>s.
     andthen (on_fs s (\<lambda>x. ilock x ip)) (\<lambda>s.
     andthen (of_fs s (\<lambda>x. writei dv x ip bs (f_off (ftable s f)))) (\<lambda>(r, s).
     let s = (if r > 0 then set_file s f (\<lambda>y. y\<lparr>f_off := f_off y + of_int r\<rparr>) else s) in
     andthen (on_fs s (\<lambda>x. iunlock x ip)) (\<lambda>s.
     andthen (on_fs s fs_end) (\<lambda>s. Ok (r, s)))))))"

function filewrite_loop :: "'d devsw \<Rightarrow> 'd kern \<Rightarrow> nat \<Rightarrow> uchar list \<Rightarrow> (bool \<times> 'd kern) res" where
  "filewrite_loop dv s f bs =
     (if bs = [] then Ok (True, s)
      else let n1 = min (length bs) WRITE_MAX in
        andthen (write_chunk dv s f (take n1 bs)) (\<lambda>(r, s).
          if r < 0 then Ok (False, s)
          else if r \<noteq> int n1 then Panic ''short filewrite''
          else filewrite_loop dv s f (drop n1 bs)))"
  by pat_completeness auto

termination by (relation "measure (\<lambda>(dv, s, f, bs). length bs)") auto

declare filewrite_loop.simps [simp del]

definition filewrite :: "'d devsw \<Rightarrow> 'd kern \<Rightarrow> nat \<Rightarrow> uchar list \<Rightarrow> (int \<times> 'd kern) res" where
  "filewrite dv s f bs =
     (if \<not> f_writable (ftable s f) then Ok (-1, s)
      else case f_type (ftable s f) of
        FD_PIPE \<Rightarrow> write_pipe s (f_pipe (ftable s f)) bs
      | FD_INODE \<Rightarrow> andthen (filewrite_loop dv s f bs) (\<lambda>(done, s). Ok (if done then int (length bs) else -1, s))
      | FD_NONE \<Rightarrow> Panic ''filewrite'')"

section \<open>Pipes\<close>

definition close_opt :: "'d kern \<Rightarrow> nat option \<Rightarrow> 'd kern res" where
  "close_opt s f = (case f of None \<Rightarrow> Ok s | Some f \<Rightarrow> fileclose s f)"

definition pipealloc :: "'d kern \<Rightarrow> ((nat \<times> nat) option \<times> 'd kern) res" where
  "pipealloc s =
     (let (f0, s) = filealloc s; (f1, s) = (if f0 = None then (None, s) else filealloc s);
          (p, s) = (if f0 = None \<or> f1 = None then (0, s) else let (p, m) = kalloc (kmemory s) in (p, s\<lparr>kmemory := m\<rparr>))
      in case (f0, f1) of
        (Some r, Some w) \<Rightarrow>
          if p = 0 then andthen (close_opt s f0) (\<lambda>s. andthen (close_opt s f1) (\<lambda>s. Ok (None, s)))
          else let x = pipe_init (map (\<lambda>i. kmem_mem (kmemory s) (p + 52 + of_nat i)) [0..<PIPESIZE]);
                   s = s\<lparr>pipes := (pipes s)(p := x)\<rparr>;
                   s = set_file s r (\<lambda>y. y\<lparr>f_type := FD_PIPE, f_readable := True, f_writable := False, f_pipe := p\<rparr>);
                   s = set_file s w (\<lambda>y. y\<lparr>f_type := FD_PIPE, f_readable := False, f_writable := True, f_pipe := p\<rparr>)
               in Ok (Some (r, w), s)
      | _ \<Rightarrow> andthen (close_opt s f0) (\<lambda>s. andthen (close_opt s f1) (\<lambda>s. Ok (None, s))))"

end
