(* ===== verification/Syscall.thy ===== *)
theory Syscall
  imports File Bitmap
begin

text \<open>
  The arguments of system calls (\<^verbatim>\<open>syscall.c\<close>): numbers, pointers and strings that the kernel reads from the memory of the
  process, with the checks that keep the kernel inside of it.
\<close>

section \<open>User memory\<close>

text \<open>
  What the processor does with an address while the page directory of the process is loaded: the byte's place in the
  kernel's mapping of physical memory, or a page fault, which in the kernel ends in the panic of \<^verbatim>\<open>trap\<close>.
\<close>

definition user_ka :: "kmem \<Rightarrow> uint \<Rightarrow> uint \<Rightarrow> uint \<Rightarrow> uint option" where
  "user_ka m pgdir flags va =
     (let pte = fst (walkpgdir m pgdir va False); w = load32 (kmem_mem m) pte in
      if pte = 0 \<or> w AND (PTE_P OR flags) \<noteq> PTE_P OR flags then None
      else Some (P2V (PTE_ADDR w) + (va AND 0xFFF)))"

definition user_byte :: "'d kern \<Rightarrow> uint \<Rightarrow> uchar res" where
  "user_byte s va = (case user_ka (kmemory s) (p_pgdir (myproc s)) 0 va of
     None \<Rightarrow> Panic ''trap'' | Some a \<Rightarrow> Ok (kmem_mem (kmemory s) a))"

definition user_store :: "'d kern \<Rightarrow> uint \<Rightarrow> uchar \<Rightarrow> 'd kern res" where
  "user_store s va b = (case user_ka (kmemory s) (p_pgdir (myproc s)) PTE_W va of
     None \<Rightarrow> Panic ''trap''
   | Some a \<Rightarrow> Ok (s\<lparr>kmemory := (kmemory s)\<lparr>kmem_mem := (kmem_mem (kmemory s))(a := b)\<rparr>\<rparr>))"

primrec user_bytes :: "'d kern \<Rightarrow> uint \<Rightarrow> nat \<Rightarrow> uchar list res" where
  "user_bytes s va 0 = Ok []"
| "user_bytes s va (Suc n) = andthen (user_byte s va) (\<lambda>b. andthen (user_bytes s (va + 1) n) (\<lambda>bs. Ok (b # bs)))"

primrec user_write :: "'d kern \<Rightarrow> uint \<Rightarrow> uchar list \<Rightarrow> 'd kern res" where
  "user_write s va [] = Ok s"
| "user_write s va (b # bs) = andthen (user_store s va b) (\<lambda>s. user_write s (va + 1) bs)"

text \<open>The four bytes of a number, lowest first.\<close>

definition word_of :: "uchar list \<Rightarrow> uint" where
  "word_of bs = ucast (bs ! 0) OR push_bit 8 (ucast (bs ! 1)) OR push_bit 16 (ucast (bs ! 2)) OR push_bit 24 (ucast (bs ! 3))"

definition bytes_of :: "uint \<Rightarrow> uchar list" where
  "bytes_of w = [ucast w, ucast (drop_bit 8 w), ucast (drop_bit 16 w), ucast (drop_bit 24 w)]"

lemma word_of_bytes_of [simp]: "word_of (bytes_of w) = w"
  by (simp add: word_of_def bytes_of_def join_bytes)

section \<open>Arguments\<close>

text \<open>\<open>None\<close> is the return value \<open>-1\<close>.\<close>

definition fetchint :: "'d kern \<Rightarrow> uint \<Rightarrow> uint option res" where
  "fetchint s addr =
     (if addr \<ge> p_sz (myproc s) \<or> addr + 4 > p_sz (myproc s) then Ok None
      else andthen (user_bytes s addr 4) (\<lambda>bs. Ok (Some (word_of bs))))"

text \<open>The loop of \<^verbatim>\<open>fetchstr\<close> over the \<open>k\<close> bytes up to the end of the process's memory, which collects the string.\<close>

primrec fetchstr_loop :: "nat \<Rightarrow> 'd kern \<Rightarrow> uint \<Rightarrow> uchar list option res" where
  "fetchstr_loop 0 s p = Ok None"
| "fetchstr_loop (Suc k) s p = andthen (user_byte s p) (\<lambda>b.
     if b = 0 then Ok (Some [])
     else andthen (fetchstr_loop k s (p + 1)) (\<lambda>r. Ok (map_option (\<lambda>bs. b # bs) r)))"

definition fetchstr :: "'d kern \<Rightarrow> uint \<Rightarrow> (uint \<times> uchar list) option res" where
  "fetchstr s addr =
     (if addr \<ge> p_sz (myproc s) then Ok None
      else andthen (fetchstr_loop (unat (p_sz (myproc s) - addr)) s addr) (\<lambda>r. Ok (map_option (\<lambda>bs. (addr, bs)) r)))"

definition tf_esp :: "'d kern \<Rightarrow> uint" where
  "tf_esp s = load32 (kmem_mem (kmemory s)) (p_tf (myproc s) + 68)"

definition argint :: "'d kern \<Rightarrow> nat \<Rightarrow> uint option res" where
  "argint s n = fetchint s (tf_esp s + 4 + 4 * of_nat n)"

definition argptr :: "'d kern \<Rightarrow> nat \<Rightarrow> int \<Rightarrow> uint option res" where
  "argptr s n sz = andthen (argint s n) (\<lambda>r. case r of
       None \<Rightarrow> Ok None
     | Some i \<Rightarrow>
         if sz < 0 \<or> i \<ge> p_sz (myproc s) \<or> i + of_int sz > p_sz (myproc s) then Ok None else Ok (Some i))"

definition argstr :: "'d kern \<Rightarrow> nat \<Rightarrow> (uint \<times> uchar list) option res" where
  "argstr s n = andthen (argint s n) (\<lambda>r. case r of None \<Rightarrow> Ok None | Some addr \<Rightarrow> fetchstr s addr)"

section \<open>Properties\<close>

lemma fetchint_bounds:
  assumes "p_sz (myproc s) \<le> KERNBASE" "fetchint s addr = Ok (Some w)"
  shows "unat addr + 4 \<le> unat (p_sz (myproc s))"
proof -
  have a: "unat addr < unat (p_sz (myproc s))" "unat (addr + 4) \<le> unat (p_sz (myproc s))" "unat (p_sz (myproc s)) \<le> 2147483648"
    using assms unfolding fetchint_def by (simp_all add: word_less_nat_alt word_le_nat_alt split: if_splits)
  then have "unat (addr + 4) = unat addr + 4" by (subst unat_plus_small) simp_all
  then show ?thesis using a by simp
qed

lemma argptr_bounds:
  assumes "p_sz (myproc s) \<le> KERNBASE" "argptr s n sz = Ok (Some i)" "sz < 2 ^ 31"
  shows "0 \<le> sz" "unat i + nat sz \<le> unat (p_sz (myproc s))"
proof -
  let ?z = "p_sz (myproc s)"
  obtain r where r: "argint s n = Ok r" using assms(2) by (cases "argint s n") (simp_all add: argptr_def)
  have "(case r of None \<Rightarrow> Ok None | Some i \<Rightarrow> if sz < 0 \<or> i \<ge> ?z \<or> i + of_int sz > ?z then Ok None else Ok (Some i)) = Ok (Some i)"
    using assms(2) by (simp only: argptr_def r andthen.simps)
  then have a: "\<not> (sz < 0 \<or> i \<ge> ?z \<or> i + of_int sz > ?z)" by (cases r) (auto split: if_splits)
  then show z: "0 \<le> sz" by linarith
  have "of_int sz = (of_nat (nat sz) :: uint)" using z by simp
  moreover have "nat sz < 2 ^ 32" "nat sz < 2 ^ 31" using assms(3) by simp_all
  ultimately have u: "unat (of_int sz :: uint) = nat sz" "nat sz < 2 ^ 31" by (simp_all only: unat_of_nat_small)
  have "unat i < unat ?z" "unat ?z \<le> 2 ^ 31" "unat (i + of_int sz) \<le> unat ?z"
    using a assms(1) by (simp_all add: word_less_nat_alt word_le_nat_alt)
  moreover from this have "unat (i + of_int sz) = unat i + nat sz" using u unat_plus_small [of i "of_int sz"] by simp
  ultimately show "unat i + nat sz \<le> unat ?z" by linarith
qed

lemma fetchstr_loop_spec:
  "fetchstr_loop k s p = Ok (Some bs) \<Longrightarrow> length bs < k \<and> 0 \<notin> set bs \<and> user_bytes s p (Suc (length bs)) = Ok (bs @ [0])"
proof (induction k arbitrary: p bs)
  case (Suc k)
  obtain b where b: "user_byte s p = Ok b" using Suc.prems by (cases "user_byte s p") simp_all
  show ?case
  proof (cases "b = 0")
    case True
    then show ?thesis using Suc.prems b by simp
  next
    case False
    obtain r where r: "fetchstr_loop k s (p + 1) = Ok r" using Suc.prems b False by (cases "fetchstr_loop k s (p + 1)") simp_all
    obtain cs where "r = Some cs" "bs = b # cs" using Suc.prems b False r by (cases r) simp_all
    then show ?thesis using Suc.IH [of "p + 1" cs] r b False by simp
  qed
qed simp

lemma fetchstr_bounds:
  assumes "fetchstr s addr = Ok (Some (p, bs))"
  shows "p = addr" "unat p + length bs < unat (p_sz (myproc s))" "0 \<notin> set bs" "user_bytes s p (Suc (length bs)) = Ok (bs @ [0])"
proof -
  let ?z = "p_sz (myproc s)"
  have lt: "\<not> ?z \<le> addr" using assms by (cases "?z \<le> addr") (simp_all add: fetchstr_def)
  then have l: "andthen (fetchstr_loop (unat (?z - addr)) s addr) (\<lambda>r. Ok (map_option (\<lambda>bs. (addr, bs)) r)) = Ok (Some (p, bs))"
    using assms by (simp only: fetchstr_def if_False)
  obtain r where r: "fetchstr_loop (unat (?z - addr)) s addr = Ok r" using l by (cases "fetchstr_loop (unat (?z - addr)) s addr") simp_all
  then have e: "r = Some bs" "p = addr" using l by (cases r; simp)+
  note f = fetchstr_loop_spec [OF r [unfolded e(1)]]
  show "p = addr" "0 \<notin> set bs" "user_bytes s p (Suc (length bs)) = Ok (bs @ [0])" using f unfolding e(2) by blast+
  have "unat (?z - addr) = unat ?z - unat addr" using lt by (intro unat_minus_small) (simp only: not_le less_imp_le)
  then show "unat p + length bs < unat ?z" using conjunct1 [OF f] unfolding e(2) by linarith
qed

text \<open>C13: The argument checks keep the kernel inside the memory of the process: the number that \<^verbatim>\<open>fetchint\<close> reads, the block of
  memory that \<^verbatim>\<open>argptr\<close> accepts, and the string that \<^verbatim>\<open>fetchstr\<close> accepts with its terminating null all lie below the
  process's size, whatever the arguments, overflow of the address computations included.\<close>

theorem syscall_args_in_bounds:
  assumes "p_sz (myproc s) \<le> KERNBASE"
  shows "(fetchint s addr = Ok (Some w) \<longrightarrow> unat addr + 4 \<le> unat (p_sz (myproc s))) \<and>
    (argptr s n sz = Ok (Some i) \<and> sz < 2 ^ 31 \<longrightarrow> 0 \<le> sz \<and> unat i + nat sz \<le> unat (p_sz (myproc s))) \<and>
    (fetchstr s addr = Ok (Some (p, bs)) \<longrightarrow> p = addr \<and> unat p + length bs < unat (p_sz (myproc s)) \<and>
       0 \<notin> set bs \<and> user_bytes s p (Suc (length bs)) = Ok (bs @ [0]))"
  by (intro conjI impI; (elim conjE)?) (rule fetchint_bounds [OF assms] argptr_bounds [OF assms] fetchstr_bounds; assumption)+

text \<open>A process with 16 bytes of memory, all null.\<close>

definition demo_user :: "unit kern" where
  "demo_user = \<lparr>kfs = demo_fs,
     kmemory = \<lparr>kmem_mem = store32 (store32 (\<lambda>_. 0) 0x80001000 0x2007) 0x80002000 0x3007, kmem_use_lock = True, kmem_freelist = 0, kend = 0x80100000\<rparr>,
     ftable = (\<lambda>_. \<lparr>f_type = FD_NONE, f_ref = 0, f_readable = False, f_writable = False, f_pipe = 0, f_ip = 0, f_off = 0\<rparr>),
     pipes = (\<lambda>_. pipe_init []), ktab = boot_table\<lparr>ptable := \<lambda>_. blank_proc\<lparr>p_sz := 16, p_pgdir := 0x80001000, p_tf := 0x80004000\<rparr>\<rparr>, kcur = 0\<rparr>"

lemma demo_user_byte: "user_byte demo_user 5 = Ok 0"
  by (simp add: user_byte_def user_ka_def demo_user_def walkpgdir_def pde_addr_def PDX_def PTX_def PTE_ADDR_def P2V_def Let_def load32_def store32_def)

lemma demo_user_sz: "p_sz (myproc demo_user) = 16"
  by (simp add: demo_user_def)

lemma demo_user_loop: "fetchstr_loop (Suc 10) demo_user 5 = Ok (Some [])"
  by (subst fetchstr_loop.simps(2), subst demo_user_byte) (simp only: andthen.simps if_True simp_thms)

lemma demo_user_str: "fetchstr demo_user 5 = Ok (Some (5, []))"
proof -
  have "unat (16 - 5 :: uint) = Suc 10" "\<not> (16 :: uint) \<le> 5" by simp_all
  then show ?thesis unfolding fetchstr_def demo_user_sz by (simp only: if_False demo_user_loop andthen.simps option.map)
qed

theorem syscall_args_in_bounds_witness:
  "fetchstr demo_user 5 = Ok (Some (5, [])) \<and> unat (5 :: uint) + length ([] :: uchar list) < 16"
proof -
  have "p_sz (myproc demo_user) \<le> KERNBASE" by (simp add: demo_user_sz)
  from syscall_args_in_bounds [OF this, THEN conjunct2, THEN conjunct2, rule_format, OF demo_user_str]
  have "unat (5 :: uint) + length ([] :: uchar list) < unat (p_sz (myproc demo_user))" by (elim conjE)
  then show ?thesis using demo_user_str by (simp add: demo_user_sz)
qed

end
