(* ===== verification/Proc.thy ===== *)
theory Proc
  imports Syscall
begin

text \<open>
  Processes (\<^verbatim>\<open>proc.c\<close>) with their memory and files: the creation of processes, their size, exit and wait, on the state of
  the whole kernel, and the system calls of \<^verbatim>\<open>sysproc.c\<close>. The sections on the process table are those of theory Ptable.
\<close>

section \<open>Creation\<close>

text \<open>The addresses the linker gives the start of the kernel's data and the two labels a new process starts at.\<close>

record ksyms =
  sym_data :: uint
  sym_trapret :: uint
  sym_forkret :: uint

definition kset :: "'d kern \<Rightarrow> nat \<Rightarrow> (proc \<Rightarrow> proc) \<Rightarrow> 'd kern" where
  "kset s p g = s\<lparr>ktab := set_proc (ktab s) p g\<rparr>"

definition set_mem :: "'d kern \<Rightarrow> (mem \<Rightarrow> mem) \<Rightarrow> 'd kern" where
  "set_mem s g = s\<lparr>kmemory := (kmemory s)\<lparr>kmem_mem := g (kmem_mem (kmemory s))\<rparr>\<rparr>"

text \<open>
  \<^verbatim>\<open>allocproc\<close>: the top of the kernel stack holds the trap frame of 76 bytes, the return address \<^verbatim>\<open>trapret\<close>, and the context of
  20 bytes whose last word is \<^verbatim>\<open>forkret\<close>.
\<close>

definition allocproc :: "ksyms \<Rightarrow> 'd kern \<Rightarrow> (nat option \<times> 'd kern) res" where
  "allocproc ks s = andthen (alloc_slot (ktab s)) (\<lambda>(r, t).
     let s = s\<lparr>ktab := t\<rparr> in
     case r of
       None \<Rightarrow> Ok (None, s)
     | Some p \<Rightarrow>
         let (k, m) = kalloc (kmemory s);
             s = kset (s\<lparr>kmemory := m\<rparr>) p (\<lambda>x. x\<lparr>p_kstack := k\<rparr>)
         in if k = 0 then Ok (None, kset s p (\<lambda>x. x\<lparr>p_state := UNUSED\<rparr>))
            else let tf = k + 4096 - 76; ctx = tf - 4 - 20;
                     s = set_mem s (\<lambda>m. store32 m (tf - 4) (sym_trapret ks));
                     s = set_mem s (\<lambda>m. store32 (memset m ctx 0 20) (ctx + 16) (sym_forkret ks))
                 in Ok (Some p, kset s p (\<lambda>x. x\<lparr>p_tf := tf, p_context := ctx\<rparr>)))"

text \<open>\<^verbatim>\<open>safestrcpy\<close> into the name of a process: a source of less than 15 characters is followed by two null characters.\<close>

definition set_name :: "uchar list \<Rightarrow> uchar list \<Rightarrow> uchar list" where
  "set_name old src = (if length src < 15 then src @ [0, 0] @ drop (length src + 2) old else take 15 src @ [0])"

definition store16 :: "mem \<Rightarrow> uint \<Rightarrow> ushort \<Rightarrow> mem" where
  "store16 m a w = m(a := ucast w, a + 1 := ucast (drop_bit 8 w))"

text \<open>\<^verbatim>\<open>userinit\<close>; \<open>init\<close> and \<open>sz\<close> are the code the linker has included of \<^verbatim>\<open>initcode.S\<close>. A null pointer from \<^verbatim>\<open>allocproc\<close> is not tested.\<close>

definition userinit :: "ksyms \<Rightarrow> 'd devsw \<Rightarrow> (nat \<Rightarrow> uchar) \<Rightarrow> uint \<Rightarrow> 'd kern \<Rightarrow> 'd kern res" where
  "userinit ks dv init sz s = andthen (allocproc ks s) (\<lambda>(r, s).
     case r of
       None \<Rightarrow> Fault
     | Some p \<Rightarrow>
         let s = s\<lparr>ktab := (ktab s)\<lparr>initproc := Some p\<rparr>\<rparr> in
         andthen (setupkvm (sym_data ks) (kmemory s)) (\<lambda>(d, m).
         let s = kset (s\<lparr>kmemory := m\<rparr>) p (\<lambda>x. x\<lparr>p_pgdir := d\<rparr>) in
         if d = 0 then Panic ''userinit: out of memory?''
         else andthen (inituvm (kmemory s) d init sz) (\<lambda>m.
         let s = kset (s\<lparr>kmemory := m\<rparr>) p (\<lambda>x. x\<lparr>p_sz := PGSIZE\<rparr>); tf = p_tf (ptable (ktab s) p);
             s = set_mem s (\<lambda>m. memset m tf 0 76);
             s = set_mem s (\<lambda>m. store16 m (tf + 60) 0x1B);
             s = set_mem s (\<lambda>m. store16 m (tf + 44) 0x23);
             s = set_mem s (\<lambda>m. store16 m (tf + 40) 0x23);
             s = set_mem s (\<lambda>m. store16 m (tf + 72) 0x23);
             s = set_mem s (\<lambda>m. store32 m (tf + 64) 0x200);
             s = set_mem s (\<lambda>m. store32 m (tf + 68) PGSIZE);
             s = set_mem s (\<lambda>m. store32 m (tf + 56) 0);
             s = kset s p (\<lambda>x. x\<lparr>p_name := set_name (p_name x) [105, 110, 105, 116, 99, 111, 100, 101]\<rparr>)
         in andthen (of_fs s (\<lambda>x. namei dv x 0 [slash])) (\<lambda>(ip, s).
         let s = kset s p (\<lambda>x. x\<lparr>p_cwd := ip\<rparr>)
         in Ok (kset s p (\<lambda>x. x\<lparr>p_state := RUNNABLE\<rparr>))))))"

section \<open>Growing and forking\<close>

text \<open>\<^verbatim>\<open>switchuvm\<close>: its checks; it then loads the task register and the page directory of the processor.\<close>

definition switchuvm :: "proc \<Rightarrow> unit res" where
  "switchuvm p =
     (if p_kstack p = 0 then Panic ''switchuvm: no kstack''
      else if p_pgdir p = 0 then Panic ''switchuvm: no pgdir''
      else Ok ())"

definition growproc :: "'d kern \<Rightarrow> int \<Rightarrow> (int \<times> 'd kern) res" where
  "growproc s n =
     (let sz = p_sz (myproc s); pgdir = p_pgdir (myproc s) in
      andthen (if n > 0 then andthen (allocuvm (kmemory s) pgdir sz (sz + of_int n)) (\<lambda>(r, m). Ok (r, r = 0, s\<lparr>kmemory := m\<rparr>))
               else if n < 0 then andthen (deallocuvm (kmemory s) pgdir sz (sz + of_int n)) (\<lambda>(r, m). Ok (r, r = 0, s\<lparr>kmemory := m\<rparr>))
               else Ok (sz, False, s))
        (\<lambda>(sz, failed, s). if failed then Ok (-1, s)
          else let s = set_cur s (\<lambda>x. x\<lparr>p_sz := sz\<rparr>) in andthen (switchuvm (myproc s)) (\<lambda>_. Ok (0, s))))"

text \<open>The loop of \<^verbatim>\<open>fork\<close> over the open files.\<close>

primrec dup_files :: "nat list \<Rightarrow> 'd kern \<Rightarrow> nat \<Rightarrow> 'd kern res" where
  "dup_files [] s np = Ok s"
| "dup_files (i # is) s np = (case p_ofile (myproc s) i of
       None \<Rightarrow> dup_files is s np
     | Some f \<Rightarrow> andthen (filedup s f) (\<lambda>s. dup_files is (kset s np (\<lambda>x. x\<lparr>p_ofile := (p_ofile x)(i := Some f)\<rparr>)) np))"

definition copy_tf :: "mem \<Rightarrow> uint \<Rightarrow> uint \<Rightarrow> mem" where
  "copy_tf m dst src = (\<lambda>x. if x - dst < 76 then m (src + (x - dst)) else m x)"

text \<open>The end of \<^verbatim>\<open>fork\<close>, from the files on, and the whole of it from the point where the child's memory has been made.\<close>

definition fork_files :: "'d kern \<Rightarrow> nat \<Rightarrow> (int \<times> 'd kern) res" where
  "fork_files s np = andthen (dup_files [0..<NOFILE] s np) (\<lambda>s.
     case p_cwd (myproc s) of
       None \<Rightarrow> Fault
     | Some cwd \<Rightarrow>
         let (ip, x) = idup (kfs s) cwd;
             s = kset (s\<lparr>kfs := x\<rparr>) np (\<lambda>x. x\<lparr>p_cwd := Some ip\<rparr>);
             s = kset s np (\<lambda>x. x\<lparr>p_name := set_name (p_name x) (takeWhile (\<lambda>c. c \<noteq> 0) (p_name (myproc s)))\<rparr>);
             pid = p_pid (ptable (ktab s) np)
         in Ok (pid, kset s np (\<lambda>x. x\<lparr>p_state := RUNNABLE\<rparr>)))"

definition fork_child :: "'d kern \<Rightarrow> nat \<Rightarrow> (int \<times> 'd kern) res" where
  "fork_child s np =
     (let s = s\<lparr>ktab := fork_fill (ktab s) np (kcur s)\<rparr>; tf = p_tf (ptable (ktab s) np);
          s = set_mem s (\<lambda>m. copy_tf m tf (p_tf (myproc s)));
          s = set_mem s (\<lambda>m. store32 m (tf + 28) 0)
      in fork_files s np)"

definition fork :: "ksyms \<Rightarrow> 'd kern \<Rightarrow> (int \<times> 'd kern) res" where
  "fork ks s = andthen (allocproc ks s) (\<lambda>(r, s).
     case r of
       None \<Rightarrow> Ok (-1, s)
     | Some np \<Rightarrow>
         andthen (copyuvm (sym_data ks) (kmemory s) (p_pgdir (myproc s)) (p_sz (myproc s))) (\<lambda>(d, m).
         let s = kset (s\<lparr>kmemory := m\<rparr>) np (\<lambda>x. x\<lparr>p_pgdir := d\<rparr>) in
         if d = 0
         then andthen (kfree (kmemory s) (p_kstack (ptable (ktab s) np))) (\<lambda>m.
                Ok (-1, kset (s\<lparr>kmemory := m\<rparr>) np (\<lambda>x. x\<lparr>p_kstack := 0, p_state := UNUSED\<rparr>)))
         else fork_child s np))"

section \<open>Exit and wait\<close>

primrec close_files :: "nat list \<Rightarrow> 'd kern \<Rightarrow> 'd kern res" where
  "close_files [] s = Ok s"
| "close_files (fd # fds) s = (case p_ofile (myproc s) fd of
       None \<Rightarrow> close_files fds s
     | Some f \<Rightarrow> andthen (fileclose s f) (\<lambda>s. close_files fds (set_cur s (\<lambda>x. x\<lparr>p_ofile := (p_ofile x)(fd := None)\<rparr>))))"

text \<open>\<^verbatim>\<open>exit\<close> up to its call of \<^verbatim>\<open>sched\<close>, which does not return.\<close>

definition exit :: "'d kern \<Rightarrow> 'd kern res" where
  "exit s =
     (if initproc (ktab s) = Some (kcur s) then Panic ''init exiting''
      else andthen (close_files [0..<NOFILE] s) (\<lambda>s.
        andthen (on_fs s fs_begin) (\<lambda>s.
        case p_cwd (myproc s) of
          None \<Rightarrow> Fault
        | Some ip \<Rightarrow>
            andthen (on_fs s (\<lambda>x. iput x ip)) (\<lambda>s.
            andthen (on_fs s fs_end) (\<lambda>s.
            let s = set_cur s (\<lambda>x. x\<lparr>p_cwd := None\<rparr>)
            in Ok (s\<lparr>ktab := exit_table (ktab s) (kcur s)\<rparr>))))))"

definition wait :: "'d kern \<Rightarrow> (int \<times> 'd kern) res" where
  "wait s = (case wait_scan (ktab s) (kcur s) False [0..<NPROC] of
       Reaps p \<Rightarrow>
         let pid = p_pid (ptable (ktab s) p) in
         andthen (kfree (kmemory s) (p_kstack (ptable (ktab s) p))) (\<lambda>m.
         andthen (freevm m (p_pgdir (ptable (ktab s) p))) (\<lambda>m.
         Ok (pid, s\<lparr>kmemory := m, ktab := reap (ktab s) p\<rparr>)))
     | WaitFails \<Rightarrow> Ok (-1, s)
     | WaitSleeps \<Rightarrow> Blocked)"

section \<open>System calls\<close>

definition sys_fork :: "ksyms \<Rightarrow> 'd kern \<Rightarrow> (int \<times> 'd kern) res" where
  "sys_fork ks s = fork ks s"

definition sys_exit :: "'d kern \<Rightarrow> (int \<times> 'd kern) res" where
  "sys_exit s = andthen (exit s) (\<lambda>s. Ok (0, s))"

definition sys_wait :: "'d kern \<Rightarrow> (int \<times> 'd kern) res" where
  "sys_wait s = wait s"

definition sys_kill :: "'d kern \<Rightarrow> (int \<times> 'd kern) res" where
  "sys_kill s = andthen (argint s 0) (\<lambda>r. case r of
       None \<Rightarrow> Ok (-1, s)
     | Some pid \<Rightarrow> let (v, t) = kill (ktab s) (sint pid) in Ok (v, s\<lparr>ktab := t\<rparr>))"

definition sys_getpid :: "'d kern \<Rightarrow> (int \<times> 'd kern) res" where
  "sys_getpid s = Ok (p_pid (myproc s), s)"

definition sys_sbrk :: "'d kern \<Rightarrow> (int \<times> 'd kern) res" where
  "sys_sbrk s = andthen (argint s 0) (\<lambda>r. case r of
       None \<Rightarrow> Ok (-1, s)
     | Some n \<Rightarrow> let addr = sint (p_sz (myproc s)) in
         andthen (growproc s (sint n)) (\<lambda>(v, s). Ok (if v < 0 then -1 else addr, s)))"

text \<open>The clock \<^verbatim>\<open>ticks\<close> is an argument; one turn of the loop of \<^verbatim>\<open>sys_sleep\<close> that began at \<open>ticks0\<close>.\<close>

definition sleep_turn :: "uint \<Rightarrow> uint \<Rightarrow> uint \<Rightarrow> 'd kern \<Rightarrow> (int \<times> 'd kern) res" where
  "sleep_turn ticks ticks0 n s =
     (if ticks - ticks0 < n then if p_killed (myproc s) then Ok (-1, s) else Blocked else Ok (0, s))"

definition sys_sleep :: "uint \<Rightarrow> 'd kern \<Rightarrow> (int \<times> 'd kern) res" where
  "sys_sleep ticks s = andthen (argint s 0) (\<lambda>r. case r of
       None \<Rightarrow> Ok (-1, s)
     | Some n \<Rightarrow> sleep_turn ticks ticks n s)"

definition sys_uptime :: "uint \<Rightarrow> 'd kern \<Rightarrow> (int \<times> 'd kern) res" where
  "sys_uptime ticks s = Ok (sint ticks, s)"

end
