(* ===== verification/Sysfile.thy ===== *)
theory Sysfile
  imports Proc
begin

text \<open>
  The system calls on files (\<^verbatim>\<open>sysfile.c\<close>): they fetch their arguments from the process and call the file table and the file
  system. The value of a call is an \<open>int\<close>, \<open>-1\<close> for failure.
\<close>

section \<open>Descriptors\<close>

definition argfd :: "'d kern \<Rightarrow> nat \<Rightarrow> (nat \<times> nat) option res" where
  "argfd s n = andthen (argint s n) (\<lambda>r. case r of
       None \<Rightarrow> Ok None
     | Some w \<Rightarrow> let fd = sint w in
         if fd < 0 \<or> fd \<ge> int NOFILE then Ok None
         else Ok (map_option (\<lambda>f. (nat fd, f)) (p_ofile (myproc s) (nat fd))))"

definition fdalloc :: "'d kern \<Rightarrow> nat \<Rightarrow> nat option \<times> 'd kern" where
  "fdalloc s f = (case find (\<lambda>fd. p_ofile (myproc s) fd = None) [0..<NOFILE] of
       None \<Rightarrow> (None, s)
     | Some fd \<Rightarrow> (Some fd, set_cur s (\<lambda>x. x\<lparr>p_ofile := (p_ofile x)(fd := Some f)\<rparr>)))"

definition clear_fd :: "'d kern \<Rightarrow> nat \<Rightarrow> 'd kern" where
  "clear_fd s fd = set_cur s (\<lambda>x. x\<lparr>p_ofile := (p_ofile x)(fd := None)\<rparr>)"

definition sys_dup :: "'d kern \<Rightarrow> (int \<times> 'd kern) res" where
  "sys_dup s = andthen (argfd s 0) (\<lambda>r. case r of
       None \<Rightarrow> Ok (-1, s)
     | Some (_, f) \<Rightarrow> (case fdalloc s f of
         (None, s) \<Rightarrow> Ok (-1, s)
       | (Some fd, s) \<Rightarrow> andthen (filedup s f) (\<lambda>s. Ok (int fd, s))))"

text \<open>The arguments of \<^verbatim>\<open>sys_read\<close> and \<^verbatim>\<open>sys_write\<close>: the file, the number of bytes and the buffer.\<close>

definition rw_args :: "'d kern \<Rightarrow> (nat \<times> int \<times> uint) option res" where
  "rw_args s = andthen (argfd s 0) (\<lambda>r. case r of
       None \<Rightarrow> Ok None
     | Some (_, f) \<Rightarrow> andthen (argint s 2) (\<lambda>r. case r of
         None \<Rightarrow> Ok None
       | Some n \<Rightarrow> andthen (argptr s 1 (sint n)) (\<lambda>r. Ok (map_option (\<lambda>p. (f, sint n, p)) r))))"

definition sys_read :: "'d devsw \<Rightarrow> 'd kern \<Rightarrow> (int \<times> 'd kern) res" where
  "sys_read dv s = andthen (rw_args s) (\<lambda>r. case r of
       None \<Rightarrow> Ok (-1, s)
     | Some (f, n, p) \<Rightarrow> andthen (fileread dv s f n) (\<lambda>((v, bs), s). andthen (user_write s p bs) (\<lambda>s. Ok (v, s))))"

text \<open>\<^verbatim>\<open>filewrite\<close> takes the bytes themselves; it does not look at the buffer of a file that is not open for writing.\<close>

definition sys_write :: "'d devsw \<Rightarrow> 'd kern \<Rightarrow> (int \<times> 'd kern) res" where
  "sys_write dv s = andthen (rw_args s) (\<lambda>r. case r of
       None \<Rightarrow> Ok (-1, s)
     | Some (f, n, p) \<Rightarrow>
         if f_writable (ftable s f) then andthen (user_bytes s p (nat n)) (\<lambda>bs. filewrite dv s f bs)
         else filewrite dv s f [])"

definition sys_close :: "'d kern \<Rightarrow> (int \<times> 'd kern) res" where
  "sys_close s = andthen (argfd s 0) (\<lambda>r. case r of
       None \<Rightarrow> Ok (-1, s)
     | Some (fd, f) \<Rightarrow> andthen (fileclose (clear_fd s fd) f) (\<lambda>s. Ok (0, s)))"

text \<open>The bytes of a \<^verbatim>\<open>struct stat\<close>, with the padding the compiler puts before the fields of four bytes.\<close>

definition stat_bytes :: "uchar list \<Rightarrow> stat \<Rightarrow> uchar list" where
  "stat_bytes old st =
     take 2 (bytes_of (ucast (st_type st))) @ take 2 (drop 2 old) @ bytes_of (st_dev st) @ bytes_of (st_ino st) @
     take 2 (bytes_of (ucast (st_nlink st))) @ take 2 (drop 14 old) @ bytes_of (st_size st)"

definition sys_fstat :: "'d kern \<Rightarrow> (int \<times> 'd kern) res" where
  "sys_fstat s = andthen (argfd s 0) (\<lambda>r. case r of
       None \<Rightarrow> Ok (-1, s)
     | Some (_, f) \<Rightarrow> andthen (argptr s 1 20) (\<lambda>r. case r of
         None \<Rightarrow> Ok (-1, s)
       | Some p \<Rightarrow> andthen (filestat s f) (\<lambda>(r, s). case r of
           None \<Rightarrow> Ok (-1, s)
         | Some st \<Rightarrow> andthen (user_bytes s p 20) (\<lambda>old. andthen (user_write s p (stat_bytes old st)) (\<lambda>s. Ok (0, s))))))"

section \<open>Links\<close>

text \<open>A transaction around the work of a call; \<open>cwd\<close> is the directory relative paths start at.\<close>

definition in_op :: "'d kern \<Rightarrow> ('d fs \<Rightarrow> ('a \<times> 'd fs) res) \<Rightarrow> ('a \<times> 'd kern) res" where
  "in_op s m = of_fs s (\<lambda>x. andthen (fs_begin x) (\<lambda>x. andthen (m x) (\<lambda>(r, x). andthen (fs_end x) (\<lambda>x. Ok (r, x)))))"

definition fs_link :: "'d devsw \<Rightarrow> nat \<Rightarrow> uchar list \<Rightarrow> uchar list \<Rightarrow> 'd fs \<Rightarrow> (int \<times> 'd fs) res" where
  "fs_link dv cwd old new x = andthen (namei dv x cwd old) (\<lambda>(r, x). case r of
       None \<Rightarrow> Ok (-1, x)
     | Some ip \<Rightarrow> andthen (ilock x ip) (\<lambda>x.
         if i_type (inode_of x ip) = T_DIR then andthen (iunlockput x ip) (\<lambda>x. Ok (-1, x))
         else
         let bad = (\<lambda>x. andthen (ilock x ip) (\<lambda>x.
               andthen (iupdate (set_inode x ip (\<lambda>y. y\<lparr>i_nlink := i_nlink y - 1\<rparr>)) ip) (\<lambda>x.
               andthen (iunlockput x ip) (\<lambda>x. Ok (-1 :: int, x))))) in
         andthen (iupdate (set_inode x ip (\<lambda>y. y\<lparr>i_nlink := i_nlink y + 1\<rparr>)) ip) (\<lambda>x.
         andthen (iunlock x ip) (\<lambda>x.
         andthen (nameiparent dv x cwd new (\<lambda>_. 0)) (\<lambda>((r, name), x). case r of
           None \<Rightarrow> bad x
         | Some dp \<Rightarrow> andthen (ilock x dp) (\<lambda>x.
             if i_dev (inode_of x dp) \<noteq> i_dev (inode_of x ip) then andthen (iunlockput x dp) bad
             else andthen (dirlink dv x dp name (i_inum (inode_of x ip))) (\<lambda>(v, x).
               if v < 0 then andthen (iunlockput x dp) bad
               else andthen (iunlockput x dp) (\<lambda>x. andthen (iput x ip) (\<lambda>x. Ok (0, x))))))))))"

definition sys_link :: "'d devsw \<Rightarrow> 'd kern \<Rightarrow> (int \<times> 'd kern) res" where
  "sys_link dv s = andthen (argstr s 0) (\<lambda>r. case r of
       None \<Rightarrow> Ok (-1, s)
     | Some (_, old) \<Rightarrow> andthen (argstr s 1) (\<lambda>r. case r of
         None \<Rightarrow> Ok (-1, s)
       | Some (_, new) \<Rightarrow> (case p_cwd (myproc s) of None \<Rightarrow> Fault | Some cwd \<Rightarrow> in_op s (fs_link dv cwd old new))))"

text \<open>The loop of \<^verbatim>\<open>isdirempty\<close> over the offsets behind the first two entries.\<close>

primrec isdirempty_loop :: "nat list \<Rightarrow> 'd devsw \<Rightarrow> 'd fs \<Rightarrow> nat \<Rightarrow> (bool \<times> 'd fs) res" where
  "isdirempty_loop [] dv x dp = Ok (True, x)"
| "isdirempty_loop (off # offs) dv x dp = andthen (readi dv x dp (of_nat off) 16) (\<lambda>((n, bs), x).
     if n \<noteq> 16 then Panic ''isdirempty: readi''
     else if de_inum (get_dirent bs) \<noteq> 0 then Ok (False, x)
     else isdirempty_loop offs dv x dp)"

definition isdirempty :: "'d devsw \<Rightarrow> 'd fs \<Rightarrow> nat \<Rightarrow> (bool \<times> 'd fs) res" where
  "isdirempty dv x dp = isdirempty_loop (drop 2 (dir_offs (i_size (inode_of x dp)))) dv x dp"

definition dot_name :: "nat \<Rightarrow> name" where
  "dot_name n = (\<lambda>i. if i < n then 46 else 0)"

definition fs_unlink :: "'d devsw \<Rightarrow> nat \<Rightarrow> uchar list \<Rightarrow> 'd fs \<Rightarrow> (int \<times> 'd fs) res" where
  "fs_unlink dv cwd path x = andthen (nameiparent dv x cwd path (\<lambda>_. 0)) (\<lambda>((r, name), x). case r of
       None \<Rightarrow> Ok (-1, x)
     | Some dp \<Rightarrow> andthen (ilock x dp) (\<lambda>x.
         let bad = (\<lambda>x. andthen (iunlockput x dp) (\<lambda>x. Ok (-1 :: int, x))) in
         if namecmp name (dot_name 1) = 0 \<or> namecmp name (dot_name 2) = 0 then bad x
         else andthen (dirlookup dv x dp name) (\<lambda>(r, x). case r of
           None \<Rightarrow> bad x
         | Some (ip, off) \<Rightarrow> andthen (ilock x ip) (\<lambda>x.
             if sint (i_nlink (inode_of x ip)) < 1 then Panic ''unlink: nlink < 1''
             else andthen (if i_type (inode_of x ip) = T_DIR then isdirempty dv x ip else Ok (True, x)) (\<lambda>(empty, x).
             if \<not> empty then andthen (iunlockput x ip) bad
             else andthen (writei dv x dp (replicate 16 0) off) (\<lambda>(n, x).
             if n \<noteq> 16 then Panic ''unlink: writei''
             else andthen (if i_type (inode_of x ip) = T_DIR
                           then iupdate (set_inode x dp (\<lambda>y. y\<lparr>i_nlink := i_nlink y - 1\<rparr>)) dp else Ok x) (\<lambda>x.
             andthen (iunlockput x dp) (\<lambda>x.
             andthen (iupdate (set_inode x ip (\<lambda>y. y\<lparr>i_nlink := i_nlink y - 1\<rparr>)) ip) (\<lambda>x.
             andthen (iunlockput x ip) (\<lambda>x. Ok (0, x)))))))))))"

definition sys_unlink :: "'d devsw \<Rightarrow> 'd kern \<Rightarrow> (int \<times> 'd kern) res" where
  "sys_unlink dv s = andthen (argstr s 0) (\<lambda>r. case r of
       None \<Rightarrow> Ok (-1, s)
     | Some (_, path) \<Rightarrow> (case p_cwd (myproc s) of None \<Rightarrow> Fault | Some cwd \<Rightarrow> in_op s (fs_unlink dv cwd path)))"

section \<open>Creating and opening\<close>

text \<open>\<^verbatim>\<open>create\<close>: the inode, locked, or the null pointer.\<close>

definition create :: "'d devsw \<Rightarrow> nat \<Rightarrow> uchar list \<Rightarrow> ushort \<Rightarrow> ushort \<Rightarrow> ushort \<Rightarrow> 'd fs \<Rightarrow> (nat option \<times> 'd fs) res" where
  "create dv cwd path ty major minor x = andthen (nameiparent dv x cwd path (\<lambda>_. 0)) (\<lambda>((r, name), x). case r of
       None \<Rightarrow> Ok (None, x)
     | Some dp \<Rightarrow> andthen (ilock x dp) (\<lambda>x.
         andthen (dirlookup dv x dp name) (\<lambda>(r, x). case r of
           Some (ip, _) \<Rightarrow> andthen (iunlockput x dp) (\<lambda>x.
             andthen (ilock x ip) (\<lambda>x.
             if ty = T_FILE \<and> i_type (inode_of x ip) = T_FILE then Ok (Some ip, x)
             else andthen (iunlockput x ip) (\<lambda>x. Ok (None, x))))
         | None \<Rightarrow> andthen (ialloc x (i_dev (inode_of x dp)) ty) (\<lambda>(ip, x).
             andthen (ilock x ip) (\<lambda>x.
             andthen (iupdate (set_inode x ip (\<lambda>y. y\<lparr>i_major := major, i_minor := minor, i_nlink := 1\<rparr>)) ip) (\<lambda>x.
             andthen (if ty = T_DIR
               then andthen (iupdate (set_inode x dp (\<lambda>y. y\<lparr>i_nlink := i_nlink y + 1\<rparr>)) dp) (\<lambda>x.
                 andthen (dirlink dv x ip (dot_name 1) (i_inum (inode_of x ip))) (\<lambda>(v, x).
                 if v < 0 then Panic ''create dots''
                 else andthen (dirlink dv x ip (dot_name 2) (i_inum (inode_of x dp))) (\<lambda>(v, x).
                   if v < 0 then Panic ''create dots'' else Ok x)))
               else Ok x) (\<lambda>x.
             andthen (dirlink dv x dp name (i_inum (inode_of x ip))) (\<lambda>(v, x).
             if v < 0 then Panic ''create: dirlink''
             else andthen (iunlockput x dp) (\<lambda>x. Ok (Some ip, x)))))))))) "

abbreviation (input) O_WRONLY :: uint where "O_WRONLY \<equiv> 1"
abbreviation (input) O_RDWR :: uint where "O_RDWR \<equiv> 2"
abbreviation (input) O_CREATE :: uint where "O_CREATE \<equiv> 0x200"

text \<open>The part of \<^verbatim>\<open>sys_open\<close> that finds or creates the inode, and leaves it locked.\<close>

definition open_inode :: "'d devsw \<Rightarrow> nat \<Rightarrow> uchar list \<Rightarrow> uint \<Rightarrow> 'd fs \<Rightarrow> (nat option \<times> 'd fs) res" where
  "open_inode dv cwd path omode x =
     (if omode AND O_CREATE \<noteq> 0 then create dv cwd path T_FILE 0 0 x
      else andthen (namei dv x cwd path) (\<lambda>(r, x). case r of
        None \<Rightarrow> Ok (None, x)
      | Some ip \<Rightarrow> andthen (ilock x ip) (\<lambda>x.
          if i_type (inode_of x ip) = T_DIR \<and> omode \<noteq> 0 then andthen (iunlockput x ip) (\<lambda>x. Ok (None, x))
          else Ok (Some ip, x))))"

text \<open>The part that gets a file and a descriptor for it; both allocations may fail.\<close>

definition open_file_fd :: "'d kern \<Rightarrow> ((nat \<times> nat) option \<times> 'd kern) res" where
  "open_file_fd s = (case filealloc s of
       (None, s) \<Rightarrow> Ok (None, s)
     | (Some f, s) \<Rightarrow> (case fdalloc s f of
         (None, s) \<Rightarrow> andthen (fileclose s f) (\<lambda>s. Ok (None, s))
       | (Some fd, s) \<Rightarrow> Ok (Some (f, fd), s)))"

definition do_open :: "'d devsw \<Rightarrow> nat \<Rightarrow> uchar list \<Rightarrow> uint \<Rightarrow> 'd kern \<Rightarrow> (int \<times> 'd kern) res" where
  "do_open dv cwd path omode s = andthen (on_fs s fs_begin) (\<lambda>s.
     andthen (of_fs s (open_inode dv cwd path omode)) (\<lambda>(r, s). case r of
       None \<Rightarrow> andthen (on_fs s fs_end) (\<lambda>s. Ok (-1, s))
     | Some ip \<Rightarrow> andthen (open_file_fd s) (\<lambda>(r, s). case r of
         None \<Rightarrow> andthen (on_fs s (\<lambda>x. iunlockput x ip)) (\<lambda>s. andthen (on_fs s fs_end) (\<lambda>s. Ok (-1, s)))
       | Some (f, fd) \<Rightarrow> andthen (on_fs s (\<lambda>x. iunlock x ip)) (\<lambda>s. andthen (on_fs s fs_end) (\<lambda>s.
           Ok (int fd, set_file s f (\<lambda>y. y\<lparr>f_type := FD_INODE, f_ip := ip, f_off := 0,
             f_readable := omode AND O_WRONLY = 0, f_writable := omode AND O_WRONLY \<noteq> 0 \<or> omode AND O_RDWR \<noteq> 0\<rparr>)))))))"

definition sys_open :: "'d devsw \<Rightarrow> 'd kern \<Rightarrow> (int \<times> 'd kern) res" where
  "sys_open dv s = andthen (argstr s 0) (\<lambda>r. case r of
       None \<Rightarrow> Ok (-1, s)
     | Some (_, path) \<Rightarrow> andthen (argint s 1) (\<lambda>r. case r of
         None \<Rightarrow> Ok (-1, s)
       | Some omode \<Rightarrow> (case p_cwd (myproc s) of None \<Rightarrow> Fault | Some cwd \<Rightarrow> do_open dv cwd path omode s)))"

text \<open>\<^verbatim>\<open>sys_mkdir\<close> and \<^verbatim>\<open>sys_mknod\<close> begin the transaction before they fetch their arguments,
  and end it when that fails; fetching only reads user memory, which the start of a transaction leaves alone.\<close>

definition make_node :: "'d devsw \<Rightarrow> (nat \<times> uchar list \<times> ushort \<times> ushort \<times> ushort) option \<Rightarrow> 'd fs \<Rightarrow> (int \<times> 'd fs) res" where
  "make_node dv args x = (case args of
       None \<Rightarrow> Ok (-1, x)
     | Some (cwd, path, ty, major, minor) \<Rightarrow> andthen (create dv cwd path ty major minor x) (\<lambda>(r, x). case r of
         None \<Rightarrow> Ok (-1, x)
       | Some ip \<Rightarrow> andthen (iunlockput x ip) (\<lambda>x. Ok (0, x))))"

definition sys_mkdir :: "'d devsw \<Rightarrow> 'd kern \<Rightarrow> (int \<times> 'd kern) res" where
  "sys_mkdir dv s = andthen (argstr s 0) (\<lambda>r. case p_cwd (myproc s) of None \<Rightarrow> Fault
     | Some cwd \<Rightarrow> in_op s (make_node dv (map_option (\<lambda>(_, path). (cwd, path, T_DIR, 0, 0)) r)))"

definition sys_mknod :: "'d devsw \<Rightarrow> 'd kern \<Rightarrow> (int \<times> 'd kern) res" where
  "sys_mknod dv s = andthen (argstr s 0) (\<lambda>r. case p_cwd (myproc s) of None \<Rightarrow> Fault
     | Some cwd \<Rightarrow> (case r of
         None \<Rightarrow> in_op s (make_node dv None)
       | Some (_, path) \<Rightarrow> andthen (argint s 1) (\<lambda>r. case r of
           None \<Rightarrow> in_op s (make_node dv None)
         | Some major \<Rightarrow> andthen (argint s 2) (\<lambda>r. case r of
             None \<Rightarrow> in_op s (make_node dv None)
           | Some minor \<Rightarrow> in_op s (make_node dv (Some (cwd, path, T_DEV, ucast major, ucast minor)))))))"

definition fs_chdir :: "'d devsw \<Rightarrow> nat \<Rightarrow> uchar list option \<Rightarrow> 'd fs \<Rightarrow> (nat option \<times> 'd fs) res" where
  "fs_chdir dv cwd path x = (case path of
       None \<Rightarrow> Ok (None, x)
     | Some path \<Rightarrow> andthen (namei dv x cwd path) (\<lambda>(r, x). case r of
         None \<Rightarrow> Ok (None, x)
       | Some ip \<Rightarrow> andthen (ilock x ip) (\<lambda>x.
           if i_type (inode_of x ip) \<noteq> T_DIR then andthen (iunlockput x ip) (\<lambda>x. Ok (None, x))
           else andthen (iunlock x ip) (\<lambda>x. andthen (iput x cwd) (\<lambda>x. Ok (Some ip, x))))))"

definition sys_chdir :: "'d devsw \<Rightarrow> 'd kern \<Rightarrow> (int \<times> 'd kern) res" where
  "sys_chdir dv s = andthen (argstr s 0) (\<lambda>r. case p_cwd (myproc s) of None \<Rightarrow> Fault
     | Some cwd \<Rightarrow> andthen (in_op s (fs_chdir dv cwd (map_option snd r))) (\<lambda>(r, s). case r of
         None \<Rightarrow> Ok (-1, s)
       | Some ip \<Rightarrow> Ok (0, set_cur s (\<lambda>x. x\<lparr>p_cwd := Some ip\<rparr>))))"

text \<open>\<^verbatim>\<open>sys_pipe\<close>: the two descriptors for the ends of a new pipe, given up when there is no room for both.\<close>

definition pipe_fds :: "'d kern \<Rightarrow> uint \<Rightarrow> nat \<Rightarrow> nat \<Rightarrow> (int \<times> 'd kern) res" where
  "pipe_fds s p rd wr =
     (let (fd0, s) = fdalloc s rd; (fd1, s) = (if fd0 = None then (None, s) else fdalloc s wr) in
      case (fd0, fd1) of
        (Some a, Some b) \<Rightarrow> andthen (user_write s p (bytes_of (of_nat a) @ bytes_of (of_nat b))) (\<lambda>s. Ok (0, s))
      | _ \<Rightarrow>
          let s = (case fd0 of None \<Rightarrow> s | Some a \<Rightarrow> clear_fd s a) in
          andthen (fileclose s rd) (\<lambda>s. andthen (fileclose s wr) (\<lambda>s. Ok (-1, s))))"

definition sys_pipe :: "'d kern \<Rightarrow> (int \<times> 'd kern) res" where
  "sys_pipe s = andthen (argptr s 0 8) (\<lambda>r. case r of
       None \<Rightarrow> Ok (-1, s)
     | Some p \<Rightarrow> andthen (pipealloc s) (\<lambda>(r, s). case r of
         None \<Rightarrow> Ok (-1, s)
       | Some (rd, wr) \<Rightarrow> pipe_fds s p rd wr))"

end
