(* ===== verification/Exec.thy ===== *)
theory Exec
  imports Sysfile
begin

text \<open>
  The replacement of a process's program (\<^verbatim>\<open>exec.c\<close>, with \<^verbatim>\<open>loaduvm\<close> of \<^verbatim>\<open>vm.c\<close>), the call \<^verbatim>\<open>sys_exec\<close>, and the table through which
  \<^verbatim>\<open>syscall\<close> calls the handlers. A call of \<^verbatim>\<open>exec\<close> that fails leaves the process as it was.
\<close>

section \<open>Loading\<close>

primrec store_bytes :: "mem \<Rightarrow> uint \<Rightarrow> uchar list \<Rightarrow> mem" where
  "store_bytes m a [] = m"
| "store_bytes m a (b # bs) = store_bytes (m(a := b)) (a + 1) bs"

text \<open>The loop of \<^verbatim>\<open>loaduvm\<close>; what \<^verbatim>\<open>readi\<close> delivers is stored also when it is less than was asked for.\<close>

primrec loaduvm_loop :: "nat \<Rightarrow> 'd devsw \<Rightarrow> 'd kern \<Rightarrow> uint \<Rightarrow> uint \<Rightarrow> nat \<Rightarrow> uint \<Rightarrow> uint \<Rightarrow> uint \<Rightarrow> (int \<times> 'd kern) res" where
  "loaduvm_loop 0 dv s pgdir addr ip offset sz i = Fault"
| "loaduvm_loop (Suc k) dv s pgdir addr ip offset sz i =
     (if i < sz
      then let pte = fst (walkpgdir (kmemory s) pgdir (addr + i) False) in
        if pte = 0 then Panic ''loaduvm: address should exist''
        else let pa = PTE_ADDR (load32 (kmem_mem (kmemory s)) pte); n = (if sz - i < PGSIZE then sz - i else PGSIZE) in
          andthen (of_fs s (\<lambda>x. readi dv x ip (offset + i) n)) (\<lambda>((r, bs), s).
            let s = set_mem s (\<lambda>m. store_bytes m (P2V pa) bs) in
            if of_int r \<noteq> n then Ok (-1, s)
            else loaduvm_loop k dv s pgdir addr ip offset sz (i + PGSIZE))
      else Ok (0, s))"

definition loaduvm :: "'d devsw \<Rightarrow> 'd kern \<Rightarrow> uint \<Rightarrow> uint \<Rightarrow> nat \<Rightarrow> uint \<Rightarrow> uint \<Rightarrow> (int \<times> 'd kern) res" where
  "loaduvm dv s pgdir addr ip offset sz =
     (if addr mod PGSIZE \<noteq> 0 then Panic ''loaduvm: addr must be page aligned''
      else loaduvm_loop (Suc PGCOUNT) dv s pgdir addr ip offset sz 0)"

text \<open>Fields of the two headers of an executable file, by their offset.\<close>

definition word_at :: "uchar list \<Rightarrow> nat \<Rightarrow> uint" where
  "word_at bs i = word_of (drop i bs)"

abbreviation (input) elf_magic :: "uchar list \<Rightarrow> uint" where "elf_magic h \<equiv> word_at h 0"
abbreviation (input) elf_entry :: "uchar list \<Rightarrow> uint" where "elf_entry h \<equiv> word_at h 24"
abbreviation (input) elf_phoff :: "uchar list \<Rightarrow> uint" where "elf_phoff h \<equiv> word_at h 28"
abbreviation (input) elf_phnum :: "uchar list \<Rightarrow> uint" where "elf_phnum h \<equiv> word_at h 44 AND 0xFFFF"
abbreviation (input) ph_type :: "uchar list \<Rightarrow> uint" where "ph_type h \<equiv> word_at h 0"
abbreviation (input) ph_off :: "uchar list \<Rightarrow> uint" where "ph_off h \<equiv> word_at h 4"
abbreviation (input) ph_vaddr :: "uchar list \<Rightarrow> uint" where "ph_vaddr h \<equiv> word_at h 8"
abbreviation (input) ph_filesz :: "uchar list \<Rightarrow> uint" where "ph_filesz h \<equiv> word_at h 16"
abbreviation (input) ph_memsz :: "uchar list \<Rightarrow> uint" where "ph_memsz h \<equiv> word_at h 20"

abbreviation (input) ELF_MAGIC :: uint where "ELF_MAGIC \<equiv> 0x464C457F"

text \<open>The loop of \<^verbatim>\<open>exec\<close> over the program headers; \<open>None\<close> is the jump to \<^verbatim>\<open>bad\<close>, a number the size of the image.\<close>

primrec load_segments :: "nat \<Rightarrow> 'd devsw \<Rightarrow> 'd kern \<Rightarrow> nat \<Rightarrow> uint \<Rightarrow> uint \<Rightarrow> uint \<Rightarrow> (uint option \<times> 'd kern) res" where
  "load_segments 0 dv s ip pgdir off sz = Ok (Some sz, s)"
| "load_segments (Suc k) dv s ip pgdir off sz =
     andthen (of_fs s (\<lambda>x. readi dv x ip off 32)) (\<lambda>((r, ph), s).
       if r \<noteq> 32 then Ok (None, s)
       else if ph_type ph \<noteq> 1 then load_segments k dv s ip pgdir (off + 32) sz
       else if ph_memsz ph < ph_filesz ph then Ok (None, s)
       else if ph_vaddr ph + ph_memsz ph < ph_vaddr ph then Ok (None, s)
       else andthen (allocuvm (kmemory s) pgdir sz (ph_vaddr ph + ph_memsz ph)) (\<lambda>(sz, m).
         let s = s\<lparr>kmemory := m\<rparr> in
         if sz = 0 then Ok (None, s)
         else if ph_vaddr ph mod PGSIZE \<noteq> 0 then Ok (None, s)
         else andthen (loaduvm dv s pgdir (ph_vaddr ph) ip (ph_off ph) (ph_filesz ph)) (\<lambda>(v, s).
           if v < 0 then Ok (None, s) else load_segments k dv s ip pgdir (off + 32) sz)))"

section \<open>The stack\<close>

text \<open>\<^verbatim>\<open>copyout\<close> of bytes that are not in the memory of the page allocator: the strings of the caller, and \<^verbatim>\<open>ustack\<close>.\<close>

primrec copyout_bytes_loop :: "nat \<Rightarrow> kmem \<Rightarrow> uint \<Rightarrow> uint \<Rightarrow> uchar list \<Rightarrow> (int \<times> kmem) res" where
  "copyout_bytes_loop 0 s pgdir va bs = Fault"
| "copyout_bytes_loop (Suc k) s pgdir va bs =
     (if bs \<noteq> []
      then let va0 = PGROUNDDOWN va in
        andthen (uva2ka s pgdir va0) (\<lambda>pa0.
          if pa0 = 0 then Ok (-1, s)
          else let n = min (unat (PGSIZE - (va - va0))) (length bs);
                   s = s\<lparr>kmem_mem := store_bytes (kmem_mem s) (pa0 + (va - va0)) (take n bs)\<rparr>
               in copyout_bytes_loop k s pgdir (va0 + PGSIZE) (drop n bs))
      else Ok (0, s))"

definition copyout_bytes :: "kmem \<Rightarrow> uint \<Rightarrow> uint \<Rightarrow> uchar list \<Rightarrow> (int \<times> kmem) res" where
  "copyout_bytes s pgdir va bs = copyout_bytes_loop (Suc PGCOUNT) s pgdir va bs"

text \<open>The loop of \<^verbatim>\<open>exec\<close> over the arguments; \<open>us\<close> are the words of \<^verbatim>\<open>ustack\<close> from \<^verbatim>\<open>ustack[3]\<close> on.\<close>

primrec push_args :: "uchar list list \<Rightarrow> kmem \<Rightarrow> uint \<Rightarrow> uint \<Rightarrow> uint list \<Rightarrow> ((uint \<times> uint list) option \<times> kmem) res" where
  "push_args [] m pgdir sp us = Ok (Some (sp, us), m)"
| "push_args (a # as) m pgdir sp us =
     (if length us \<ge> 32 then Ok (None, m)
      else let sp = (sp - (of_nat (length a) + 1)) AND NOT 3 in
        andthen (copyout_bytes m pgdir sp (a @ [0])) (\<lambda>(v, m).
          if v < 0 then Ok (None, m) else push_args as m pgdir sp (us @ [sp])))"

definition push_frame :: "kmem \<Rightarrow> uint \<Rightarrow> uint \<Rightarrow> uint list \<Rightarrow> (uint option \<times> kmem) res" where
  "push_frame m pgdir sp us =
     (let argc = of_nat (length us); us = [0xFFFFFFFF, argc, sp - (argc + 1) * 4] @ us @ [0]; sp = sp - (3 + argc + 1) * 4 in
      andthen (copyout_bytes m pgdir sp (concat (map bytes_of us))) (\<lambda>(v, m). Ok (if v < 0 then None else Some sp, m)))"

section \<open>exec\<close>

text \<open>The label \<^verbatim>\<open>bad\<close>; \<open>pgdir\<close> is 0 and \<open>ip\<close> is \<open>None\<close> where the pointers are null.\<close>

definition exec_bad :: "'d kern \<Rightarrow> uint \<Rightarrow> nat option \<Rightarrow> (int \<times> 'd kern) res" where
  "exec_bad s pgdir ip =
     andthen (if pgdir \<noteq> 0 then andthen (freevm (kmemory s) pgdir) (\<lambda>m. Ok (s\<lparr>kmemory := m\<rparr>)) else Ok s) (\<lambda>s.
     case ip of
       None \<Rightarrow> Ok (-1, s)
     | Some ip \<Rightarrow> andthen (on_fs s (\<lambda>x. iunlockput x ip)) (\<lambda>s. andthen (on_fs s fs_end) (\<lambda>s. Ok (-1, s))))"

text \<open>The name of the program: what follows the last slash of the path.\<close>

primrec last_name :: "uchar list \<Rightarrow> uchar list \<Rightarrow> uchar list" where
  "last_name [] l = l"
| "last_name (c # cs) l = last_name cs (if c = slash then cs else l)"

text \<open>From the first page after the segments to the return, when the program has been loaded.\<close>

definition exec_commit :: "'d kern \<Rightarrow> uchar list \<Rightarrow> uint \<Rightarrow> uint \<Rightarrow> uint \<Rightarrow> uint \<Rightarrow> (int \<times> 'd kern) res" where
  "exec_commit s path pgdir sz sp entry =
     (let old = p_pgdir (myproc s);
          s = set_cur s (\<lambda>x. x\<lparr>p_name := set_name (p_name x) (last_name path path), p_pgdir := pgdir, p_sz := sz\<rparr>);
          tf = p_tf (myproc s);
          s = set_mem s (\<lambda>m. store32 (store32 m (tf + 56) entry) (tf + 68) sp)
      in andthen (switchuvm (myproc s)) (\<lambda>_. andthen (freevm (kmemory s) old) (\<lambda>m. Ok (0, s\<lparr>kmemory := m\<rparr>))))"

definition exec_stack :: "'d kern \<Rightarrow> uchar list \<Rightarrow> uchar list list \<Rightarrow> uint \<Rightarrow> uint \<Rightarrow> uint \<Rightarrow> (int \<times> 'd kern) res" where
  "exec_stack s path argv pgdir sz entry =
     (let sz = PGROUNDUP sz in
      andthen (allocuvm (kmemory s) pgdir sz (sz + 2 * PGSIZE)) (\<lambda>(sz, m).
      if sz = 0 then exec_bad (s\<lparr>kmemory := m\<rparr>) pgdir None
      else andthen (clearpteu m pgdir (sz - 2 * PGSIZE)) (\<lambda>m.
      andthen (push_args argv m pgdir sz []) (\<lambda>(r, m). case r of
        None \<Rightarrow> exec_bad (s\<lparr>kmemory := m\<rparr>) pgdir None
      | Some (sp, us) \<Rightarrow> andthen (push_frame m pgdir sp us) (\<lambda>(r, m). case r of
          None \<Rightarrow> exec_bad (s\<lparr>kmemory := m\<rparr>) pgdir None
        | Some sp \<Rightarrow> exec_commit (s\<lparr>kmemory := m\<rparr>) path pgdir sz sp entry)))))"

definition exec :: "ksyms \<Rightarrow> 'd devsw \<Rightarrow> 'd kern \<Rightarrow> uchar list \<Rightarrow> uchar list list \<Rightarrow> (int \<times> 'd kern) res" where
  "exec ks dv s path argv = (case p_cwd (myproc s) of None \<Rightarrow> Fault | Some cwd \<Rightarrow>
     andthen (on_fs s fs_begin) (\<lambda>s.
     andthen (of_fs s (\<lambda>x. namei dv x cwd path)) (\<lambda>(r, s). case r of
       None \<Rightarrow> andthen (on_fs s fs_end) (\<lambda>s. Ok (-1, s))
     | Some ip \<Rightarrow> andthen (on_fs s (\<lambda>x. ilock x ip)) (\<lambda>s.
         andthen (of_fs s (\<lambda>x. readi dv x ip 0 52)) (\<lambda>((n, elf), s).
         if n \<noteq> 52 then exec_bad s 0 (Some ip)
         else if elf_magic elf \<noteq> ELF_MAGIC then exec_bad s 0 (Some ip)
         else andthen (setupkvm (sym_data ks) (kmemory s)) (\<lambda>(pgdir, m).
         let s = s\<lparr>kmemory := m\<rparr> in
         if pgdir = 0 then exec_bad s 0 (Some ip)
         else andthen (load_segments (unat (elf_phnum elf)) dv s ip pgdir (elf_phoff elf) 0) (\<lambda>(r, s). case r of
           None \<Rightarrow> exec_bad s pgdir (Some ip)
         | Some sz \<Rightarrow> andthen (on_fs s (\<lambda>x. iunlockput x ip)) (\<lambda>s.
             andthen (on_fs s fs_end) (\<lambda>s. exec_stack s path argv pgdir sz (elf_entry elf)))))))))) "

text \<open>The loop of \<^verbatim>\<open>sys_exec\<close> over the argument pointers, of which there may be \<open>k\<close> more.\<close>

primrec fetch_argv :: "nat \<Rightarrow> 'd kern \<Rightarrow> uint \<Rightarrow> uchar list list option res" where
  "fetch_argv 0 s a = Ok None"
| "fetch_argv (Suc k) s a = andthen (fetchint s a) (\<lambda>r. case r of
       None \<Rightarrow> Ok None
     | Some uarg \<Rightarrow> if uarg = 0 then Ok (Some [])
         else andthen (fetchstr s uarg) (\<lambda>r. case r of
           None \<Rightarrow> Ok None
         | Some (_, bs) \<Rightarrow> andthen (fetch_argv k s (a + 4)) (\<lambda>r. Ok (map_option (\<lambda>as. bs # as) r))))"

definition sys_exec :: "ksyms \<Rightarrow> 'd devsw \<Rightarrow> 'd kern \<Rightarrow> (int \<times> 'd kern) res" where
  "sys_exec ks dv s = andthen (argstr s 0) (\<lambda>r. case r of
       None \<Rightarrow> Ok (-1, s)
     | Some (_, path) \<Rightarrow> andthen (argint s 1) (\<lambda>r. case r of
         None \<Rightarrow> Ok (-1, s)
       | Some uargv \<Rightarrow> andthen (fetch_argv 32 s uargv) (\<lambda>r. case r of
           None \<Rightarrow> Ok (-1, s)
         | Some argv \<Rightarrow> exec ks dv s path argv)))"

section \<open>Dispatch\<close>

text \<open>The table \<^verbatim>\<open>syscalls\<close>, indexed by the numbers of \<^verbatim>\<open>syscall.h\<close>; \<open>ticks\<close> is the clock.\<close>

definition syscalls :: "ksyms \<Rightarrow> 'd devsw \<Rightarrow> uint \<Rightarrow> int \<Rightarrow> ('d kern \<Rightarrow> (int \<times> 'd kern) res) option" where
  "syscalls ks dv ticks = map_of
     [(1, sys_fork ks), (2, sys_exit), (3, sys_wait), (4, sys_pipe), (5, sys_read dv), (6, sys_kill), (7, sys_exec ks dv),
      (8, sys_fstat), (9, sys_chdir dv), (10, sys_dup), (11, sys_getpid), (12, sys_sbrk), (13, sys_sleep ticks),
      (14, sys_uptime ticks), (15, sys_open dv), (16, sys_write dv), (17, sys_mknod dv), (18, sys_unlink dv),
      (19, sys_link dv), (20, sys_mkdir dv), (21, sys_close)]"

definition set_eax :: "'d kern \<Rightarrow> int \<Rightarrow> 'd kern" where
  "set_eax s v = set_mem s (\<lambda>m. store32 m (p_tf (myproc s) + 28) (of_int v))"

text \<open>\<^verbatim>\<open>sys_exit\<close> does not come back to store a value.\<close>

definition syscall :: "ksyms \<Rightarrow> 'd devsw \<Rightarrow> uint \<Rightarrow> 'd kern \<Rightarrow> 'd kern res" where
  "syscall ks dv ticks s =
     (let num = sint (load32 (kmem_mem (kmemory s)) (p_tf (myproc s) + 28)) in
      if num > 0 \<and> num < 22
      then case syscalls ks dv ticks num of
          Some h \<Rightarrow> andthen (h s) (\<lambda>(v, s). Ok (if num = 2 then s else set_eax s v))
        | None \<Rightarrow> Ok (set_eax s (-1))
      else Ok (set_eax s (-1)))"

section \<open>All or nothing\<close>

definition same_procs :: "'d kern \<Rightarrow> 'd kern \<Rightarrow> bool" where
  "same_procs s s' \<longleftrightarrow> ktab s' = ktab s \<and> kcur s' = kcur s \<and> ftable s' = ftable s \<and> pipes s' = pipes s"

lemma same_procs_simps [simp]:
  "same_procs s s" "same_procs s (s'\<lparr>kfs := x\<rparr>) = same_procs s s'" "same_procs s (s'\<lparr>kmemory := m\<rparr>) = same_procs s s'"
  "same_procs s (set_mem s' g) = same_procs s s'"
  by (simp_all add: same_procs_def set_mem_def)

text \<open>\<open>gives m Q\<close>: a value that \<open>m\<close> returns satisfies \<open>Q\<close>.\<close>

definition gives :: "'a res \<Rightarrow> ('a \<Rightarrow> bool) \<Rightarrow> bool" where
  "gives m Q \<longleftrightarrow> (\<forall>x. m = Ok x \<longrightarrow> Q x)"

lemma gives_simps [simp]: "gives (Ok x) Q = Q x" "gives (Panic e) Q" "gives Fault Q" "gives Blocked Q"
  by (simp_all add: gives_def)

lemma gives_andthen: "gives m P \<Longrightarrow> (\<And>x. P x \<Longrightarrow> gives (g x) Q) \<Longrightarrow> gives (andthen m g) Q"
  by (cases m) simp_all

lemma gives_mono: "gives m P \<Longrightarrow> (\<And>x. P x \<Longrightarrow> Q x) \<Longrightarrow> gives m Q"
  by (cases m) simp_all

lemma gives_any: "(\<And>x. m = Ok x \<Longrightarrow> gives (g x) Q) \<Longrightarrow> gives (andthen m g) Q"
  by (cases m) simp_all

lemma gives_fs:
  "same_procs s0 s \<Longrightarrow> gives (on_fs s m) (same_procs s0)" "same_procs s0 s \<Longrightarrow> gives (of_fs s n) (\<lambda>(r, s'). same_procs s0 s')"
  by (auto simp: on_fs_def of_fs_def intro!: gives_any)

lemma gives_loaduvm: "same_procs s0 s \<Longrightarrow> gives (loaduvm dv s pgdir addr ip off sz) (\<lambda>(v, s'). same_procs s0 s')"
proof -
  have "gives (loaduvm_loop k dv s pgdir addr ip off sz i) (\<lambda>(v, s'). same_procs s0 s')" if "same_procs s0 s" for k i s
    using that by (induction k arbitrary: s i) (auto simp: Let_def intro!: gives_andthen [OF gives_fs(2)])
  then show "same_procs s0 s \<Longrightarrow> ?thesis" by (simp add: loaduvm_def del: loaduvm_loop.simps)
qed

lemma gives_allocuvm:
  assumes "newsz < KERNBASE \<Longrightarrow> oldsz < KERNBASE"
  shows "gives (allocuvm s pgdir oldsz newsz) (\<lambda>(r, s'). r < KERNBASE)"
proof -
  have "gives (allocuvm_loop k s pgdir a oldsz newsz) (\<lambda>(r, s'). r = 0 \<or> r = newsz)" for k s a
    by (induction k arbitrary: s a) (auto simp: Let_def intro!: gives_any split: prod.split)
  then have "gives (allocuvm_loop PGCOUNT s pgdir (PGROUNDUP oldsz) oldsz newsz) (\<lambda>(r, s'). r < KERNBASE)" if "newsz < KERNBASE"
    by (rule gives_mono) (use that in auto)
  then show ?thesis using assms by (simp add: allocuvm_def not_le del: allocuvm_loop.simps)
qed

definition image_size :: "uint option \<Rightarrow> bool" where
  "image_size r \<longleftrightarrow> (case r of None \<Rightarrow> True | Some z \<Rightarrow> z < KERNBASE)"

lemma gives_load_segments:
  "same_procs s0 s \<Longrightarrow> sz < KERNBASE \<Longrightarrow> gives (load_segments k dv s ip pgdir off sz) (\<lambda>(r, s'). same_procs s0 s' \<and> image_size r)"
proof (induction k arbitrary: s off sz)
  case (Suc k)
  have seg: "gives (andthen (allocuvm (kmemory t) pgdir sz n) (\<lambda>(sz, m). let s = t\<lparr>kmemory := m\<rparr> in
         if sz = 0 then Ok (None, s) else if b then Ok (None, s)
         else andthen (loaduvm dv s pgdir va ip po fz) (\<lambda>(v, s). if v < 0 then Ok (None, s) else load_segments k dv s ip pgdir (off + 32) sz)))
       (\<lambda>(r, s'). same_procs s0 s' \<and> image_size r)" if "same_procs s0 t" for t n b va po fz
    by (rule gives_andthen [OF gives_allocuvm], rule Suc.prems(2))
       (use that Suc.IH in \<open>auto simp: Let_def image_size_def intro!: gives_andthen [OF gives_loaduvm]\<close>)
  show ?case unfolding load_segments.simps
    by (rule gives_andthen [OF gives_fs(2) [OF Suc.prems(1)]]) (use seg Suc.IH Suc.prems(2) in \<open>auto simp: image_size_def simp del: Let_def\<close>)
qed (simp add: image_size_def)

text \<open>The two outcomes of \<^verbatim>\<open>exec\<close>.\<close>

definition exec_outcome :: "'d kern \<Rightarrow> uchar list \<Rightarrow> int \<times> 'd kern \<Rightarrow> bool" where
  "exec_outcome s path = (\<lambda>(v, s').
     kcur s' = kcur s \<and> ftable s' = ftable s \<and> pipes s' = pipes s \<and>
     (v = -1 \<and> ktab s' = ktab s \<or>
      v = 0 \<and> (\<exists>pgdir sz. pgdir \<noteq> 0 \<and> sz < KERNBASE \<and>
        ktab s' = set_proc (ktab s) (kcur s) (\<lambda>x. x\<lparr>p_name := set_name (p_name x) (last_name path path), p_pgdir := pgdir, p_sz := sz\<rparr>))))"

lemma gives_exec_bad: "same_procs s0 s \<Longrightarrow> gives (exec_bad s pgdir ip) (exec_outcome s0 path)"
proof -
  assume s: "same_procs s0 s"
  have f: "gives (if pgdir \<noteq> 0 then andthen (freevm (kmemory s) pgdir) (\<lambda>m. Ok (s\<lparr>kmemory := m\<rparr>)) else Ok s) (same_procs s0)"
    using s by (auto intro!: gives_any)
  have "exec_outcome s0 path (-1, t)" if "same_procs s0 t" for t using that by (simp add: exec_outcome_def same_procs_def)
  then show ?thesis unfolding exec_bad_def
    by (rule_tac gives_andthen [OF f]) (auto intro!: gives_andthen [OF gives_fs(1)] split: option.split)
qed

lemma gives_exec_commit:
  assumes "same_procs s0 s" "sz < KERNBASE" "pgdir \<noteq> 0"
  shows "gives (exec_commit s path pgdir sz sp entry) (exec_outcome s0 path)"
  unfolding exec_commit_def Let_def
  by (intro gives_any) (use assms in \<open>auto simp: exec_outcome_def same_procs_def set_cur_def set_mem_def\<close>)

lemma gives_exec_stack:
  assumes "same_procs s0 s" "sz < KERNBASE" "pgdir \<noteq> 0"
  shows "gives (exec_stack s path argv pgdir sz entry) (exec_outcome s0 path)"
proof -
  have "unat (PGROUNDUP sz) \<le> 2147483648" using assms(2) by (subst unat_PGROUNDUP) (simp_all add: word_less_nat_alt)
  then have "PGROUNDUP sz \<le> KERNBASE" by (simp add: word_le_nat_alt)
  then have z: "PGROUNDUP sz + 2 * PGSIZE < KERNBASE \<Longrightarrow> PGROUNDUP sz < KERNBASE" by (cases "PGROUNDUP sz = KERNBASE") simp_all
  have p: "gives (andthen (push_frame m pgdir sp us) (\<lambda>(r, m). case r of
          None \<Rightarrow> exec_bad (s\<lparr>kmemory := m\<rparr>) pgdir None
        | Some sp \<Rightarrow> exec_commit (s\<lparr>kmemory := m\<rparr>) path pgdir z sp entry)) (exec_outcome s0 path)" if "z < KERNBASE" for m sp us z
    by (intro gives_any) (use assms that in \<open>auto intro!: gives_exec_bad gives_exec_commit split: option.split\<close>)
  have "gives (andthen (clearpteu m pgdir uva) (\<lambda>m. andthen (push_args argv m pgdir z []) (\<lambda>(r, m). case r of
        None \<Rightarrow> exec_bad (s\<lparr>kmemory := m\<rparr>) pgdir None
      | Some (sp, us) \<Rightarrow> andthen (push_frame m pgdir sp us) (\<lambda>(r, m). case r of
          None \<Rightarrow> exec_bad (s\<lparr>kmemory := m\<rparr>) pgdir None
        | Some sp \<Rightarrow> exec_commit (s\<lparr>kmemory := m\<rparr>) path pgdir z sp entry)))) (exec_outcome s0 path)" if "z < KERNBASE" for m z uva
    by (rule gives_any, rule gives_any) (use assms(1) p [OF that] in \<open>auto intro!: gives_exec_bad split: option.split\<close>)
  then show ?thesis unfolding exec_stack_def Let_def
    by (intro gives_andthen [OF gives_allocuvm] z) (use assms(1) in \<open>auto intro!: gives_exec_bad\<close>)
qed

text \<open>C14: \<^verbatim>\<open>exec\<close> replaces the program of the calling process or fails and leaves the process as it was: no other process, open file or
  pipe changes, a failure leaves the process table as it was, and success changes the name, page directory and size of
  the caller only, the size being that of a user address space.\<close>

theorem exec_all_or_nothing:
  assumes "exec ks dv s path argv = Ok (v, s')"
  shows "kcur s' = kcur s \<and> ftable s' = ftable s \<and> pipes s' = pipes s \<and>
     (v = -1 \<and> ktab s' = ktab s \<or>
      v = 0 \<and> (\<exists>pgdir sz. pgdir \<noteq> 0 \<and> sz < KERNBASE \<and>
        ktab s' = set_proc (ktab s) (kcur s) (\<lambda>x. x\<lparr>p_name := set_name (p_name x) (last_name path path), p_pgdir := pgdir, p_sz := sz\<rparr>)))"
proof -
  have bad: "exec_outcome s path (-1, t)" if "same_procs s t" for t using that by (simp add: exec_outcome_def same_procs_def)
  have load: "gives (andthen (load_segments k dv t ip pgdir off 0) (\<lambda>(r, s). case r of
           None \<Rightarrow> exec_bad s pgdir (Some ip)
         | Some sz \<Rightarrow> andthen (on_fs s (\<lambda>x. iunlockput x ip)) (\<lambda>s.
             andthen (on_fs s fs_end) (\<lambda>s. exec_stack s path argv pgdir sz entry)))) (exec_outcome s path)"
    if "same_procs s t" "pgdir \<noteq> 0" for k t ip pgdir off entry
    by (rule gives_andthen [OF gives_load_segments [OF that(1)]])
       (use that in \<open>auto simp: image_size_def split: option.splits intro!: gives_exec_bad gives_exec_stack gives_andthen [OF gives_fs(1)]\<close>)
  have build: "gives (andthen (setupkvm d m) (\<lambda>(pgdir, m). let s = t\<lparr>kmemory := m\<rparr> in
         if pgdir = 0 then exec_bad s 0 (Some ip)
         else andthen (load_segments k dv s ip pgdir off 0) (\<lambda>(r, s). case r of
           None \<Rightarrow> exec_bad s pgdir (Some ip)
         | Some sz \<Rightarrow> andthen (on_fs s (\<lambda>x. iunlockput x ip)) (\<lambda>s.
             andthen (on_fs s fs_end) (\<lambda>s. exec_stack s path argv pgdir sz entry))))) (exec_outcome s path)"
    if "same_procs s t" for d m k t ip off entry
    by (rule gives_any) (use that in \<open>auto simp: Let_def intro!: gives_exec_bad load\<close>)
  have "gives (exec ks dv s path argv) (exec_outcome s path)" unfolding exec_def
    by (auto simp del: Let_def split: option.split intro!: gives_andthen [OF gives_fs(1)] gives_andthen [OF gives_fs(2)] gives_exec_bad build bad)
  then show ?thesis using assms by (simp add: gives_def exec_outcome_def)
qed

text \<open>A process whose current directory is no directory, so that no path leads to a program.\<close>

definition demo_exec :: "unit kern" where
  "demo_exec = demo_user\<lparr>kfs := sample_fs sample_bits ((\<lambda>_. zero_inode)(0 := zero_inode\<lparr>i_ref := 1, i_valid := True, i_type := T_FILE, i_nlink := 1\<rparr>)),
     ktab := boot_table\<lparr>ptable := \<lambda>_. blank_proc\<lparr>p_cwd := Some 0\<rparr>\<rparr>\<rparr>"

lemma demo_exec_fails: "\<exists>s'. exec \<lparr>sym_data = 0, sym_trapret = 0, sym_forkret = 0\<rparr> no_devices demo_exec [97] [] = Ok (-1, s')"
  by (simp add: exec_def demo_exec_def demo_user_def blank_proc_def on_fs_def of_fs_def fs_begin_def fs_end_def sample_fs_def sample_log_def zero_log_def begin_op_def end_op_def
    end_op_enter_def namei_def namex_def namex_loop.simps skipelem_def idup_def ilock_def iunlockput_def iunlock_def iput_def set_inode_def zero_inode_def
    acquiresleep_def releasesleep_def holdingsleep_def initsleeplock_def Let_def)

theorem exec_all_or_nothing_witness:
  "\<exists>s'. exec \<lparr>sym_data = 0, sym_trapret = 0, sym_forkret = 0\<rparr> no_devices demo_exec [97] [] = Ok (-1, s') \<and> ktab s' = ktab demo_exec"
proof -
  obtain s' where s: "exec \<lparr>sym_data = 0, sym_trapret = 0, sym_forkret = 0\<rparr> no_devices demo_exec [97] [] = Ok (-1, s')" using demo_exec_fails by blast
  then show ?thesis using exec_all_or_nothing [OF s] by simp
qed

end
