(* ===== verification/Descr.thy ===== *)
theory Descr
  imports Exec
begin

text \<open>
  File descriptors and the file table: across every system call the reference count of an open file is the number of
  descriptors that name it, in all processes.
\<close>

section \<open>Accounts\<close>

definition fd_slots :: "ptab \<Rightarrow> nat \<Rightarrow> (nat \<times> nat) set" where
  "fd_slots t f = {(p, fd). p < NPROC \<and> fd < NOFILE \<and> p_ofile (ptable t p) fd = Some f}"

definition dead :: "procstate \<Rightarrow> bool" where
  "dead st \<longleftrightarrow> st = UNUSED \<or> st = ZOMBIE"

text \<open>Inside a call the count of a file may differ from the number of its descriptors by the references the call holds itself.\<close>

definition counted :: "'d kern \<Rightarrow> (nat \<Rightarrow> int) \<Rightarrow> bool" where
  "counted s ex \<longleftrightarrow>
     (\<forall>f < NFILE. f_ref (ftable s f) = int (card (fd_slots (ktab s) f)) + ex f) \<and>
     (\<forall>p < NPROC. \<forall>fd < NOFILE. \<forall>f. p_ofile (ptable (ktab s) p) fd = Some f \<longrightarrow> f < NFILE) \<and>
     (\<forall>p < NPROC. \<forall>fd < NOFILE. dead (p_state (ptable (ktab s) p)) \<longrightarrow> p_ofile (ptable (ktab s) p) fd = None)"

definition running :: "'d kern \<Rightarrow> bool" where
  "running s \<longleftrightarrow> kcur s < NPROC \<and> p_state (myproc s) = RUNNING"

definition files_ok :: "'d kern \<Rightarrow> bool" where
  "files_ok s \<longleftrightarrow> counted s (\<lambda>_. 0)"

definition bump :: "int \<Rightarrow> nat \<Rightarrow> (nat \<Rightarrow> int) \<Rightarrow> nat \<Rightarrow> int" where
  "bump d f ex = ex(f := ex f + d)"

lemma bump_cancel [simp]: "bump (- d) f (bump d f ex) = ex" "bump d f (bump (- d) f ex) = ex"
  by (simp_all add: bump_def fun_eq_iff)

lemma bump_commute: "bump d f (bump e g ex) = bump e g (bump d f ex)"
  by (simp add: bump_def fun_eq_iff)

lemma finite_fd_slots [simp]: "finite (fd_slots t f)"
  by (rule finite_subset [of _ "{..<NPROC} \<times> {..<NOFILE}"]) (auto simp: fd_slots_def)

lemma countedD:
  assumes "counted s ex"
  shows "f < NFILE \<Longrightarrow> f_ref (ftable s f) = int (card (fd_slots (ktab s) f)) + ex f"
    "p < NPROC \<Longrightarrow> fd < NOFILE \<Longrightarrow> p_ofile (ptable (ktab s) p) fd = Some f \<Longrightarrow> f < NFILE"
    "p < NPROC \<Longrightarrow> fd < NOFILE \<Longrightarrow> dead (p_state (ptable (ktab s) p)) \<Longrightarrow> p_ofile (ptable (ktab s) p) fd = None"
  using assms unfolding counted_def by blast+

lemma countedI:
  assumes "\<And>f. f < NFILE \<Longrightarrow> f_ref (ftable s f) = int (card (fd_slots (ktab s) f)) + ex f"
    "\<And>p fd f. p < NPROC \<Longrightarrow> fd < NOFILE \<Longrightarrow> p_ofile (ptable (ktab s) p) fd = Some f \<Longrightarrow> f < NFILE"
    "\<And>p fd. p < NPROC \<Longrightarrow> fd < NOFILE \<Longrightarrow> dead (p_state (ptable (ktab s) p)) \<Longrightarrow> p_ofile (ptable (ktab s) p) fd = None"
  shows "counted s ex"
  using assms unfolding counted_def by blast

section \<open>Steps that leave the accounts alone\<close>

definition fkeep :: "'d kern \<Rightarrow> 'd kern \<Rightarrow> bool" where
  "fkeep s s' \<longleftrightarrow> kcur s' = kcur s \<and> (\<forall>f. f_ref (ftable s' f) = f_ref (ftable s f)) \<and>
     (\<forall>p. p_ofile (ptable (ktab s') p) = p_ofile (ptable (ktab s) p)) \<and>
     (\<forall>p. dead (p_state (ptable (ktab s') p)) \<longrightarrow> dead (p_state (ptable (ktab s) p))) \<and>
     (\<forall>p. p_state (ptable (ktab s) p) = RUNNING \<longrightarrow> p_state (ptable (ktab s') p) = RUNNING)"

lemma fkeep_refl [simp]: "fkeep s s"
  by (simp add: fkeep_def)

lemma fkeep_trans: "fkeep s s' \<Longrightarrow> fkeep s' s'' \<Longrightarrow> fkeep s s''"
  unfolding fkeep_def by simp

lemma counted_keep:
  assumes "fkeep s s'" "counted s ex"
  shows "counted s' ex"
proof -
  have o: "p_ofile (ptable (ktab s') p) = p_ofile (ptable (ktab s) p)" "f_ref (ftable s' f) = f_ref (ftable s f)"
    "dead (p_state (ptable (ktab s') p)) \<Longrightarrow> dead (p_state (ptable (ktab s) p))" for p f using assms(1) by (simp_all add: fkeep_def)
  have f: "fd_slots (ktab s') f = fd_slots (ktab s) f" for f by (simp add: fd_slots_def o)
  show ?thesis by (rule countedI) (use countedD [OF assms(2)] o f in \<open>simp_all\<close>)
qed

lemma running_keep: "fkeep s s' \<Longrightarrow> running s \<Longrightarrow> running s'"
  by (simp add: fkeep_def running_def)

lemma fkeep_update [simp]:
  "fkeep s (s'\<lparr>kfs := x\<rparr>) = fkeep s s'" "fkeep s (s'\<lparr>kmemory := m\<rparr>) = fkeep s s'" "fkeep s (s'\<lparr>pipes := p\<rparr>) = fkeep s s'"
  "fkeep s (set_mem s' g) = fkeep s s'"
  by (simp_all add: fkeep_def set_mem_def)

lemma fkeep_set_file: "fkeep s s' \<Longrightarrow> (\<And>x. f_ref (g x) = f_ref x) \<Longrightarrow> fkeep s (set_file s' f g)"
  by (simp add: fkeep_def set_file_def)

lemma fkeep_set_cur: "fkeep s s' \<Longrightarrow> (\<And>x. p_ofile (g x) = p_ofile x) \<Longrightarrow> (\<And>x. p_state (g x) = p_state x) \<Longrightarrow> fkeep s (set_cur s' g)"
  by (simp add: fkeep_def set_cur_def set_proc_def)

lemma wake_keeps:
  "p_ofile (ptable (wakeup1 t ch) p) = p_ofile (ptable t p)"
  "dead (p_state (ptable (wakeup1 t ch) p)) = dead (p_state (ptable t p))"
  "p_state (ptable (wakeup1 t ch) p) = RUNNING \<longleftrightarrow> p_state (ptable t p) = RUNNING"
  by (simp_all add: woken_def dead_def)

lemma fkeep_wake_chans: "fkeep s s' \<Longrightarrow> fkeep s (wake_chans s' p chs)"
proof (induction chs arbitrary: s')
  case (Cons c cs)
  have "wake_chans s' p (c # cs) = wake_chans (s'\<lparr>ktab := wakeup (ktab s') (Some (chan_addr p c))\<rparr>) p cs" by (simp add: wake_chans_def)
  moreover have "fkeep s (s'\<lparr>ktab := wakeup (ktab s') (Some (chan_addr p c))\<rparr>)"
    using Cons.prems by (simp add: fkeep_def wakeup_def woken_def dead_def)
  ultimately show ?case using Cons.IH by simp
qed (simp add: wake_chans_def)

text \<open>\<open>keeps s m\<close>: when \<open>m\<close> returns, the accounts are those of \<open>s\<close>. The rules follow the structure of the routines.\<close>

definition keeps :: "'d kern \<Rightarrow> ('a \<times> 'd kern) res \<Rightarrow> bool" where
  "keeps s m \<longleftrightarrow> (\<forall>r s'. m = Ok (r, s') \<longrightarrow> fkeep s s')"

definition keeps1 :: "'d kern \<Rightarrow> 'd kern res \<Rightarrow> bool" where
  "keeps1 s m \<longleftrightarrow> (\<forall>s'. m = Ok s' \<longrightarrow> fkeep s s')"

lemma keeps_simps [simp]:
  "keeps s (Ok (r, s')) = fkeep s s'" "keeps s (Panic e)" "keeps s Fault" "keeps s Blocked"
  "keeps1 s (Ok s') = fkeep s s'" "keeps1 s (Panic e)" "keeps1 s Fault" "keeps1 s Blocked"
  by (simp_all add: keeps_def keeps1_def)

named_theorems keep_intros

lemma keeps_any:
  "(\<And>x. m = Ok x \<Longrightarrow> keeps s (g x)) \<Longrightarrow> keeps s (andthen m g)"
  "(\<And>x. m = Ok x \<Longrightarrow> keeps1 s (h x)) \<Longrightarrow> keeps1 s (andthen m h)"
  by (cases m; simp)+

lemma keeps_bind [keep_intros]:
  fixes m :: "('a \<times> 'd kern) res" and n :: "'d kern res"
  shows "keeps s m \<Longrightarrow> (\<And>r s'. fkeep s s' \<Longrightarrow> keeps s (g (r, s'))) \<Longrightarrow> keeps s (andthen m g)"
    "keeps1 s n \<Longrightarrow> (\<And>s'. fkeep s s' \<Longrightarrow> keeps s (h s')) \<Longrightarrow> keeps s (andthen n h)"
    "keeps s m \<Longrightarrow> (\<And>r s'. fkeep s s' \<Longrightarrow> keeps1 s (g1 (r, s'))) \<Longrightarrow> keeps1 s (andthen m g1)"
    "keeps1 s n \<Longrightarrow> (\<And>s'. fkeep s s' \<Longrightarrow> keeps1 s (h1 s')) \<Longrightarrow> keeps1 s (andthen n h1)"
  by (rule keeps_any; metis keeps_def keeps1_def surj_pair)+

text \<open>What only reads the kernel's state, or works on its memory.\<close>

lemma keeps_read [keep_intros]:
  fixes m :: "'a option res" and b :: "uchar list res" and w :: "('b \<times> kmem) res" and k :: "kmem res"
    and u :: "unit res"
  shows "(\<And>x. keeps s (f1 x)) \<Longrightarrow> keeps s (andthen m f1)" "(\<And>x. keeps s (f2 x)) \<Longrightarrow> keeps s (andthen b f2)"
    "(\<And>x m. keeps s (f3 (x, m))) \<Longrightarrow> keeps s (andthen w f3)"
    "(\<And>x. keeps s (f5 x)) \<Longrightarrow> keeps s (andthen k f5)" "(\<And>x. keeps s (f6 x)) \<Longrightarrow> keeps s (andthen u f6)"
    "(\<And>x. keeps1 s (f7 x)) \<Longrightarrow> keeps1 s (andthen k f7)"
  by (auto intro!: keeps_any)

section \<open>Calls that leave the accounts alone\<close>

lemma keeps_fs [keep_intros]:
  "fkeep s s' \<Longrightarrow> keeps1 s (on_fs s' m)" "fkeep s s' \<Longrightarrow> keeps s (of_fs s' n)"
  by (auto simp: on_fs_def of_fs_def intro!: keeps_any)

lemma keeps_cases [keep_intros]:
  "(b \<Longrightarrow> keeps s m) \<Longrightarrow> (\<not> b \<Longrightarrow> keeps s n) \<Longrightarrow> keeps s (if b then m else n)"
  "(x = None \<Longrightarrow> keeps s m) \<Longrightarrow> (\<And>y. x = Some y \<Longrightarrow> keeps s (g y)) \<Longrightarrow> keeps s (case x of None \<Rightarrow> m | Some y \<Rightarrow> g y)"
  "(\<And>a b. z = (a, b) \<Longrightarrow> keeps s (h a b)) \<Longrightarrow> keeps s (case z of (a, b) \<Rightarrow> h a b)"
  "(\<And>a b. z = (a, b) \<Longrightarrow> keeps s (h' a b y)) \<Longrightarrow> keeps s ((case z of (a, b) \<Rightarrow> h' a b) y)"
  "(b \<Longrightarrow> keeps1 s m1) \<Longrightarrow> (\<not> b \<Longrightarrow> keeps1 s n1) \<Longrightarrow> keeps1 s (if b then m1 else n1)"
  "(ft = FD_NONE \<Longrightarrow> keeps s k1) \<Longrightarrow> (ft = FD_PIPE \<Longrightarrow> keeps s k2) \<Longrightarrow> (ft = FD_INODE \<Longrightarrow> keeps s k3) \<Longrightarrow>
     keeps s (case ft of FD_NONE \<Rightarrow> k1 | FD_PIPE \<Rightarrow> k2 | FD_INODE \<Rightarrow> k3)"
  by (simp_all split: option.split prod.split ftype.split)

lemma keeps_user_write [keep_intros]: "fkeep s s' \<Longrightarrow> keeps1 s (user_write s' va bs)"
proof (induction bs arbitrary: s' va)
  case (Cons b bs)
  have "keeps1 s (user_store s' va b)" using Cons.prems by (simp add: user_store_def split: option.split)
  then show ?case using Cons.IH by (auto intro!: keep_intros)
qed simp

lemma keeps_read_pipe [keep_intros]: "fkeep s s' \<Longrightarrow> keeps s (read_pipe s' p n)"
  by (simp add: read_pipe_def Let_def fkeep_wake_chans split: prod.split stop.split option.split)

lemma keeps_write_pipe [keep_intros]: "fkeep s s' \<Longrightarrow> keeps s (write_pipe s' p bs)"
  by (simp add: write_pipe_def Let_def fkeep_wake_chans split: prod.split stop.split option.split)

lemma keeps_fileread [keep_intros]: "fkeep s s' \<Longrightarrow> keeps s (fileread dv s' f n)"
  unfolding fileread_def Let_def by (intro keep_intros) (simp_all add: fkeep_set_file)

lemma keeps_write_chunk [keep_intros]: "fkeep s s' \<Longrightarrow> keeps s (write_chunk dv s' f bs)"
  unfolding write_chunk_def Let_def by (intro keep_intros) (simp_all add: fkeep_set_file)

lemma keeps_filewrite_loop [keep_intros]: "fkeep s s' \<Longrightarrow> keeps s (filewrite_loop dv s' f bs)"
proof (induction dv s' f bs rule: filewrite_loop.induct)
  case (1 dv s' f bs)
  show ?case
  proof (cases "write_chunk dv s' f (take (min (length bs) WRITE_MAX) bs)")
    case (Ok z)
    obtain r x where z: "z = (r, x)" by (cases z)
    have "fkeep s x" using keeps_write_chunk [OF "1.prems"] Ok z unfolding keeps_def by blast
    then show ?thesis using 1 Ok z by (subst filewrite_loop.simps) (simp add: Let_def)
  qed (subst filewrite_loop.simps, simp add: Let_def "1.prems")+
qed

lemma keeps_filewrite [keep_intros]: "fkeep s s' \<Longrightarrow> keeps s (filewrite dv s' f bs)"
  unfolding filewrite_def by (intro keep_intros) simp_all

lemma keeps_filestat [keep_intros]: "fkeep s s' \<Longrightarrow> keeps s (filestat s' f)"
  unfolding filestat_def Let_def by (intro keep_intros) simp_all

lemma keeps_in_op [keep_intros]: "fkeep s s' \<Longrightarrow> keeps s (in_op s' m)"
  unfolding in_op_def by (intro keep_intros)

lemma keeps_growproc [keep_intros]:
  assumes "fkeep s s'" shows "keeps s (growproc s' n)"
proof -
  have "keeps s (case z of (sz, failed, s') \<Rightarrow> if failed then Ok (-1, s') else
      andthen (switchuvm (myproc (set_cur s' (\<lambda>x. x\<lparr>p_sz := sz\<rparr>)))) (\<lambda>_. Ok (0 :: int, set_cur s' (\<lambda>x. x\<lparr>p_sz := sz\<rparr>))))"
    if "fkeep s (snd (snd z))" for z using that by (cases z) (auto intro!: keep_intros fkeep_set_cur)
  then show ?thesis unfolding growproc_def Let_def
    by (rule keeps_any(1)) (use assms in \<open>auto split: if_splits simp: andthen_Ok_iff\<close>)
qed

lemma keeps_calls:
  assumes "fkeep s s'"
  shows "keeps s (sys_read dv s')" "keeps s (sys_write dv s')" "keeps s (sys_fstat s')" "keeps s (sys_link dv s')" "keeps s (sys_unlink dv s')"
    "keeps s (sys_mkdir dv s')" "keeps s (sys_mknod dv s')" "keeps s (sys_chdir dv s')" "keeps s (sys_getpid s')" "keeps s (sys_sbrk s')"
    "keeps s (sys_sleep ticks s')" "keeps s (sys_uptime ticks s')"
  unfolding sys_read_def sys_write_def sys_fstat_def sys_link_def sys_unlink_def sys_mkdir_def sys_mknod_def sys_chdir_def
    sys_getpid_def sys_sbrk_def sys_sleep_def sleep_turn_def sys_uptime_def Let_def
  using assms by ((intro keep_intros)?; simp add: fkeep_set_cur)+

lemma fkeep_kill: "fkeep s s' \<Longrightarrow> kill (ktab s') pid = (v, t) \<Longrightarrow> fkeep s (s'\<lparr>ktab := t\<rparr>)"
  by (auto simp: kill_def Let_def fkeep_def set_proc_def dead_def split: option.splits if_splits)

lemma keeps_sys_kill: "fkeep s s' \<Longrightarrow> keeps s (sys_kill s')"
  unfolding sys_kill_def Let_def by (intro keep_intros) (simp_all add: fkeep_kill)

lemma keeps_loaduvm [keep_intros]: "fkeep s s' \<Longrightarrow> keeps s (loaduvm dv s' pgdir addr ip off sz)"
proof -
  have "keeps s (loaduvm_loop k dv s' pgdir addr ip off sz i)" if "fkeep s s'" for k i s'
    using that by (induction k arbitrary: s' i) (simp, unfold loaduvm_loop.simps Let_def, intro keep_intros, simp_all)
  then show "fkeep s s' \<Longrightarrow> ?thesis" by (simp add: loaduvm_def del: loaduvm_loop.simps)
qed

lemma keeps_load_segments [keep_intros]: "fkeep s s' \<Longrightarrow> keeps s (load_segments k dv s' ip pgdir off sz)"
  by (induction k arbitrary: s' off sz) (simp, unfold load_segments.simps Let_def, intro keep_intros, simp_all)

lemma keeps_exec_bad [keep_intros]: "fkeep s s' \<Longrightarrow> keeps s (exec_bad s' pgdir ip)"
  unfolding exec_bad_def by (intro keep_intros) simp_all

lemma keeps_exec_commit [keep_intros]: "fkeep s s' \<Longrightarrow> keeps s (exec_commit s' path pgdir sz sp entry)"
  unfolding exec_commit_def Let_def by (intro keep_intros) (simp_all add: fkeep_set_cur)

lemma keeps_exec_stack [keep_intros]: "fkeep s s' \<Longrightarrow> keeps s (exec_stack s' path argv pgdir sz entry)"
  unfolding exec_stack_def Let_def by (intro keep_intros) simp_all

lemma keeps_exec [keep_intros]: "fkeep s s' \<Longrightarrow> keeps s (exec ks dv s' path argv)"
  unfolding exec_def Let_def by (intro keep_intros) simp_all

lemma keeps_sys_exec: "fkeep s s' \<Longrightarrow> keeps s (sys_exec ks dv s')"
  unfolding sys_exec_def by (intro keep_intros) simp_all

section \<open>Accounting\<close>

definition acct :: "'d kern \<Rightarrow> (nat \<Rightarrow> int) \<Rightarrow> bool" where
  "acct s ex \<longleftrightarrow> counted s ex \<and> running s"

lemma acct_keep: "fkeep s s' \<Longrightarrow> acct s ex \<Longrightarrow> acct s' ex"
  by (simp add: acct_def counted_keep running_keep)

text \<open>One descriptor is filled or cleared.\<close>

lemma fd_slots_set:
  assumes "p < NPROC" "fd < NOFILE"
  shows "fd_slots (set_proc t p (\<lambda>x. x\<lparr>p_ofile := (p_ofile x)(fd := v)\<rparr>)) f =
    (if v = Some f then insert (p, fd) (fd_slots t f) else fd_slots t f - {(p, fd)})"
  using assms by (auto simp: fd_slots_def set_proc_def split: if_splits)

lemma counted_fill:
  assumes "counted s ex" "p < NPROC" "fd < NOFILE" "f < NFILE" "p_ofile (ptable (ktab s) p) fd = None" "\<not> dead (p_state (ptable (ktab s) p))"
  shows "counted (kset s p (\<lambda>x. x\<lparr>p_ofile := (p_ofile x)(fd := Some f)\<rparr>)) (bump (-1) f ex)"
proof (rule countedI)
  fix g assume g: "g < NFILE"
  have n: "(p, fd) \<notin> fd_slots (ktab s) h" for h using assms(5) by (simp add: fd_slots_def)
  then show "f_ref (ftable (kset s p (\<lambda>x. x\<lparr>p_ofile := (p_ofile x)(fd := Some f)\<rparr>)) g) =
      int (card (fd_slots (ktab (kset s p (\<lambda>x. x\<lparr>p_ofile := (p_ofile x)(fd := Some f)\<rparr>))) g)) + bump (-1) f ex g"
    using countedD(1) [OF assms(1) g] by (simp add: kset_def fd_slots_set [OF assms(2,3)] bump_def)
qed (use countedD(2,3) [OF assms(1)] assms(4,6) in \<open>auto simp: kset_def set_proc_def split: if_splits\<close>)

lemma counted_clear:
  assumes "counted s ex" "p < NPROC" "fd < NOFILE" "p_ofile (ptable (ktab s) p) fd = Some f"
  shows "counted (kset s p (\<lambda>x. x\<lparr>p_ofile := (p_ofile x)(fd := None)\<rparr>)) (bump 1 f ex)"
proof (rule countedI)
  fix g assume g: "g < NFILE"
  have n: "(p, fd) \<in> fd_slots (ktab s) h \<longleftrightarrow> h = f" for h using assms(2-4) by (auto simp: fd_slots_def)
  have "int (card (fd_slots (ktab s) f - {(p, fd)})) = int (card (fd_slots (ktab s) f)) - 1"
    using n [of f] card_Suc_Diff1 [of "fd_slots (ktab s) f" "(p, fd)"] by simp
  then show "f_ref (ftable (kset s p (\<lambda>x. x\<lparr>p_ofile := (p_ofile x)(fd := None)\<rparr>)) g) =
      int (card (fd_slots (ktab (kset s p (\<lambda>x. x\<lparr>p_ofile := (p_ofile x)(fd := None)\<rparr>))) g)) + bump 1 f ex g"
    using countedD(1) [OF assms(1) g] n [of g] by (simp add: kset_def fd_slots_set [OF assms(2,3)] bump_def)
qed (use countedD(2,3) [OF assms(1)] in \<open>auto simp: kset_def set_proc_def split: if_splits\<close>)

lemma counted_ref:
  assumes "counted s ex" "f_ref (g (ftable s f)) = f_ref (ftable s f) + d"
  shows "counted (set_file s f g) (bump d f ex)"
  by (rule countedI) (use assms(2) countedD [OF assms(1)] in \<open>auto simp: set_file_def bump_def\<close>)

lemma running_updates [simp]:
  "running (set_file s f g) = running s"
  "running (kset s p (\<lambda>x. x\<lparr>p_ofile := (p_ofile x)(fd := v)\<rparr>)) = running s"
  by (simp_all add: running_def set_file_def kset_def set_proc_def)

lemma acct_filealloc:
  assumes "acct s ex" "filealloc s = (r, s')"
  shows "case r of None \<Rightarrow> s' = s | Some f \<Rightarrow> f < NFILE \<and> acct s' (bump 1 f ex)"
proof (cases "find (\<lambda>f. f_ref (ftable s f) = 0) [0..<NFILE]")
  case (Some f)
  then have "f_ref (ftable s f) = 0" "f < NFILE" by (auto simp: find_Some_iff)
  moreover have "r = Some f" "s' = set_file s f (\<lambda>x. x\<lparr>f_ref := 1\<rparr>)" using assms(2) Some unfolding filealloc_def by simp_all
  ultimately show ?thesis using assms(1) counted_ref [of s ex "\<lambda>x. x\<lparr>f_ref := 1\<rparr>" f 1] by (simp add: acct_def)
qed (use assms in \<open>auto simp: filealloc_def\<close>)

lemma acct_filedup: "acct s ex \<Longrightarrow> filedup s f = Ok s' \<Longrightarrow> acct s' (bump 1 f ex)"
  by (auto simp: filedup_def acct_def counted_ref split: if_splits)

lemma keeps_close_pipe [keep_intros]: "fkeep s s' \<Longrightarrow> keeps1 s (close_pipe s' p w)"
  unfolding close_pipe_def Let_def
  by (cases "pipeclose (pipes s' p) w") (auto intro!: keep_intros simp: fkeep_wake_chans)

lemma fileclose_keep:
  assumes "fileclose s f = Ok s'"
  shows "fkeep (set_file s f (\<lambda>x. x\<lparr>f_ref := f_ref x - 1\<rparr>)) s'"
proof -
  define t where "t = set_file s f (\<lambda>x. x\<lparr>f_ref := f_ref x - 1\<rparr>)"
  define u where "u = set_file t f (\<lambda>x. x\<lparr>f_ref := 0, f_type := FD_NONE\<rparr>)"
  have r: "\<not> f_ref (ftable s f) < 1" using assms by (rule_tac notI) (simp add: fileclose_def)
  have "fkeep t s'"
  proof (cases "f_ref (ftable t f) > 0")
    case True
    then show ?thesis using assms r by (simp add: fileclose_def Let_def flip: t_def)
  next
    case False
    then have "fkeep t u" using r by (auto simp: u_def t_def fkeep_def set_file_def)
    then have "keeps1 t (case f_type (ftable t f) of FD_NONE \<Rightarrow> Ok u | FD_PIPE \<Rightarrow> close_pipe u (f_pipe (ftable t f)) (f_writable (ftable t f))
        | FD_INODE \<Rightarrow> andthen (on_fs u fs_begin) (\<lambda>s. andthen (on_fs s (\<lambda>x. iput x (f_ip (ftable t f)))) (\<lambda>s. on_fs s fs_end)))"
      by (cases "f_type (ftable t f)") (auto intro!: keep_intros)
    then show ?thesis using assms r False by (simp add: fileclose_def Let_def keeps1_def flip: t_def u_def)
  qed
  then show ?thesis by (simp add: t_def)
qed

lemma acct_fileclose: "acct s ex \<Longrightarrow> fileclose s f = Ok s' \<Longrightarrow> acct s' (bump (-1) f ex)"
  by (rule acct_keep [OF fileclose_keep]) (auto simp: acct_def counted_ref)

lemma fileclose_ofile:
  "fileclose s f = Ok s' \<Longrightarrow> kcur s' = kcur s" "fileclose s f = Ok s' \<Longrightarrow> p_ofile (ptable (ktab s') p) = p_ofile (ptable (ktab s) p)"
  using fileclose_keep [of s f s'] by (simp_all add: fkeep_def set_file_def)

lemma set_cur_kset: "set_cur s g = kset s (kcur s) g"
  by (simp add: set_cur_def kset_def)

lemma acct_fdalloc:
  assumes "acct s ex" "f < NFILE" "fdalloc s f = (r, s')"
  shows "case r of None \<Rightarrow> s' = s | Some fd \<Rightarrow> fd < NOFILE \<and> p_ofile (myproc s') fd = Some f \<and> acct s' (bump (-1) f ex)"
proof (cases "find (\<lambda>fd. p_ofile (myproc s) fd = None) [0..<NOFILE]")
  case (Some fd)
  have r: "kcur s < NPROC" "\<not> dead (p_state (myproc s))" using assms(1) by (simp_all add: acct_def running_def dead_def)
  have "p_ofile (myproc s) fd = None" "fd < NOFILE" using Some by (auto simp: find_Some_iff)
  moreover have "r = Some fd" "s' = kset s (kcur s) (\<lambda>x. x\<lparr>p_ofile := (p_ofile x)(fd := Some f)\<rparr>)"
    using assms(3) Some unfolding fdalloc_def set_cur_kset by simp_all
  ultimately show ?thesis using assms(1,2) counted_fill [of s ex "kcur s" fd f] r
    by (simp add: acct_def) (simp add: kset_def set_proc_def)
qed (use assms in \<open>auto simp: fdalloc_def\<close>)

lemma acct_clear_fd:
  assumes "acct s ex" "fd < NOFILE" "p_ofile (myproc s) fd = Some f"
  shows "acct (clear_fd s fd) (bump 1 f ex)"
  using assms counted_clear [of s ex "kcur s" fd f] by (simp add: clear_fd_def acct_def set_cur_kset running_def)
    (simp add: kset_def set_proc_def)

lemma argfd_file:
  assumes "acct s ex" "argfd s n = Ok (Some (fd, f))"
  shows "fd < NOFILE" "p_ofile (myproc s) fd = Some f" "f < NFILE"
proof -
  show a: "fd < NOFILE" "p_ofile (myproc s) fd = Some f" using assms(2)
    by (auto simp: argfd_def andthen_Ok_iff Let_def split: option.splits if_splits)
  then show "f < NFILE" using countedD(2) assms(1) unfolding acct_def running_def by blast
qed

lemma sys_dup_files:
  assumes "acct s ex" "sys_dup s = Ok (v, s')"
  shows "acct s' ex"
proof -
  obtain r where r: "argfd s 0 = Ok r" using assms(2) by (cases "argfd s 0") (simp_all add: sys_dup_def)
  show ?thesis
  proof (cases r)
    case (Some a)
    obtain fd f where a: "a = (fd, f)" by (cases a)
    obtain fd' t where t: "fdalloc s f = (fd', t)" by fastforce
    have "f < NFILE" using argfd_file assms(1) r Some a by blast
    then have d: "case fd' of None \<Rightarrow> t = s | Some fd \<Rightarrow> acct t (bump (-1) f ex)" using acct_fdalloc [OF assms(1) _ t] by (cases fd') auto
    then show ?thesis using assms r Some a t acct_filedup [of t "bump (-1) f ex" f]
      by (cases fd') (auto simp: sys_dup_def andthen_Ok_iff)
  qed (use assms r in \<open>simp add: sys_dup_def\<close>)
qed

lemma sys_close_files:
  assumes "acct s ex" "sys_close s = Ok (v, s')"
  shows "acct s' ex"
proof -
  obtain r where r: "argfd s 0 = Ok r" using assms(2) by (cases "argfd s 0") (simp_all add: sys_close_def)
  show ?thesis
  proof (cases r)
    case (Some a)
    obtain fd f where a: "a = (fd, f)" by (cases a)
    have "acct (clear_fd s fd) (bump 1 f ex)" using argfd_file [OF assms(1)] r Some a by (simp add: acct_clear_fd assms(1))
    then show ?thesis using assms(2) r Some a acct_fileclose [of "clear_fd s fd" "bump 1 f ex" f]
      by (auto simp: sys_close_def andthen_Ok_iff)
  qed (use assms r in \<open>simp add: sys_close_def\<close>)
qed

text \<open>\<open>settles ex m\<close>: when \<open>m\<close> returns, the accounts are balanced up to \<open>ex\<close>.\<close>

definition settles :: "(nat \<Rightarrow> int) \<Rightarrow> ('a \<times> 'd kern) res \<Rightarrow> bool" where
  "settles ex m \<longleftrightarrow> (\<forall>r s'. m = Ok (r, s') \<longrightarrow> acct s' ex)"

lemma settles_simps [simp]: "settles ex (Ok (r, s)) = acct s ex" "settles ex (Panic e)" "settles ex Fault" "settles ex Blocked"
  by (simp_all add: settles_def)

lemma settles_any: "(\<And>x. m = Ok x \<Longrightarrow> settles ex (g x)) \<Longrightarrow> settles ex (andthen m g)"
  by (cases m) simp_all

lemma settles_keeps: "acct s ex \<Longrightarrow> keeps s m \<Longrightarrow> settles ex m"
  by (auto simp: settles_def keeps_def intro: acct_keep)

lemma settles_bind:
  "settles ex m \<Longrightarrow> (\<And>r s'. acct s' ex \<Longrightarrow> settles ex (g (r, s'))) \<Longrightarrow> settles ex (andthen m g)"
  "acct s ex \<Longrightarrow> keeps s k \<Longrightarrow> (\<And>r s'. acct s' ex \<Longrightarrow> settles ex (g' (r, s'))) \<Longrightarrow> settles ex (andthen k g')"
  "acct s ex \<Longrightarrow> keeps1 s n \<Longrightarrow> (\<And>s'. acct s' ex \<Longrightarrow> settles ex (h s')) \<Longrightarrow> settles ex (andthen n h)"
  by (rule settles_any; metis settles_def keeps_def keeps1_def acct_keep surj_pair)+

lemma settles_fileclose:
  assumes "acct s (bump 1 f ex)" "\<And>s'. acct s' ex \<Longrightarrow> settles ex' (g s')"
  shows "settles ex' (andthen (fileclose s f) g)"
  by (rule settles_any) (use acct_fileclose [OF assms(1), of f] assms(2) in simp)

lemma settles_open_file_fd: "acct s ex \<Longrightarrow> settles ex (open_file_fd s)"
proof -
  assume a: "acct s ex"
  obtain r t where t: "filealloc s = (r, t)" by fastforce
  show ?thesis
  proof (cases r)
    case (Some f)
    then have f: "f < NFILE" "acct t (bump 1 f ex)" using acct_filealloc [OF a t] by simp_all
    obtain fd u where u: "fdalloc t f = (fd, u)" by fastforce
    have u': "case fd of None \<Rightarrow> u = t | Some fd \<Rightarrow> acct u ex" using acct_fdalloc [OF f(2,1) u] by (cases fd) simp_all
    show ?thesis using u' f settles_fileclose [of t f ex ex "\<lambda>s. Ok (None, s)"]
      by (cases fd) (simp_all add: open_file_fd_def t Some u)
  qed (use a acct_filealloc [OF a t] in \<open>simp add: open_file_fd_def t\<close>)
qed

lemma keeps_open [keep_intros]:
  "keeps s (andthen (on_fs s (\<lambda>x. iunlockput x ip)) (\<lambda>s. andthen (on_fs s fs_end) (\<lambda>s. Ok (v, s))))"
  by (intro keep_intros) simp_all

lemma settles_do_open:
  assumes "acct s ex"
  shows "settles ex (do_open dv cwd path omode s)"
proof -
  have e: "settles ex (case r of None \<Rightarrow> andthen (on_fs t (\<lambda>x. iunlockput x ip)) (\<lambda>s. andthen (on_fs s fs_end) (\<lambda>s. Ok (-1, s)))
      | Some (f, fd) \<Rightarrow> andthen (on_fs t (\<lambda>x. iunlock x ip)) (\<lambda>s. andthen (on_fs s fs_end) (\<lambda>s. Ok (int fd, set_file s f (\<lambda>y. y\<lparr>f_type := FD_INODE,
        f_ip := ip, f_off := 0, f_readable := omode AND O_WRONLY = 0, f_writable := omode AND O_WRONLY \<noteq> 0 \<or> omode AND O_RDWR \<noteq> 0\<rparr>)))))"
    if "acct t ex" for t r ip
    by (rule settles_keeps [OF that]) (cases r; auto intro!: keep_intros fkeep_set_file)
  have k: "keeps t (andthen (on_fs t fs_end) (\<lambda>s. Ok (-1 :: int, s)))" for t by (intro keep_intros) simp_all
  show ?thesis unfolding do_open_def
    apply (rule settles_bind(3) [OF assms], rule keeps_fs, simp)
    apply (rule settles_bind(2), assumption, rule keeps_fs, simp)
    subgoal for s1 r s2
      by (cases r) (auto intro!: settles_bind(1) [OF settles_open_file_fd] e settles_keeps [OF _ k])
    done
qed

lemma settles_sys_open: "acct s ex \<Longrightarrow> settles ex (sys_open dv s)"
  unfolding sys_open_def by (rule settles_any, simp split: option.split)+ (auto intro!: settles_any settles_do_open split: option.split)

text \<open>A pipe's two ends, before they have descriptors.\<close>

lemma acct_close_opt: "acct s (case f of None \<Rightarrow> ex | Some f \<Rightarrow> bump 1 f ex) \<Longrightarrow> close_opt s f = Ok s' \<Longrightarrow> acct s' ex"
  using acct_fileclose by (cases f) (fastforce simp: close_opt_def)+

lemma close_both_files:
  assumes "acct s (case a of None \<Rightarrow> ex | Some a \<Rightarrow> bump 1 a (case b of None \<Rightarrow> ex | Some b \<Rightarrow> bump 1 b ex))" "a = None \<Longrightarrow> b = None"
    "andthen (close_opt s a) (\<lambda>s. andthen (close_opt s b) (\<lambda>s. Ok (v, s))) = Ok (r, s')"
  shows "r = v \<and> acct s' ex"
proof -
  obtain t where t: "close_opt s a = Ok t" using assms(3) by (cases "close_opt s a") simp_all
  have "acct t (case b of None \<Rightarrow> ex | Some b \<Rightarrow> bump 1 b ex)"
    by (rule acct_close_opt [OF _ t]) (use assms(1,2) in \<open>cases a; simp\<close>)
  then show ?thesis using assms(3) t by (cases "close_opt t b") (auto intro: acct_close_opt)
qed

lemma pipealloc_files:
  assumes "acct s ex" "pipealloc s = Ok (r, s')"
  shows "case r of None \<Rightarrow> acct s' ex | Some (a, b) \<Rightarrow> a < NFILE \<and> b < NFILE \<and> acct s' (bump 1 a (bump 1 b ex))"
proof -
  obtain f0 t where t: "filealloc s = (f0, t)" by fastforce
  show ?thesis
  proof (cases f0)
    case (Some a)
    then have a: "a < NFILE" "acct t (bump 1 a ex)" using acct_filealloc [OF assms(1) t] by simp_all
    obtain f1 u where u: "filealloc t = (f1, u)" by fastforce
    show ?thesis
    proof (cases f1)
      case None
      then have "u = t" using acct_filealloc [OF a(2) u] by simp
      then show ?thesis using assms(2) close_both_files [where s = t and a = f0 and ex = ex and b = f1 and r = r and s' = s' and v = None] a Some None
        by (simp add: pipealloc_def t u Let_def)
    next
      case (Some b)
      then have b: "b < NFILE" "acct u (bump 1 a (bump 1 b ex))" using acct_filealloc [OF a(2) u] by (simp_all add: bump_commute)
      obtain p m where m: "kalloc (kmemory u) = (p, m)" by fastforce
      have u': "acct (u\<lparr>kmemory := m\<rparr>) (bump 1 a (bump 1 b ex))" using acct_keep [OF _ b(2)] by simp
      show ?thesis
      proof (cases "p = 0")
        case True
        then show ?thesis using assms(2) close_both_files [where s = "u\<lparr>kmemory := m\<rparr>" and a = f0 and ex = ex and b = f1 and r = r and s' = s' and v = None] u' \<open>f0 = Some a\<close> Some
          by (simp add: pipealloc_def t u m Let_def)
      next
        case False
        then have "r = Some (a, b)" "fkeep (u\<lparr>kmemory := m\<rparr>) s'" using assms(2) \<open>f0 = Some a\<close> Some
          by (auto simp: pipealloc_def t u m Let_def intro!: fkeep_set_file)
        then show ?thesis using acct_keep [OF _ u'] a(1) b(1) by simp
      qed
    qed
  qed (use assms acct_filealloc [OF assms(1) t] in \<open>auto simp: pipealloc_def t close_opt_def Let_def\<close>)
qed

lemma settles_pipe_fds:
  assumes t: "acct t (bump 1 rd (bump 1 wr ex))" "rd < NFILE" "wr < NFILE"
  shows "settles ex (pipe_fds t p rd wr)"
proof -
  have c: "settles ex (andthen (fileclose u rd) (\<lambda>s. andthen (fileclose s wr) (\<lambda>s. Ok (-1 :: int, s))))" if "acct u (bump 1 rd (bump 1 wr ex))" for u
    by (rule settles_fileclose [OF that], rule settles_fileclose, assumption, simp)
  obtain fd0 u where u: "fdalloc t rd = (fd0, u)" by fastforce
  show ?thesis
  proof (cases fd0)
    case (Some x)
    have x: "x < NOFILE" "p_ofile (myproc u) x = Some rd" "acct u (bump 1 wr ex)" using acct_fdalloc [OF t(1,2) u] Some by simp_all
    obtain fd1 w where w: "fdalloc u wr = (fd1, w)" by fastforce
    have d: "case fd1 of None \<Rightarrow> w = u | Some _ \<Rightarrow> acct w ex" using acct_fdalloc [OF x(3) t(3) w] by (cases fd1) simp_all
    show ?thesis
    proof (cases fd1)
      case None
      then show ?thesis using c [OF acct_clear_fd [OF x(3,1,2)]] d Some by (simp add: pipe_fds_def u w)
    next
      case (Some y)
      have k: "settles ex (andthen (user_write w p bs) (\<lambda>s. Ok (0 :: int, s)))" for bs
        using d Some by (intro settles_bind(3) [of w] keeps_user_write) simp_all
      show ?thesis using k \<open>fd0 = Some x\<close> Some by (simp add: pipe_fds_def u w del: user_write.simps)
    qed
  qed (use t(1) acct_fdalloc [OF t(1,2) u] c in \<open>simp add: pipe_fds_def u\<close>)
qed

lemma settles_sys_pipe: "acct s ex \<Longrightarrow> settles ex (sys_pipe s)"
proof -
  assume a: "acct s ex"
  have "settles ex (case r of None \<Rightarrow> Ok (-1, t) | Some (rd, wr) \<Rightarrow> pipe_fds t p rd wr)" if "pipealloc s = Ok (r, t)" for r t p
    using pipealloc_files [OF a that] settles_pipe_fds by (cases r) auto
  then have "settles ex (andthen (pipealloc s) (\<lambda>(r, s). case r of None \<Rightarrow> Ok (-1, s) | Some (rd, wr) \<Rightarrow> pipe_fds s p rd wr))" for p
    by (intro settles_any) auto
  then show ?thesis unfolding sys_pipe_def by (intro settles_any) (use a in \<open>simp split: option.split\<close>)
qed

section \<open>Processes\<close>

lemma fkeep_kset:
  "fkeep s s' \<Longrightarrow> (\<And>x. p_ofile (g x) = p_ofile x) \<Longrightarrow> (\<And>x. p_state (g x) = p_state x) \<Longrightarrow> fkeep s (kset s' p g)"
  "fkeep s s' \<Longrightarrow> (\<And>x. p_ofile (g x) = p_ofile x) \<Longrightarrow> (\<And>x. p_state (g x) = UNUSED) \<Longrightarrow> p_state (ptable (ktab s) p) = UNUSED \<Longrightarrow> fkeep s (kset s' p g)"
  by (simp_all add: fkeep_def kset_def set_proc_def dead_def)

lemma kset_frame [simp]:
  "kcur (kset s p g) = kcur s" "ptable (ktab (kset s p g)) q = (if q = p then g (ptable (ktab s) p) else ptable (ktab s) q)"
  "ktab (set_mem s h) = ktab s" "kcur (set_mem s h) = kcur s"
  by (simp_all add: kset_def set_proc_def set_mem_def)

lemma allocproc_files:
  assumes "allocproc ks s = Ok (r, s')"
  shows "fkeep s s'"
    "r = Some p \<Longrightarrow> p < NPROC \<and> p_state (ptable (ktab s) p) = UNUSED \<and> p_state (ptable (ktab s') p) = EMBRYO"
proof -
  obtain q t where t: "alloc_slot (ktab s) = Ok (q, t)" using assms by (cases "alloc_slot (ktab s)") (auto simp: allocproc_def)
  obtain k m where m: "kalloc (kmemory s) = (k, m)" by fastforce
  have q: "q < NPROC \<and> p_state (ptable (ktab s) q) = UNUSED \<and> p_state (ptable t q) = EMBRYO \<and> fkeep s (s\<lparr>ktab := t\<rparr>)" if "alloc_slot (ktab s) = Ok (Some q, t)" for q
  proof -
    have "q < NPROC" "p_state (ptable (ktab s) q) = UNUSED" using that by (auto simp: alloc_slot_def find_Some_iff split: option.splits if_splits)
    then show ?thesis using that by (auto simp: alloc_slot_def fkeep_def set_proc_def dead_def split: option.splits if_splits)
  qed
  have n: "t = ktab s" if "q = None" using t that by (auto simp: alloc_slot_def split: option.splits if_splits)
  show "fkeep s s'"
  proof (cases q)
    case None
    then show ?thesis using assms n by (simp add: allocproc_def t)
  next
    case (Some x)
    note x = q [OF t [unfolded Some]]
    have "fkeep s (kset (kset (s\<lparr>ktab := t, kmemory := m\<rparr>) x (\<lambda>y. y\<lparr>p_kstack := k\<rparr>)) x (\<lambda>y. y\<lparr>p_state := UNUSED\<rparr>))"
      using x by (intro fkeep_kset(2) fkeep_kset(1)) simp_all
    then show ?thesis using assms x by (auto simp: allocproc_def t Some m Let_def intro!: fkeep_kset(1) split: if_splits)
  qed
  show "p < NPROC \<and> p_state (ptable (ktab s) p) = UNUSED \<and> p_state (ptable (ktab s') p) = EMBRYO" if "r = Some p"
    using that assms q [of p] t by (cases q) (auto simp: allocproc_def t m Let_def split: if_splits)
qed

lemma dup_files_acct:
  assumes "acct s ex" "np < NPROC" "np \<noteq> kcur s" "p_state (ptable (ktab s) np) = EMBRYO" "distinct is"
    "\<And>i. i \<in> set is \<Longrightarrow> i < NOFILE \<and> p_ofile (ptable (ktab s) np) i = None" "dup_files is s np = Ok s'"
  shows "acct s' ex \<and> kcur s' = kcur s \<and> p_state (ptable (ktab s') np) = EMBRYO"
  using assms
proof (induction "is" arbitrary: s)
  case (Cons i "is")
  show ?case
  proof (cases "p_ofile (myproc s) i")
    case None
    then show ?thesis using Cons by simp
  next
    case (Some f)
    obtain t where t: "filedup s f = Ok t" using Cons.prems(7) Some by (cases "filedup s f") simp_all
    have tf: "t = set_file s f (\<lambda>x. x\<lparr>f_ref := f_ref x + 1\<rparr>)" using t by (simp add: filedup_def split: if_splits)
    define u where "u = kset t np (\<lambda>x. x\<lparr>p_ofile := (p_ofile x)(i := Some f)\<rparr>)"
    have "f < NFILE" using countedD(2) Cons.prems(1,6) Some unfolding acct_def running_def by (meson list.set_intros(1))
    moreover have "acct t (bump 1 f ex)" using acct_filedup [OF Cons.prems(1) t] .
    moreover have "p_ofile (ptable (ktab t) np) i = None" "p_state (ptable (ktab t) np) = EMBRYO" "kcur t = kcur s"
      using Cons.prems(4,6) by (simp_all add: tf set_file_def)
    ultimately have "acct u ex" using counted_fill [of t "bump 1 f ex" np i f] Cons.prems(2,3,6)
      by (simp add: u_def acct_def dead_def running_def)
    moreover have "dup_files is u np = Ok s'" using Cons.prems(7) Some t by (simp add: u_def)
    moreover have "np \<noteq> kcur u" "p_state (ptable (ktab u) np) = EMBRYO" "kcur u = kcur s"
      using Cons.prems(3,4) by (simp_all add: u_def tf set_file_def)
    moreover have "j < NOFILE \<and> p_ofile (ptable (ktab u) np) j = None" if "j \<in> set is" for j
      using Cons.prems(5,6) that by (auto simp: u_def tf set_file_def)
    ultimately show ?thesis using Cons.IH [of u] Cons.prems(2,5) by simp
  qed
qed simp

lemma settles_fork_files:
  assumes "acct s ex" "np < NPROC" "p_state (ptable (ktab s) np) = EMBRYO" "\<And>i. i < NOFILE \<Longrightarrow> p_ofile (ptable (ktab s) np) i = None"
  shows "settles ex (fork_files s np)"
  unfolding fork_files_def
proof (rule settles_any)
  fix t assume t: "dup_files [0..<NOFILE] s np = Ok t"
  have n: "np \<noteq> kcur s" using assms(1,3) by (auto simp: acct_def running_def)
  then have e: "acct t ex" "p_state (ptable (ktab t) np) = EMBRYO" "np \<noteq> kcur t"
    using dup_files_acct [OF assms(1,2) _ assms(3) _ _ t] assms(4) by auto
  have k: "fkeep t (kset (kset (kset (t\<lparr>kfs := x\<rparr>) np f) np g) np (\<lambda>x. x\<lparr>p_state := RUNNABLE\<rparr>))"
    if "\<And>x. p_ofile (f x) = p_ofile x" "\<And>x. p_ofile (g x) = p_ofile x" for x f g
    using e(2) that by (simp add: fkeep_def kset_def set_proc_def dead_def)
  show "settles ex (case p_cwd (myproc t) of None \<Rightarrow> Fault
       | Some cwd \<Rightarrow> let (ip, x) = idup (kfs t) cwd; s = kset (t\<lparr>kfs := x\<rparr>) np (\<lambda>x. x\<lparr>p_cwd := Some ip\<rparr>);
             s = kset s np (\<lambda>x. x\<lparr>p_name := set_name (p_name x) (takeWhile (\<lambda>c. c \<noteq> 0) (p_name (myproc s)))\<rparr>);
             pid = p_pid (ptable (ktab s) np) in Ok (pid, kset s np (\<lambda>x. x\<lparr>p_state := RUNNABLE\<rparr>)))"
    using e(3) by (auto simp: Let_def split: option.split prod.split intro!: acct_keep [OF _ e(1)] k)
qed

lemma settles_fork:
  assumes "acct s ex"
  shows "settles ex (fork ks s)"
  unfolding fork_def
proof (rule settles_any)
  fix z assume z: "allocproc ks s = Ok z"
  obtain r t where t: "z = (r, t)" by (cases z)
  note a = allocproc_files [OF z [unfolded t]]
  have at: "acct t ex" using acct_keep [OF a(1) assms] .
  have bad: "acct (kset (kset (t\<lparr>kmemory := m\<rparr>) np (\<lambda>x. x\<lparr>p_pgdir := d\<rparr>)\<lparr>kmemory := m'\<rparr>) np (\<lambda>x. x\<lparr>p_kstack := 0, p_state := UNUSED\<rparr>)) ex"
    if "r = Some np" for m d m' np
    using a(1) a(2) [OF that] by (intro acct_keep [OF _ assms] fkeep_kset(2)) (simp_all add: fkeep_kset(1))
  have good: "settles ex (fork_child (kset (t\<lparr>kmemory := m\<rparr>) np (\<lambda>x. x\<lparr>p_pgdir := d\<rparr>)) np)" if r: "r = Some np" for m d np
  proof -
    have "fkeep t ((kset (t\<lparr>kmemory := m\<rparr>) np (\<lambda>x. x\<lparr>p_pgdir := d\<rparr>))\<lparr>ktab := fork_fill (ktab (kset (t\<lparr>kmemory := m\<rparr>) np (\<lambda>x. x\<lparr>p_pgdir := d\<rparr>))) np c\<rparr>)" for c
      by (simp add: fkeep_def kset_def set_proc_def fork_fill_def)
    moreover have "p_ofile (ptable (ktab t) np) i = None" if "i < NOFILE" for i
      using countedD(3) [of s ex np i] assms a(1) a(2) [OF r] that by (simp add: acct_def dead_def fkeep_def)
    ultimately show ?thesis unfolding fork_child_def Let_def using a(2) [OF r]
      by (intro settles_fork_files acct_keep [OF _ at]) (simp_all add: fork_fill_def set_proc_def)
  qed
  show "settles ex (case z of (r, s) \<Rightarrow> case r of None \<Rightarrow> Ok (-1, s) | Some np \<Rightarrow>
         andthen (copyuvm (sym_data ks) (kmemory s) (p_pgdir (myproc s)) (p_sz (myproc s))) (\<lambda>(d, m).
         let s = kset (s\<lparr>kmemory := m\<rparr>) np (\<lambda>x. x\<lparr>p_pgdir := d\<rparr>) in
         if d = 0
         then andthen (kfree (kmemory s) (p_kstack (ptable (ktab s) np))) (\<lambda>m.
                Ok (-1, kset (s\<lparr>kmemory := m\<rparr>) np (\<lambda>x. x\<lparr>p_kstack := 0, p_state := UNUSED\<rparr>)))
         else fork_child s np))"
    using at bad good by (cases r) (auto simp: t Let_def intro!: settles_any)
qed

lemma close_files_acct:
  assumes "acct s ex" "set fds \<subseteq> {..<NOFILE}" "close_files fds s = Ok s'"
  shows "acct s' ex \<and> kcur s' = kcur s \<and> (\<forall>fd. p_ofile (ptable (ktab s') (kcur s)) fd = (if fd \<in> set fds then None else p_ofile (myproc s) fd))"
  using assms
proof (induction fds arbitrary: s)
  case (Cons fd fds)
  show ?case
  proof (cases "p_ofile (myproc s) fd")
    case None
    then show ?thesis using Cons.IH [of s] Cons.prems by simp
  next
    case (Some f)
    obtain t where t: "fileclose s f = Ok t" using Cons.prems(3) Some by (cases "fileclose s f") simp_all
    have o: "kcur t = kcur s" "p_ofile (myproc t) = p_ofile (myproc s)" using fileclose_ofile [OF t] by simp_all
    have "acct (clear_fd t fd) ex"
      using acct_clear_fd [of t "bump (-1) f ex" fd f] acct_fileclose [OF Cons.prems(1) t] Cons.prems(2) Some o by simp
    moreover have "close_files fds (clear_fd t fd) = Ok s'" using Cons.prems(3) Some t by (simp add: clear_fd_def)
    ultimately show ?thesis using Cons.IH [of "clear_fd t fd"] Cons.prems(2) o by (auto simp: clear_fd_def set_cur_def set_proc_def)
  qed
qed simp

lemma exit_table_files:
  "p_ofile (ptable (exit_table t p) q) = p_ofile (ptable t q)"
  "q \<noteq> p \<Longrightarrow> dead (p_state (ptable (exit_table t p) q)) = dead (p_state (ptable t q))"
proof -
  have a: "p_ofile (ptable (abandon c r t) q) = p_ofile (ptable t q) \<and> dead (p_state (ptable (abandon c r t) q)) = dead (p_state (ptable t q))" for c r t q
    by (simp add: abandon_def Let_def set_proc_def woken_def dead_def)
  have "p_ofile (ptable (fold (abandon c) qs t) q) = p_ofile (ptable t q) \<and>
      dead (p_state (ptable (fold (abandon c) qs t) q)) = dead (p_state (ptable t q))" for c qs t q
    by (induction qs arbitrary: t) (simp_all add: a)
  then show "p_ofile (ptable (exit_table t p) q) = p_ofile (ptable t q)"
    "q \<noteq> p \<Longrightarrow> dead (p_state (ptable (exit_table t p) q)) = dead (p_state (ptable t q))"
    by (simp_all add: exit_table_def Let_def set_proc_def wake_keeps del: upt.simps wakeup1_simps)
qed

lemma on_fs_keep: "on_fs s m = Ok s' \<Longrightarrow> fkeep s s'"
  by (auto simp: on_fs_def andthen_Ok_iff)

lemma exit_files:
  assumes "acct s ex" "exit s = Ok s'"
  shows "counted s' ex"
proof -
  obtain t where t: "close_files [0..<NOFILE] s = Ok t" using assms(2)
    by (cases "close_files [0..<NOFILE] s") (simp_all add: exit_def del: upt.simps split: if_splits)
  have "set [0..<NOFILE] \<subseteq> {..<NOFILE}" by auto
  then have c: "acct t ex" "\<And>fd. fd < NOFILE \<Longrightarrow> p_ofile (myproc t) fd = None" using close_files_acct [OF assms(1) _ t] by simp_all
  obtain x y z ip where x: "on_fs t fs_begin = Ok x" "on_fs x (\<lambda>x. iput x ip) = Ok y" "on_fs y fs_end = Ok z"
      "s' = (set_cur z (\<lambda>x. x\<lparr>p_cwd := None\<rparr>))\<lparr>ktab := exit_table (ktab (set_cur z (\<lambda>x. x\<lparr>p_cwd := None\<rparr>))) (kcur (set_cur z (\<lambda>x. x\<lparr>p_cwd := None\<rparr>)))\<rparr>"
    using assms(2) t by (auto simp: exit_def Let_def andthen_Ok_iff simp del: upt.simps split: if_splits option.splits)
  define u where "u = set_cur z (\<lambda>x. x\<lparr>p_cwd := None\<rparr>)"
  have "fkeep t z" using x(1-3) on_fs_keep fkeep_trans by metis
  then have u: "fkeep t u" "s' = u\<lparr>ktab := exit_table (ktab u) (kcur u)\<rparr>" using x(4) by (simp_all add: u_def fkeep_set_cur)
  have f: "fd_slots (exit_table (ktab u) p) f = fd_slots (ktab u) f" for p f by (simp add: fd_slots_def exit_table_files)
  note cu = countedD [OF counted_keep [OF u(1)], of ex]
  show ?thesis
  proof (rule countedI)
    fix p fd assume p: "p < NPROC" "fd < NOFILE" "dead (p_state (ptable (ktab s') p))"
    show "p_ofile (ptable (ktab s') p) fd = None"
    proof (cases "p = kcur u")
      case True
      then show ?thesis using u c(2) p(2) by (simp add: exit_table_files fkeep_def)
    next
      case False
      then show ?thesis using u(2) p cu(3) c(1) exit_table_files(2) [OF False] by (simp add: exit_table_files acct_def)
    qed
  qed (use cu c(1) u(2) f in \<open>simp_all add: acct_def exit_table_files\<close>)
qed

lemma keeps_wait: "keeps s (wait s)"
proof (cases "wait_scan (ktab s) (kcur s) False [0..<NPROC]")
  case (Reaps p)
  then have "p_state (ptable (ktab s) p) = ZOMBIE" using wait_scan_iff(1) by blast
  then have "fkeep s (s\<lparr>kmemory := m, ktab := reap (ktab s) p\<rparr>)" for m by (simp add: fkeep_def reap_def set_proc_def dead_def)
  then show ?thesis using Reaps by (auto simp: wait_def Let_def simp del: upt.simps intro!: keeps_any)
qed (simp_all add: wait_def del: upt.simps)

section \<open>System calls\<close>

lemma counted_call:
  assumes "acct s ex" "h s = Ok (v, s')" "syscalls ks dv ticks num = Some h"
  shows "counted s' ex"
proof -
  have k: "counted s' ex" if "keeps s (h s)" using that assms(1,2) counted_keep unfolding keeps_def acct_def by blast
  have t: "counted s' ex" if "settles ex (h s)" using that assms(2) by (simp add: settles_def acct_def)
  have e: "counted s' ex" if "h = sys_exit" using exit_files [OF assms(1)] assms(2) that by (cases "exit s") (auto simp: sys_exit_def)
  note keep = keeps_calls [OF fkeep_refl, of s] keeps_sys_kill [OF fkeep_refl] keeps_sys_exec [OF fkeep_refl] keeps_wait
  note settle = settles_fork [OF assms(1)] settles_sys_pipe [OF assms(1)] settles_sys_open [OF assms(1)]
  have d: "settles ex (sys_dup s)" "settles ex (sys_close s)" using sys_dup_files sys_close_files assms(1) by (auto simp: settles_def)
  from assms(3) have "keeps s (h s) \<or> settles ex (h s) \<or> h = sys_exit" unfolding syscalls_def
    by (simp only: map_of.simps fst_conv snd_conv fun_upd_apply split: if_split_asm)
       (auto simp: keep settle d sys_fork_def sys_wait_def)
  then show ?thesis using k t e by blast
qed

text \<open>C12: Across every system call that returns, the reference count of each entry of the file table is the number of
  descriptors that name it in all processes, descriptors name entries of the table, and processes that are unused or have
  exited have none; so no descriptor names an entry that is free.\<close>

theorem syscall_keeps_files:
  assumes "files_ok s" "running s" "syscall ks dv ticks s = Ok s'"
  shows "files_ok s' \<and>
    (\<forall>p < NPROC. \<forall>fd < NOFILE. \<forall>f. p_ofile (ptable (ktab s') p) fd = Some f \<longrightarrow> f < NFILE \<and> 1 \<le> f_ref (ftable s' f))"
proof -
  have a: "acct s (\<lambda>_. 0)" using assms(1,2) by (simp add: acct_def files_ok_def)
  have eax: "counted (set_eax t v) (\<lambda>_. 0)" if "counted t (\<lambda>_. 0)" for t v using counted_keep [OF _ that] by (simp add: set_eax_def)
  let ?n = "sint (load32 (kmem_mem (kmemory s)) (p_tf (myproc s) + 28))"
  have c: "counted s' (\<lambda>_. 0)"
  proof (cases "0 < ?n \<and> ?n < 22 \<and> syscalls ks dv ticks ?n \<noteq> None")
    case True
    then obtain h v t where h: "syscalls ks dv ticks ?n = Some h" "h s = Ok (v, t)" "s' = (if ?n = 2 then t else set_eax t v)"
      using assms(3) by (auto simp: syscall_def Let_def andthen_Ok_iff)
    show ?thesis using counted_call [OF a h(2,1)] eax [of t v] h(3) by simp
  next
    case False
    then have "s' = set_eax s (-1)" using assms(3) by (auto simp: syscall_def Let_def split: if_splits)
    then show ?thesis using eax [of s "-1"] a by (simp add: acct_def)
  qed
  have "f < NFILE \<and> 1 \<le> f_ref (ftable s' f)" if "p < NPROC" "fd < NOFILE" "p_ofile (ptable (ktab s') p) fd = Some f" for p fd f
  proof -
    have f: "f < NFILE" using countedD(2) [OF c that] .
    have "(p, fd) \<in> fd_slots (ktab s') f" using that by (simp add: fd_slots_def)
    then have "0 < card (fd_slots (ktab s') f)" using finite_fd_slots by (metis card_gt_0_iff empty_iff)
    then show ?thesis using countedD(1) [OF c f] f by simp
  qed
  then show ?thesis using c by (simp add: files_ok_def)
qed

text \<open>A process that calls \<^verbatim>\<open>dup\<close> on its only descriptor.\<close>

definition demo_dup :: "unit kern" where
  "demo_dup = demo_user\<lparr>
     kmemory := (kmemory demo_user)\<lparr>kmem_mem := store32 (kmem_mem (kmemory demo_user)) 0x8000401C 10\<rparr>,
     ftable := (ftable demo_user)(0 := \<lparr>f_type = FD_INODE, f_ref = 1, f_readable = True, f_writable = False, f_pipe = 0, f_ip = 0, f_off = 0\<rparr>),
     ktab := boot_table\<lparr>ptable := (\<lambda>_. blank_proc)(0 := blank_proc\<lparr>p_state := RUNNING, p_sz := 16, p_pgdir := 0x80001000, p_tf := 0x80004000,
       p_ofile := (\<lambda>_. None)(0 := Some 0)\<rparr>)\<rparr>\<rparr>"

lemma demo_dup_parts:
  "p_ofile (ptable (ktab demo_dup) p) fd = (if p = 0 \<and> fd = 0 then Some 0 else None)"
  "p_state (ptable (ktab demo_dup) p) = (if p = 0 then RUNNING else UNUSED)"
  "f_ref (ftable demo_dup f) = (if f = 0 then 1 else 0)" "kcur demo_dup = 0"
  "p_sz (ptable (ktab demo_dup) 0) = 16" "p_tf (ptable (ktab demo_dup) 0) = 0x80004000"
  by (simp_all add: demo_dup_def demo_user_def blank_proc_def)

lemma demo_dup_files: "files_ok demo_dup" "running demo_dup"
proof -
  have e: "fd_slots (ktab demo_dup) f = (if f = 0 then {(0, 0)} else {})" for f
    by (auto simp: fd_slots_def demo_dup_parts split: if_splits)
  show "files_ok demo_dup" unfolding files_ok_def
    by (rule countedI) (auto simp: e demo_dup_parts dead_def split: if_splits)
  show "running demo_dup" by (simp add: running_def demo_dup_parts)
qed

lemma demo_dup_byte: "user_byte demo_dup 4 = Ok 0" "user_byte demo_dup 5 = Ok 0" "user_byte demo_dup 6 = Ok 0" "user_byte demo_dup 7 = Ok 0"
  by (simp_all add: user_byte_def user_ka_def demo_dup_def demo_user_def walkpgdir_def pde_addr_def PDX_def PTX_def PTE_ADDR_def P2V_def Let_def load32_def store32_def)

lemma demo_dup_regs: "load32 (kmem_mem (kmemory demo_dup)) 0x8000401C = 10" "load32 (kmem_mem (kmemory demo_dup)) 0x80004044 = 0"
  by (simp_all add: demo_dup_def demo_user_def load32_def store32_def)

lemma demo_dup_arg: "argfd demo_dup 0 = Ok (Some (0, 0))"
proof -
  have "user_bytes demo_dup 4 (Suc (Suc (Suc (Suc 0)))) = Ok [0, 0, 0, 0]" by (simp add: demo_dup_byte)
  then have "user_bytes demo_dup 4 4 = Ok [0, 0, 0, 0]" by (simp only: eval_nat_numeral BitM.simps)
  moreover have "tf_esp demo_dup = 0" by (simp add: tf_esp_def demo_dup_parts demo_dup_regs)
  ultimately have "argint demo_dup 0 = Ok (Some 0)"
    by (simp add: argint_def fetchint_def demo_dup_parts word_of_def del: user_bytes.simps)
  then show ?thesis by (simp add: argfd_def demo_dup_parts)
qed

lemma demo_dup_call: "\<exists>t. sys_dup demo_dup = Ok (1, t) \<and> p_ofile (ptable (ktab t) 0) 1 = Some 0 \<and> kcur t = 0"
proof -
  have "find (\<lambda>fd. p_ofile (myproc demo_dup) fd = None) [0..<NOFILE] = Some 1" by (simp add: demo_dup_parts upt_rec)
  then have "fdalloc demo_dup 0 = (Some 1, set_cur demo_dup (\<lambda>x. x\<lparr>p_ofile := (p_ofile x)(1 := Some 0)\<rparr>))" by (simp add: fdalloc_def del: upt.simps)
  then show ?thesis by (simp add: sys_dup_def demo_dup_arg filedup_def set_cur_def set_file_def set_proc_def demo_dup_parts)
qed

theorem syscall_keeps_files_witness:
  "\<exists>s'. syscall \<lparr>sym_data = 0, sym_trapret = 0, sym_forkret = 0\<rparr> no_devices 0 demo_dup = Ok s' \<and> files_ok s' \<and>
     p_ofile (ptable (ktab s') 0) 1 = Some 0 \<and> 1 \<le> f_ref (ftable s' 0)"
proof -
  obtain t where t: "sys_dup demo_dup = Ok (1, t)" "p_ofile (ptable (ktab t) 0) 1 = Some 0" using demo_dup_call by blast
  let ?k = "\<lparr>sym_data = 0, sym_trapret = 0, sym_forkret = 0\<rparr>"
  have "syscalls ?k no_devices 0 10 = Some sys_dup" by (simp add: syscalls_def)
  then have s: "syscall ?k no_devices 0 demo_dup = Ok (set_eax t 1)"
    using t(1) by (simp add: syscall_def demo_dup_parts demo_dup_regs)
  have "p_ofile (ptable (ktab (set_eax t 1)) 0) 1 = Some 0" using t(2) by (simp add: set_eax_def)
  moreover have "0 < NPROC" "1 < NOFILE" by simp_all
  ultimately show ?thesis using syscall_keeps_files [OF demo_dup_files s] s by blast
qed

end
