(* ===== verification/Grep.thy ===== *)
theory Grep
  imports Prelude
begin

text \<open>
  The user program \<^verbatim>\<open>grep.c\<close>: its matcher for patterns with \<open>^ . * $\<close>, shown to decide membership in the language the pattern
  stands for, and its loop over the input. A string is the list of its characters up to the terminating null
  character; the input is the list of the byte sequences that the successive calls of \<^verbatim>\<open>read\<close> return.
\<close>

section \<open>The matcher\<close>

abbreviation (input) ch_caret :: uchar where "ch_caret \<equiv> 94"
abbreviation (input) ch_dollar :: uchar where "ch_dollar \<equiv> 36"
abbreviation (input) ch_dot :: uchar where "ch_dot \<equiv> 46"
abbreviation (input) ch_star :: uchar where "ch_star \<equiv> 42"
abbreviation (input) ch_newline :: uchar where "ch_newline \<equiv> 10"

function matchhere :: "uchar list \<Rightarrow> uchar list \<Rightarrow> bool"
  and matchstar :: "uchar \<Rightarrow> uchar list \<Rightarrow> uchar list \<Rightarrow> bool" where
  "matchhere re str =
     (if re = [] then True
      else if tl re \<noteq> [] \<and> hd (tl re) = ch_star then matchstar (hd re) (tl (tl re)) str
      else if hd re = ch_dollar \<and> tl re = [] then str = []
      else if str \<noteq> [] \<and> (hd re = ch_dot \<or> hd re = hd str) then matchhere (tl re) (tl str)
      else False)"
| "matchstar c re str =
     (if matchhere re str then True
      else if str \<noteq> [] \<and> (hd str = c \<or> c = ch_dot) then matchstar c re (tl str)
      else False)"
  by pat_completeness auto

termination
proof (relation "measure (\<lambda>x. case x of Inl (re, str) \<Rightarrow> 2 * (length re + length str) | Inr (c, re, str) \<Rightarrow> Suc (2 * (length re + length str)))",
    goal_cases)
  case (2 re str)
  then show ?case by (cases re; cases "tl re") auto
next
  case (3 re str)
  then show ?case by (cases re; cases str) auto
next
  case (5 c re str)
  then show ?case by (cases str) auto
qed auto

declare matchhere.simps [simp del] matchstar.simps [simp del]

primrec match_from :: "uchar list \<Rightarrow> uchar list \<Rightarrow> bool" where
  "match_from re [] = matchhere re []"
| "match_from re (c # str) = (if matchhere re (c # str) then True else match_from re str)"

definition match :: "uchar list \<Rightarrow> uchar list \<Rightarrow> bool" where
  "match re str = (if re \<noteq> [] \<and> hd re = ch_caret then matchhere (tl re) str else match_from re str)"

section \<open>The language of a pattern\<close>

datatype item = One uchar | Many uchar

text \<open>The items of a pattern, and whether it ends in the anchor.\<close>

fun items :: "uchar list \<Rightarrow> item list \<times> bool" where
  "items [] = ([], False)"
| "items [c] = (if c = ch_dollar then ([], True) else ([One c], False))"
| "items (c # d # re) =
     (if d = ch_star then (Many c # fst (items re), snd (items re)) else (One c # fst (items (d # re)), snd (items (d # re))))"

definition fits :: "uchar \<Rightarrow> uchar \<Rightarrow> bool" where
  "fits c x \<longleftrightarrow> c = ch_dot \<or> c = x"

primrec lang :: "item list \<Rightarrow> uchar list set" where
  "lang [] = {[]}"
| "lang (i # is) = (case i of
     One c \<Rightarrow> {x # w | x w. fits c x \<and> w \<in> lang is}
   | Many c \<Rightarrow> {u @ w | u w. (\<forall>x \<in> set u. fits c x) \<and> w \<in> lang is})"

text \<open>A text begins with a word of the items, or is one when they are anchored.\<close>

definition starts :: "item list \<Rightarrow> bool \<Rightarrow> uchar list \<Rightarrow> bool" where
  "starts is anchored str \<longleftrightarrow> (\<exists>u v. str = u @ v \<and> u \<in> lang is \<and> (anchored \<longrightarrow> v = []))"

definition begins :: "uchar list \<Rightarrow> uchar list \<Rightarrow> bool" where
  "begins re str \<longleftrightarrow> starts (fst (items re)) (snd (items re)) str"

lemma starts_Nil: "starts [] a str \<longleftrightarrow> a \<longrightarrow> str = []"
  by (simp add: starts_def)

lemma starts_One: "starts (One c # is) a str \<longleftrightarrow> (\<exists>x t. str = x # t \<and> fits c x \<and> starts is a t)"
proof
  assume "starts (One c # is) a str"
  then obtain y v where y: "str = y @ v" "y \<in> lang (One c # is)" "a \<longrightarrow> v = []" unfolding starts_def by blast
  then obtain x w where "y = x # w" "fits c x" "w \<in> lang is" by auto
  moreover from this have "starts is a (w @ v)" unfolding starts_def using y(3) by blast
  ultimately show "\<exists>x t. str = x # t \<and> fits c x \<and> starts is a t" using y(1) by auto
next
  assume "\<exists>x t. str = x # t \<and> fits c x \<and> starts is a t"
  then obtain x t where x: "str = x # t" "fits c x" "starts is a t" by blast
  then obtain w v where w: "t = w @ v" "w \<in> lang is" "a \<longrightarrow> v = []" unfolding starts_def by blast
  then have "x # w \<in> lang (One c # is)" "str = (x # w) @ v" using x by simp_all
  then show "starts (One c # is) a str" unfolding starts_def using w(3) by blast
qed

lemma starts_Many: "starts (Many c # is) a str \<longleftrightarrow> (\<exists>u t. str = u @ t \<and> (\<forall>x \<in> set u. fits c x) \<and> starts is a t)"
proof
  assume "starts (Many c # is) a str"
  then obtain y v where y: "str = y @ v" "y \<in> lang (Many c # is)" "a \<longrightarrow> v = []" unfolding starts_def by blast
  then obtain u w where u: "y = u @ w" "\<forall>x \<in> set u. fits c x" "w \<in> lang is" by auto
  then have "starts is a (w @ v)" unfolding starts_def using y(3) by blast
  then show "\<exists>u t. str = u @ t \<and> (\<forall>x \<in> set u. fits c x) \<and> starts is a t" using y(1) u(1,2) by (intro exI [of _ u] exI [of _ "w @ v"]) simp
next
  assume "\<exists>u t. str = u @ t \<and> (\<forall>x \<in> set u. fits c x) \<and> starts is a t"
  then obtain u t where u: "str = u @ t" "\<forall>x \<in> set u. fits c x" "starts is a t" by blast
  then obtain w v where w: "t = w @ v" "w \<in> lang is" "a \<longrightarrow> v = []" unfolding starts_def by blast
  then have "u @ w \<in> lang (Many c # is)" "str = (u @ w) @ v" using u by auto
  then show "starts (Many c # is) a str" unfolding starts_def using w(3) by blast
qed

lemma begins_Nil [simp]: "begins [] str"
  by (simp add: begins_def starts_Nil)

lemma begins_dollar: "begins [ch_dollar] str \<longleftrightarrow> str = []"
  by (simp add: begins_def starts_Nil)

lemma begins_One:
  assumes "re = [] \<Longrightarrow> c \<noteq> ch_dollar" "re \<noteq> [] \<Longrightarrow> hd re \<noteq> ch_star"
  shows "begins (c # re) str \<longleftrightarrow> str \<noteq> [] \<and> fits c (hd str) \<and> begins re (tl str)"
proof -
  have "items (c # re) = (One c # fst (items re), snd (items re))" using assms by (cases re) auto
  then show ?thesis by (cases str) (simp_all add: begins_def starts_One)
qed

lemma split_head:
  "(\<exists>u w. x # t = u @ w \<and> (\<forall>y \<in> set u. F y) \<and> P w) \<longleftrightarrow> P (x # t) \<or> F x \<and> (\<exists>u w. t = u @ w \<and> (\<forall>y \<in> set u. F y) \<and> P w)"
proof (intro iffI, elim exE conjE)
  fix u w assume "x # t = u @ w" "\<forall>y \<in> set u. F y" "P w"
  then show "P (x # t) \<or> F x \<and> (\<exists>u w. t = u @ w \<and> (\<forall>y \<in> set u. F y) \<and> P w)" by (cases u) auto
next
  assume "P (x # t) \<or> F x \<and> (\<exists>u w. t = u @ w \<and> (\<forall>y \<in> set u. F y) \<and> P w)"
  then consider "P (x # t)" | u w where "F x" "t = u @ w" "\<forall>y \<in> set u. F y" "P w" by blast
  then show "\<exists>u w. x # t = u @ w \<and> (\<forall>y \<in> set u. F y) \<and> P w"
  proof cases
    case 1
    then have "x # t = [] @ (x # t) \<and> (\<forall>y \<in> set []. F y) \<and> P (x # t)" by simp
    then show ?thesis by blast
  next
    case (2 u w)
    then show ?thesis by (intro exI [of _ "x # u"] exI [of _ w]) simp
  qed
qed

lemma begins_Many:
  "begins (c # ch_star # re) str \<longleftrightarrow> begins re str \<or> str \<noteq> [] \<and> fits c (hd str) \<and> begins (c # ch_star # re) (tl str)"
proof -
  let ?P = "starts (fst (items re)) (snd (items re))"
  have b: "begins (c # ch_star # re) t \<longleftrightarrow> (\<exists>u w. t = u @ w \<and> (\<forall>x \<in> set u. fits c x) \<and> ?P w)" for t by (simp add: begins_def starts_Many)
  show ?thesis unfolding b using split_head [of _ _ "fits c" ?P] by (cases str) (simp_all add: begins_def)
qed

lemma match_begins:
  "matchhere re str = begins re str" "matchstar c re str = begins (c # ch_star # re) str"
proof (induction re str and c re str rule: matchhere_matchstar.induct)
  case (1 re str)
  show ?case
  proof (cases re)
    case (Cons c re')
    show ?thesis
    proof (cases "re' \<noteq> [] \<and> hd re' = ch_star")
      case True
      then obtain re'' where "re' = ch_star # re''" by (cases re') auto
      then show ?thesis using 1(1) Cons by (subst matchhere.simps) simp
    next
      case False
      then show ?thesis using 1(2) Cons begins_One [of re' c str] begins_dollar
        by (subst matchhere.simps) (auto simp: fits_def)
    qed
  qed (simp add: matchhere.simps)
next
  case (2 c re str)
  then show ?case by (subst matchstar.simps, subst begins_Many) (auto simp: fits_def)
qed

lemma match_from_iff: "match_from re str \<longleftrightarrow> (\<exists>p s. str = p @ s \<and> matchhere re s)"
proof (induction str)
  case (Cons c str)
  have "(\<exists>p s. c # str = p @ s \<and> matchhere re s) \<longleftrightarrow> matchhere re (c # str) \<or> (\<exists>p s. str = p @ s \<and> matchhere re s)"
    by (auto simp: Cons_eq_append_conv)
  then show ?case using Cons by simp
qed simp

text \<open>C32: The matcher decides the language of the pattern: a pattern that starts with \<open>^\<close> matches the texts that begin with one
  of its words, any other pattern the texts in which one of its words begins at some place; a pattern that ends in \<open>$\<close> matches
  only where the word reaches to the end of the text.\<close>

theorem match_correct:
  "match re str \<longleftrightarrow>
     (if re \<noteq> [] \<and> hd re = ch_caret then begins (tl re) str else (\<exists>p s. str = p @ s \<and> begins re s))"
  by (simp add: match_def match_from_iff match_begins)

section \<open>Lines\<close>

text \<open>
  The inner loop of \<^verbatim>\<open>grep\<close>: the bytes up to the next newline or null character, and what follows. The value is what is
  written to the output and what remains at \<^verbatim>\<open>p\<close>.
\<close>

definition line_of :: "uchar list \<Rightarrow> uchar list" where
  "line_of bs = takeWhile (\<lambda>b. b \<noteq> ch_newline \<and> b \<noteq> 0) bs"

function grep_lines :: "uchar list \<Rightarrow> uchar list \<Rightarrow> uchar list \<times> uchar list" where
  "grep_lines re bs =
     (let line = line_of bs; q = drop (length line) bs in
      if q \<noteq> [] \<and> hd q = ch_newline
      then let (out, left) = grep_lines re (tl q) in ((if match re line then line @ [ch_newline] else []) @ out, left)
      else ([], bs))"
  by pat_completeness auto

termination
proof (relation "measure (\<lambda>(re, bs). length bs)", goal_cases)
  case (2 re bs line q)
  have "0 < length q" using 2(3) by simp
  moreover have "length q = length bs - length line" using 2(2) by simp
  ultimately show ?case by (simp; linarith)
qed simp

declare grep_lines.simps [simp del]

text \<open>The outer loop; \<open>m\<close> is the part of the buffer that is kept, and a read of nothing ends it.\<close>

primrec grep_loop :: "uchar list \<Rightarrow> uchar list \<Rightarrow> uchar list list \<Rightarrow> uchar list" where
  "grep_loop re m [] = []"
| "grep_loop re m (n # reads) =
     (if n = [] then []
      else let (out, left) = grep_lines re (m @ n); m = (if length left = length (m @ n) then [] else left)
           in out @ grep_loop re m reads)"

definition grep :: "uchar list \<Rightarrow> uchar list list \<Rightarrow> uchar list" where
  "grep re reads = grep_loop re [] reads"

text \<open>The lines of a text that are complete, without their newline, and the rest; \<open>l\<close> is the line so far.\<close>

primrec cut :: "uchar list \<Rightarrow> uchar list \<Rightarrow> uchar list list \<times> uchar list" where
  "cut l [] = ([], l)"
| "cut l (b # bs) = (if b = ch_newline then (l # fst (cut [] bs), snd (cut [] bs)) else cut (l @ [b]) bs)"

definition complete_lines :: "uchar list \<Rightarrow> uchar list list" where
  "complete_lines bs = fst (cut [] bs)"

definition printed :: "uchar list \<Rightarrow> uchar list list \<Rightarrow> uchar list" where
  "printed re ls = concat (map (\<lambda>l. l @ [ch_newline]) (filter (match re) ls))"

lemma cut_append: "cut l (xs @ ys) = (fst (cut l xs) @ fst (cut (snd (cut l xs)) ys), snd (cut (snd (cut l xs)) ys))"
  by (induction xs arbitrary: l) simp_all

lemma cut_line: "ch_newline \<notin> set xs \<Longrightarrow> cut l xs = ([], l @ xs)"
  by (induction xs arbitrary: l) simp_all

lemma cut_rest: "ch_newline \<notin> set l \<Longrightarrow> ch_newline \<notin> set (snd (cut l bs))"
  by (induction bs arbitrary: l) simp_all

lemma cut_rest_subset: "set (snd (cut l bs)) \<subseteq> set l \<union> set bs"
proof (induction bs arbitrary: l)
  case (Cons b bs)
  then show ?case using Cons [of "[]"] Cons [of "l @ [b]"] by auto
qed simp

lemma cut_rest_length: "length (snd (cut l bs)) \<le> length l + length bs"
proof (induction bs arbitrary: l)
  case (Cons b bs)
  then show ?case using Cons [of "[]"] Cons [of "l @ [b]"] by auto
qed simp

lemma cut_rest_shorter: "ch_newline \<in> set bs \<Longrightarrow> length (snd (cut l bs)) < length l + length bs"
proof (induction bs arbitrary: l)
  case (Cons b bs)
  then show ?case using Cons.IH [of "l @ [b]"] cut_rest_length [of "[]" bs] by (cases "b = ch_newline") auto
qed simp

lemma grep_lines_cut: "0 \<notin> set bs \<Longrightarrow> grep_lines re bs = (printed re (fst (cut [] bs)), snd (cut [] bs))"
proof (induction re bs rule: grep_lines.induct)
  case (1 re bs)
  let ?l = "line_of bs" and ?q = "drop (length (line_of bs)) bs"
  have l: "ch_newline \<notin> set ?l" by (auto simp: line_of_def dest: set_takeWhileD)
  have d: "?q = dropWhile (\<lambda>b. b \<noteq> ch_newline \<and> b \<noteq> 0) bs" unfolding line_of_def by (rule dropWhile_eq_drop [symmetric])
  then have b: "bs = ?l @ ?q" by (simp add: line_of_def)
  have sub: "set ?q \<subseteq> set bs" by (rule set_drop_subset)
  show ?case
  proof (cases "?q \<noteq> [] \<and> hd ?q = ch_newline")
    case True
    then have q: "?q = ch_newline # tl ?q" by (cases ?q) simp_all
    have "0 \<notin> set (tl ?q)" using 1(2) sub by (subst (asm) q) auto
    then have "grep_lines re (tl ?q) = (printed re (fst (cut [] (tl ?q))), snd (cut [] (tl ?q)))" using 1(1) True by simp
    moreover have "cut [] bs = (?l # fst (cut [] (tl ?q)), snd (cut [] (tl ?q)))"
      by (subst b, subst q) (simp add: cut_append cut_line [OF l])
    ultimately show ?thesis using True by (subst grep_lines.simps) (simp add: Let_def printed_def)
  next
    case False
    have "?q = []"
    proof (rule ccontr)
      assume "?q \<noteq> []"
      then have "\<not> (hd ?q \<noteq> ch_newline \<and> hd ?q \<noteq> 0)" unfolding d by (rule hd_dropWhile)
      moreover have "hd ?q \<in> set bs" using sub \<open>?q \<noteq> []\<close> hd_in_set by blast
      ultimately show False using False \<open>?q \<noteq> []\<close> 1(2) by auto
    qed
    then have "ch_newline \<notin> set bs" using b l by simp
    moreover have "grep_lines re bs = ([], bs)" using False by (subst grep_lines.simps) (simp only: Let_def if_False)
    ultimately show ?thesis by (simp add: printed_def cut_line)
  qed
qed

text \<open>C33: On input without null characters of which every read delivers the end of a line, \<^verbatim>\<open>grep\<close> prints the complete lines that
  match, in their order.\<close>

theorem grep_correct:
  assumes "\<forall>n \<in> set reads. ch_newline \<in> set n \<and> 0 \<notin> set n"
  shows "grep re reads = concat (map (\<lambda>l. l @ [ch_newline]) (filter (match re) (complete_lines (concat reads))))"
proof -
  have "grep_loop re m reads = printed re (fst (cut m (concat reads)))" if "ch_newline \<notin> set m" "0 \<notin> set m" for m
    using that assms
  proof (induction reads arbitrary: m)
    case (Cons n reads)
    let ?r = "snd (cut m n)"
    have n: "ch_newline \<in> set n" "0 \<notin> set (m @ n)" "n \<noteq> []" using Cons.prems by auto
    have c: "cut [] (m @ n) = cut m n" using cut_append [of "[]" m n] cut_line [OF Cons.prems(1), of "[]"] by simp
    have r: "ch_newline \<notin> set ?r" "0 \<notin> set ?r" using cut_rest [OF Cons.prems(1)] cut_rest_subset [of m n] n(2) by auto
    have "length ?r \<noteq> length (m @ n)" using cut_rest_shorter [OF n(1), of m] by simp
    then have "grep_loop re m (n # reads) = printed re (fst (cut m n)) @ grep_loop re ?r reads"
      using n(3) by (simp add: grep_lines_cut [OF n(2)] c)
    then show ?case using Cons.IH [OF r] Cons.prems(3) by (simp add: cut_append printed_def)
  qed (simp add: printed_def)
  from this [of "[]"] show ?thesis by (simp add: grep_def complete_lines_def printed_def)
qed

theorem grep_correct_witness:
  "grep [97] [[97, 10], [98, 10, 97, 10]] = [97, 10, 97, 10]"
proof -
  have m: "match [97] [97]" "\<not> match [97] [98]" by (simp_all add: match_def matchhere.simps)
  show ?thesis using grep_correct [of "[[97, 10], [98, 10, 97, 10]]" "[97]"] m by (simp add: complete_lines_def)
qed

text \<open>A line that arrives in two reads, the first without a newline, loses its first part.\<close>

theorem grep_drops_partial_line: "grep [97] [[97, 10]] = [97, 10] \<and> grep [97] [[97], [10]] = []"
  by (simp add: grep_def grep_lines.simps line_of_def match_def matchhere.simps)

end
