(* ===== verification/Sh.thy ===== *)
theory Sh
  imports Prelude
begin

text \<open>
  The parser of the shell \<^verbatim>\<open>sh.c\<close>. The text still to read, from \<^verbatim>\<open>*ps\<close> up to \<^verbatim>\<open>es\<close>, is a list of characters; the NUL that \<^verbatim>\<open>es\<close> points to
  ends it and is not part of it, so a list that stands for a text has no NUL. A token is the
  list of its characters, as \<^verbatim>\<open>nulterminate\<close> leaves it in the command. The exits through \<^verbatim>\<open>panic\<close> are the outcome
  \<open>Panic\<close>. The four parsing routines call each other; they carry a bound on the depth of calls, and running out of it
  is \<open>Blocked\<close>, which is shown never to happen.
\<close>

section \<open>Tokens\<close>

abbreviation (input) whitespace :: "uchar list" where "whitespace \<equiv> [32, 9, 13, 10, 11]"
abbreviation (input) symbols :: "uchar list" where "symbols \<equiv> [60, 124, 62, 38, 59, 40, 41]"

definition skip_ws :: "uchar list \<Rightarrow> uchar list" where
  "skip_ws s = dropWhile (\<lambda>c. c \<in> set whitespace) s"

definition wordc :: "uchar \<Rightarrow> bool" where
  "wordc c \<longleftrightarrow> c \<notin> set whitespace \<and> c \<notin> set symbols"

text \<open>The value, the token and the rest of the text. The value of a word is \<open>97\<close>, of \<^verbatim>\<open>>>\<close> it is \<open>43\<close>, and at the end \<open>0\<close>.\<close>

definition gettoken :: "uchar list \<Rightarrow> uchar \<times> uchar list \<times> uchar list" where
  "gettoken s = (case skip_ws s of
       [] \<Rightarrow> (0, [], [])
     | c # r \<Rightarrow>
         if c \<in> set [124, 40, 41, 59, 38, 60] then (c, [c], skip_ws r)
         else if c = 62
         then (if r \<noteq> [] \<and> hd r = 62 then (43, [62, 62], skip_ws (tl r)) else (62, [62], skip_ws r))
         else (97, takeWhile wordc (c # r), skip_ws (dropWhile wordc (c # r))))"

definition peek_tok :: "uchar list \<Rightarrow> uchar list \<Rightarrow> bool \<times> uchar list" where
  "peek_tok s toks = (let s = skip_ws s in (s \<noteq> [] \<and> hd s \<in> set toks, s))"

lemma skip_ws_length: "length (skip_ws s) \<le> length s"
  unfolding skip_ws_def by (rule length_dropWhile_le)

lemma gettoken_length:
  assumes "gettoken s = (tok, w, r)"
  shows "length r \<le> length s" "tok \<noteq> 0 \<Longrightarrow> length r < length s"
proof -
  have "(tok = 0 \<longrightarrow> r = []) \<and> (tok \<noteq> 0 \<longrightarrow> length r < length s)"
  proof (cases "skip_ws s")
    case Nil
    then show ?thesis using assms by (simp add: gettoken_def)
  next
    case (Cons c t)
    have l: "Suc (length t) \<le> length s" using skip_ws_length [of s] Cons by simp
    have c: "c \<notin> set whitespace" using Cons hd_dropWhile [of "\<lambda>c. c \<in> set whitespace" s] by (simp add: skip_ws_def)
    have a: "length (skip_ws t) < length s" "length (skip_ws (tl t)) < length s"
      using skip_ws_length [of t] skip_ws_length [of "tl t"] l by simp_all
    have "length (skip_ws (dropWhile wordc t)) < length s"
      using skip_ws_length [of "dropWhile wordc t"] length_dropWhile_le [of wordc t] l by simp
    then show ?thesis using assms a c by (auto simp: gettoken_def Cons wordc_def split: if_splits)
  qed
  then show "length r \<le> length s" "tok \<noteq> 0 \<Longrightarrow> length r < length s" by auto
qed

lemma peek_length: "peek_tok s toks = (b, r) \<Longrightarrow> length r \<le> length s"
  using skip_ws_length [of s] by (auto simp: peek_tok_def Let_def)

lemma peek_gettoken:
  assumes "peek_tok s toks = (True, r)" "set toks \<subseteq> set symbols" "gettoken r = (tok, w, t)"
  shows "length t < length s"
proof -
  have r: "r = skip_ws s" "r \<noteq> []" "hd r \<in> set symbols" using assms(1,2) by (auto simp: peek_tok_def Let_def)
  have "skip_ws r = r" unfolding r(1) skip_ws_def by (simp add: dropWhile_idem)
  then have "tok \<noteq> 0" using assms(3) r(2,3) by (cases r) (auto simp: gettoken_def split: if_splits)
  then show ?thesis using gettoken_length(2) [OF assms(3)] peek_length [OF assms(1)] by simp
qed

section \<open>Commands\<close>

datatype cmd = EXEC "uchar list list" | REDIR cmd "uchar list" uint nat | PIPE cmd cmd | LIST cmd cmd | BACK cmd

abbreviation (input) MAXARGS :: nat where "MAXARGS \<equiv> 10"

text \<open>A redirection: the file, the mode it is opened with, and the descriptor. The mode of \<^verbatim>\<open>>>\<close> is that of \<^verbatim>\<open>>\<close>.\<close>

type_synonym redir = "uchar list \<times> uint \<times> nat"

definition redircmd :: "uchar \<Rightarrow> uchar list \<Rightarrow> redir" where
  "redircmd tok file = (if tok = 60 then (file, 0, 0) else (file, 0x201, 1))"

function parseredirs :: "uchar list \<Rightarrow> (redir list \<times> uchar list) res" where
  "parseredirs s =
     (let (b, s) = peek_tok s [60, 62] in
      if \<not> b then Ok ([], s)
      else let (tok, _, s) = gettoken s; (t, q, s) = gettoken s in
        if t \<noteq> 97 then Panic ''missing file for redirection''
        else andthen (parseredirs s) (\<lambda>(rs, s). Ok (redircmd tok q # rs, s)))"
  by pat_completeness auto

termination
proof (relation "measure length", goal_cases)
  case (2 s p b s1 t1 tok u1 w1 s2 t2 t u2 q s3)
  have "length s3 < length s2" "length s2 \<le> length s1" "length s1 \<le> length s"
    using 2 gettoken_length [of s2 t q s3] gettoken_length [of s1 tok w1 s2] peek_length [of s "[60, 62]" b s1] by auto
  then show ?case by simp
qed simp

declare parseredirs.simps [simp del]

definition add_redirs :: "cmd \<Rightarrow> redir list \<Rightarrow> cmd" where
  "add_redirs c rs = foldl (\<lambda>c (f, mode, fd). REDIR c f mode fd) c rs"

text \<open>The loop of \<^verbatim>\<open>parseexec\<close>; \<open>argc\<close> words have been read.\<close>

lemma parseredirs_length: "parseredirs s = Ok (rs, r) \<Longrightarrow> length r \<le> length s"
proof (induction s arbitrary: rs rule: parseredirs.induct)
  case (1 s)
  obtain b s1 where b: "peek_tok s [60, 62] = (b, s1)" by fastforce
  obtain tok w s2 where g: "gettoken s1 = (tok, w, s2)" by (cases "gettoken s1")
  obtain t q s3 where h: "gettoken s2 = (t, q, s3)" by (cases "gettoken s2")
  show ?case
  proof (cases b)
    case True
    have t: "t = 97" using 1(2) True by (subst (asm) parseredirs.simps) (auto simp: b g h split: if_splits)
    then obtain rs' where "parseredirs s3 = Ok (rs', r)"
      using 1(2) True by (subst (asm) parseredirs.simps) (auto simp: b g h andthen_Ok_iff)
    then have "length r \<le> length s3" using 1(1) b g h True t by fastforce
    then show ?thesis using gettoken_length(1) [OF g] gettoken_length(1) [OF h] peek_length [OF b] by simp
  next
    case False
    then show ?thesis using 1(2) peek_length [OF b] by (subst (asm) parseredirs.simps) (simp add: b)
  qed
qed

function parse_args :: "nat \<Rightarrow> uchar list \<Rightarrow> (uchar list list \<times> redir list \<times> uchar list) res" where
  "parse_args argc s =
     (let (b, s) = peek_tok s [124, 41, 38, 59] in
      if b then Ok ([], [], s)
      else let (tok, q, s) = gettoken s in
        if tok = 0 then Ok ([], [], s)
        else if tok \<noteq> 97 then Panic ''syntax''
        else if argc + 1 \<ge> MAXARGS then Panic ''too many args''
        else (case parseredirs s of
            Ok (rs, s) \<Rightarrow> andthen (parse_args (argc + 1) s) (\<lambda>(qs, rs', s). Ok (q # qs, rs @ rs', s))
          | Panic e \<Rightarrow> Panic e | Fault \<Rightarrow> Fault | Blocked \<Rightarrow> Blocked))"
  by pat_completeness auto

termination
proof (relation "measure (\<lambda>(argc, s). length s)", goal_cases)
  case (2 argc s p b s1 z tok u q s2 v rs s3)
  then show ?case using gettoken_length(2) [of s1 tok q s2] peek_length [of s _ b s1] parseredirs_length [of s2 rs s3] by fastforce
qed simp

declare parse_args.simps [simp del]

section \<open>The grammar\<close>

text \<open>The loop of \<^verbatim>\<open>parseline\<close>.\<close>

function parse_back :: "cmd \<Rightarrow> uchar list \<Rightarrow> cmd \<times> uchar list" where
  "parse_back c s =
     (let (b, s) = peek_tok s [38] in
      if b then let (_, _, s) = gettoken s in parse_back (BACK c) s else (c, s))"
  by pat_completeness auto

termination
proof (relation "measure (\<lambda>(c, s). length s)", goal_cases)
  case (2 c s p b s1 z tok u w s2)
  then show ?case using peek_gettoken [of s "[38]" s1 tok w s2] by fastforce
qed simp

declare parse_back.simps [simp del]

fun parseline :: "nat \<Rightarrow> uchar list \<Rightarrow> (cmd \<times> uchar list) res"
  and parsepipe :: "nat \<Rightarrow> uchar list \<Rightarrow> (cmd \<times> uchar list) res"
  and parseexec :: "nat \<Rightarrow> uchar list \<Rightarrow> (cmd \<times> uchar list) res"
  and parseblock :: "nat \<Rightarrow> uchar list \<Rightarrow> (cmd \<times> uchar list) res" where
  "parseline 0 s = Blocked"
| "parseline (Suc k) s = andthen (parsepipe k s) (\<lambda>(c, s).
     let (c, s) = parse_back c s; (b, s) = peek_tok s [59] in
     if b then let (_, _, s) = gettoken s in andthen (parseline k s) (\<lambda>(d, s). Ok (LIST c d, s))
     else Ok (c, s))"
| "parsepipe 0 s = Blocked"
| "parsepipe (Suc k) s = andthen (parseexec k s) (\<lambda>(c, s).
     let (b, s) = peek_tok s [124] in
     if b then let (_, _, s) = gettoken s in andthen (parsepipe k s) (\<lambda>(d, s). Ok (PIPE c d, s))
     else Ok (c, s))"
| "parseexec 0 s = Blocked"
| "parseexec (Suc k) s =
     (let (b, s) = peek_tok s [40] in
      if b then parseblock k s
      else andthen (parseredirs s) (\<lambda>(rs, s). andthen (parse_args 0 s) (\<lambda>(qs, rs', s).
        Ok (add_redirs (EXEC qs) (rs @ rs'), s))))"
| "parseblock 0 s = Blocked"
| "parseblock (Suc k) s =
     (let (b, s) = peek_tok s [40] in
      if \<not> b then Panic ''parseblock''
      else let (_, _, s) = gettoken s in
        andthen (parseline k s) (\<lambda>(c, s).
          let (b, s) = peek_tok s [41] in
          if \<not> b then Panic ''syntax - missing )''
          else let (_, _, s) = gettoken s in andthen (parseredirs s) (\<lambda>(rs, s). Ok (add_redirs c rs, s))))"

definition parsecmd :: "uchar list \<Rightarrow> cmd res" where
  "parsecmd s = andthen (parseline (4 * length s + 4) s) (\<lambda>(c, s).
     let (_, s) = peek_tok s [] in if s \<noteq> [] then Panic ''syntax'' else Ok c)"

section \<open>Termination\<close>

lemma parse_back_length: "parse_back c s = (d, r) \<Longrightarrow> length r \<le> length s"
proof (induction c s rule: parse_back.induct)
  case (1 c s)
  obtain b s1 where b: "peek_tok s [38] = (b, s1)" by fastforce
  obtain tok w s2 where g: "gettoken s1 = (tok, w, s2)" by (cases "gettoken s1")
  show ?case
  proof (cases b)
    case True
    then have "length r \<le> length s2" using 1 b g by (subst (asm) (2) parse_back.simps) fastforce
    then show ?thesis using gettoken_length(1) [OF g] peek_length [OF b] by simp
  next
    case False
    then show ?thesis using 1(2) peek_length [OF b] by (subst (asm) parse_back.simps) (simp add: b)
  qed
qed

lemma parse_args_length: "parse_args n s = Ok (qs, rs, r) \<Longrightarrow> length r \<le> length s"
proof (induction n s arbitrary: qs rs rule: parse_args.induct)
  case (1 n s)
  obtain b s1 where b: "peek_tok s [124, 41, 38, 59] = (b, s1)" by fastforce
  obtain tok q s2 where g: "gettoken s1 = (tok, q, s2)" by (cases "gettoken s1")
  note l = gettoken_length(1) [OF g] peek_length [OF b]
  show ?case
  proof (cases "\<not> b \<and> tok = 97 \<and> n + 1 < MAXARGS")
    case True
    obtain rs1 s3 where p: "parseredirs s2 = Ok (rs1, s3)"
      using 1(2) True by (subst (asm) parse_args.simps) (auto simp: b g split: res.splits)
    obtain qs2 rs2 where "parse_args (n + 1) s3 = Ok (qs2, rs2, r)"
      using 1(2) True by (subst (asm) parse_args.simps) (auto simp: b g p andthen_Ok_iff)
    then have "length r \<le> length s3" using 1(1) b g p True by fastforce
    then show ?thesis using l parseredirs_length [OF p] by simp
  next
    case False
    then show ?thesis using 1(2) l by (subst (asm) parse_args.simps) (auto simp: b g split: if_splits)
  qed
qed

text \<open>\<open>comes_back n m\<close>: the parser does not run out of calls and leaves at most \<open>n\<close> characters.\<close>

definition comes_back :: "nat \<Rightarrow> ('a \<times> uchar list) res \<Rightarrow> bool" where
  "comes_back n m \<longleftrightarrow> m \<noteq> Blocked \<and> m \<noteq> Fault \<and> (\<forall>c r. m = Ok (c, r) \<longrightarrow> length r \<le> n)"

lemma comes_back_simps [simp]:
  "comes_back n (Ok (c, r)) = (length r \<le> n)" "comes_back n (Panic e)" "\<not> comes_back n Fault" "\<not> comes_back n Blocked"
  by (simp_all add: comes_back_def)

lemma comes_back_bind:
  "comes_back n m \<Longrightarrow> (\<And>c r. length r \<le> n \<Longrightarrow> comes_back n (g (c, r))) \<Longrightarrow> comes_back n (andthen m g)"
  by (cases m) (auto simp: comes_back_def)

lemma comes_back_mono: "comes_back n m \<Longrightarrow> n \<le> n' \<Longrightarrow> comes_back n' m"
  by (auto simp: comes_back_def)

lemma comes_back_redirs: "comes_back (length s) (parseredirs s)"
proof (induction s rule: parseredirs.induct)
  case (1 s)
  obtain b s1 where b: "peek_tok s [60, 62] = (b, s1)" by fastforce
  obtain tok w s2 where g: "gettoken s1 = (tok, w, s2)" by (cases "gettoken s1")
  obtain t q s3 where h: "gettoken s2 = (t, q, s3)" by (cases "gettoken s2")
  note l = gettoken_length(1) [OF g] gettoken_length(1) [OF h] peek_length [OF b]
  show ?case
  proof (cases "b \<and> t = 97")
    case True
    then have "comes_back (length s3) (parseredirs s3)" using 1 b g h by fastforce
    then have "comes_back (length s) (parseredirs s3)" using l by (auto elim: comes_back_mono)
    then show ?thesis using True by (subst parseredirs.simps) (auto simp: b g h intro!: comes_back_bind)
  next
    case False
    then show ?thesis using l by (subst parseredirs.simps) (auto simp: b g h)
  qed
qed

lemma parse_args_returns: "parse_args n s \<noteq> Blocked \<and> parse_args n s \<noteq> Fault"
proof (induction n s rule: parse_args.induct)
  case (1 n s)
  obtain b s1 where b: "peek_tok s [124, 41, 38, 59] = (b, s1)" by fastforce
  obtain tok q s2 where g: "gettoken s1 = (tok, q, s2)" by (cases "gettoken s1")
  show ?case
  proof (cases "\<not> b \<and> tok = 97 \<and> n + 1 < MAXARGS")
    case True
    show ?thesis
    proof (cases "parseredirs s2")
      case (Ok z)
      obtain rs s3 where z: "z = (rs, s3)" by (cases z)
      have "parse_args (n + 1) s3 \<noteq> Blocked \<and> parse_args (n + 1) s3 \<noteq> Fault" using 1 b g Ok z True by fastforce
      then show ?thesis using True unfolding parse_args.simps [of n s] by (cases "parse_args (n + 1) s3") (auto simp: b g Ok z)
    qed (use True comes_back_redirs [of s2] in \<open>subst parse_args.simps, simp add: b g\<close>)+
  next
    case False
    then show ?thesis unfolding parse_args.simps [of n s] by (auto simp: b g)
  qed
qed

lemma comes_back_exec: "comes_back (length s) (andthen (parseredirs s) (\<lambda>(rs, s). andthen (parse_args 0 s) (\<lambda>(qs, rs', s).
        Ok (add_redirs (EXEC qs) (rs @ rs'), s))))"
proof (rule comes_back_bind [OF comes_back_redirs], clarify)
  fix rs :: "redir list" and r :: "uchar list"
  assume r: "length r \<le> length s"
  show "comes_back (length s) (andthen (parse_args 0 r) (\<lambda>(qs, rs', s). Ok (add_redirs (EXEC qs) (rs @ rs'), s)))"
    using r parse_args_returns [of 0 r] parse_args_length [of 0 r]
    by (cases "parse_args 0 r") (auto simp: comes_back_def intro: order_trans)
qed

text \<open>After a symbol that was seen, the parser goes on with less text.\<close>

lemma comes_back_symbol:
  assumes "set toks \<subseteq> set symbols" "length s \<le> n" "\<And>r. length r \<le> n \<Longrightarrow> comes_back n (h r)"
    "\<And>r. length r < n \<Longrightarrow> comes_back n (g r)"
  shows "comes_back n (case peek_tok s toks of (b, s) \<Rightarrow> if b then case gettoken s of (_, _, s) \<Rightarrow> g s else h s)"
proof -
  obtain b r where b: "peek_tok s toks = (b, r)" by fastforce
  obtain t w u where g: "gettoken r = (t, w, u)" by (cases "gettoken r")
  have "length u < n" if b using peek_gettoken [OF _ assms(1) g] b that assms(2) by fastforce
  then show ?thesis using assms(2-4) peek_length [OF b] by (auto simp: b g)
qed

lemma comes_back_parse:
  "(4 * length s + 4 \<le> k \<longrightarrow> comes_back (length s) (parseline k s)) \<and>
   (4 * length s + 3 \<le> k \<longrightarrow> comes_back (length s) (parsepipe k s)) \<and>
   (4 * length s + 2 \<le> k \<longrightarrow> comes_back (length s) (parseexec k s)) \<and>
   (4 * length s + 1 \<le> k \<longrightarrow> comes_back (length s) (parseblock k s))"
proof (induction k arbitrary: s)
  case (Suc k)
  have sub: "comes_back n (parseline k t)" if "4 * length t + 4 \<le> k" "length t \<le> n" for t n
    using Suc that by (meson comes_back_mono)
  have pipe: "comes_back n (parsepipe k t)" if "4 * length t + 3 \<le> k" "length t \<le> n" for t n
    using Suc that by (meson comes_back_mono)
  have exec: "comes_back n (parseexec k t)" if "4 * length t + 2 \<le> k" "length t \<le> n" for t n
    using Suc that by (meson comes_back_mono)
  have block: "comes_back n (parseblock k t)" if "4 * length t + 1 \<le> k" "length t \<le> n" for t n
    using Suc that by (meson comes_back_mono)
  have redirs: "comes_back n (andthen (parseredirs t) (\<lambda>(rs, s). Ok (add_redirs c rs, s)))" if "length t \<le> n" for t c n
    using comes_back_redirs [of t] that by (auto intro!: comes_back_bind elim: comes_back_mono)
  have 1: "comes_back (length s) (parseline (Suc k) s)" if k: "4 * length s + 4 \<le> Suc k"
    unfolding parseline.simps Let_def
  proof (rule comes_back_bind [OF pipe], goal_cases)
    case (3 c r)
    obtain d t where "parse_back c r = (d, t)" by fastforce
    moreover from this have "length t \<le> length s" using parse_back_length 3 by fastforce
    ultimately show ?case using k by (auto intro!: comes_back_symbol comes_back_bind [OF sub])
  qed (use k in simp_all)
  have 2: "comes_back (length s) (parsepipe (Suc k) s)" if k: "4 * length s + 3 \<le> Suc k"
    unfolding parsepipe.simps Let_def
  proof (rule comes_back_bind [OF exec], goal_cases)
    case (3 c r)
    then show ?case using k by (auto intro!: comes_back_symbol comes_back_bind [OF pipe])
  qed (use k in simp_all)
  have 3: "comes_back (length s) (parseexec (Suc k) s)" if k: "4 * length s + 2 \<le> Suc k"
  proof -
    obtain b r where b: "peek_tok s [40] = (b, r)" by fastforce
    then show ?thesis using peek_length [OF b] block [of r "length s"] comes_back_mono [OF comes_back_exec [of r], of "length s"] k by simp
  qed
  have 4: "comes_back (length s) (parseblock (Suc k) s)" if k: "4 * length s + 1 \<le> Suc k"
  proof -
    have a: "comes_back n (case peek_tok r [41] of (b, s) \<Rightarrow> if b then case gettoken s of (_, _, s) \<Rightarrow>
        andthen (parseredirs s) (\<lambda>(rs, s). Ok (add_redirs c rs, s)) else Panic e)" if "length r \<le> n" for r c n e
      using that by (intro comes_back_symbol redirs) simp_all
    have "comes_back (length s) (case peek_tok s [40] of (b, s) \<Rightarrow> if b then case gettoken s of (_, _, s) \<Rightarrow> andthen (parseline k s) (\<lambda>(c, s).
        case peek_tok s [41] of (b, s) \<Rightarrow> if b then case gettoken s of (_, _, s) \<Rightarrow>
          andthen (parseredirs s) (\<lambda>(rs, s). Ok (add_redirs c rs, s)) else Panic ''syntax - missing )'') else Panic ''parseblock'')"
      using k by (intro comes_back_symbol) (auto intro!: comes_back_bind [OF sub] a)
    moreover have "(if \<not> p then x else y) = (if p then y else x)" for p and x y :: "(cmd \<times> uchar list) res" by simp
    ultimately show ?thesis by (simp only: parseblock.simps Let_def)
  qed
  show ?case using 1 2 3 4 by blast
qed simp

text \<open>Allowing deeper calls does not change a result.\<close>

lemma andthen_mono:
  assumes "m \<noteq> Blocked \<Longrightarrow> m' = m" "\<And>x. g x \<noteq> Blocked \<Longrightarrow> g' x = g x" "andthen m g \<noteq> Blocked"
  shows "andthen m' g' = andthen m g"
  using assms by (cases m) auto

lemma symbol_mono:
  assumes "\<And>r. g r \<noteq> Blocked \<Longrightarrow> g' r = g r"
    "(case peek_tok s toks of (b, s) \<Rightarrow> if b then case gettoken s of (_, _, s) \<Rightarrow> g s else h s) \<noteq> Blocked"
  shows "(case peek_tok s toks of (b, s) \<Rightarrow> if b then case gettoken s of (_, _, s) \<Rightarrow> g' s else h s) =
    (case peek_tok s toks of (b, s) \<Rightarrow> if b then case gettoken s of (_, _, s) \<Rightarrow> g s else h s)"
proof -
  obtain b r where b: "peek_tok s toks = (b, r)" by fastforce
  obtain t w u where "gettoken r = (t, w, u)" by (cases "gettoken r")
  then show ?thesis using assms b by (cases b) simp_all
qed

lemma parse_mono:
  "(parseline k s \<noteq> Blocked \<longrightarrow> parseline (Suc k) s = parseline k s) \<and>
   (parsepipe k s \<noteq> Blocked \<longrightarrow> parsepipe (Suc k) s = parsepipe k s) \<and>
   (parseexec k s \<noteq> Blocked \<longrightarrow> parseexec (Suc k) s = parseexec k s) \<and>
   (parseblock k s \<noteq> Blocked \<longrightarrow> parseblock (Suc k) s = parseblock k s)"
proof (induction k arbitrary: s)
  case (Suc k)
  have l: "parseline (Suc k) t = parseline k t" if "parseline k t \<noteq> Blocked" for t using Suc that by blast
  have p: "parsepipe (Suc k) t = parsepipe k t" if "parsepipe k t \<noteq> Blocked" for t using Suc that by blast
  have e: "parseexec (Suc k) t = parseexec k t" if "parseexec k t \<noteq> Blocked" for t using Suc that by blast
  have l': "andthen (parseline (Suc k) t) h = andthen (parseline k t) h" if "andthen (parseline k t) h \<noteq> Blocked" for t and h :: "_ \<Rightarrow> (cmd \<times> uchar list) res"
    by (rule andthen_mono [OF _ _ that]) (use l in blast)+
  have p': "andthen (parsepipe (Suc k) t) h = andthen (parsepipe k t) h" if "andthen (parsepipe k t) h \<noteq> Blocked" for t and h :: "_ \<Rightarrow> (cmd \<times> uchar list) res"
    by (rule andthen_mono [OF _ _ that]) (use p in blast)+
  have 1: "parseline (Suc (Suc k)) s = parseline (Suc k) s" if "parseline (Suc k) s \<noteq> Blocked"
    unfolding parseline.simps(2) [of "Suc k" s] parseline.simps(2) [of k s] Let_def
  proof (rule andthen_mono [OF p _ that [unfolded parseline.simps(2) [of k s] Let_def]], assumption, clarify)
    fix c t assume a: "(case parse_back c t of (c, s) \<Rightarrow> case peek_tok s [59] of (b, s) \<Rightarrow>
        if b then case gettoken s of (_, _, s) \<Rightarrow> andthen (parseline k s) (\<lambda>(d, s). Ok (LIST c d, s)) else Ok (c, s)) \<noteq> Blocked"
    obtain d u where d: "parse_back c t = (d, u)" by fastforce
    show "(case parse_back c t of (c, s) \<Rightarrow> case peek_tok s [59] of (b, s) \<Rightarrow>
        if b then case gettoken s of (_, _, s) \<Rightarrow> andthen (parseline (Suc k) s) (\<lambda>(d, s). Ok (LIST c d, s)) else Ok (c, s)) =
      (case parse_back c t of (c, s) \<Rightarrow> case peek_tok s [59] of (b, s) \<Rightarrow>
        if b then case gettoken s of (_, _, s) \<Rightarrow> andthen (parseline k s) (\<lambda>(d, s). Ok (LIST c d, s)) else Ok (c, s))"
      unfolding d prod.case by (rule symbol_mono, erule l') (rule a [unfolded d prod.case])
  qed
  have 2: "parsepipe (Suc (Suc k)) s = parsepipe (Suc k) s" if "parsepipe (Suc k) s \<noteq> Blocked"
    unfolding parsepipe.simps(2) [of "Suc k" s] parsepipe.simps(2) [of k s] Let_def
    by (rule andthen_mono [OF e _ that [unfolded parsepipe.simps(2) [of k s] Let_def]], assumption, clarify, rule symbol_mono [OF p'])
  have 3: "parseexec (Suc (Suc k)) s = parseexec (Suc k) s" if "parseexec (Suc k) s \<noteq> Blocked"
  proof -
    obtain b r where b: "peek_tok s [40] = (b, r)" by fastforce
    have "parseblock (Suc k) r = parseblock k r" if "parseblock k r \<noteq> Blocked" using Suc that by blast
    then show ?thesis using that by (cases b) (simp_all add: b Let_def del: parseblock.simps)
  qed
  have 4: "parseblock (Suc (Suc k)) s = parseblock (Suc k) s" if "parseblock (Suc k) s \<noteq> Blocked"
  proof -
    obtain b r where b: "peek_tok s [40] = (b, r)" by fastforce
    obtain t w u where g: "gettoken r = (t, w, u)" by (cases "gettoken r")
    show ?thesis using that l' by (cases b) (simp_all add: b g Let_def del: parseline.simps)
  qed
  show ?case using 1 2 3 4 by blast
qed simp

lemma parse_mono_le:
  assumes "k \<le> k'"
  shows "parseline k s \<noteq> Blocked \<Longrightarrow> parseline k' s = parseline k s" "parsepipe k s \<noteq> Blocked \<Longrightarrow> parsepipe k' s = parsepipe k s"
    "parseexec k s \<noteq> Blocked \<Longrightarrow> parseexec k' s = parseexec k s" "parseblock k s \<noteq> Blocked \<Longrightarrow> parseblock k' s = parseblock k s"
  using assms by (induction rule: dec_induct) (use parse_mono in \<open>metis\<close>)+

text \<open>C31: The parser ends on every input, with a command or with one of its error messages: the calls of the parsing routines
  nest at most four deep for each character of the text, so that allowing deeper calls changes nothing.\<close>

theorem parse_terminates:
  "((\<exists>c. parsecmd s = Ok c) \<or> (\<exists>e. parsecmd s = Panic e)) \<and>
   parseline (4 * length s + 4 + d) s = parseline (4 * length s + 4) s"
proof -
  have c: "comes_back (length s) (parseline (4 * length s + 4) s)" using comes_back_parse by blast
  then have "(\<exists>c. parsecmd s = Ok c) \<or> (\<exists>e. parsecmd s = Panic e)"
    by (cases "parseline (4 * length s + 4) s") (auto simp: parsecmd_def Let_def split: prod.splits)
  moreover have "parseline (4 * length s + 4) s \<noteq> Blocked" using c unfolding comes_back_def by blast
  then have "parseline (4 * length s + 4 + d) s = parseline (4 * length s + 4) s" by (rule parse_mono_le(1) [rotated]) simp
  ultimately show ?thesis by blast
qed

section \<open>Printing\<close>

text \<open>A command as text: every token is followed by a blank, and a command is put in parentheses where it does not fit the level of the grammar (0 a line, 1 what
  may be put in the background, 2 a pipeline, 3 a part of one).\<close>

definition show_paren :: "bool \<Rightarrow> uchar list \<Rightarrow> uchar list" where
  "show_paren b s = (if b then [40, 32] @ s @ [41, 32] else s)"

definition show_redir :: "redir \<Rightarrow> uchar list" where
  "show_redir = (\<lambda>(f, mode, fd). (if fd = 0 then [60, 32] else [62, 32]) @ f @ [32])"

primrec show_cmd :: "cmd \<Rightarrow> nat \<Rightarrow> uchar list" where
  "show_cmd (EXEC qs) lv = concat (map (\<lambda>q. q @ [32]) qs)"
| "show_cmd (REDIR c f mode fd) lv = show_cmd c 3 @ show_redir (f, mode, fd)"
| "show_cmd (PIPE c d) lv = show_paren (2 < lv) (show_cmd c 3 @ [124, 32] @ show_cmd d 2)"
| "show_cmd (LIST c d) lv = show_paren (0 < lv) (show_cmd c 1 @ [59, 32] @ show_cmd d 0)"
| "show_cmd (BACK c) lv = show_paren (1 < lv) (show_cmd c 1 @ [38, 32])"

text \<open>Commands the shell can be given: words without special characters, fewer than \<^verbatim>\<open>MAXARGS\<close> of them, and the two kinds of redirection.\<close>

definition is_word :: "uchar list \<Rightarrow> bool" where
  "is_word q \<longleftrightarrow> q \<noteq> [] \<and> (\<forall>c \<in> set q. wordc c)"

definition is_redir :: "redir \<Rightarrow> bool" where
  "is_redir = (\<lambda>(f, mode, fd). is_word f \<and> (mode = 0 \<and> fd = 0 \<or> mode = 0x201 \<and> fd = 1))"

primrec is_cmd :: "cmd \<Rightarrow> bool" where
  "is_cmd (EXEC qs) \<longleftrightarrow> length qs < MAXARGS \<and> (\<forall>q \<in> set qs. is_word q)"
| "is_cmd (REDIR c f mode fd) \<longleftrightarrow> is_cmd c \<and> is_redir (f, mode, fd)"
| "is_cmd (PIPE c d) \<longleftrightarrow> is_cmd c \<and> is_cmd d"
| "is_cmd (LIST c d) \<longleftrightarrow> is_cmd c \<and> is_cmd d"
| "is_cmd (BACK c) \<longleftrightarrow> is_cmd c"

text \<open>The text that follows is empty or starts with one of the given characters.\<close>

definition follows :: "uchar list \<Rightarrow> uchar list \<Rightarrow> bool" where
  "follows toks s \<longleftrightarrow> s = [] \<or> hd s \<in> set toks"

definition solid :: "uchar list \<Rightarrow> bool" where
  "solid s \<longleftrightarrow> s = [] \<or> hd s \<notin> set whitespace"

lemma solid_Cons [simp]: "solid [] " "solid (c # s) \<longleftrightarrow> c \<notin> set whitespace"
  by (simp_all add: solid_def)

lemma skip_ws_solid: "solid s \<Longrightarrow> skip_ws s = s"
  by (cases s) (auto simp: solid_def skip_ws_def)

lemma skip_ws_blank: "solid s \<Longrightarrow> skip_ws (32 # s) = s"
  using skip_ws_solid [of s] by (simp add: skip_ws_def)

lemma solid_follows: "follows toks s \<Longrightarrow> set toks \<inter> set whitespace = {} \<Longrightarrow> solid s"
  by (auto simp: follows_def solid_def)

lemma solid_word: "is_word q \<Longrightarrow> solid (q @ s)"
  by (cases q) (auto simp: is_word_def solid_def wordc_def)

lemma solid_redirs: "solid s \<Longrightarrow> solid (concat (map show_redir rs) @ s)"
  by (cases rs) (auto simp: show_redir_def solid_def split: prod.splits)

lemma solid_show: "is_cmd c \<Longrightarrow> solid s \<Longrightarrow> solid (show_cmd c lv @ s)"
proof (induction c arbitrary: lv s)
  case (EXEC qs)
  then show ?case by (cases qs) (auto intro: solid_word)
next
  case (REDIR c f mode fd)
  then show ?case using solid_redirs [of s "[(f, mode, fd)]"] by simp
qed (simp_all add: show_paren_def)

lemma gettoken_word:
  assumes "is_word q" "solid s"
  shows "gettoken (q @ 32 # s) = (97, q, s)"
proof -
  obtain c q' where q: "q = c # q'" using assms(1) by (cases q) (auto simp: is_word_def)
  have "skip_ws (q @ 32 # s) = q @ 32 # s" by (rule skip_ws_solid) (rule solid_word [OF assms(1)])
  moreover have "takeWhile wordc (q @ 32 # s) = q" "dropWhile wordc (q @ 32 # s) = 32 # s"
    using assms(1) by (simp_all add: is_word_def takeWhile_append2 dropWhile_append2 wordc_def)
  moreover have "wordc c" using assms(1) q by (simp add: is_word_def)
  ultimately show ?thesis using q assms(2) by (auto simp: gettoken_def wordc_def skip_ws_blank)
qed

lemma gettoken_symbol:
  assumes "c \<in> {124, 40, 41, 59, 38, 60, 62}" "solid s"
  shows "gettoken (c # 32 # s) = (c, [c], s)"
  using assms by (auto simp: gettoken_def skip_ws_solid solid_def skip_ws_blank)

lemma peek_solid: "solid s \<Longrightarrow> peek_tok s toks = (s \<noteq> [] \<and> hd s \<in> set toks, s)"
  by (simp add: peek_tok_def skip_ws_solid)

section \<open>Parsing what was printed\<close>

abbreviation show_redirs :: "redir list \<Rightarrow> uchar list" where
  "show_redirs rs \<equiv> concat (map show_redir rs)"

lemma parseredirs_show:
  assumes "\<forall>r \<in> set rs. is_redir r" "solid s" "follows [124, 41, 38, 59] s \<or> (\<exists>q t. is_word q \<and> s = q @ t)"
  shows "parseredirs (show_redirs rs @ s) = Ok (rs, s)"
  using assms(1)
proof (induction rs)
  case Nil
  have "\<not> (s \<noteq> [] \<and> hd s \<in> set [60, 62])" using assms(3)
  proof
    assume "\<exists>q t. is_word q \<and> s = q @ t"
    then obtain c q t where "wordc c" "s = c # q @ t" by (auto simp: is_word_def neq_Nil_conv)
    then show ?thesis by (auto simp: wordc_def)
  qed (auto simp: follows_def)
  then show ?case using assms(2) by (subst parseredirs.simps) (simp add: peek_solid)
next
  case (Cons r rs)
  obtain f mode fd where r: "r = (f, mode, fd)" by (cases r)
  let ?s = "show_redirs rs @ s" and ?c = "if fd = 0 then 60 else 62 :: uchar"
  have w: "is_word f" "redircmd ?c f = r" using Cons.prems r by (auto simp: is_redir_def redircmd_def)
  have s: "solid ?s" "solid (f @ 32 # ?s)" using solid_redirs [OF assms(2)] solid_word [OF w(1)] by simp_all
  have t: "gettoken (?c # 32 # f @ 32 # ?s) = (?c, [?c], f @ 32 # ?s)" by (rule gettoken_symbol [OF _ s(2)]) simp
  have "show_redirs (r # rs) @ s = ?c # 32 # f @ 32 # ?s" by (simp add: r show_redir_def)
  moreover have "parseredirs (?c # 32 # f @ 32 # ?s) = Ok (r # rs, s)"
    using Cons t gettoken_word [OF w(1) s(1)] w(2) by (subst parseredirs.simps) (simp add: peek_solid del: append.simps)
  ultimately show ?case by simp
qed

abbreviation show_words :: "uchar list list \<Rightarrow> uchar list" where
  "show_words qs \<equiv> concat (map (\<lambda>q. q @ [32]) qs)"

lemma solid_words: "\<forall>q \<in> set qs. is_word q \<Longrightarrow> solid s \<Longrightarrow> solid (show_words qs @ s)"
  by (cases qs) (auto intro: solid_word)

lemma parseredirs_words:
  assumes "\<forall>q \<in> set qs. is_word q" "qs \<noteq> []"
  shows "parseredirs (show_words qs @ s) = Ok ([], show_words qs @ s)"
proof -
  obtain q qs' where qs: "qs = q # qs'" using assms(2) by (cases qs) simp_all
  then have "is_word q" "show_words qs @ s = q @ (32 # show_words qs' @ s)" using assms(1) by simp_all
  then show ?thesis using parseredirs_show [of "[]" "show_words qs @ s"] solid_word by auto
qed

lemma parse_args_end: "follows [124, 41, 38, 59] s \<Longrightarrow> parse_args n s = Ok ([], [], s)"
  using solid_follows [of "[124, 41, 38, 59]" s]
  by (subst parse_args.simps) (auto simp: peek_solid follows_def gettoken_def skip_ws_def)

lemma parse_args_show:
  assumes "\<forall>q \<in> set qs. is_word q" "qs \<noteq> []" "n + length qs < MAXARGS" "\<forall>r \<in> set rs. is_redir r" "follows [124, 41, 38, 59] s"
  shows "parse_args n (show_words qs @ show_redirs rs @ s) = Ok (qs, rs, s)"
  using assms(1-3)
proof (induction qs arbitrary: n)
  case (Cons q qs)
  have sol: "solid s" using assms(5) by (rule solid_follows) auto
  let ?t = "show_words qs @ show_redirs rs @ s"
  have q: "is_word q" "solid ?t" using Cons.prems(1) solid_words solid_redirs [OF sol] by simp_all
  have "solid (q @ 32 # ?t)" "hd (q @ 32 # ?t) \<notin> set [124, 41, 38, 59]" "q @ 32 # ?t \<noteq> []"
    using q(1) solid_word by (auto simp: is_word_def wordc_def neq_Nil_conv)
  then have a: "parse_args n (q @ 32 # ?t) = (case parseredirs ?t of
            Ok (rs, s) \<Rightarrow> andthen (parse_args (n + 1) s) (\<lambda>(qs, rs', s). Ok (q # qs, rs @ rs', s))
          | Panic e \<Rightarrow> Panic e | Fault \<Rightarrow> Fault | Blocked \<Rightarrow> Blocked)"
    using Cons.prems(3) by (subst parse_args.simps) (simp add: peek_solid gettoken_word [OF q])
  show ?case
  proof (cases "qs = []")
    case True
    then show ?thesis using a parseredirs_show [OF assms(4) sol] assms(5) parse_args_end [OF assms(5)] by simp
  next
    case False
    then have "parseredirs ?t = Ok ([], ?t)" using Cons.prems(1) by (intro parseredirs_words) simp_all
    then show ?thesis using a Cons False by simp
  qed
qed simp

lemma parse_exec_show:
  assumes "is_cmd (EXEC qs)" "\<forall>r \<in> set rs. is_redir r" "follows [124, 41, 38, 59] s"
  shows "parseexec 1 (show_words qs @ show_redirs rs @ s) = Ok (add_redirs (EXEC qs) rs, s)"
proof -
  have sol: "solid s" using assms(3) by (rule solid_follows) auto
  let ?t = "show_words qs @ show_redirs rs @ s"
  have w: "\<forall>q \<in> set qs. is_word q" "length qs < MAXARGS" using assms(1) by simp_all
  have "\<not> (?t \<noteq> [] \<and> hd ?t = 40)" using w(1) assms(3)
    by (cases qs; cases rs) (auto simp: is_word_def neq_Nil_conv wordc_def show_redir_def follows_def split: prod.splits)
  then have p: "peek_tok ?t [40] = (False, ?t)" using solid_words [OF w(1)] solid_redirs [OF sol] by (auto simp: peek_solid)
  show ?thesis
  proof (cases "qs = []")
    case True
    then show ?thesis using p parseredirs_show [OF assms(2) sol] assms(3) parse_args_end [OF assms(3)] by simp
  next
    case False
    then have "parseredirs ?t = Ok ([], ?t)" using w by (intro parseredirs_words)
    then show ?thesis using p parse_args_show [OF w(1) False _ assms(2,3), of 0] w(2) by simp
  qed
qed

text \<open>What the four levels of the parser make of a printed command.\<close>

definition exec_ok :: "cmd \<Rightarrow> bool" where
  "exec_ok c \<longleftrightarrow> (\<forall>rs s. (\<forall>r \<in> set rs. is_redir r) \<longrightarrow> follows [124, 41, 38, 59] s \<longrightarrow>
     (\<exists>k. parseexec k (show_cmd c 3 @ show_redirs rs @ s) = Ok (add_redirs c rs, s)))"

definition pipe_ok :: "cmd \<Rightarrow> bool" where
  "pipe_ok c \<longleftrightarrow> (\<forall>s. follows [41, 38, 59] s \<longrightarrow> (\<exists>k. parsepipe k (show_cmd c 2 @ s) = Ok (c, s)))"

definition back_ok :: "cmd \<Rightarrow> bool" where
  "back_ok c \<longleftrightarrow> (\<forall>s. follows [41, 38, 59] s \<longrightarrow>
     (\<exists>k d r. parsepipe k (show_cmd c 1 @ s) = Ok (d, r) \<and> parse_back d r = parse_back c s))"

definition line_ok :: "cmd \<Rightarrow> bool" where
  "line_ok c \<longleftrightarrow> (\<forall>s. follows [41] s \<longrightarrow> (\<exists>k. parseline k (show_cmd c 0 @ s) = Ok (c, s)))"

lemma add_redirs_Nil [simp]: "add_redirs c [] = c"
  by (simp add: add_redirs_def)

lemma follows_mono: "follows toks s \<Longrightarrow> set toks \<subseteq> set toks' \<Longrightarrow> follows toks' s"
  by (auto simp: follows_def)

lemma follows_peek:
  assumes "follows toks s" "set toks \<inter> set whitespace = {}" "set toks \<inter> set toks' = {}"
  shows "peek_tok s toks' = (False, s)"
  using peek_solid [OF solid_follows [OF assms(1,2)]] assms(1,3) by (auto simp: follows_def)

lemma pipe_ok_exec:
  assumes "exec_ok c" "show_cmd c 2 = show_cmd c 3"
  shows "pipe_ok c"
  unfolding pipe_ok_def
proof (intro allI impI)
  fix s assume s: "follows [41, 38, 59] s"
  then have "follows [124, 41, 38, 59] s" by (rule follows_mono) auto
  then obtain k where "parseexec k (show_cmd c 3 @ show_redirs [] @ s) = Ok (add_redirs c [], s)"
    using assms(1) [unfolded exec_ok_def, rule_format, of "[]" s] by auto
  then have "parsepipe (Suc k) (show_cmd c 2 @ s) = Ok (c, s)" using assms(2) follows_peek [OF s, of "[124]"] by simp
  then show "\<exists>k. parsepipe k (show_cmd c 2 @ s) = Ok (c, s)" by blast
qed

lemma back_ok_pipe: "pipe_ok c \<Longrightarrow> show_cmd c 1 = show_cmd c 2 \<Longrightarrow> back_ok c"
  unfolding back_ok_def pipe_ok_def by metis

lemma parse_back_end: "follows [41, 59] s \<Longrightarrow> parse_back c s = (c, s)"
  using follows_peek [of "[41, 59]" s "[38]"] by (subst parse_back.simps) simp

lemma line_ok_back:
  assumes "back_ok c" "show_cmd c 0 = show_cmd c 1"
  shows "line_ok c"
  unfolding line_ok_def
proof (intro allI impI)
  fix s assume s: "follows [41] s"
  then have "follows [41, 38, 59] s" "follows [41, 59] s" by (auto elim: follows_mono)
  then obtain k d r where "parsepipe k (show_cmd c 1 @ s) = Ok (d, r)" "parse_back d r = (c, s)"
    using assms(1) parse_back_end unfolding back_ok_def by metis
  then have "parseline (Suc k) (show_cmd c 0 @ s) = Ok (c, s)" using assms(2) follows_peek [OF s, of "[59]"] by simp
  then show "\<exists>k. parseline k (show_cmd c 0 @ s) = Ok (c, s)" by blast
qed

lemma exec_ok_line:
  assumes "line_ok c" "is_cmd c" "show_cmd c 3 = [40, 32] @ show_cmd c 0 @ [41, 32]"
  shows "exec_ok c"
  unfolding exec_ok_def
proof (intro allI impI)
  fix rs s assume rs: "\<forall>r \<in> set rs. is_redir r" and s: "follows [124, 41, 38, 59] s"
  have sol: "solid s" using s by (rule solid_follows) auto
  let ?u = "show_redirs rs @ s"
  let ?t = "show_cmd c 0 @ 41 # 32 # ?u"
  have "follows [41] (41 # 32 # ?u)" by (simp add: follows_def)
  then obtain k where k: "parseline k ?t = Ok (c, 41 # 32 # ?u)" using assms(1) unfolding line_ok_def by blast
  have 1: "gettoken (40 # 32 # ?t) = (40, [40], ?t)" by (rule gettoken_symbol) (simp_all add: solid_show assms(2))
  have 2: "gettoken (41 # 32 # ?u) = (41, [41], ?u)" by (rule gettoken_symbol) (simp_all add: solid_redirs sol)
  have "parseexec (Suc (Suc k)) (40 # 32 # ?t) = Ok (add_redirs c rs, s)"
    using k 1 2 parseredirs_show [OF rs sol] s by (simp add: peek_solid del: parseline.simps)
  then show "\<exists>k. parseexec k (show_cmd c 3 @ ?u) = Ok (add_redirs c rs, s)" using assms(3) by (intro exI [of _ "Suc (Suc k)"]) simp
qed

lemma exec_ok_EXEC: "is_cmd (EXEC qs) \<Longrightarrow> exec_ok (EXEC qs)"
  unfolding exec_ok_def using parse_exec_show by (metis show_cmd.simps(1))

lemma exec_ok_REDIR:
  assumes "exec_ok c" "is_redir (f, mode, fd)"
  shows "exec_ok (REDIR c f mode fd)"
  unfolding exec_ok_def
proof (intro allI impI)
  fix rs s assume "\<forall>r \<in> set rs. is_redir r" "follows [124, 41, 38, 59] s"
  then show "\<exists>k. parseexec k (show_cmd (REDIR c f mode fd) 3 @ show_redirs rs @ s) = Ok (add_redirs (REDIR c f mode fd) rs, s)"
    using assms(1) [unfolded exec_ok_def, rule_format, of "(f, mode, fd) # rs" s] assms(2) by (auto simp: add_redirs_def)
qed

lemma pipe_ok_PIPE:
  assumes "exec_ok c" "pipe_ok d" "is_cmd d"
  shows "pipe_ok (PIPE c d)"
  unfolding pipe_ok_def
proof (intro allI impI)
  fix s assume s: "follows [41, 38, 59] s"
  let ?t = "show_cmd d 2 @ s"
  obtain k where k: "parsepipe k ?t = Ok (d, s)" using assms(2) s unfolding pipe_ok_def by blast
  have "follows [124, 41, 38, 59] (124 # 32 # ?t)" by (simp add: follows_def)
  then obtain j where j: "parseexec j (show_cmd c 3 @ 124 # 32 # ?t) = Ok (c, 124 # 32 # ?t)"
    using assms(1) [unfolded exec_ok_def, rule_format, of "[]" "124 # 32 # ?t"] by auto
  have g: "gettoken (124 # 32 # ?t) = (124, [124], ?t)"
    by (rule gettoken_symbol) (use solid_show [OF assms(3)] solid_follows [OF s] in auto)
  have "parsepipe (k + j) ?t = Ok (d, s)" "parseexec (k + j) (show_cmd c 3 @ 124 # 32 # ?t) = Ok (c, 124 # 32 # ?t)"
    using parse_mono_le(2) [of k "k + j" ?t] parse_mono_le(3) [of j "k + j" "show_cmd c 3 @ 124 # 32 # ?t"] k j by simp_all
  then have "parsepipe (Suc (k + j)) (show_cmd c 3 @ 124 # 32 # ?t) = Ok (PIPE c d, s)" using g by (simp add: peek_solid)
  then show "\<exists>k. parsepipe k (show_cmd (PIPE c d) 2 @ s) = Ok (PIPE c d, s)" by (intro exI [of _ "Suc (k + j)"]) (simp add: show_paren_def)
qed

lemma back_ok_BACK:
  assumes "back_ok c"
  shows "back_ok (BACK c)"
  unfolding back_ok_def
proof (intro allI impI)
  fix s assume s: "follows [41, 38, 59] s"
  have sol: "solid s" using s by (rule solid_follows) auto
  have "follows [41, 38, 59] (38 # 32 # s)" by (simp add: follows_def)
  then obtain k d r where k: "parsepipe k (show_cmd c 1 @ 38 # 32 # s) = Ok (d, r)" "parse_back d r = parse_back c (38 # 32 # s)"
    using assms unfolding back_ok_def by blast
  moreover have "parse_back c (38 # 32 # s) = parse_back (BACK c) s"
    using gettoken_symbol [of 38 s] sol by (subst parse_back.simps) (simp add: peek_solid)
  ultimately show "\<exists>k d r. parsepipe k (show_cmd (BACK c) 1 @ s) = Ok (d, r) \<and> parse_back d r = parse_back (BACK c) s"
    by (auto simp: show_paren_def)
qed

lemma line_ok_LIST:
  assumes "back_ok c" "line_ok d" "is_cmd d"
  shows "line_ok (LIST c d)"
  unfolding line_ok_def
proof (intro allI impI)
  fix s assume s: "follows [41] s"
  let ?t = "show_cmd d 0 @ s"
  let ?u = "show_cmd c 1 @ 59 # 32 # ?t"
  obtain k where k: "parseline k ?t = Ok (d, s)" using assms(2) s unfolding line_ok_def by blast
  have f: "follows [41, 38, 59] (59 # 32 # ?t)" "follows [41, 59] (59 # 32 # ?t)" by (simp_all add: follows_def)
  then obtain j e r where j: "parsepipe j ?u = Ok (e, r)" "parse_back e r = (c, 59 # 32 # ?t)"
    using assms(1) parse_back_end [OF f(2)] unfolding back_ok_def by metis
  have g: "gettoken (59 # 32 # ?t) = (59, [59], ?t)"
    by (rule gettoken_symbol) (use solid_show [OF assms(3)] solid_follows [OF s] in auto)
  have "parseline (k + j) ?t = Ok (d, s)" "parsepipe (k + j) ?u = Ok (e, r)"
    using parse_mono_le(1) [of k "k + j" ?t] parse_mono_le(2) [of j "k + j" ?u] k j(1) by simp_all
  then have "parseline (Suc (k + j)) ?u = Ok (LIST c d, s)" using g j(2) by (simp add: peek_solid)
  then show "\<exists>k. parseline k (show_cmd (LIST c d) 0 @ s) = Ok (LIST c d, s)" by (intro exI [of _ "Suc (k + j)"]) (simp add: show_paren_def)
qed

lemma levels_ok: "is_cmd c \<Longrightarrow> exec_ok c \<and> pipe_ok c \<and> back_ok c \<and> line_ok c"
proof (induction c)
  case (EXEC qs)
  have "exec_ok (EXEC qs)" using EXEC by (rule exec_ok_EXEC)
  then show ?case using pipe_ok_exec back_ok_pipe line_ok_back by (metis show_cmd.simps(1))
next
  case (REDIR c f mode fd)
  then have "exec_ok (REDIR c f mode fd)" by (simp add: exec_ok_REDIR)
  then show ?case using pipe_ok_exec back_ok_pipe line_ok_back by (metis show_cmd.simps(2))
next
  case (PIPE c d)
  then have p: "pipe_ok (PIPE c d)" by (simp add: pipe_ok_PIPE)
  then have b: "back_ok (PIPE c d)" by (rule back_ok_pipe) (simp add: show_paren_def)
  then have l: "line_ok (PIPE c d)" by (rule line_ok_back) (simp add: show_paren_def)
  then have "exec_ok (PIPE c d)" using PIPE.prems by (rule exec_ok_line) (simp add: show_paren_def)
  then show ?case using p b l by blast
next
  case (LIST c d)
  then have l: "line_ok (LIST c d)" by (simp add: line_ok_LIST)
  then have e: "exec_ok (LIST c d)" using LIST.prems by (rule exec_ok_line) (simp add: show_paren_def)
  then have p: "pipe_ok (LIST c d)" by (rule pipe_ok_exec) (simp add: show_paren_def)
  then have "back_ok (LIST c d)" by (rule back_ok_pipe) (simp add: show_paren_def)
  then show ?case using p e l by blast
next
  case (BACK c)
  then have b: "back_ok (BACK c)" by (simp add: back_ok_BACK)
  then have l: "line_ok (BACK c)" by (rule line_ok_back) (simp add: show_paren_def)
  then have e: "exec_ok (BACK c)" using BACK.prems by (rule exec_ok_line) (simp add: show_paren_def)
  then have "pipe_ok (BACK c)" by (rule pipe_ok_exec) (simp add: show_paren_def)
  then show ?case using b e l by blast
qed

text \<open>C30: Every command of words, redirections, pipelines, lists and background commands can be written down, and the parser reads
  it back as it was.\<close>

theorem parse_show:
  assumes "is_cmd c"
  shows "parsecmd (show_cmd c 0) = Ok c"
proof -
  let ?s = "show_cmd c 0"
  have "line_ok c" using levels_ok [OF assms] by blast
  then obtain k where k: "parseline k (?s @ []) = Ok (c, [])" unfolding line_ok_def follows_def by blast
  have "parseline (4 * length ?s + 4) ?s \<noteq> Blocked" using comes_back_parse [of ?s "4 * length ?s + 4"] by (auto simp: comes_back_def)
  then have "parseline (4 * length ?s + 4) ?s = parseline k ?s"
    using parse_mono_le(1) [of k "4 * length ?s + 4" ?s] parse_mono_le(1) [of "4 * length ?s + 4" k ?s] k by (cases "k \<le> 4 * length ?s + 4") auto
  then show ?thesis using k by (simp add: parsecmd_def peek_tok_def skip_ws_def)
qed

theorem parse_show_witness:
  "parsecmd [40, 32, 97, 32, 59, 32, 98, 32, 41, 32, 62, 32, 99, 32, 124, 32, 100, 32, 38, 32] =
     Ok (BACK (PIPE (REDIR (LIST (EXEC [[97]]) (EXEC [[98]])) [99] 0x201 1) (EXEC [[100]])))"
  using parse_show [of "BACK (PIPE (REDIR (LIST (EXEC [[97]]) (EXEC [[98]])) [99] 0x201 1) (EXEC [[100]]))"]
  by (simp add: is_word_def is_redir_def wordc_def show_paren_def show_redir_def)

end
