(* ===== verification/Spec2Isabelle.thy ===== *)
theory Spec2Isabelle
  imports Memlib Spinlock Grow Dirmap Kmalloc Descr Grep Sh
begin

text \<open>
  A verification development for xv6e, an x86 teaching kernel in C with a heap for the kernel. The theories follow
  the layers of the kernel, each importing the layers it calls; this theory imports them all.

  \<^bold>\<open>Conventions.\<close> The C types of \<^verbatim>\<open>types.h\<close> are words of their width, so that arithmetic wraps as in the
  compiled code; an \<^verbatim>\<open>int\<close> that cannot overflow is an \<open>int\<close>. Structures are records and enumerations are datatypes. A
  routine is a function on an explicit state with the outcomes \<open>Ok\<close>, \<open>Panic\<close> (a call of \<^verbatim>\<open>panic\<close>, with its message),
  \<open>Fault\<close> (undefined behaviour, such as the use of a null pointer) and \<open>Blocked\<close> (the caller sleeps, or the routine does not
  return); \<open>andthen\<close> sequences routines. Theory Prelude has these types, byte-addressed memory with 32-bit accesses, and
  the lemmas the components share.

  \<^bold>\<open>Memory.\<close> Memlib: \<^verbatim>\<open>string.c\<close> on byte memory, with the string instructions of \<^verbatim>\<open>x86.h\<close>. Mmu: the paging macros of
  \<^verbatim>\<open>mmu.h\<close> and the layout of \<^verbatim>\<open>memlayout.h\<close>. Kalloc: \<^verbatim>\<open>vm/kalloc.c\<close>, whose free list is linked through the free pages
  themselves and is shown to implement a stack of distinct pages. Vm: the page tables of \<^verbatim>\<open>vm/vm.c\<close> in that same memory;
  Uvm and Grow show that \<^verbatim>\<open>deallocuvm\<close>, \<^verbatim>\<open>freevm\<close> and \<^verbatim>\<open>allocuvm\<close> keep every user page in a page of its own and lose none.
  Kheap: the page source \<^verbatim>\<open>vm/kheap.c\<close>, a sorted list of regions in metadata pages. Liballoc: the allocator
  \<^verbatim>\<open>vm/liballoc.c\<close> on that source; Kmalloc shows that its lists describe pieces of memory that do not overlap, which
  \<^verbatim>\<open>kheap_malloc\<close> extends by one piece and \<^verbatim>\<open>kheap_free\<close> takes one from, and what happens on a second free and on a
  size whose computation wraps. The descriptors of Kheap and the block headers of Liballoc are records in maps indexed by their
  addresses, beside the bytes; they outlive the release of the pages they stand in, so no theorem speaks of them after that.
  Giving the pages of a block back has two conditions that the lists do not ensure: the pages have frames of their own, and the slot for
  a new descriptor is free.

  \<^bold>\<open>Locks and processes.\<close> Spinlock: \<^verbatim>\<open>spinlock.c\<close> and \<^verbatim>\<open>mycpu\<close>, interleaved at the accesses to the lock word by
  any number of processors, with mutual exclusion. The other theories treat a section between \<^verbatim>\<open>acquire\<close> and
  \<^verbatim>\<open>release\<close> as one step. Sleeplock: \<^verbatim>\<open>sleeplock.c\<close>. Pipe: \<^verbatim>\<open>pipe.c\<close>, shown to be a queue of bytes for any number of
  readers and writers that loses no wakeup as long as no writer is killed. Ptable: the sections of \<^verbatim>\<open>proc.c\<close> under
  \<^verbatim>\<open>ptable.lock\<close> as the step relation \<open>psys_step\<close>; a process runs on at most one processor, parents are alive, process
  ids are distinct, states follow the life cycle, and a parent in \<^verbatim>\<open>wait\<close> is not left asleep when a child has exited.

  \<^bold>\<open>File system.\<close> Block and Ring: disk blocks and circular lists. Bio: the buffer cache \<^verbatim>\<open>bio.c\<close> over the memory
  disk \<^verbatim>\<open>memide.c\<close>, which implements a disk of blocks that can be locked, changed and pinned. Log: \<^verbatim>\<open>log.c\<close>; after a
  crash at any disk write of a commit, recovery yields the disk before or after the whole transaction. Txn: the
  state of \<^verbatim>\<open>fs.c\<close> and its use of the log. Inode: block bitmap, inode cache, \<^verbatim>\<open>bmap\<close>, \<^verbatim>\<open>readi\<close> and \<^verbatim>\<open>writei\<close>; Bitmap shows
  that the bitmap implements a set of free blocks, Content that the contents of an inode are an array of bytes.
  Dir: directories and path names; Dirmap shows that a directory implements a finite map from names.

  \<^bold>\<open>System calls.\<close> File: the file table \<^verbatim>\<open>file.c\<close> and \<^verbatim>\<open>pipealloc\<close>, on the record \<open>kern\<close> of the whole kernel: file
  system, memory, file table, pipes and process table. Syscall: the argument routines of \<^verbatim>\<open>syscall.c\<close>, which stay inside
  the memory of the process. Proc: \<^verbatim>\<open>fork\<close>, \<^verbatim>\<open>exit\<close>, \<^verbatim>\<open>wait\<close>, \<^verbatim>\<open>growproc\<close>, \<^verbatim>\<open>userinit\<close> and the calls of \<^verbatim>\<open>sysproc.c\<close>.
  Sysfile: the calls of \<^verbatim>\<open>sysfile.c\<close>. Exec: \<^verbatim>\<open>exec.c\<close>, \<^verbatim>\<open>loaduvm\<close>, \<^verbatim>\<open>sys_exec\<close>, and the dispatch \<^verbatim>\<open>syscall\<close>; a call of \<^verbatim>\<open>exec\<close> replaces
  the whole image or fails and changes no process. Descr: across every system call the reference count of a file is
  the number of descriptors that name it.

  \<^bold>\<open>User programs.\<close> Grep: \<^verbatim>\<open>grep.c\<close>, whose matcher decides the language of the pattern, and which prints the lines that match as long
  as every read delivers the end of a line. Sh: the parser of \<^verbatim>\<open>sh.c\<close>, which ends on every input and reads back every command
  that is written down.

  \<^bold>\<open>Interfaces.\<close> A layer's contract is a locale where a client depends on the layer only through it: a store of blocks
  (\<open>block_store\<close>, interpreted on the transactions of Txn), a source of runs of pages (\<open>page_source\<close>, and \<open>page_pool\<close>
  that adds the release of a run, both interpreted on Kheap), and those of the theories Bio and Kalloc.

  \<^bold>\<open>Bounds.\<close> Loops over pages carry \<open>PGCOUNT\<close> turns, the number of pages of the address space, which no loop can
  exceed without wrapping; the walks of the buffer list carry \<^verbatim>\<open>NBUF\<close> turns, and the correctness theorems show that they
  are enough. The calls of the shell's parsing routines are bounded by four times the length of the text, which is shown to be
  enough. The walks of the heap's linked lists are partial functions, and the theorems on them state that they
  return. All other loops are recursions on the data.

  \<^bold>\<open>Not modelled.\<close> Assembly, boot code and \<^verbatim>\<open>main.c\<close>; interrupt entry and the interrupt controllers (\<^verbatim>\<open>trap.c\<close>,
  \<^verbatim>\<open>lapic.c\<close>, \<^verbatim>\<open>ioapic.c\<close>, \<^verbatim>\<open>mp.c\<close>, \<^verbatim>\<open>picirq.c\<close>), of which the steps of the other processes in the step relations are the
  trace; the drivers \<^verbatim>\<open>ide.c\<close>, \<^verbatim>\<open>console.c\<close>, \<^verbatim>\<open>kbd.c\<close>, \<^verbatim>\<open>uart.c\<close>, which are reached through the device switch, an argument of the
  definitions; segment registers and \<^verbatim>\<open>swtch\<close>; messages on the console; \<^verbatim>\<open>mkfs.c\<close>, the test programs, the user
  library, \<^verbatim>\<open>runcmd\<close> of the shell and the other user programs. A system call that sleeps has the outcome \<open>Blocked\<close>, and what happens when it goes
  on is modelled only for pipes, sleep locks and the process table.
\<close>

end
